(* ===== verification/Prelude.thy ===== *)
theory Prelude
  imports Main "HOL-Library.Word" "HOL-Library.Monad_Syntax"
begin

text \<open>
  Types, collections and library facts that the component theories share: machine integers
  at the widths of the C++ code, fixed-size byte arrays (\<open>std::array<unsigned char, N>\<close>) as
  byte lists with a length predicate, little-endian and big-endian images of integers, and
  generic facts on lists, options and sums of unsigned words.
\<close>

section \<open>Types\<close>

type_synonym byte = "8 word"
type_synonym u32 = "32 word"
type_synonym u64 = "64 word"

text \<open>
  \<open>hash_t\<close>, \<open>pubkey_t\<close> and \<open>privkey_t\<close> are arrays of 32 bytes and \<open>signature_t\<close> is an array
  of 64 bytes; \<open>witness_t\<close> is a byte vector of any length.
\<close>

type_synonym hash_t = "byte list"
type_synonym pubkey_t = "byte list"
type_synonym privkey_t = "byte list"
type_synonym signature_t = "byte list"
type_synonym witness_t = "byte list"

definition hash_size :: nat where "hash_size = 32"
definition pubkey_len :: nat where "pubkey_len = 32"
definition sig_len :: nat where "sig_len = 64"

text \<open>The well-formed values of \<open>std::array<unsigned char, n>\<close>.\<close>

definition is_array :: "nat \<Rightarrow> byte list \<Rightarrow> bool" where
  "is_array n bs \<longleftrightarrow> length bs = n"

abbreviation is_hash :: "hash_t \<Rightarrow> bool" where
  "is_hash h \<equiv> is_array hash_size h"

abbreviation is_pubkey :: "pubkey_t \<Rightarrow> bool" where
  "is_pubkey k \<equiv> is_array pubkey_len k"

abbreviation is_sig :: "signature_t \<Rightarrow> bool" where
  "is_sig s \<equiv> is_array sig_len s"

text \<open>Hashes for concrete examples: 32 times the same byte.\<close>

definition sample_hash :: "byte \<Rightarrow> hash_t" where
  "sample_hash b = replicate 32 b"

section \<open>Collections of facts\<close>

named_theorems size_defs \<open>the sizes of the fixed-size byte arrays\<close>
named_theorems codec_wf \<open>well-formedness predicates of the wire formats\<close>
named_theorems codec_defs \<open>wire formats of the data types\<close>
named_theorems step_simps \<open>equations of the state-machine operations\<close>

lemmas [size_defs] = hash_size_def pubkey_len_def sig_len_def is_array_def

lemma is_array_append [simp]:
  "is_array n (xs @ ys) \<longleftrightarrow> length xs \<le> n \<and> is_array (n - length xs) ys"
  by (auto simp: is_array_def)

lemma is_array_replicate [simp]: "is_array n (replicate m b) \<longleftrightarrow> m = n"
  by (simp add: is_array_def)

lemma sample_hash_simps [simp]:
  "sample_hash a = sample_hash b \<longleftrightarrow> a = b"
  "hd (sample_hash b) = b"
  "sample_hash b \<noteq> []"
  "is_hash (sample_hash b)"
  by (simp_all add: sample_hash_def size_defs)

section \<open>Byte images of integers\<close>

text \<open>
  \<open>le_bytes n v\<close> are the \<open>n\<close> low bytes of \<open>v\<close>, least significant first: what copying the
  object representation of an unsigned integer yields on the little-endian machines the
  system runs on. \<open>be_bytes\<close> is the opposite order.
\<close>

fun le_bytes :: "nat \<Rightarrow> nat \<Rightarrow> byte list" where
  "le_bytes 0 v = []"
| "le_bytes (Suc n) v = word_of_nat v # le_bytes n (v div 256)"

fun le_value :: "byte list \<Rightarrow> nat" where
  "le_value [] = 0"
| "le_value (b # bs) = unat b + 256 * le_value bs"

definition be_bytes :: "nat \<Rightarrow> nat \<Rightarrow> byte list" where
  "be_bytes n v = rev (le_bytes n v)"

definition be_value :: "byte list \<Rightarrow> nat" where
  "be_value bs = le_value (rev bs)"

lemma length_le_bytes [simp]: "length (le_bytes n v) = n"
  by (induction n arbitrary: v) auto

lemma length_be_bytes [simp]: "length (be_bytes n v) = n"
  by (simp add: be_bytes_def)

lemma unat_lt2p: "unat (w :: 'a::len word) < 2 ^ LENGTH('a)"
  by (rule unsigned_less)

lemma unat_of_nat_byte: "unat (word_of_nat v :: byte) = v mod 256"
  by (simp add: unat_of_nat)

lemma le_value_le_bytes: "le_value (le_bytes n v) = v mod 256 ^ n"
proof (induction n arbitrary: v)
  case 0
  show ?case by simp
next
  case (Suc n)
  have "le_value (le_bytes (Suc n) v) = v mod 256 + 256 * (v div 256 mod 256 ^ n)"
    by (simp add: Suc.IH unat_of_nat_byte)
  also have "\<dots> = v mod (256 * 256 ^ n)"
    by (simp add: mod_mult2_eq)
  finally show ?case by simp
qed

lemma le_value_bound: "le_value bs < 256 ^ length bs"
proof (induction bs)
  case Nil
  show ?case by simp
next
  case (Cons b bs)
  have "unat b < 256"
    using unat_lt2p [of b] by simp
  with Cons.IH have "unat b + 256 * le_value bs < 256 * 256 ^ length bs"
    by linarith
  then show ?case by simp
qed

lemma le_bytes_le_value: "le_bytes (length bs) (le_value bs) = bs"
proof (induction bs)
  case Nil
  show ?case by simp
next
  case (Cons b bs)
  have b: "unat b < 256"
    using unat_lt2p [of b] by simp
  then have "unat (word_of_nat (unat b + 256 * le_value bs) :: byte) = unat b"
    by (simp only: unat_of_nat_byte) simp
  then have "(word_of_nat (unat b + 256 * le_value bs) :: byte) = b"
    by (simp only: word_unat_eq_iff)
  moreover have "(unat b + 256 * le_value bs) div 256 = le_value bs"
    using b by simp
  ultimately show ?case by (simp add: Cons.IH)
qed

lemma le_bytes_mod: "le_bytes n (v mod 256 ^ n) = le_bytes n v"
  using le_bytes_le_value [of "le_bytes n v"] by (simp add: le_value_le_bytes)

lemma be_value_be_bytes: "be_value (be_bytes n v) = v mod 256 ^ n"
  by (simp add: be_value_def be_bytes_def le_value_le_bytes)

text \<open>Reading back the bytes of a 64-bit, 32-bit or 8-bit unsigned integer.\<close>

lemma le_u64: "word_of_nat (le_value (le_bytes 8 (unat w))) = (w :: u64)"
  using unat_lt2p [of w] by (simp add: le_value_le_bytes word_unat_eq_iff unat_of_nat)

lemma le_u32: "word_of_nat (le_value (le_bytes 4 (unat w))) = (w :: u32)"
  using unat_lt2p [of w] by (simp add: le_value_le_bytes word_unat_eq_iff unat_of_nat)

section \<open>Lists\<close>

lemma take_append_exact [simp]: "length xs = n \<Longrightarrow> take n (xs @ ys) = xs"
  by simp

lemma drop_append_exact [simp]: "length xs = n \<Longrightarrow> drop n (xs @ ys) = ys"
  by simp

lemma concat_replicate_nil: "concat (map (\<lambda>_. []) xs) = []"
  by (induction xs) auto

section \<open>Options\<close>

text \<open>Early return of the first error.\<close>

lemma first_Some_None [simp]:
  "(case x of None \<Rightarrow> y | Some e \<Rightarrow> Some e) = None \<longleftrightarrow> x = None \<and> y = None"
  by (cases x) auto

section \<open>Sums of unsigned words\<close>

text \<open>
  The guard \<open>a + b <= a\<close> of the value checks: for a non-zero summand it holds exactly when
  the 64-bit addition wraps around.
\<close>

lemma word_add_no_wrap:
  fixes a b :: "'a::len word"
  assumes "\<not> a + b \<le> a"
  shows "unat (a + b) = unat a + unat b" and "0 < unat b"
proof -
  have "a < a + b"
    using assms by simp
  then have lt: "unat a < unat (a + b)"
    by (simp add: word_less_nat_alt)
  have "unat a + unat b < 2 ^ LENGTH('a)"
  proof (rule ccontr)
    assume "\<not> ?thesis"
    moreover from this have "unat a + unat b - 2 ^ LENGTH('a) < 2 ^ LENGTH('a)"
      using unat_lt2p [of a] unat_lt2p [of b] by linarith
    ultimately have "unat (a + b) = unat a + unat b - 2 ^ LENGTH('a)"
      by (simp add: unat_word_ariths le_mod_geq)
    with lt unat_lt2p [of b] show False by linarith
  qed
  then show *: "unat (a + b) = unat a + unat b"
    by (simp add: unat_word_ariths)
  show "0 < unat b"
    using lt * by simp
qed

lemma word_add_wrap_iff:
  fixes a b :: "'a::len word"
  assumes "b \<noteq> 0"
  shows "a + b \<le> a \<longleftrightarrow> 2 ^ LENGTH('a) \<le> unat a + unat b"
proof
  assume w: "a + b \<le> a"
  show "2 ^ LENGTH('a) \<le> unat a + unat b"
  proof (rule ccontr)
    assume "\<not> ?thesis"
    then have "unat (a + b) = unat a + unat b"
      by (simp add: unat_word_ariths)
    with w have "unat a + unat b \<le> unat a"
      by (simp add: word_le_nat_alt)
    then show False
      using assms by (simp add: unat_eq_0)
  qed
next
  assume w: "2 ^ LENGTH('a) \<le> unat a + unat b"
  show "a + b \<le> a"
  proof (rule ccontr)
    assume "\<not> ?thesis"
    then have "unat (a + b) = unat a + unat b"
      by (rule word_add_no_wrap)
    with w unat_lt2p [of "a + b"] show False by simp
  qed
qed

end
