(* ===== verification/Sha256.thy ===== *)
theory Sha256
  imports Prelude
begin

unbundle bit_operations_syntax

text \<open>
  The SHA-256 code of \<open>3rdparty/crypto/sha256.cpp\<close>: the portable \<open>Transform\<close> with its
  in-place message schedule and its rotating register names, the streaming class \<open>CSHA256\<close>
  with its 64-byte buffer, and \<open>hash_data\<close> of \<open>util/common/hash.cpp\<close>. The lemmas show that
  the in-place rounds compute the FIPS 180-4 compression function and that any sequence of
  writes followed by \<open>Finalize\<close> is the FIPS 180-4 hash of the concatenated data, whatever
  the uninitialised buffer held. The reference shares no definition with the model of the code: its constants are
  computed from the roots of the first primes, and its padding is the solution of the congruence of the standard.
\<close>

section \<open>Model of the code\<close>

definition Ch :: "u32 \<Rightarrow> u32 \<Rightarrow> u32 \<Rightarrow> u32" where
  "Ch x y z = z XOR (x AND (y XOR z))"

definition Maj :: "u32 \<Rightarrow> u32 \<Rightarrow> u32 \<Rightarrow> u32" where
  "Maj x y z = (x AND y) OR (z AND (x OR y))"

definition Sigma0 :: "u32 \<Rightarrow> u32" where
  "Sigma0 x = (drop_bit 2 x OR push_bit 30 x) XOR (drop_bit 13 x OR push_bit 19 x)
     XOR (drop_bit 22 x OR push_bit 10 x)"

definition Sigma1 :: "u32 \<Rightarrow> u32" where
  "Sigma1 x = (drop_bit 6 x OR push_bit 26 x) XOR (drop_bit 11 x OR push_bit 21 x)
     XOR (drop_bit 25 x OR push_bit 7 x)"

definition sigma0 :: "u32 \<Rightarrow> u32" where
  "sigma0 x = (drop_bit 7 x OR push_bit 25 x) XOR (drop_bit 18 x OR push_bit 14 x)
     XOR drop_bit 3 x"

definition sigma1 :: "u32 \<Rightarrow> u32" where
  "sigma1 x = (drop_bit 17 x OR push_bit 15 x) XOR (drop_bit 19 x OR push_bit 13 x)
     XOR drop_bit 10 x"

text \<open>\<open>Round\<close> assigns to its reference parameters \<open>d\<close> and \<open>h\<close>: the pair of their new values.\<close>

definition Round ::
  "u32 \<Rightarrow> u32 \<Rightarrow> u32 \<Rightarrow> u32 \<Rightarrow> u32 \<Rightarrow> u32 \<Rightarrow> u32 \<Rightarrow> u32 \<Rightarrow> u32 \<Rightarrow> u32 \<times> u32" where
  "Round a b c d e f g h k =
    (let t1 = h + Sigma1 e + Ch e f g + k;
         t2 = Sigma0 a + Maj a b c
     in (d + t1, t1 + t2))"

definition Initialize :: "u32 list" where
  "Initialize = [0x6a09e667, 0xbb67ae85, 0x3c6ef372, 0xa54ff53a,
                 0x510e527f, 0x9b05688c, 0x1f83d9ab, 0x5be0cd19]"

text \<open>The 64 constants, in the order in which the calls of \<open>Round\<close> add them: one row for the eight
  calls after which the argument names are back in their first order.\<close>

definition K :: "u32 list" where
  "K = [0x428a2f98, 0x71374491, 0xb5c0fbcf, 0xe9b5dba5, 0x3956c25b, 0x59f111f1, 0x923f82a4, 0xab1c5ed5] @
       [0xd807aa98, 0x12835b01, 0x243185be, 0x550c7dc3, 0x72be5d74, 0x80deb1fe, 0x9bdc06a7, 0xc19bf174] @
       [0xe49b69c1, 0xefbe4786, 0x0fc19dc6, 0x240ca1cc, 0x2de92c6f, 0x4a7484aa, 0x5cb0a9dc, 0x76f988da] @
       [0x983e5152, 0xa831c66d, 0xb00327c8, 0xbf597fc7, 0xc6e00bf3, 0xd5a79147, 0x06ca6351, 0x14292967] @
       [0x27b70a85, 0x2e1b2138, 0x4d2c6dfc, 0x53380d13, 0x650a7354, 0x766a0abb, 0x81c2c92e, 0x92722c85] @
       [0xa2bfe8a1, 0xa81a664b, 0xc24b8b70, 0xc76c51a3, 0xd192e819, 0xd6990624, 0xf40e3585, 0x106aa070] @
       [0x19a4c116, 0x1e376c08, 0x2748774c, 0x34b0bcb5, 0x391c0cb3, 0x4ed8aa4a, 0x5b9cca4f, 0x682e6ff3] @
       [0x748f82ee, 0x78a5636f, 0x84c87814, 0x8cc70208, 0x90befffa, 0xa4506ceb, 0xbef9a3f7, 0xc67178f2]"

definition ReadBE32 :: "byte list \<Rightarrow> u32" where
  "ReadBE32 ptr = word_of_nat (be_value (take 4 ptr))"

definition WriteBE32 :: "u32 \<Rightarrow> byte list" where
  "WriteBE32 x = be_bytes 4 (unat x)"

definition WriteBE64 :: "u64 \<Rightarrow> byte list" where
  "WriteBE64 x = be_bytes 8 (unat x)"

text \<open>
  The \<open>t\<close>-th call of \<open>Round\<close> in \<open>Transform\<close>. The call passes the variables \<open>a\<close> to \<open>h\<close>
  rotated by \<open>t\<close> places: \<open>reg t i\<close> is the index of the variable in argument position \<open>i\<close>.
\<close>

definition reg :: "nat \<Rightarrow> nat \<Rightarrow> nat" where
  "reg t i = (i + 64 - t) mod 8"

definition Round_call :: "nat \<Rightarrow> u32 list \<Rightarrow> u32 \<Rightarrow> u32 list" where
  "Round_call t r k =
    (let (d, h) = Round (r ! reg t 0) (r ! reg t 1) (r ! reg t 2) (r ! reg t 3)
                        (r ! reg t 4) (r ! reg t 5) (r ! reg t 6) (r ! reg t 7) k
     in r[reg t 3 := d, reg t 7 := h])"

text \<open>From the 17th call on, the schedule word is first updated in place (\<open>w0 += ...\<close>).\<close>

definition schedule :: "nat \<Rightarrow> u32 list \<Rightarrow> u32 list" where
  "schedule t w =
    (if t < 16 then w
     else w[t mod 16 := w ! (t mod 16) +
       (sigma1 (w ! ((t - 2) mod 16)) + w ! ((t - 7) mod 16) + sigma0 (w ! ((t - 15) mod 16)))])"

fun rounds :: "nat \<Rightarrow> u32 list \<Rightarrow> u32 list \<Rightarrow> u32 list \<times> u32 list" where
  "rounds 0 r w = (r, w)"
| "rounds (Suc t) r w =
    (let (r', w') = rounds t r w;
         w'' = schedule t w'
     in (Round_call t r' (K ! t + w'' ! (t mod 16)), w''))"

definition load_words :: "byte list \<Rightarrow> u32 list" where
  "load_words chunk = map (\<lambda>i. ReadBE32 (drop (4 * i) chunk)) [0..<16]"

definition Transform_block :: "u32 list \<Rightarrow> byte list \<Rightarrow> u32 list" where
  "Transform_block s chunk = map2 (+) s (fst (rounds 64 s (load_words chunk)))"

fun Transform :: "u32 list \<Rightarrow> byte list \<Rightarrow> nat \<Rightarrow> u32 list" where
  "Transform s chunk 0 = s"
| "Transform s chunk (Suc blocks) = Transform (Transform_block s chunk) (drop 64 chunk) blocks"

record csha256 =
  sha_s :: "u32 list"
  sha_buf :: "byte list"
  sha_bytes :: u64

text \<open>The constructor leaves \<open>buf\<close> uninitialised: its contents are an argument.\<close>

definition CSHA256 :: "byte list \<Rightarrow> csha256" where
  "CSHA256 garbage = \<lparr>sha_s = Initialize, sha_buf = garbage, sha_bytes = 0\<rparr>"

definition memcpy :: "byte list \<Rightarrow> nat \<Rightarrow> byte list \<Rightarrow> byte list" where
  "memcpy buf off src = take off buf @ src @ drop (off + length src) buf"

text \<open>The three conditional statements of \<open>Write\<close>, in order.\<close>

definition Write_fill :: "csha256 \<Rightarrow> byte list \<Rightarrow> csha256 \<times> byte list \<times> nat" where
  "Write_fill st data =
    (let bufsize = unat (sha_bytes st) mod 64 in
     if bufsize \<noteq> 0 \<and> bufsize + length data \<ge> 64
     then let buf = memcpy (sha_buf st) bufsize (take (64 - bufsize) data)
          in (st\<lparr>sha_buf := buf, sha_bytes := sha_bytes st + word_of_nat (64 - bufsize),
                 sha_s := Transform (sha_s st) buf 1\<rparr>, drop (64 - bufsize) data, 0)
     else (st, data, bufsize))"

definition Write_blocks :: "csha256 \<Rightarrow> byte list \<Rightarrow> csha256 \<times> byte list" where
  "Write_blocks st data =
    (if length data \<ge> 64
     then let blocks = length data div 64
          in (st\<lparr>sha_s := Transform (sha_s st) data blocks,
                 sha_bytes := sha_bytes st + word_of_nat (64 * blocks)\<rparr>, drop (64 * blocks) data)
     else (st, data))"

definition Write_rest :: "csha256 \<Rightarrow> nat \<Rightarrow> byte list \<Rightarrow> csha256" where
  "Write_rest st bufsize data =
    (if data \<noteq> []
     then st\<lparr>sha_buf := memcpy (sha_buf st) bufsize data,
             sha_bytes := sha_bytes st + word_of_nat (length data)\<rparr>
     else st)"

definition Write :: "csha256 \<Rightarrow> byte list \<Rightarrow> csha256" where
  "Write st data =
    (let (st1, data1, bufsize) = Write_fill st data;
         (st2, data2) = Write_blocks st1 data1
     in Write_rest st2 bufsize data2)"

definition Finalize :: "csha256 \<Rightarrow> hash_t" where
  "Finalize st =
    (let pad = 0x80 # replicate 63 0;
         sizedesc = WriteBE64 (push_bit 3 (sha_bytes st));
         st1 = Write st (take (1 + (119 - unat (sha_bytes st) mod 64) mod 64) pad);
         st2 = Write st1 sizedesc
     in concat (map WriteBE32 (sha_s st2)))"

definition Reset :: "csha256 \<Rightarrow> csha256" where
  "Reset st = st\<lparr>sha_bytes := 0, sha_s := Initialize\<rparr>"

definition hash_data :: "byte list \<Rightarrow> hash_t" where
  "hash_data data = Finalize (Write (CSHA256 (replicate 64 0)) data)"

section \<open>FIPS 180-4 reference\<close>

text \<open>
  The standard's own formulation, sharing nothing with the model of the code: the logical
  functions of section 4.1.2 by rotations, the constants of sections 4.2.2 and 5.3.3 by their
  definition (the first 32 bits of the fractional parts of the cube roots of the first 64
  primes and of the square roots of the first eight), the padding of section 5.1.1 as the
  smallest solution of its congruence, the parsing into words of section 5.2.1, and the
  schedule and the rounds of section 6.2.2, where the schedule is indexed by the round and the
  eight working variables shift.
\<close>

definition fips_Ch :: "u32 \<Rightarrow> u32 \<Rightarrow> u32 \<Rightarrow> u32" where
  "fips_Ch x y z = (x AND y) XOR (NOT x AND z)"

definition fips_Maj :: "u32 \<Rightarrow> u32 \<Rightarrow> u32 \<Rightarrow> u32" where
  "fips_Maj x y z = (x AND y) XOR (x AND z) XOR (y AND z)"

text \<open>A function of three rotations, and one of two rotations and a shift.\<close>

definition fips_Sigma :: "nat \<Rightarrow> nat \<Rightarrow> nat \<Rightarrow> u32 \<Rightarrow> u32" where
  "fips_Sigma i j k x = word_rotr i x XOR word_rotr j x XOR word_rotr k x"

definition fips_sigma :: "nat \<Rightarrow> nat \<Rightarrow> nat \<Rightarrow> u32 \<Rightarrow> u32" where
  "fips_sigma i j k x = word_rotr i x XOR word_rotr j x XOR drop_bit k x"

text \<open>The integer \<open>n\<close>-th root, bit by bit from bit \<open>b - 1\<close> down.\<close>

fun int_root :: "nat \<Rightarrow> int \<Rightarrow> nat \<Rightarrow> int \<Rightarrow> int" where
  "int_root n x 0 r = r"
| "int_root n x (Suc b) r = int_root n x b (if (r + 2 ^ b) ^ n \<le> x then r + 2 ^ b else r)"

text \<open>The 64 primes up to 311: a number below $18^2$ is prime when nothing else up to 17 divides it.\<close>

definition fips_primes :: "int list" where
  "fips_primes = filter (\<lambda>p. \<forall>d \<in> set [2..17]. p = d \<or> p mod d \<noteq> 0) [2..311]"

text \<open>The first 32 bits of the fractional part of $\sqrt[n]{p}$: the root of $2^{32 n} p$, modulo
  $2^{32}$; the roots of the primes up to 311 are below $2^5$.\<close>

definition root_bits :: "nat \<Rightarrow> int \<Rightarrow> u32" where
  "root_bits n p = word_of_int (int_root n (2 ^ (32 * n) * p) 37 0)"

definition fips_K :: "u32 list" where
  "fips_K = map (root_bits 3) fips_primes"

definition fips_H0 :: "u32 list" where
  "fips_H0 = map (root_bits 2) (take 8 fips_primes)"

fun fips_W :: "u32 list \<Rightarrow> nat \<Rightarrow> u32" where
  "fips_W M t = (if t < 16 then M ! t
     else fips_sigma 17 19 10 (fips_W M (t - 2)) + fips_W M (t - 7)
       + fips_sigma 7 18 3 (fips_W M (t - 15)) + fips_W M (t - 16))"

declare fips_W.simps [simp del]

definition fips_step :: "u32 \<Rightarrow> u32 list \<Rightarrow> u32 list" where
  "fips_step kw v =
    (let T1 = v ! 7 + fips_Sigma 6 11 25 (v ! 4) + fips_Ch (v ! 4) (v ! 5) (v ! 6) + kw;
         T2 = fips_Sigma 2 13 22 (v ! 0) + fips_Maj (v ! 0) (v ! 1) (v ! 2)
     in [T1 + T2, v ! 0, v ! 1, v ! 2, v ! 3 + T1, v ! 4, v ! 5, v ! 6])"

fun fips_rounds :: "u32 list \<Rightarrow> nat \<Rightarrow> u32 list \<Rightarrow> u32 list" where
  "fips_rounds M 0 v = v"
| "fips_rounds M (Suc t) v = fips_step (fips_K ! t + fips_W M t) (fips_rounds M t v)"

definition fips_parse :: "byte list \<Rightarrow> u32 list" where
  "fips_parse block = map (\<lambda>i. word_rcat (map (\<lambda>j. block ! (4 * i + j)) [0..<4])) [0..<16]"

definition fips_compress :: "u32 list \<Rightarrow> byte list \<Rightarrow> u32 list" where
  "fips_compress H block = map2 (+) H (fips_rounds (fips_parse block) 64 H)"

fun fips_blocks :: "u32 list \<Rightarrow> byte list \<Rightarrow> nat \<Rightarrow> u32 list" where
  "fips_blocks H m 0 = H"
| "fips_blocks H m (Suc n) = fips_blocks (fips_compress H (take 64 m)) (drop 64 m) n"

text \<open>The \<open>n\<close> bytes of a word, the most significant first.\<close>

definition word_bytes :: "nat \<Rightarrow> 'a::len word \<Rightarrow> byte list" where
  "word_bytes n x = map (\<lambda>i. ucast (drop_bit (8 * i) x)) (rev [0..<n])"

definition fips_pad :: "byte list \<Rightarrow> byte list" where
  "fips_pad m = m @ [0x80]
     @ replicate (hd (filter (\<lambda>k. (length m + 1 + k) mod 64 = 56) [0..<64])) 0
     @ word_bytes 8 (word_of_nat (8 * length m) :: u64)"

definition sha256 :: "byte list \<Rightarrow> byte list" where
  "sha256 m = concat (map (word_bytes 4)
     (fips_blocks fips_H0 (fips_pad m) (length (fips_pad m) div 64)))"

section \<open>The code's functions and constants are those of the standard\<close>

lemma Ch_fips: "Ch x y z = fips_Ch x y z"
  unfolding Ch_def fips_Ch_def
  by (rule bit_eqI) (auto simp: bit_simps)

lemma Maj_fips: "Maj x y z = fips_Maj x y z"
  unfolding Maj_def fips_Maj_def
  by (rule bit_eqI) (auto simp: bit_simps)

lemma rotr_shifts:
  fixes x :: u32
  assumes "0 < n" "n < 32" "m = 32 - n"
  shows "word_rotr n x = drop_bit n x OR push_bit m x"
proof (rule bit_word_eqI)
  fix i assume i: "i < LENGTH(32)"
  show "bit (word_rotr n x) i \<longleftrightarrow> bit (drop_bit n x OR push_bit m x) i"
  proof (cases "i + n < 32")
    case True
    then show ?thesis
      using assms i by (auto simp: bit_simps add.commute)
  next
    case False
    then have "(i + n) mod 32 = i + n - 32"
      using assms i by (simp add: mod_if)
    moreover have "\<not> bit x (n + i)"
      using False by (intro impossible_bit) simp
    ultimately show ?thesis
      using False assms i by (auto simp: bit_simps)
  qed
qed

lemma Sigma_fips:
  "Sigma0 x = fips_Sigma 2 13 22 x" "Sigma1 x = fips_Sigma 6 11 25 x"
  "sigma0 x = fips_sigma 7 18 3 x" "sigma1 x = fips_sigma 17 19 10 x"
  by (simp_all add: Sigma0_def Sigma1_def sigma0_def sigma1_def fips_Sigma_def fips_sigma_def
      rotr_shifts)

text \<open>\<open>int_root\<close> is the integer root, which its two bounding powers determine.\<close>

lemma int_root_bounds:
  assumes "0 \<le> r" "r ^ n \<le> x" "x < (r + 2 ^ b) ^ n"
  shows "0 \<le> int_root n x b r \<and> int_root n x b r ^ n \<le> x \<and> x < (int_root n x b r + 1) ^ n"
  using assms
proof (induction b arbitrary: r)
  case (Suc b)
  then show ?case
    using Suc.IH [of "r + 2 ^ b"] Suc.IH [of r] by (simp add: algebra_simps)
qed simp

lemma root_between:
  fixes r q :: int
  assumes "r ^ n \<le> x" "x < (q + 1) ^ n" "0 \<le> q"
  shows "r \<le> q"
proof (rule ccontr)
  assume "\<not> r \<le> q"
  then have "(q + 1) ^ n \<le> r ^ n"
    using assms(3) by (intro power_mono) auto
  then show False
    using assms by linarith
qed

lemma int_root_eqI:
  assumes "0 < n" "0 \<le> r" "r ^ n \<le> x" "x < (r + 1) ^ n" "x < (2 ^ b) ^ n"
  shows "int_root n x b 0 = r"
proof -
  have "0 \<le> x"
    using assms(2,3) by (meson order_trans zero_le_power)
  then have "0 \<le> int_root n x b 0 \<and> int_root n x b 0 ^ n \<le> x \<and> x < (int_root n x b 0 + 1) ^ n"
    using assms(1,5) by (intro int_root_bounds) (simp_all add: zero_power)
  then show ?thesis
    using assms root_between by (metis order_antisym)
qed

text \<open>A table of roots is checked by the two powers of each entry.\<close>

fun roots_ok :: "nat \<Rightarrow> int list \<Rightarrow> int list \<Rightarrow> bool" where
  "roots_ok n (p # ps) (r # rs) \<longleftrightarrow> 0 \<le> r \<and> r ^ n \<le> 2 ^ (32 * n) * p \<and> 2 ^ (32 * n) * p < (r + 1) ^ n \<and>
     2 ^ (32 * n) * p < (2 ^ 37) ^ n \<and> roots_ok n ps rs"
| "roots_ok n ps rs \<longleftrightarrow> ps = [] \<and> rs = []"

lemma root_bits_table:
  "0 < n \<Longrightarrow> roots_ok n ps rs \<Longrightarrow> map (root_bits n) ps = map word_of_int rs"
proof (induction n ps rs rule: roots_ok.induct)
  case (1 n p ps r rs)
  then have "int_root n (2 ^ (32 * n) * p) 37 0 = r"
    by (intro int_root_eqI) simp_all
  with 1 show ?case
    by (simp add: root_bits_def)
qed simp_all

lemma map_word_of_int_add:
  "length is = length ws \<Longrightarrow>
     map word_of_int (map2 (\<lambda>w i. uint w + 2 ^ 32 * i) ws is) = (ws :: u32 list)"
proof (induction "is" ws rule: list_induct2)
  case (Cons i "is" w ws)
  have "(word_of_int (uint w + 2 ^ 32 * i) :: u32) = word_of_int ((uint w + 2 ^ 32 * i) mod 2 ^ 32)"
    by (simp only: word_of_int_eq_iff take_bit_eq_mod) simp
  also have "\<dots> = w"
    using unsigned_less [of w, where 'a = int] by simp
  finally show ?case
    using Cons.IH by simp
qed simp

lemma fips_primes_eq:
  "fips_primes = [2, 3, 5, 7, 11, 13, 17, 19, 23, 29, 31, 37, 41, 43, 47, 53, 59, 61, 67, 71,
     73, 79, 83, 89, 97, 101, 103, 107, 109, 113, 127, 131, 137, 139, 149, 151,
     157, 163, 167, 173, 179, 181, 191, 193, 197, 199, 211, 223, 227, 229, 233,
     239, 241, 251, 257, 263, 269, 271, 277, 281, 283, 293, 307, 311]"
  by code_simp

text \<open>The integer parts of the cube roots are 1 to 6, those of the square roots 1 to 4.\<close>

lemma K_fips: "K = fips_K"
proof -
  let ?is = "replicate 4 1 @ replicate 5 2 @ replicate 9 3 @ replicate 12 4 @ replicate 17 5 @ replicate 17 6"
  have "roots_ok 3 fips_primes (map2 (\<lambda>w i. uint w + 2 ^ 32 * i) K ?is)"
    unfolding fips_primes_eq by code_simp
  then have "fips_K = map word_of_int (map2 (\<lambda>w i. uint w + 2 ^ 32 * i) K ?is)"
    unfolding fips_K_def by (intro root_bits_table) simp_all
  also have "\<dots> = K"
    by (rule map_word_of_int_add) (simp add: K_def)
  finally show ?thesis ..
qed

lemma Initialize_fips: "Initialize = fips_H0"
proof -
  let ?is = "[1, 1, 2, 2, 3, 3, 4, 4]"
  have "roots_ok 2 (take 8 fips_primes) (map2 (\<lambda>w i. uint w + 2 ^ 32 * i) Initialize ?is)"
    unfolding fips_primes_eq by code_simp
  then have "fips_H0 = map word_of_int (map2 (\<lambda>w i. uint w + 2 ^ 32 * i) Initialize ?is)"
    unfolding fips_H0_def by (intro root_bits_table) simp_all
  also have "\<dots> = Initialize"
    by (rule map_word_of_int_add) (simp add: Initialize_def)
  finally show ?thesis ..
qed

lemmas code_fips = Ch_fips Maj_fips Sigma_fips K_fips Initialize_fips

text \<open>Reading a word, writing its bytes, and the padding length.\<close>

lemma ReadBE32_rcat:
  assumes "length bs = 4"
  shows "ReadBE32 bs = word_rcat bs"
proof -
  have "int (le_value cs) = horner_sum uint 256 cs" for cs
    by (induction cs) simp_all
  then have "(word_of_nat (le_value cs) :: u32) = word_of_int (horner_sum uint 256 cs)" for cs
    by (metis of_int_of_nat_eq)
  then show ?thesis
    using assms by (simp add: ReadBE32_def word_rcat_def be_value_def)
qed

lemma le_bytes_word:
  fixes x :: "'a::len word"
  shows "le_bytes n (unat (drop_bit k x)) = map (\<lambda>i. ucast (drop_bit (k + 8 * i) x)) [0..<n]"
proof (induction n arbitrary: k)
  case (Suc n)
  have "unat (drop_bit k x) div 256 = unat (drop_bit (k + 8) x)"
    by (simp only: unat_drop_bit_eq) (simp add: drop_bit_eq_div div_mult2_eq power_add)
  then show ?case
    using Suc.IH [of "k + 8"] by (simp add: map_upt_Suc add.assoc del: upt_Suc)
qed simp

lemma be_bytes_word: "be_bytes n (unat x) = word_bytes n x"
  using le_bytes_word [of n 0 x] by (simp add: be_bytes_def word_bytes_def rev_map)

lemma WriteBE32_bytes: "WriteBE32 = word_bytes 4"
  by (simp add: fun_eq_iff WriteBE32_def be_bytes_word)

lemma load_words_fips:
  assumes "64 \<le> length c"
  shows "load_words c = fips_parse (take 64 c)"
proof -
  have "ReadBE32 (drop (4 * i) c) = word_rcat (map (\<lambda>j. take 64 c ! (4 * i + j)) [0..<4])"
    if "i < 16" for i
  proof -
    have "map (\<lambda>j. take 64 c ! (4 * i + j)) [0..<4] = take 4 (drop (4 * i) c)"
      using assms that by (intro nth_equalityI) simp_all
    moreover have "ReadBE32 (drop (4 * i) c) = ReadBE32 (take 4 (drop (4 * i) c))"
      by (simp add: ReadBE32_def)
    ultimately show ?thesis
      using assms that by (simp add: ReadBE32_rcat)
  qed
  then show ?thesis
    by (simp add: load_words_def fips_parse_def)
qed

lemma pad_zeros: "hd (filter (\<lambda>k. (n + 1 + k) mod 64 = 56) [0..<64]) = (119 - n mod 64) mod 64"
proof -
  let ?z = "(119 - n mod 64) mod 64"
  have "(n + 1 + k) mod 64 = 56 \<longleftrightarrow> k = ?z" if "k < 64" for k
  proof -
    define r where "r = n mod 64"
    have "r < 64"
      by (simp add: r_def)
    have "(n + 1 + k) mod 64 = (r + 1 + k) mod 64"
      unfolding r_def add.assoc by (rule mod_add_left_eq [symmetric])
    moreover have "(r + 1 + k) mod 64 = 56 \<longleftrightarrow> k = (119 - r) mod 64"
      using \<open>r < 64\<close> that by (auto simp: mod_if split: if_splits)
    ultimately show ?thesis
      by (simp only: r_def)
  qed
  then have "filter (\<lambda>k. (n + 1 + k) mod 64 = 56) [0..<64] = filter (\<lambda>k. k = ?z) [0..<64]"
    by (intro filter_cong) auto
  moreover have "?z \<in> set [0..<64]"
    by simp
  then have "\<exists>k \<in> set (filter (\<lambda>k. k = ?z) [0..<64]). k = ?z"
    by simp
  then have "filter (\<lambda>k. k = ?z) [0..<64] \<noteq> []"
    by (metis empty_iff empty_set)
  then have "hd (filter (\<lambda>k. k = ?z) [0..<64]) = ?z"
    using hd_in_set by fastforce
  ultimately show ?thesis
    by simp
qed

section \<open>The in-place rounds compute the FIPS compression function\<close>

lemma length_fips_step [simp]: "length (fips_step k v) = 8"
  by (simp add: fips_step_def Let_def)

lemma length_fips_rounds [simp]: "length v = 8 \<Longrightarrow> length (fips_rounds M t v) = 8"
  by (cases t) auto

lemma length_Round_call [simp]: "length (Round_call t r k) = length r"
  by (simp add: Round_call_def split: prod.splits)

lemma length_schedule [simp]: "length (schedule t w) = length w"
  by (simp add: schedule_def)

lemma length_load_words [simp]: "length (load_words c) = 16"
  by (simp add: load_words_def)

text \<open>The variable in argument position \<open>i\<close> of call \<open>t\<close> holds the FIPS variable \<open>i\<close>.\<close>

definition regs_agree :: "nat \<Rightarrow> u32 list \<Rightarrow> u32 list \<Rightarrow> bool" where
  "regs_agree t r v \<longleftrightarrow> length r = 8 \<and> length v = 8 \<and> (\<forall>i<8. r ! reg t i = v ! i)"

text \<open>The schedule array holds the 16 most recent schedule words.\<close>

definition words_agree :: "nat \<Rightarrow> u32 list \<Rightarrow> u32 list \<Rightarrow> bool" where
  "words_agree t M w \<longleftrightarrow> length w = 16 \<and>
     (\<forall>u < max t 16. max t 16 \<le> u + 16 \<longrightarrow> w ! (u mod 16) = fips_W M u)"

lemma reg_shift:
  assumes "t < 64" "i < 7"
  shows "reg (Suc t) (Suc i) = reg t i"
  using assms by (simp add: reg_def add.commute)

lemma reg_wrap:
  assumes "t < 64"
  shows "reg (Suc t) 0 = reg t 7"
proof -
  have "7 + 64 - t = (64 - Suc t) + 8"
    using assms by simp
  then have "reg t 7 = ((64 - Suc t) + 8) mod 8"
    by (simp only: reg_def)
  also have "\<dots> = (64 - Suc t) mod 8"
    by (rule mod_add_self2)
  finally show ?thesis
    by (simp add: reg_def)
qed

lemma reg_id:
  assumes "i < 8"
  shows "reg 0 i = i" and "reg 64 i = i"
proof -
  have "(i + 8 * 8) mod 8 = i mod 8" by (rule mod_mult_self2)
  then show "reg 0 i = i"
    using assms by (simp add: reg_def)
  show "reg 64 i = i"
    using assms by (simp add: reg_def)
qed

lemma reg_less [simp]: "reg t i < 8"
  by (simp add: reg_def)

lemma mod_neq_close:
  fixes t u n :: nat
  assumes "u < t" "t < u + n"
  shows "t mod n \<noteq> u mod n"
proof
  assume "t mod n = u mod n"
  then have "n dvd t - u"
    using assms(1) by (simp add: mod_eq_dvd_iff_nat)
  then have "n \<le> t - u"
    using assms(1) by (simp add: dvd_imp_le)
  then show False
    using assms by simp
qed

lemma reg_inj:
  assumes "t \<le> 64" "i < 8" "j < 8"
  shows "reg t i = reg t j \<longleftrightarrow> i = j"
proof -
  have "reg t i \<noteq> reg t j" if "i < j" "j < 8" for i j
    unfolding reg_def using that assms(1) by (intro mod_neq_close [symmetric]) simp_all
  then show ?thesis
    using assms(2,3) by (metis linorder_neqE_nat)
qed

lemma Round_call_nth:
  assumes "t < 64" "regs_agree t r v" "j < 8"
  shows "Round_call t r k ! reg t j =
    (if j = 7 then fips_step k v ! 0 else if j = 3 then fips_step k v ! 4 else v ! j)"
proof -
  have r: "length r = 8" and eq: "\<And>i. i < 8 \<Longrightarrow> r ! reg t i = v ! i"
    using assms(2) by (auto simp: regs_agree_def)
  have "reg t 7 = reg t j \<longleftrightarrow> 7 = j" "reg t 3 = reg t j \<longleftrightarrow> 3 = j"
    using assms by (simp_all only: reg_inj)
  then show ?thesis
    using assms(3)
    by (auto simp: Round_call_def Round_def Let_def eq r nth_list_update fips_step_def code_fips)
qed

lemma regs_agree_step:
  assumes "t < 64" "regs_agree t r v"
  shows "regs_agree (Suc t) (Round_call t r k) (fips_step k v)"
proof -
  have "Round_call t r k ! reg (Suc t) i = fips_step k v ! i" if i: "i < 8" for i
  proof (cases i)
    case 0
    then show ?thesis
      using assms by (simp add: reg_wrap Round_call_nth)
  next
    case (Suc j)
    then have j: "j < 7" using i by simp
    then consider "j = 0" | "j = 1" | "j = 2" | "j = 3" | "j = 4" | "j = 5" | "j = 6"
      by linarith
    then have "(if j = 3 then fips_step k v ! 4 else v ! j) = fips_step k v ! Suc j"
      by cases (simp_all add: fips_step_def Let_def)
    then show ?thesis
      using assms j Suc by (simp add: reg_shift Round_call_nth)
  qed
  then show ?thesis
    using assms(2) by (simp add: regs_agree_def)
qed

lemma words_agree_init: "length M = 16 \<Longrightarrow> words_agree 0 M M"
  by (simp add: words_agree_def fips_W.simps)

lemma words_agree_step:
  assumes "words_agree t M w"
  shows "words_agree (Suc t) M (schedule t w)" and "schedule t w ! (t mod 16) = fips_W M t"
proof -
  have w: "length w = 16"
    and eq: "\<And>u. u < max t 16 \<Longrightarrow> max t 16 \<le> u + 16 \<Longrightarrow> w ! (u mod 16) = fips_W M u"
    using assms by (auto simp: words_agree_def)
  have upd: "schedule t w ! (t mod 16) = fips_W M t"
  proof (cases "t < 16")
    case True
    then show ?thesis
      using eq [of t] by (simp add: schedule_def)
  next
    case False
    then have "w ! (t mod 16) = fips_W M (t - 16)"
      using eq [of "t - 16"] by (simp add: le_mod_geq)
    with False show ?thesis
      using eq [of "t - 2"] eq [of "t - 7"] eq [of "t - 15"]
      by (simp add: schedule_def w fips_W.simps [of M t] code_fips)
  qed
  have "schedule t w ! (u mod 16) = fips_W M u"
    if u: "u < max (Suc t) 16" "max (Suc t) 16 \<le> u + 16" for u
  proof (cases "u = t")
    case True
    then show ?thesis using upd by simp
  next
    case False
    have "w ! (u mod 16) = fips_W M u"
      using u False by (intro eq) auto
    moreover have "t mod 16 \<noteq> u mod 16" if "\<not> t < 16"
      using u False that by (intro mod_neq_close) auto
    ultimately show ?thesis
      by (simp add: schedule_def)
  qed
  then show "words_agree (Suc t) M (schedule t w)"
    by (simp add: words_agree_def w)
  show "schedule t w ! (t mod 16) = fips_W M t"
    by (rule upd)
qed

lemma rounds_agree:
  assumes "t \<le> 64" "length r = 8" "length M = 16"
  shows "regs_agree t (fst (rounds t r M)) (fips_rounds M t r) \<and> words_agree t M (snd (rounds t r M))"
  using assms(1)
proof (induction t)
  case 0
  then show ?case
    using assms words_agree_init by (simp add: regs_agree_def reg_id)
next
  case (Suc t)
  then show ?case
    using words_agree_step [of t M "snd (rounds t r M)"]
    by (simp add: Let_def case_prod_unfold regs_agree_step K_fips)
qed

text \<open>The variables are back in their places after 64 calls.\<close>

lemma rounds_fips:
  assumes "length r = 8" "length M = 16"
  shows "fst (rounds 64 r M) = fips_rounds M 64 r"
proof (rule nth_equalityI)
  have "regs_agree 64 (fst (rounds 64 r M)) (fips_rounds M 64 r)"
    using rounds_agree [OF _ assms, of 64] by simp
  then show "length (fst (rounds 64 r M)) = length (fips_rounds M 64 r)"
    and "\<And>i. i < length (fst (rounds 64 r M)) \<Longrightarrow> fst (rounds 64 r M) ! i = fips_rounds M 64 r ! i"
    by (auto simp: regs_agree_def reg_id)
qed

lemma length_Transform_block [simp]: "length s = 8 \<Longrightarrow> length (Transform_block s c) = 8"
  by (simp add: Transform_block_def rounds_fips)

lemma load_words_take: "load_words (take 64 c) = load_words c"
  by (simp add: load_words_def ReadBE32_def drop_take min_def)

lemma Transform_block_fips:
  "length s = 8 \<Longrightarrow> 64 \<le> length c \<Longrightarrow> Transform_block s c = fips_compress s (take 64 c)"
  by (simp add: Transform_block_def fips_compress_def rounds_fips flip: load_words_fips)

lemma length_Transform [simp]: "length s = 8 \<Longrightarrow> length (Transform s c n) = 8"
  by (induction n arbitrary: s c) auto

lemma Transform_fips:
  "length s = 8 \<Longrightarrow> 64 * n \<le> length c \<Longrightarrow> Transform s c n = fips_blocks s c n"
  by (induction n arbitrary: s c) (auto simp flip: Transform_block_fips)

section \<open>Streaming\<close>

text \<open>
  \<open>sha_repr st m\<close>: the object has been fed exactly the bytes \<open>m\<close>. The chaining value covers
  the full blocks, the buffer starts with the rest, and \<open>bytes\<close> is the length modulo $2^{64}$.
\<close>

definition sha_repr :: "csha256 \<Rightarrow> byte list \<Rightarrow> bool" where
  "sha_repr st m \<longleftrightarrow>
     sha_s st = Transform Initialize m (length m div 64) \<and>
     length (sha_buf st) = 64 \<and>
     sha_bytes st = word_of_nat (length m) \<and>
     take (length m mod 64) (sha_buf st) = drop (64 * (length m div 64)) m"

lemma Transform_block_cong: "take 64 c = take 64 c' \<Longrightarrow> Transform_block s c = Transform_block s c'"
  by (metis Transform_block_def load_words_take)

lemma Transform_append: "64 * n \<le> length xs \<Longrightarrow> Transform s (xs @ ys) n = Transform s xs n"
proof (induction n arbitrary: s xs)
  case (Suc n)
  have "Transform_block s (xs @ ys) = Transform_block s xs"
    using Suc.prems by (intro Transform_block_cong) simp
  then show ?case
    using Suc by simp
qed simp

lemma Transform_add: "Transform s xs (m + n) = Transform (Transform s xs m) (drop (64 * m) xs) n"
  by (induction m arbitrary: s xs) (simp_all add: add.commute)

lemma Transform_extend:
  assumes "64 * n \<le> length xs"
  shows "Transform s (xs @ ys) (n + k) = Transform (Transform s xs n) (drop (64 * n) xs @ ys) k"
  using assms by (simp add: Transform_add Transform_append)

lemma sha_bytes_mod:
  assumes "sha_repr st m"
  shows "unat (sha_bytes st) mod 64 = length m mod 64"
proof -
  have "unat (sha_bytes st) = length m mod 2 ^ 64"
    using assms by (simp add: sha_repr_def unat_of_nat)
  moreover have "length m mod 2 ^ 64 mod 64 = length m mod 64"
    by (rule mod_mod_cancel) simp
  ultimately show ?thesis by simp
qed

lemma div_mod_small:
  fixes a b n :: nat
  assumes "a mod n + b < n"
  shows "(a + b) div n = a div n" and "(a + b) mod n = a mod n + b"
proof -
  have eq: "a + b = (a mod n + b) + n * (a div n)"
    by simp
  show "(a + b) div n = a div n"
    using assms by (subst eq) (simp only: div_mult_self2, simp)
  show "(a + b) mod n = a mod n + b"
    using assms by (subst eq) (simp only: mod_mult_self2, simp)
qed

lemma fill_to_block: "a + (64 - a mod 64) = 64 * (a div 64 + 1)" for a :: nat
proof -
  have "64 * (a div 64) + a mod 64 = a" "a mod 64 < 64"
    by simp_all
  then obtain q n where "a = 64 * q + n" "n < 64" "a div 64 = q" "a mod 64 = n"
    by metis
  then show ?thesis
    by simp
qed

lemma sha_repr_init: "length g = 64 \<Longrightarrow> sha_repr (CSHA256 g) []"
  by (simp add: sha_repr_def CSHA256_def)

text \<open>Appending data that ends exactly on a block boundary.\<close>

lemma sha_repr_aligned:
  assumes "sha_repr st m" and len: "length m + length d = 64 * (length m div 64 + k)"
    and "length b = 64"
  shows "sha_repr (st\<lparr>sha_buf := b, sha_bytes := sha_bytes st + word_of_nat (length d),
      sha_s := Transform (sha_s st) (drop (64 * (length m div 64)) m @ d) k\<rparr>) (m @ d)"
proof -
  have l: "length (m @ d) = 64 * (length m div 64 + k)"
    using len by simp
  then have "length (m @ d) div 64 = length m div 64 + k" "length (m @ d) mod 64 = 0"
    "drop (64 * (length m div 64 + k)) (m @ d) = []"
    by simp_all
  moreover have "Transform Initialize (m @ d) (length m div 64 + k) =
      Transform (sha_s st) (drop (64 * (length m div 64)) m @ d) k"
    using assms(1) by (simp add: sha_repr_def Transform_extend)
  ultimately show ?thesis
    using assms(1,3) by (simp add: sha_repr_def del: length_append) simp
qed

lemma Write_fill_repr:
  assumes "sha_repr st m" "Write_fill st d = (st', d', n)"
  shows "\<exists>e. d = e @ d' \<and> sha_repr st' (m @ e) \<and> n = length (m @ e) mod 64 \<and>
     (n = 0 \<or> n + length d' < 64)"
proof (cases "length m mod 64 \<noteq> 0 \<and> length m mod 64 + length d \<ge> 64")
  case True
  let ?n = "length m mod 64"
  let ?e = "take (64 - ?n) d"
  have e: "length ?e = 64 - ?n" and n: "?n < 64"
    using True by auto
  have buf: "take ?n (sha_buf st) = drop (64 * (length m div 64)) m" "length (sha_buf st) = 64"
    using assms(1) by (auto simp: sha_repr_def)
  have cpy: "memcpy (sha_buf st) ?n ?e = drop (64 * (length m div 64)) m @ ?e"
    using buf e n by (simp add: memcpy_def)
  have len: "length m + length ?e = 64 * (length m div 64 + 1)"
    unfolding e by (rule fill_to_block)
  have "sha_repr (st\<lparr>sha_buf := memcpy (sha_buf st) ?n ?e,
      sha_bytes := sha_bytes st + word_of_nat (length ?e),
      sha_s := Transform (sha_s st) (memcpy (sha_buf st) ?n ?e) 1\<rparr>) (m @ ?e)"
    unfolding cpy
  proof (rule sha_repr_aligned [OF assms(1) len])
    show "length (drop (64 * (length m div 64)) m @ ?e) = 64"
      using buf e n by (metis add_diff_inverse_nat length_append length_take min.absorb2
          nat_less_le not_less)
  qed
  moreover have "length (m @ ?e) mod 64 = 0"
    using len by simp
  moreover have "st' = st\<lparr>sha_buf := memcpy (sha_buf st) ?n ?e,
      sha_bytes := sha_bytes st + word_of_nat (length ?e),
      sha_s := Transform (sha_s st) (memcpy (sha_buf st) ?n ?e) 1\<rparr>"
    "d' = drop (64 - ?n) d" "n = 0"
    using assms True e by (simp_all add: Write_fill_def Let_def sha_bytes_mod)
  ultimately show ?thesis
    by (intro exI [of _ ?e]) simp
next
  case False
  then show ?thesis
    using assms by (auto simp: Write_fill_def Let_def sha_bytes_mod)
qed

lemma Write_blocks_repr:
  assumes "sha_repr st m" "Write_blocks st d = (st', d')"
    and "length m mod 64 = 0 \<or> length m mod 64 + length d < 64"
  shows "\<exists>e. d = e @ d' \<and> sha_repr st' (m @ e) \<and> length (m @ e) mod 64 = length m mod 64 \<and>
     length m mod 64 + length d' < 64"
proof (cases "length d \<ge> 64")
  case True
  let ?k = "length d div 64"
  let ?e = "take (64 * ?k) d"
  have e: "length ?e = 64 * ?k"
    by simp
  have m: "length m = 64 * (length m div 64)"
    using True assms(3) by auto
  have len: "length m + length ?e = 64 * (length m div 64 + ?k)"
    using e m by simp
  have buf: "length (sha_buf st) = 64"
    using assms(1) by (simp add: sha_repr_def)
  have "Transform (sha_s st) ?e ?k = Transform (sha_s st) d ?k"
    using Transform_append [of ?k ?e "sha_s st" "drop (64 * ?k) d"] e by simp
  moreover have "drop (64 * (length m div 64)) m = []"
    using m by simp
  ultimately have "sha_repr (st\<lparr>sha_s := Transform (sha_s st) d ?k,
      sha_bytes := sha_bytes st + word_of_nat (64 * ?k)\<rparr>) (m @ ?e)"
    using sha_repr_aligned [OF assms(1) len buf] e by (simp add: sha_repr_def)
  moreover have "length (m @ ?e) mod 64 = 0" "length m mod 64 = 0"
    using len m by (metis length_append mod_mult_self1_is_0, metis mod_mult_self1_is_0)
  moreover have "length (drop (64 * ?k) d) < 64"
    using mult_div_mod_eq [of 64 "length d"] by (simp add: minus_mult_div_eq_mod)
  ultimately show ?thesis
    using assms(2) True by (intro exI [of _ ?e]) (auto simp: Write_blocks_def Let_def)
next
  case False
  then show ?thesis
    using assms by (auto simp: Write_blocks_def)
qed

lemma Write_rest_repr:
  assumes "sha_repr st m" "length m mod 64 + length d < 64"
  shows "sha_repr (Write_rest st (length m mod 64) d) (m @ d)"
proof (cases "d = []")
  case False
  have "(length m + length d) div 64 = length m div 64"
    "(length m + length d) mod 64 = length m mod 64 + length d"
    using assms(2) by (rule div_mod_small)+
  then show ?thesis
    using assms False
    by (simp add: sha_repr_def Write_rest_def memcpy_def Transform_append minus_mult_div_eq_mod)
qed (use assms in \<open>simp add: Write_rest_def\<close>)

lemma Write_repr:
  assumes "sha_repr st m"
  shows "sha_repr (Write st d) (m @ d)"
proof -
  obtain st1 d1 n where 1: "Write_fill st d = (st1, d1, n)"
    by (metis prod_cases3)
  obtain st2 d2 where 2: "Write_blocks st1 d1 = (st2, d2)"
    by (metis prod.exhaust)
  obtain e1 where e1: "d = e1 @ d1" "sha_repr st1 (m @ e1)" "n = length (m @ e1) mod 64"
    "n = 0 \<or> n + length d1 < 64"
    using Write_fill_repr [OF assms 1] by auto
  obtain e2 where e2: "d1 = e2 @ d2" "sha_repr st2 ((m @ e1) @ e2)"
    "length ((m @ e1) @ e2) mod 64 = n" "n + length d2 < 64"
    using Write_blocks_repr [OF e1(2) 2] e1(3,4) by auto
  have "sha_repr (Write_rest st2 n d2) (((m @ e1) @ e2) @ d2)"
    using Write_rest_repr [OF e2(2), of d2] e2(3,4) by simp
  then show ?thesis
    using e1(1) e2(1) 1 2 by (simp add: Write_def)
qed

lemma Write_list_repr:
  "sha_repr st m \<Longrightarrow> sha_repr (foldl Write st ds) (m @ concat ds)"
proof (induction ds arbitrary: st m)
  case (Cons d ds)
  then show ?case
    using Cons.IH [OF Write_repr [of st m d]] by simp
qed simp

section \<open>Finalisation\<close>

lemma sizedesc_bytes: "WriteBE64 (push_bit 3 (word_of_nat n)) = be_bytes 8 (8 * n)"
proof -
  have "unat (push_bit 3 (word_of_nat n) :: u64) = (8 * n) mod 256 ^ 8"
    by (simp only: push_bit_of_nat unat_of_nat) (simp add: push_bit_eq_mult mult.commute)
  then show ?thesis
    by (simp add: WriteBE64_def be_bytes_def le_bytes_mod del: power_numeral)
qed

lemma pad_prefix:
  "z < 64 \<Longrightarrow> take (1 + z) (0x80 # replicate 63 0) = [0x80 :: byte] @ replicate z 0"
  by (simp add: take_Cons')

lemma fips_pad_bytes:
  "fips_pad m = m @ [0x80] @ replicate ((119 - length m mod 64) mod 64) 0 @ be_bytes 8 (8 * length m)"
proof -
  have "unat (word_of_nat (8 * length m) :: u64) = (8 * length m) mod 256 ^ 8"
    by (simp only: unat_of_nat) simp
  then have "word_bytes 8 (word_of_nat (8 * length m) :: u64) = be_bytes 8 (8 * length m)"
    by (simp only: be_bytes_word [symmetric] be_bytes_def le_bytes_mod)
  then show ?thesis
    by (simp only: fips_pad_def pad_zeros)
qed

lemma length_fips_H0: "length fips_H0 = 8"
  by (simp add: Initialize_fips [symmetric] Initialize_def)

lemma Finalize_sha256:
  assumes "sha_repr st m"
  shows "Finalize st = sha256 m"
proof -
  let ?z = "(119 - length m mod 64) mod 64"
  let ?pad = "[0x80] @ replicate ?z 0"
  have bytes: "sha_bytes st = word_of_nat (length m)"
    using assms by (simp add: sha_repr_def)
  have "sha_repr (Write (Write st ?pad) (be_bytes 8 (8 * length m))) (fips_pad m)"
    using Write_repr [OF Write_repr [OF assms, of ?pad], of "be_bytes 8 (8 * length m)"]
    by (simp add: fips_pad_bytes)
  then have "sha_s (Write (Write st ?pad) (be_bytes 8 (8 * length m))) =
      fips_blocks fips_H0 (fips_pad m) (length (fips_pad m) div 64)"
    by (simp add: sha_repr_def Transform_fips Initialize_fips length_fips_H0)
  then show ?thesis
    using pad_prefix [of ?z]
    by (simp only: Finalize_def Let_def sha256_def sha_bytes_mod [OF assms])
       (simp add: bytes sizedesc_bytes WriteBE32_bytes)
qed

lemma length_fips_blocks: "length H = 8 \<Longrightarrow> length (fips_blocks H m n) = 8"
  by (induction n arbitrary: H m) (simp_all add: fips_compress_def)

lemma length_sha256 [simp]: "length (sha256 m) = 32"
proof -
  have "length (concat (map (word_bytes 4) ws)) = 4 * length ws" for ws :: "u32 list"
    by (induction ws) (simp_all add: word_bytes_def)
  then show ?thesis
    by (simp add: sha256_def length_fips_blocks length_fips_H0)
qed

lemma hash_data_sha256: "hash_data d = sha256 d"
  unfolding hash_data_def
  using Finalize_sha256 [OF Write_repr [OF sha_repr_init]] by simp

lemma is_hash_hash_data [simp]: "is_hash (hash_data d)"
  by (simp add: hash_data_sha256 size_defs)

text \<open>A \<open>Reset\<close> object is as good as a new one: the stale buffer does not matter.\<close>

lemma sha_repr_Reset: "sha_repr st m \<Longrightarrow> sha_repr (Reset st) []"
  by (simp add: sha_repr_def Reset_def)

text \<open>C10: Hashing is independent of how the data is split into writes and of what the
  uninitialised 64-byte buffer held: writing the chunks one after the other to a new
  \<open>CSHA256\<close> and finalising gives the FIPS 180-4 SHA-256 digest of their concatenation (its
  bit length taken modulo \<open>2 ^ 64\<close>), defined from the standard alone,
  although the code updates the schedule in place, rotates the register names and keeps a
  partial block in the buffer.\<close>

theorem sha256_streaming:
  assumes "length garbage = 64"
  shows "Finalize (foldl Write (CSHA256 garbage) chunks) = sha256 (concat chunks)"
  using Finalize_sha256 [OF Write_list_repr [OF sha_repr_init [OF assms]]] by simp

theorem sha256_streaming_witness:
  "Finalize (foldl Write (CSHA256 (replicate 64 7)) [[1, 2], [3], replicate 70 4])
     = sha256 ([1, 2, 3] @ replicate 70 4)"
  using sha256_streaming [of "replicate 64 7" "[[1, 2], [3], replicate 70 4]"] by simp

end
