(* ===== verification/Serialization.thy ===== *)
theory Serialization
  imports Prelude
begin

text \<open>
  The binary serialization library \<open>util/serialization\<close> and the byte container
  \<open>util/common/buffer.cpp\<close>. The \<open>serializer\<close> classes are modelled as records with the
  cursor arithmetic of the code; the stream operators of \<open>format.hpp\<close> and \<open>format.cpp\<close> are
  modelled by the bytes that \<open>operator<<\<close> writes (\<open>put_\<dots>\<close>) and by readers that return the
  value and the rest of the input, or \<open>None\<close> once a read fails (\<open>get_\<dots>\<close>): a failed read makes
  the stream false for good, and every caller in the sources then drops the value.
  The interface between a wire format and its clients is the locale \<open>codec\<close>.
\<close>

section \<open>Byte buffers\<close>

definition buffer_append :: "byte list \<Rightarrow> byte list \<Rightarrow> byte list" where
  "buffer_append m data = m @ data"

definition buffer_extend :: "byte list \<Rightarrow> nat \<Rightarrow> byte list" where
  "buffer_extend m len = m @ replicate len 0"

text \<open>Writing \<open>data\<close> over the bytes from \<open>off\<close> on.\<close>

definition overwrite :: "byte list \<Rightarrow> nat \<Rightarrow> byte list \<Rightarrow> byte list" where
  "overwrite m off data = take off m @ data @ drop (off + length data) m"

section \<open>Serializers\<close>

record buffer_serializer =
  m_pkt :: "byte list"
  m_cursor :: u64
  m_valid :: bool

definition buffer_serializer_init :: "byte list \<Rightarrow> buffer_serializer" where
  "buffer_serializer_init pkt = \<lparr>m_pkt = pkt, m_cursor = 0, m_valid = True\<rparr>"

definition bs_advance_cursor :: "buffer_serializer \<Rightarrow> u64 \<Rightarrow> buffer_serializer" where
  "bs_advance_cursor s len = s\<lparr>m_cursor := m_cursor s + len\<rparr>"

definition bs_reset :: "buffer_serializer \<Rightarrow> buffer_serializer" where
  "bs_reset s = s\<lparr>m_cursor := 0, m_valid := True\<rparr>"

definition bs_end_of_buffer :: "buffer_serializer \<Rightarrow> bool" where
  "bs_end_of_buffer s \<longleftrightarrow> length (m_pkt s) \<le> unat (m_cursor s)"

definition bs_write :: "buffer_serializer \<Rightarrow> byte list \<Rightarrow> buffer_serializer" where
  "bs_write s data =
    (let len = word_of_nat (length data);
         size = word_of_nat (length (m_pkt s));
         pkt = (if size < m_cursor s + len
                then buffer_extend (m_pkt s) (unat (m_cursor s + len - size)) else m_pkt s)
     in s\<lparr>m_pkt := overwrite pkt (unat (m_cursor s)) data, m_cursor := m_cursor s + len\<rparr>)"

text \<open>\<open>read\<close> returns whether it succeeded, with the bytes it copied out.\<close>

definition bs_read :: "buffer_serializer \<Rightarrow> u64 \<Rightarrow> (byte list) option \<times> buffer_serializer" where
  "bs_read s len =
    (if word_of_nat (length (m_pkt s)) < m_cursor s + len
     then (None, s\<lparr>m_valid := False\<rparr>)
     else (Some (take (unat len) (drop (unat (m_cursor s)) (m_pkt s))),
           s\<lparr>m_cursor := m_cursor s + len\<rparr>))"

record size_serializer =
  ss_cursor :: u64

definition size_serializer_init :: size_serializer where
  "size_serializer_init = \<lparr>ss_cursor = 0\<rparr>"

definition ss_write :: "size_serializer \<Rightarrow> byte list \<Rightarrow> size_serializer" where
  "ss_write s data = s\<lparr>ss_cursor := ss_cursor s + word_of_nat (length data)\<rparr>"

text \<open>
  \<open>serialized_size\<close> and \<open>make_buffer\<close> of an object, given as the sequence of the writes that
  its \<open>operator<<\<close> performs.
\<close>

definition serialized_size :: "byte list list \<Rightarrow> u64" where
  "serialized_size writes = ss_cursor (foldl ss_write size_serializer_init writes)"

definition make_buffer :: "byte list list \<Rightarrow> byte list" where
  "make_buffer writes =
    (let pkt = buffer_extend [] (unat (serialized_size writes))
     in m_pkt (foldl bs_write (buffer_serializer_init pkt) writes))"

section \<open>Stream operators\<close>

type_synonym 'a putter = "'a \<Rightarrow> byte list"
type_synonym 'a getter = "byte list \<Rightarrow> ('a \<times> byte list) option"

definition get_bytes :: "nat \<Rightarrow> byte list getter" where
  "get_bytes n bs = (if length bs < n then None else Some (take n bs, drop n bs))"

definition put_u8 :: "byte putter" where
  "put_u8 w = [w]"

definition get_u8 :: "byte getter" where
  "get_u8 bs = do { (d, r) \<leftarrow> get_bytes 1 bs; Some (hd d, r) }"

definition put_u32 :: "u32 putter" where
  "put_u32 w = le_bytes 4 (unat w)"

definition get_u32 :: "u32 getter" where
  "get_u32 bs = do { (d, r) \<leftarrow> get_bytes 4 bs; Some (word_of_nat (le_value d), r) }"

definition put_u64 :: "u64 putter" where
  "put_u64 w = le_bytes 8 (unat w)"

definition get_u64 :: "u64 getter" where
  "get_u64 bs = do { (d, r) \<leftarrow> get_bytes 8 bs; Some (word_of_nat (le_value d), r) }"

definition put_bool :: "bool putter" where
  "put_bool b = [if b then 1 else 0]"

definition get_bool :: "bool getter" where
  "get_bool bs = do { (d, r) \<leftarrow> get_bytes 1 bs; Some (hd d \<noteq> 0, r) }"

definition put_array :: "byte list putter" where
  "put_array a = a"

definition get_array :: "nat \<Rightarrow> byte list getter" where
  "get_array n bs = get_bytes n bs"

definition put_option :: "'a putter \<Rightarrow> 'a option putter" where
  "put_option p v = put_bool (v \<noteq> None) @ (case v of None \<Rightarrow> [] | Some x \<Rightarrow> p x)"

definition get_option :: "'a getter \<Rightarrow> 'a option getter" where
  "get_option g bs = do {
     (has_value, r) \<leftarrow> get_bool bs;
     if has_value then do { (x, r') \<leftarrow> g r; Some (Some x, r') } else Some (None, r) }"

definition put_pair :: "'a putter \<Rightarrow> 'b putter \<Rightarrow> ('a \<times> 'b) putter" where
  "put_pair p q v = p (fst v) @ q (snd v)"

definition get_pair :: "'a getter \<Rightarrow> 'b getter \<Rightarrow> ('a \<times> 'b) getter" where
  "get_pair g h bs = do { (a, r) \<leftarrow> g bs; (b, r') \<leftarrow> h r; Some ((a, b), r') }"

text \<open>\<open>cbdc::buffer\<close>: the size, then the raw bytes.\<close>

definition put_buffer :: "byte list putter" where
  "put_buffer b = put_u64 (word_of_nat (length b)) @ b"

definition get_buffer :: "byte list getter" where
  "get_buffer bs = do { (sz, r) \<leftarrow> get_u64 bs; get_bytes (unat sz) r }"

definition put_vector :: "'a putter \<Rightarrow> 'a list putter" where
  "put_vector p vec = put_u64 (word_of_nat (length vec)) @ concat (map p vec)"

definition maximum_reservation :: nat where
  "maximum_reservation = 1024 * 1024"

text \<open>The inner loop: read elements until the vector has \<open>allocated\<close> of them.\<close>

fun get_many :: "'a getter \<Rightarrow> nat \<Rightarrow> 'a list getter" where
  "get_many g 0 bs = Some ([], bs)"
| "get_many g (Suc n) bs = do { (x, r) \<leftarrow> g bs; (xs, r') \<leftarrow> get_many g n r; Some (x # xs, r') }"

text \<open>
  The outer loop raises \<open>allocated\<close> by at most \<open>maximum_reservation / sizeof(T)\<close> elements at a
  time; \<open>step\<close> is that number, at least 1 by the static assertion of the code. A step of 0,
  which the assertion excludes, would never end; the model then fails.
\<close>

function get_reserved :: "nat \<Rightarrow> 'a getter \<Rightarrow> nat \<Rightarrow> nat \<Rightarrow> 'a list \<Rightarrow> 'a list getter" where
  "get_reserved step g len allocated vec bs =
    (if allocated < len then
       if step = 0 then None else
       (let allocated' = min len (allocated + step) in
        case get_many g (allocated' - length vec) bs of
          None \<Rightarrow> None
        | Some (xs, r) \<Rightarrow> get_reserved step g len allocated' (vec @ xs) r)
     else Some (vec, bs))"
  by pat_completeness auto
termination
  by (relation "measure (\<lambda>(step, g, len, allocated, vec, bs). len - allocated)") auto

declare get_reserved.simps [simp del]

definition get_vector :: "nat \<Rightarrow> 'a getter \<Rightarrow> 'a list getter" where
  "get_vector sizeof_T g bs = do {
     (len, r) \<leftarrow> get_u64 bs;
     get_reserved (maximum_reservation div sizeof_T) g (unat len) 0 [] r }"

text \<open>
  An \<open>unordered_map\<close> is given by the list of its entries in iteration order. The reader loops
  on the size of the map, so an entry whose key is already there is read and dropped and
  does not count. The reservation steps bound the same loop and are left out; the function
  that never returns is the value \<open>None\<close>.
\<close>

definition put_map :: "'k putter \<Rightarrow> 'v putter \<Rightarrow> ('k \<times> 'v) list putter" where
  "put_map p q m = put_u64 (word_of_nat (length m)) @ concat (map (put_pair p q) m)"

definition emplace :: "'k \<Rightarrow> 'v \<Rightarrow> ('k \<times> 'v) list \<Rightarrow> ('k \<times> 'v) list" where
  "emplace k v m = (if k \<in> fst ` set m then m else m @ [(k, v)])"

partial_function (option) get_map_loop ::
  "'k getter \<Rightarrow> 'v getter \<Rightarrow> nat \<Rightarrow> ('k \<times> 'v) list \<Rightarrow> ('k \<times> 'v) list getter" where
  "get_map_loop g h len m bs =
    (if length m < len
     then case get_pair g h bs of
        None \<Rightarrow> None
      | Some ((k, v), r) \<Rightarrow> get_map_loop g h len (emplace k v m) r
     else Some (m, bs))"

definition get_map :: "'k getter \<Rightarrow> 'v getter \<Rightarrow> ('k \<times> 'v) list getter" where
  "get_map g h bs = do { (len, r) \<leftarrow> get_u64 bs; get_map_loop g h (unat len) [] r }"

text \<open>
  Sets: \<open>std::set\<close> reads exactly \<open>len\<close> items, \<open>std::unordered_set\<close> reads until it has \<open>len\<close>
  different ones.
\<close>

definition put_set :: "'a putter \<Rightarrow> 'a list putter" where
  "put_set p s = put_u64 (word_of_nat (length s)) @ concat (map p s)"

definition insert_item :: "'a \<Rightarrow> 'a list \<Rightarrow> 'a list" where
  "insert_item x s = (if x \<in> set s then s else s @ [x])"

definition get_ordered_set :: "'a getter \<Rightarrow> 'a list getter" where
  "get_ordered_set g bs = do {
     (len, r) \<leftarrow> get_u64 bs;
     (xs, r') \<leftarrow> get_many g (unat len) r;
     Some (foldl (\<lambda>s x. insert_item x s) [] xs, r') }"

partial_function (option) get_set_loop :: "'a getter \<Rightarrow> nat \<Rightarrow> 'a list \<Rightarrow> 'a list getter" where
  "get_set_loop g len s bs =
    (if length s < len
     then case g bs of
        None \<Rightarrow> None
      | Some (x, r) \<Rightarrow> get_set_loop g len (insert_item x s) r
     else Some (s, bs))"

definition get_unordered_set :: "'a getter \<Rightarrow> 'a list getter" where
  "get_unordered_set g bs = do { (len, r) \<leftarrow> get_u64 bs; get_set_loop g (unat len) [] r }"

text \<open>\<open>from_buffer\<close>: the value, if every read succeeded; bytes that are left over are ignored.\<close>

definition from_buffer :: "'a getter \<Rightarrow> byte list \<Rightarrow> 'a option" where
  "from_buffer g buf = map_option fst (g buf)"

section \<open>The interface of a wire format\<close>

text \<open>
  A reader undoes the writer on well-formed values and leaves the bytes that follow, and a
  reader that succeeds does not depend on the bytes after those it consumed.
\<close>

locale codec =
  fixes put :: "'a \<Rightarrow> byte list"
    and get :: "byte list \<Rightarrow> ('a \<times> byte list) option"
    and wf :: "'a \<Rightarrow> bool"
  assumes get_put: "wf x \<Longrightarrow> get (put x @ r) = Some (x, r)"
    and get_append: "get bs = Some (x, r) \<Longrightarrow> get (bs @ e) = Some (x, r @ e)"
begin

lemma get_put_nil: "wf x \<Longrightarrow> get (put x) = Some (x, [])"
  using get_put [of x "[]"] by simp

lemma put_inject_append:
  assumes "wf x" "wf y" "put x @ r = put y @ q"
  shows "x = y \<and> r = q"
  using get_put [OF assms(1), of r] get_put [OF assms(2), of q] unfolding assms(3) by simp

lemma put_inject: "wf x \<Longrightarrow> wf y \<Longrightarrow> put x = put y \<longleftrightarrow> x = y"
  using put_inject_append [of x y "[]" "[]"] by auto

lemma from_buffer_put: "wf x \<Longrightarrow> from_buffer get (put x @ r) = Some x"
  by (simp add: from_buffer_def get_put)

lemma truncated_rejected:
  assumes "wf x" "k < length (put x)"
  shows "get (take k (put x)) = None"
proof (rule ccontr)
  assume "\<not> ?thesis"
  then obtain y r where "get (take k (put x)) = Some (y, r)"
    by auto
  then have "get (put x) = Some (y, r @ drop k (put x))"
    using get_append [of "take k (put x)" y r "drop k (put x)"] by simp
  then show False
    using get_put_nil [OF assms(1)] assms(2) by simp
qed

end

text \<open>A strict format is also canonical: the reader accepts only what the writer writes.\<close>

locale strict_codec = codec +
  assumes get_exact: "get bs = Some (x, r) \<Longrightarrow> wf x \<and> bs = put x @ r"
begin

lemma get_iff: "get bs = Some (x, r) \<longleftrightarrow> wf x \<and> bs = put x @ r"
  using get_exact get_put by blast

end

section \<open>The formats of the basic types\<close>

lemma map_of_emplace: "map_of (emplace k v m) x = (if x = k \<and> map_of m k = None then Some v else map_of m x)"
  by (cases "map_of m k") (auto simp: emplace_def map_add_def map_of_eq_None_iff [symmetric] dest: weak_map_of_SomeI split: option.splits)

lemma length_put_u64 [simp]: "length (put_u64 w) = 8"
  by (simp add: put_u64_def)

lemma length_put_u32 [simp]: "length (put_u32 w) = 4"
  by (simp add: put_u32_def)

lemma length_put_u8 [simp]: "length (put_u8 w) = 1"
  by (simp add: put_u8_def)

lemma get_bytes_Some:
  "get_bytes n bs = Some (d, r) \<longleftrightarrow> length d = n \<and> bs = d @ r"
  by (auto simp: get_bytes_def append_eq_conv_conj)

lemma get_bytes_append: "get_bytes n bs = Some (d, r) \<Longrightarrow> get_bytes n (bs @ e) = Some (d, r @ e)"
  by (simp add: get_bytes_Some)

lemma bind_Some_pair:
  "(f \<bind> (\<lambda>(x, r). g x r)) = Some y \<longleftrightarrow> (\<exists>x r. f = Some (x, r) \<and> g x r = Some y)"
  by (cases f) auto

lemma get_bytes_put [simp]: "length d = n \<Longrightarrow> get_bytes n (d @ r) = Some (d, r)"
  by (simp add: get_bytes_Some)

interpretation u8: strict_codec put_u8 get_u8 "\<lambda>_. True"
proof (standard, goal_cases)
  case (1 x r)
  show ?case by (simp add: get_u8_def put_u8_def get_bytes_def)
next
  case (2 bs x r e)
  then show ?case by (auto simp: get_u8_def bind_Some_pair get_bytes_Some)
next
  case (3 bs x r)
  then show ?case
    by (auto simp: get_u8_def put_u8_def bind_Some_pair get_bytes_Some length_Suc_conv)
qed

interpretation u32: strict_codec put_u32 get_u32 "\<lambda>_. True"
proof (standard, goal_cases)
  case (1 x r)
  show ?case by (simp add: get_u32_def put_u32_def le_u32)
next
  case (2 bs x r e)
  then show ?case by (auto simp: get_u32_def bind_Some_pair get_bytes_Some)
next
  case (3 bs x r)
  then obtain d where d: "length d = 4" "bs = d @ r" "x = word_of_nat (le_value d)"
    by (auto simp: get_u32_def bind_Some_pair get_bytes_Some)
  then have "unat x = le_value d"
    using le_value_bound [of d] by (simp add: unat_of_nat)
  then show ?case
    using d le_bytes_le_value [of d] by (simp add: put_u32_def)
qed

interpretation u64: strict_codec put_u64 get_u64 "\<lambda>_. True"
proof (standard, goal_cases)
  case (1 x r)
  show ?case by (simp add: get_u64_def put_u64_def le_u64)
next
  case (2 bs x r e)
  then show ?case by (auto simp: get_u64_def bind_Some_pair get_bytes_Some)
next
  case (3 bs x r)
  then obtain d where d: "length d = 8" "bs = d @ r" "x = word_of_nat (le_value d)"
    by (auto simp: get_u64_def bind_Some_pair get_bytes_Some)
  then have "unat x = le_value d"
    using le_value_bound [of d] by (simp add: unat_of_nat)
  then show ?case
    using d le_bytes_le_value [of d] by (simp add: put_u64_def)
qed

interpretation bool: codec put_bool get_bool "\<lambda>_. True"
proof (standard, goal_cases)
  case (1 x r)
  show ?case by (simp add: get_bool_def put_bool_def get_bytes_def)
next
  case (2 bs x r e)
  then show ?case by (auto simp: get_bool_def bind_Some_pair get_bytes_Some)
qed

lemma strict_codec_array: "strict_codec put_array (get_array n) (is_array n)"
  by standard (auto simp: get_array_def put_array_def is_array_def get_bytes_Some)

interpretation hash: strict_codec put_array "get_array hash_size" "is_array hash_size"
  by (rule strict_codec_array)

section \<open>Formats of composite types\<close>

lemma codec_pair:
  assumes "codec p g w" "codec q h v"
  shows "codec (put_pair p q) (get_pair g h) (\<lambda>x. w (fst x) \<and> v (snd x))"
proof (standard, goal_cases)
  case (1 x r)
  then show ?case
    by (simp add: put_pair_def get_pair_def codec.get_put [OF assms(1)] codec.get_put [OF assms(2)])
next
  case (2 bs x r e)
  then obtain a b r1 where "g bs = Some (a, r1)" "h r1 = Some (b, r)" "x = (a, b)"
    by (auto simp: get_pair_def bind_Some_pair)
  then show ?case
    using codec.get_append [OF assms(1), of bs a r1 e] codec.get_append [OF assms(2), of r1 b r e]
    by (simp add: get_pair_def)
qed

lemma strict_codec_pair:
  assumes "strict_codec p g w" "strict_codec q h v"
  shows "strict_codec (put_pair p q) (get_pair g h) (\<lambda>x. w (fst x) \<and> v (snd x))"
proof -
  have c: "codec p g w" "codec q h v"
    using assms by (simp_all add: strict_codec_def)
  show ?thesis
  proof (intro strict_codec.intro codec_pair c strict_codec_axioms.intro, goal_cases)
    case (1 bs x r)
    then show ?case
      by (auto simp: put_pair_def get_pair_def bind_Some_pair
          dest!: strict_codec.get_exact [OF assms(1)] strict_codec.get_exact [OF assms(2)])
  qed
qed

lemma codec_option:
  assumes "codec p g w"
  shows "codec (put_option p) (get_option g) (\<lambda>x. \<forall>y. x = Some y \<longrightarrow> w y)"
proof (standard, goal_cases)
  case (1 x r)
  then show ?case
    using codec.get_put [OF assms]
    by (cases x) (simp_all add: put_option_def get_option_def bool.get_put)
next
  case (2 bs x r e)
  then obtain b r1 where b: "get_bool bs = Some (b, r1)"
    and v: "(if b then do { (y, r') \<leftarrow> g r1; Some (Some y, r') } else Some (None, r1)) = Some (x, r)"
    by (auto simp: get_option_def bind_Some_pair)
  show ?case
  proof (cases b)
    case True
    then obtain y where "g r1 = Some (y, r)" "x = Some y"
      using v by (auto simp: bind_Some_pair)
    then show ?thesis
      using bool.get_append [OF b, of e] codec.get_append [OF assms, of r1 y r e] True
      by (simp add: get_option_def)
  next
    case False
    then show ?thesis
      using bool.get_append [OF b, of e] v by (simp add: get_option_def)
  qed
qed

lemma unat_length_u64: "length xs < 2 ^ 64 \<Longrightarrow> unat (word_of_nat (length xs) :: u64) = length xs"
  by (simp add: unat_of_nat)

interpretation buffer: strict_codec put_buffer get_buffer "\<lambda>b. length b < 2 ^ 64"
proof (standard, goal_cases)
  case (1 x r)
  then show ?case
    by (simp add: put_buffer_def get_buffer_def u64.get_put unat_length_u64)
next
  case (2 bs x r e)
  then obtain sz r1 where *: "get_u64 bs = Some (sz, r1)" "get_bytes (unat sz) r1 = Some (x, r)"
    by (auto simp: get_buffer_def bind_Some_pair)
  then show ?case
    using u64.get_append [OF *(1)] get_bytes_append [OF *(2)] by (simp add: get_buffer_def)
next
  case (3 bs x r)
  then obtain sz where *: "bs = put_u64 sz @ x @ r" "length x = unat sz"
    by (auto simp: get_buffer_def bind_Some_pair get_bytes_Some dest!: u64.get_exact)
  then show ?case
    using unat_lt2p [of sz] by (simp add: put_buffer_def)
qed

subsection \<open>Vectors\<close>

lemma get_many_Suc_Some:
  "get_many g (Suc n) bs = Some (ys, r) \<longleftrightarrow>
     (\<exists>x xs r1. ys = x # xs \<and> g bs = Some (x, r1) \<and> get_many g n r1 = Some (xs, r))"
  by (auto simp: bind_Some_pair)

lemma get_many_put:
  assumes "codec p g w" "\<forall>x \<in> set xs. w x"
  shows "get_many g (length xs) (concat (map p xs) @ r) = Some (xs, r)"
  using assms(2) by (induction xs) (simp_all add: codec.get_put [OF assms(1)])

lemma get_many_append:
  assumes "codec p g w"
  shows "get_many g n bs = Some (xs, r) \<Longrightarrow> get_many g n (bs @ e) = Some (xs, r @ e)"
proof (induction n arbitrary: bs xs)
  case (Suc n)
  then obtain y ys r1 where "xs = y # ys" "g bs = Some (y, r1)" "get_many g n r1 = Some (ys, r)"
    by (auto simp: get_many_Suc_Some simp del: get_many.simps)
  then show ?case
    using Suc.IH [of r1 ys] codec.get_append [OF assms, of bs y r1 e] by simp
qed simp

lemma get_many_exact:
  assumes "strict_codec p g w"
  shows "get_many g n bs = Some (xs, r) \<Longrightarrow>
    length xs = n \<and> (\<forall>x \<in> set xs. w x) \<and> bs = concat (map p xs) @ r"
proof (induction n arbitrary: bs xs)
  case (Suc n)
  then obtain y ys r1 where "xs = y # ys" "g bs = Some (y, r1)" "get_many g n r1 = Some (ys, r)"
    by (auto simp: get_many_Suc_Some simp del: get_many.simps)
  then show ?case
    using Suc.IH [of r1 ys] strict_codec.get_exact [OF assms, of bs y r1] by simp
qed simp

lemma get_many_length: "get_many g n bs = Some (xs, r) \<Longrightarrow> length xs = n"
  by (induction n arbitrary: bs xs) (auto simp: bind_Some_pair)

lemma get_many_add:
  "get_many g (m + n) bs = do {
     (xs, r) \<leftarrow> get_many g m bs; (ys, r') \<leftarrow> get_many g n r; Some (xs @ ys, r') }"
proof (induction m arbitrary: bs)
  case 0
  show ?case
    by (cases "get_many g n bs") auto
next
  case (Suc m)
  show ?case
  proof (cases "g bs")
    case (Some a)
    obtain x r where a: "a = (x, r)" by (cases a)
    show ?thesis
    proof (cases "get_many g m r")
      case None
      then show ?thesis by (simp add: Some a Suc.IH)
    next
      case (Some b)
      obtain xs r' where b: "b = (xs, r')" by (cases b)
      show ?thesis
        by (cases "get_many g n r'") (auto simp: Some b \<open>g bs = Some a\<close> a Suc.IH)
    qed
  qed simp
qed

text \<open>Raising the reservation step by step reads the same elements as one loop.\<close>

lemma get_reserved_get_many:
  assumes "0 < step" "length vec = allocated" "allocated \<le> len"
  shows "get_reserved step g len allocated vec bs =
    do { (xs, r) \<leftarrow> get_many g (len - allocated) bs; Some (vec @ xs, r) }"
  using assms
proof (induction step g len allocated vec bs rule: get_reserved.induct)
  case (1 step g len allocated vec bs)
  show ?case
  proof (cases "allocated < len")
    case False
    then show ?thesis
      using 1(4) by (subst get_reserved.simps) simp
  next
    case True
    define n where "n = min len (allocated + step) - allocated"
    define m where "m = len - min len (allocated + step)"
    have split: "len - allocated = n + m" "min len (allocated + step) - length vec = n"
      using True 1(3) by (auto simp: n_def m_def)
    show ?thesis
    proof (cases "get_many g n bs")
      case None
      then show ?thesis
        using True 1(2) split by (subst get_reserved.simps) (simp add: get_many_add)
    next
      case (Some a)
      obtain xs r where a: "a = (xs, r)" by (cases a)
      have "length (vec @ xs) = min len (allocated + step)"
        using Some a True 1(3) get_many_length [of g n bs xs r] by (auto simp: n_def)
      then have "get_reserved step g len (min len (allocated + step)) (vec @ xs) r =
          do { (ys, r) \<leftarrow> get_many g m r; Some ((vec @ xs) @ ys, r) }"
        using 1(1) [OF True _ refl _ a [symmetric] \<open>0 < step\<close>] 1(2) Some split(2)
        unfolding m_def by auto
      then show ?thesis
        using True 1(2) split Some a
        by (subst get_reserved.simps) (simp add: get_many_add case_prod_unfold)
    qed
  qed
qed

definition wf_vector :: "('a \<Rightarrow> bool) \<Rightarrow> 'a list \<Rightarrow> bool" where
  "wf_vector w vec \<longleftrightarrow> length vec < 2 ^ 64 \<and> (\<forall>x \<in> set vec. w x)"

lemma get_vector_get_many:
  assumes "0 < sizeof_T" "sizeof_T \<le> maximum_reservation"
  shows "get_vector sizeof_T g bs = do { (len, r) \<leftarrow> get_u64 bs; get_many g (unat len) r }"
proof -
  have "0 < maximum_reservation div sizeof_T"
    using assms by (simp add: div_greater_zero_iff)
  moreover have "do { (xs, r) \<leftarrow> f; Some ([] @ xs, r) } = f" for f :: "('b list \<times> byte list) option"
    by (cases f) auto
  ultimately show ?thesis
    by (simp add: get_vector_def get_reserved_get_many)
qed

lemma codec_vector:
  assumes "codec p g w" "0 < sizeof_T" "sizeof_T \<le> maximum_reservation"
  shows "codec (put_vector p) (get_vector sizeof_T g) (wf_vector w)"
proof (standard, goal_cases)
  case (1 x r)
  then show ?case
    by (simp add: get_vector_get_many assms put_vector_def u64.get_put wf_vector_def
        unat_length_u64 get_many_put [OF assms(1)])
next
  case (2 bs x r e)
  then obtain len r1 where *: "get_u64 bs = Some (len, r1)" "get_many g (unat len) r1 = Some (x, r)"
    by (auto simp: get_vector_get_many assms bind_Some_pair)
  then show ?case
    using u64.get_append [OF *(1), of e] get_many_append [OF assms(1) *(2), of e]
    by (simp add: get_vector_get_many assms)
qed

lemma strict_codec_vector:
  assumes "strict_codec p g w" "0 < sizeof_T" "sizeof_T \<le> maximum_reservation"
  shows "strict_codec (put_vector p) (get_vector sizeof_T g) (wf_vector w)"
proof -
  have c: "codec p g w"
    using assms by (simp add: strict_codec_def)
  show ?thesis
  proof (intro strict_codec.intro codec_vector c assms(2,3) strict_codec_axioms.intro, goal_cases)
    case (1 bs x r)
    then obtain len r1 where *: "get_u64 bs = Some (len, r1)" "get_many g (unat len) r1 = Some (x, r)"
      by (auto simp: get_vector_get_many assms bind_Some_pair)
    then show ?case
      using u64.get_exact [OF *(1)] get_many_exact [OF assms(1) *(2)] unat_lt2p [of len]
      by (auto simp: put_vector_def wf_vector_def)
  qed
qed

subsection \<open>Maps and sets\<close>

definition wf_map :: "('k \<Rightarrow> bool) \<Rightarrow> ('v \<Rightarrow> bool) \<Rightarrow> ('k \<times> 'v) list \<Rightarrow> bool" where
  "wf_map w v m \<longleftrightarrow> length m < 2 ^ 64 \<and> distinct (map fst m) \<and> (\<forall>(x, y) \<in> set m. w x \<and> v y)"

definition wf_set :: "('a \<Rightarrow> bool) \<Rightarrow> 'a list \<Rightarrow> bool" where
  "wf_set w s \<longleftrightarrow> length s < 2 ^ 64 \<and> distinct s \<and> (\<forall>x \<in> set s. w x)"

lemma get_map_loop_put:
  assumes "codec p g w" "codec q h v" "\<forall>(x, y) \<in> set m. w x \<and> v y"
    and "distinct (map fst (acc @ m))" "len = length (acc @ m)"
  shows "get_map_loop g h len acc (concat (map (put_pair p q) m) @ r) = Some (acc @ m, r)"
  using assms(3-5)
proof (induction m arbitrary: acc)
  case Nil
  then show ?case
    by (subst get_map_loop.simps) simp
next
  case (Cons kv m)
  obtain k y where kv: "kv = (k, y)" by (cases kv)
  have "get_pair g h (put_pair p q kv @ concat (map (put_pair p q) m) @ r) =
      Some (kv, concat (map (put_pair p q) m) @ r)"
    using Cons.prems(1) kv by (intro codec.get_put [OF codec_pair [OF assms(1,2)]]) auto
  moreover have "emplace k y acc = acc @ [kv]"
    using Cons.prems(2) kv by (auto simp: emplace_def)
  moreover have "get_map_loop g h len (acc @ [kv]) (concat (map (put_pair p q) m) @ r) =
      Some ((acc @ [kv]) @ m, r)"
    using Cons.prems by (intro Cons.IH) auto
  ultimately show ?case
    using Cons.prems(3) kv by (subst get_map_loop.simps) simp
qed

lemma get_map_loop_append:
  assumes "get_map_loop g h len m bs = Some y" "codec p g w" "codec q h v"
  shows "get_map_loop g h len m (bs @ e) = Some (fst y, snd y @ e)"
proof (rule get_map_loop.raw_induct [where P = "\<lambda>g h len m bs y. codec p g w \<longrightarrow> codec q h v \<longrightarrow>
    get_map_loop g h len m (bs @ e) = Some (fst y, snd y @ e)", rule_format, OF _ assms], goal_cases)
  case (1 loop g h len m bs y)
  show ?case
  proof (cases "length m < len")
    case False
    then show ?thesis
      using 1(2) by (subst get_map_loop.simps) auto
  next
    case True
    then obtain k x r where kx: "get_pair g h bs = Some ((k, x), r)"
      and y: "loop g h len (emplace k x m) r = Some y"
      using 1(2) by (auto split: option.splits)
    have "get_pair g h (bs @ e) = Some ((k, x), r @ e)"
      using codec.get_append [OF codec_pair [OF 1(3,4)] kx] .
    then show ?thesis
      using True 1(1) [OF y 1(3,4)] by (subst get_map_loop.simps) simp
  qed
qed

lemma codec_map:
  assumes "codec p g w" "codec q h v"
  shows "codec (put_map p q) (get_map g h) (wf_map w v)"
proof (standard, goal_cases)
  case (1 x r)
  then show ?case
    by (simp add: put_map_def get_map_def wf_map_def u64.get_put unat_length_u64
        get_map_loop_put [OF assms, where acc = "[]", simplified])
next
  case (2 bs x r e)
  then obtain len r1 where *: "get_u64 bs = Some (len, r1)"
    "get_map_loop g h (unat len) [] r1 = Some (x, r)"
    by (auto simp: get_map_def bind_Some_pair)
  then show ?case
    using u64.get_append [OF *(1), of e] get_map_loop_append [OF *(2) assms, of e]
    by (simp add: get_map_def)
qed

lemma get_set_loop_put:
  assumes "codec p g w" "\<forall>x \<in> set s. w x" "distinct (acc @ s)" "len = length (acc @ s)"
  shows "get_set_loop g len acc (concat (map p s) @ r) = Some (acc @ s, r)"
  using assms(2-4)
proof (induction s arbitrary: acc)
  case Nil
  then show ?case
    by (subst get_set_loop.simps) simp
next
  case (Cons x s)
  have "get_set_loop g len (acc @ [x]) (concat (map p s) @ r) = Some ((acc @ [x]) @ s, r)"
    using Cons.prems by (intro Cons.IH) auto
  then show ?case
    using Cons.prems
    by (subst get_set_loop.simps) (simp add: codec.get_put [OF assms(1)] insert_item_def)
qed

lemma get_set_loop_append:
  assumes "get_set_loop g len s bs = Some y" "codec p g w"
  shows "get_set_loop g len s (bs @ e) = Some (fst y, snd y @ e)"
proof (rule get_set_loop.raw_induct [where P = "\<lambda>g len s bs y. codec p g w \<longrightarrow>
    get_set_loop g len s (bs @ e) = Some (fst y, snd y @ e)", rule_format, OF _ assms], goal_cases)
  case (1 loop g len s bs y)
  show ?case
  proof (cases "length s < len")
    case False
    then show ?thesis
      using 1(2) by (subst get_set_loop.simps) auto
  next
    case True
    then obtain x r where x: "g bs = Some (x, r)" and y: "loop g len (insert_item x s) r = Some y"
      using 1(2) by (auto split: option.splits)
    show ?thesis
      using True 1(1) [OF y 1(3)] codec.get_append [OF 1(3) x, of e]
      by (subst get_set_loop.simps) simp
  qed
qed

lemma codec_unordered_set:
  assumes "codec p g w"
  shows "codec (put_set p) (get_unordered_set g) (wf_set w)"
proof (standard, goal_cases)
  case (1 x r)
  then show ?case
    by (simp add: put_set_def get_unordered_set_def wf_set_def u64.get_put unat_length_u64
        get_set_loop_put [OF assms, where acc = "[]", simplified])
next
  case (2 bs x r e)
  then obtain len r1 where *: "get_u64 bs = Some (len, r1)"
    "get_set_loop g (unat len) [] r1 = Some (x, r)"
    by (auto simp: get_unordered_set_def bind_Some_pair)
  then show ?case
    using u64.get_append [OF *(1), of e] get_set_loop_append [OF *(2) assms, of e]
    by (simp add: get_unordered_set_def)
qed

lemma foldl_insert_item: "distinct (acc @ xs) \<Longrightarrow> foldl (\<lambda>s x. insert_item x s) acc xs = acc @ xs"
  by (induction xs arbitrary: acc) (auto simp: insert_item_def)

lemma codec_ordered_set:
  assumes "codec p g w"
  shows "codec (put_set p) (get_ordered_set g) (wf_set w)"
proof (standard, goal_cases)
  case (1 x r)
  then show ?case
    by (simp add: put_set_def get_ordered_set_def wf_set_def u64.get_put unat_length_u64
        get_many_put [OF assms] foldl_insert_item)
next
  case (2 bs x r e)
  then obtain len r1 xs where *: "get_u64 bs = Some (len, r1)" "get_many g (unat len) r1 = Some (xs, r)"
    and "x = foldl (\<lambda>s x. insert_item x s) [] xs"
    by (auto simp: get_ordered_set_def bind_Some_pair)
  then show ?case
    using u64.get_append [OF *(1), of e] get_many_append [OF assms *(2), of e]
    by (simp add: get_ordered_set_def)
qed

subsection \<open>Records\<close>

text \<open>
  A record is written and read like the tuple of its fields: \<open>f\<close> takes it apart and \<open>c\<close>
  builds it.
\<close>

lemma codec_record:
  assumes "codec p g w"
    and "\<And>x. put x = p (f x)"
    and "\<And>bs. get bs = map_option (\<lambda>(y, r). (c y, r)) (g bs)"
    and "\<And>x. c (f x) = x" and "\<And>x. ok x \<longleftrightarrow> w (f x)"
  shows "codec put get ok"
proof (standard, goal_cases)
  case (1 x r)
  then show ?case
    by (simp add: assms(2-5) codec.get_put [OF assms(1)])
next
  case (2 bs x r e)
  then obtain y where "g bs = Some (y, r)" "x = c y"
    by (auto simp: assms(3))
  then show ?case
    using codec.get_append [OF assms(1), of bs y r e] by (simp add: assms(3))
qed

lemma strict_codec_record:
  assumes "strict_codec p g w"
    and "\<And>x. put x = p (f x)"
    and "\<And>bs. get bs = map_option (\<lambda>(y, r). (c y, r)) (g bs)"
    and "\<And>x. c (f x) = x" and "\<And>y. f (c y) = y" and "\<And>x. ok x \<longleftrightarrow> w (f x)"
  shows "strict_codec put get ok"
proof (intro strict_codec.intro strict_codec_axioms.intro, goal_cases)
  case 1
  show ?case
  proof (rule codec_record [where p = p and g = g and w = w and f = f and c = c])
    show "codec p g w"
      using assms(1) by (simp add: strict_codec_def)
  qed (rule assms)+
next
  case (2 bs x r)
  then obtain y where "g bs = Some (y, r)" "x = c y"
    by (auto simp: assms(3))
  then show ?case
    using strict_codec.get_exact [OF assms(1), of bs y r] by (simp add: assms)
qed

section \<open>The serializer objects\<close>

lemma foldl_ss_write:
  "ss_cursor (foldl ss_write s writes) = ss_cursor s + word_of_nat (length (concat writes))"
  by (induction writes arbitrary: s) (simp_all add: ss_write_def)

lemma serialized_size_length:
  "length (concat writes) < 2 ^ 64 \<Longrightarrow> unat (serialized_size writes) = length (concat writes)"
  by (simp add: serialized_size_def foldl_ss_write size_serializer_init_def unat_length_u64
      del: length_concat of_nat_sum)

text \<open>
  The part of the buffer behind the cursor has been written; a write that fits replaces the
  bytes at the cursor and moves on, without extending the buffer.
\<close>

definition bs_at :: "buffer_serializer \<Rightarrow> byte list \<Rightarrow> byte list \<Rightarrow> bool" where
  "bs_at s before after \<longleftrightarrow> m_pkt s = before @ after \<and> m_cursor s = word_of_nat (length before) \<and>
     length before + length after < 2 ^ 64"

lemma word_of_nat_less_u64:
  "m < 2 ^ 64 \<Longrightarrow> n < 2 ^ 64 \<Longrightarrow> (word_of_nat m :: u64) < word_of_nat n \<longleftrightarrow> m < n"
  by (simp add: word_less_nat_alt unat_of_nat)

lemma bs_write_fits:
  assumes "bs_at s before after" "length d \<le> length after"
  shows "bs_at (bs_write s d) (before @ d) (drop (length d) after)"
proof -
  have len: "length before + length d < 2 ^ 64" "length before < 2 ^ 64"
    "length before + length after < 2 ^ 64"
    using assms by (auto simp: bs_at_def)
  have "\<not> (word_of_nat (length before + length after) :: u64) < word_of_nat (length before + length d)"
    using assms(2) len by (subst word_of_nat_less_u64) auto
  then have "m_pkt (bs_write s d) = overwrite (before @ after) (length before) d"
    using assms(1) len by (simp add: bs_write_def Let_def bs_at_def unat_of_nat)
  moreover have "m_cursor (bs_write s d) = word_of_nat (length (before @ d))"
    using assms(1) by (simp add: bs_at_def bs_write_def Let_def)
  ultimately show ?thesis
    using assms len by (simp add: bs_at_def overwrite_def)
qed

lemma foldl_bs_write_fits:
  assumes "bs_at s before after" "length (concat writes) \<le> length after"
  shows "bs_at (foldl bs_write s writes) (before @ concat writes) (drop (length (concat writes)) after)"
  using assms
proof (induction writes arbitrary: s before after)
  case (Cons d ds)
  have "bs_at (bs_write s d) (before @ d) (drop (length d) after)"
    using Cons.prems by (intro bs_write_fits) auto
  then show ?case
    using Cons.IH [of "bs_write s d" "before @ d" "drop (length d) after"] Cons.prems(2)
    by (simp add: add.commute)
qed simp

lemma make_buffer_concat:
  assumes "length (concat writes) < 2 ^ 64"
  shows "make_buffer writes = concat writes"
proof -
  let ?n = "length (concat writes)"
  have "bs_at (buffer_serializer_init (buffer_extend [] ?n)) [] (replicate ?n 0)"
    using assms by (simp add: bs_at_def buffer_serializer_init_def buffer_extend_def)
  then have "bs_at (foldl bs_write (buffer_serializer_init (buffer_extend [] ?n)) writes)
      (concat writes) []"
    using foldl_bs_write_fits [of _ "[]" "replicate ?n 0" writes] by simp
  then show ?thesis
    by (simp add: make_buffer_def serialized_size_length [OF assms] bs_at_def)
qed

text \<open>
  Reads of the \<open>buffer_serializer\<close> agree with \<^const>\<open>get_bytes\<close> on the bytes after the cursor,
  as long as the cursor arithmetic does not wrap; a failed read leaves the cursor and makes
  the stream invalid.
\<close>

lemma bs_read_get_bytes:
  assumes "bs_at s before after" "length before + unat n < 2 ^ 64"
  shows "case get_bytes (unat n) after of
      None \<Rightarrow> bs_read s n = (None, s\<lparr>m_valid := False\<rparr>)
    | Some (d, r) \<Rightarrow> \<exists>s'. bs_read s n = (Some d, s') \<and> bs_at s' (before @ d) r \<and>
        m_valid s' = m_valid s"
proof -
  have n: "n = word_of_nat (unat n)" by simp
  have pos: "m_cursor s + n = word_of_nat (length before + unat n)"
    using assms(1) by (simp add: bs_at_def)
  have "(word_of_nat (length (m_pkt s)) :: u64) < m_cursor s + n \<longleftrightarrow> length after < unat n"
    unfolding pos using assms by (subst word_of_nat_less_u64) (auto simp: bs_at_def)
  then show ?thesis
    using assms unfolding get_bytes_def bs_read_def
    by (auto simp: bs_at_def unat_of_nat)
qed

text \<open>For every object, whatever sequence of writes its \<open>operator<<\<close> performs,
  \<open>serialized_size\<close> is the exact number of bytes and \<open>make_buffer\<close>, which sizes the buffer by
  it first and then overwrites it through a \<open>buffer_serializer\<close>, returns exactly the
  concatenated writes: nothing is truncated, left over or reordered.\<close>

theorem make_buffer_exact:
  assumes "length (concat writes) < 2 ^ 64"
  shows "unat (serialized_size writes) = length (concat writes) \<and> make_buffer writes = concat writes"
  using serialized_size_length [OF assms] make_buffer_concat [OF assms] by simp

theorem make_buffer_exact_witness:
  "unat (serialized_size [[1, 2], [], [3]]) = 3 \<and> make_buffer [[1, 2], [], [3]] = [1, 2, 3]"
  using make_buffer_exact [of "[[1, 2], [], [3]]"] by simp

end
