(* ===== verification/Transaction.thy ===== *)
theory Transaction
  imports Sha256 Serialization
begin

text \<open>
  Transactions (\<open>uhs/transaction/transaction.cpp\<close>) and their wire formats
  (\<open>uhs/transaction/messages.cpp\<close>). A \<open>full_tx\<close> has inputs, outputs and witnesses; a
  \<open>compact_tx\<close> has only the hashes that the transaction processor needs. The lemmas show the
  round trips of the formats, that the UHS identifier a transaction creates for an output is
  the hash under which the output is later spent, and what the identifiers commit to: equal
  identifiers mean equal data, unless two explicit inputs of SHA-256 collide.
  The library libsecp256k1 is a parameter, the record \<open>secp256k1\<close>.
\<close>

section \<open>Data\<close>

record out_point =
  m_tx_id :: hash_t
  m_index :: u64

record tx_output =
  m_witness_program_commitment :: hash_t
  m_value :: u64

record input =
  m_prevout :: out_point
  m_prevout_data :: tx_output

record full_tx =
  m_inputs :: "input list"
  m_outputs :: "tx_output list"
  m_witness :: "witness_t list"

type_synonym sentinel_attestation = "pubkey_t \<times> signature_t"

text \<open>The fields of \<open>compact_tx\<close>; its \<open>m_inputs\<close> is \<open>c_inputs\<close> here. The attestations are an
  \<open>unordered_map\<close>, as the list of its entries.\<close>

record compact_tx =
  m_id :: hash_t
  c_inputs :: "hash_t list"
  m_uhs_outputs :: "hash_t list"
  m_attestations :: "sentinel_attestation list"

text \<open>
  The functions of libsecp256k1 that the sources call. \<open>keypair_xonly_pub\<close> stands for creating a
  key pair and serializing its x-only public key, \<open>None\<close> for a key that is not valid.
\<close>

record secp256k1 =
  xonly_pubkey_parse :: "pubkey_t \<Rightarrow> bool"
  schnorrsig_verify :: "signature_t \<Rightarrow> hash_t \<Rightarrow> pubkey_t \<Rightarrow> bool"
  keypair_xonly_pub :: "privkey_t \<Rightarrow> pubkey_t option"
  schnorrsig_sign :: "hash_t \<Rightarrow> privkey_t \<Rightarrow> signature_t"

section \<open>Wire formats\<close>

definition put_out_point :: "out_point putter" where
  "put_out_point op = put_array (m_tx_id op) @ put_u64 (m_index op)"

definition get_out_point :: "out_point getter" where
  "get_out_point bs = do {
     (h, r) \<leftarrow> get_array hash_size bs;
     (i, r) \<leftarrow> get_u64 r;
     Some (\<lparr>m_tx_id = h, m_index = i\<rparr>, r) }"

definition put_output :: "tx_output putter" where
  "put_output out = put_array (m_witness_program_commitment out) @ put_u64 (m_value out)"

definition get_output :: "tx_output getter" where
  "get_output bs = do {
     (h, r) \<leftarrow> get_array hash_size bs;
     (v, r) \<leftarrow> get_u64 r;
     Some (\<lparr>m_witness_program_commitment = h, m_value = v\<rparr>, r) }"

definition put_input :: "input putter" where
  "put_input inp = put_out_point (m_prevout inp) @ put_output (m_prevout_data inp)"

definition get_input :: "input getter" where
  "get_input bs = do {
     (op, r) \<leftarrow> get_out_point bs;
     (out, r) \<leftarrow> get_output r;
     Some (\<lparr>m_prevout = op, m_prevout_data = out\<rparr>, r) }"

text \<open>The sizes of the element types, which fix the reservation steps of the vector readers.\<close>

definition sizeof_input :: nat where "sizeof_input = 80"
definition sizeof_output :: nat where "sizeof_output = 40"
definition sizeof_vector :: nat where "sizeof_vector = 24"
definition sizeof_compact_tx :: nat where "sizeof_compact_tx = 136"

definition put_inputs :: "input list putter" where
  "put_inputs = put_vector put_input"

definition put_outputs :: "tx_output list putter" where
  "put_outputs = put_vector put_output"

definition put_witnesses :: "witness_t list putter" where
  "put_witnesses = put_vector (put_vector put_u8)"

definition get_inputs :: "input list getter" where
  "get_inputs = get_vector sizeof_input get_input"

definition get_outputs :: "tx_output list getter" where
  "get_outputs = get_vector sizeof_output get_output"

definition get_witnesses :: "witness_t list getter" where
  "get_witnesses = get_vector sizeof_vector (get_vector 1 get_u8)"

definition put_full_tx :: "full_tx putter" where
  "put_full_tx tx = put_inputs (m_inputs tx) @ put_outputs (m_outputs tx) @ put_witnesses (m_witness tx)"

definition get_full_tx :: "full_tx getter" where
  "get_full_tx bs = do {
     (ins, r) \<leftarrow> get_inputs bs;
     (outs, r) \<leftarrow> get_outputs r;
     (wits, r) \<leftarrow> get_witnesses r;
     Some (\<lparr>m_inputs = ins, m_outputs = outs, m_witness = wits\<rparr>, r) }"

definition put_hashes :: "hash_t list putter" where
  "put_hashes = put_vector put_array"

definition get_hashes :: "hash_t list getter" where
  "get_hashes = get_vector hash_size (get_array hash_size)"

definition put_attestations :: "sentinel_attestation list putter" where
  "put_attestations = put_map put_array put_array"

definition get_attestations :: "sentinel_attestation list getter" where
  "get_attestations = get_map (get_array pubkey_len) (get_array sig_len)"

definition put_compact_tx :: "compact_tx putter" where
  "put_compact_tx tx = put_array (m_id tx) @ put_hashes (c_inputs tx) @ put_hashes (m_uhs_outputs tx)
     @ put_attestations (m_attestations tx)"

definition get_compact_tx :: "compact_tx getter" where
  "get_compact_tx bs = do {
     (i, r) \<leftarrow> get_array hash_size bs;
     (ins, r) \<leftarrow> get_hashes r;
     (outs, r) \<leftarrow> get_hashes r;
     (atts, r) \<leftarrow> get_attestations r;
     Some (\<lparr>m_id = i, c_inputs = ins, m_uhs_outputs = outs, m_attestations = atts\<rparr>, r) }"

section \<open>Identifiers\<close>

text \<open>A new \<open>CSHA256\<close>, one \<open>Write\<close> per item, then \<open>Finalize\<close>.\<close>

definition sha_writes :: "byte list list \<Rightarrow> hash_t" where
  "sha_writes ds = Finalize (foldl Write (CSHA256 (replicate 64 0)) ds)"

definition input_hash :: "input \<Rightarrow> hash_t" where
  "input_hash inp = sha_writes [put_input inp]"

definition tx_id :: "full_tx \<Rightarrow> hash_t" where
  "tx_id tx = sha_writes [put_inputs (m_inputs tx), put_outputs (m_outputs tx)]"

definition input_from_output_id :: "full_tx \<Rightarrow> nat \<Rightarrow> hash_t \<Rightarrow> input option" where
  "input_from_output_id tx i txid =
    (if length (m_outputs tx) \<le> i then None
     else Some \<lparr>m_prevout = \<lparr>m_tx_id = txid, m_index = word_of_nat i\<rparr>,
                m_prevout_data = m_outputs tx ! i\<rparr>)"

definition input_from_output :: "full_tx \<Rightarrow> nat \<Rightarrow> input option" where
  "input_from_output tx i = input_from_output_id tx i (tx_id tx)"

definition uhs_id_from_output :: "hash_t \<Rightarrow> u64 \<Rightarrow> tx_output \<Rightarrow> hash_t" where
  "uhs_id_from_output entropy i out = sha_writes [entropy, le_bytes 8 (unat i), put_output out]"

definition compact_tx_of :: "full_tx \<Rightarrow> compact_tx" where
  "compact_tx_of tx =
    (let txid = tx_id tx in
     \<lparr>m_id = txid,
      c_inputs = map input_hash (m_inputs tx),
      m_uhs_outputs = map (\<lambda>i. uhs_id_from_output txid (word_of_nat i) (m_outputs tx ! i))
                        [0..<length (m_outputs tx)],
      m_attestations = []\<rparr>)"

definition compact_tx_eq :: "compact_tx \<Rightarrow> compact_tx \<Rightarrow> bool" where
  "compact_tx_eq a b \<longleftrightarrow> m_id a = m_id b"

definition compact_tx_hash :: "compact_tx \<Rightarrow> hash_t" where
  "compact_tx_hash tx = sha_writes [put_compact_tx (tx\<lparr>m_attestations := []\<rparr>)]"

definition pubkey_from_privkey :: "secp256k1 \<Rightarrow> privkey_t \<Rightarrow> pubkey_t option" where
  "pubkey_from_privkey S sk = keypair_xonly_pub S sk"

text \<open>\<open>None\<close> is the failed assertion of a private key that is not valid.\<close>

definition compact_tx_sign :: "secp256k1 \<Rightarrow> compact_tx \<Rightarrow> privkey_t \<Rightarrow> sentinel_attestation option" where
  "compact_tx_sign S tx key = do {
     pubkey \<leftarrow> pubkey_from_privkey S key;
     Some (pubkey, schnorrsig_sign S (compact_tx_hash tx) key) }"

definition compact_tx_verify :: "secp256k1 \<Rightarrow> compact_tx \<Rightarrow> sentinel_attestation \<Rightarrow> bool" where
  "compact_tx_verify S tx att \<longleftrightarrow>
     xonly_pubkey_parse S (fst att) \<and>
     schnorrsig_verify S (snd att) (compact_tx_hash tx) (fst att)"

section \<open>The formats are codecs\<close>

definition wf_out_point :: "out_point \<Rightarrow> bool" where
  "wf_out_point op \<longleftrightarrow> is_hash (m_tx_id op)"

definition wf_output :: "tx_output \<Rightarrow> bool" where
  "wf_output out \<longleftrightarrow> is_hash (m_witness_program_commitment out)"

definition wf_input :: "input \<Rightarrow> bool" where
  "wf_input inp \<longleftrightarrow> wf_out_point (m_prevout inp) \<and> wf_output (m_prevout_data inp)"

definition wf_full_tx :: "full_tx \<Rightarrow> bool" where
  "wf_full_tx tx \<longleftrightarrow> wf_vector wf_input (m_inputs tx) \<and> wf_vector wf_output (m_outputs tx) \<and>
     wf_vector (wf_vector (\<lambda>_. True)) (m_witness tx)"

definition wf_compact_tx :: "compact_tx \<Rightarrow> bool" where
  "wf_compact_tx tx \<longleftrightarrow> is_hash (m_id tx) \<and> wf_vector (is_array hash_size) (c_inputs tx) \<and>
     wf_vector (is_array hash_size) (m_uhs_outputs tx) \<and>
     wf_map (is_array pubkey_len) (is_array sig_len) (m_attestations tx)"

lemma map_option_bind: "map_option f (x \<bind> g) = x \<bind> (\<lambda>y. map_option f (g y))"
  by (cases x) auto

lemmas record_format = put_pair_def get_pair_def map_option_bind case_prod_unfold

interpretation out_point: strict_codec put_out_point get_out_point wf_out_point
  by (rule strict_codec_record [OF strict_codec_pair [OF hash.strict_codec_axioms u64.strict_codec_axioms],
        where f = "\<lambda>x. (m_tx_id x, m_index x)" and c = "\<lambda>(h, i). \<lparr>m_tx_id = h, m_index = i\<rparr>"])
     (auto simp: put_out_point_def get_out_point_def wf_out_point_def record_format)

interpretation output_fmt: strict_codec put_output get_output wf_output
  by (rule strict_codec_record [OF strict_codec_pair [OF hash.strict_codec_axioms u64.strict_codec_axioms],
        where f = "\<lambda>x. (m_witness_program_commitment x, m_value x)"
          and c = "\<lambda>(h, v). \<lparr>m_witness_program_commitment = h, m_value = v\<rparr>"])
     (auto simp: put_output_def get_output_def wf_output_def record_format)

interpretation input_fmt: strict_codec put_input get_input wf_input
  by (rule strict_codec_record
        [OF strict_codec_pair [OF out_point.strict_codec_axioms output_fmt.strict_codec_axioms],
        where f = "\<lambda>x. (m_prevout x, m_prevout_data x)"
          and c = "\<lambda>(p, d). \<lparr>m_prevout = p, m_prevout_data = d\<rparr>"])
     (auto simp: put_input_def get_input_def wf_input_def record_format)

lemmas sizeof_defs = sizeof_compact_tx_def sizeof_input_def sizeof_output_def sizeof_vector_def maximum_reservation_def
  hash_size_def

interpretation inputs_fmt: strict_codec put_inputs get_inputs "wf_vector wf_input"
  unfolding put_inputs_def get_inputs_def
  by (rule strict_codec_vector [OF input_fmt.strict_codec_axioms]) (simp_all add: sizeof_defs)

interpretation outputs_fmt: strict_codec put_outputs get_outputs "wf_vector wf_output"
  unfolding put_outputs_def get_outputs_def
  by (rule strict_codec_vector [OF output_fmt.strict_codec_axioms]) (simp_all add: sizeof_defs)

interpretation witnesses_fmt: strict_codec put_witnesses get_witnesses
  "wf_vector (wf_vector (\<lambda>_. True))"
  unfolding put_witnesses_def get_witnesses_def
  by (rule strict_codec_vector [OF strict_codec_vector [OF u8.strict_codec_axioms]])
     (simp_all add: sizeof_defs)

interpretation full_tx_fmt: strict_codec put_full_tx get_full_tx wf_full_tx
  by (rule strict_codec_record
        [OF strict_codec_pair [OF inputs_fmt.strict_codec_axioms
          strict_codec_pair [OF outputs_fmt.strict_codec_axioms witnesses_fmt.strict_codec_axioms]],
        where f = "\<lambda>x. (m_inputs x, m_outputs x, m_witness x)"
          and c = "\<lambda>(i, out, w). \<lparr>m_inputs = i, m_outputs = out, m_witness = w\<rparr>"])
     (auto simp: put_full_tx_def get_full_tx_def wf_full_tx_def record_format)

interpretation hashes_fmt: strict_codec put_hashes get_hashes "wf_vector (is_array hash_size)"
  unfolding put_hashes_def get_hashes_def
  by (rule strict_codec_vector [OF hash.strict_codec_axioms]) (simp_all add: sizeof_defs)

interpretation attestations_fmt: codec put_attestations get_attestations
  "wf_map (is_array pubkey_len) (is_array sig_len)"
  unfolding put_attestations_def get_attestations_def
  by (intro codec_map strict_codec.axioms(1) [OF strict_codec_array])

interpretation compact_tx_fmt: codec put_compact_tx get_compact_tx wf_compact_tx
  by (rule codec_record
        [OF codec_pair [OF hash.codec_axioms codec_pair [OF hashes_fmt.codec_axioms
          codec_pair [OF hashes_fmt.codec_axioms attestations_fmt.codec_axioms]]],
        where f = "\<lambda>x. (m_id x, c_inputs x, m_uhs_outputs x, m_attestations x)"
          and c = "\<lambda>(h, i, out, a). \<lparr>m_id = h, c_inputs = i, m_uhs_outputs = out, m_attestations = a\<rparr>"])
     (auto simp: put_compact_tx_def get_compact_tx_def wf_compact_tx_def record_format)

section \<open>What the identifiers commit to\<close>

lemma sha_writes_sha256: "sha_writes ds = sha256 (concat ds)"
  unfolding sha_writes_def
  using Finalize_sha256 [OF Write_list_repr [OF sha_repr_init, of "replicate 64 0" ds]] by simp

lemma is_hash_sha_writes [simp]: "is_hash (sha_writes ds)"
  by (simp add: sha_writes_sha256 size_defs)

text \<open>Two different byte strings with the same SHA-256 digest.\<close>

definition sha_collision :: "byte list \<Rightarrow> byte list \<Rightarrow> bool" where
  "sha_collision x y \<longleftrightarrow> x \<noteq> y \<and> sha256 x = sha256 y"

lemma sha256_eq_cases: "sha256 x = sha256 y \<Longrightarrow> x = y \<or> sha_collision x y"
  by (auto simp: sha_collision_def)

lemma uhs_id_input_hash:
  "uhs_id_from_output h i out =
     input_hash \<lparr>m_prevout = \<lparr>m_tx_id = h, m_index = i\<rparr>, m_prevout_data = out\<rparr>"
  by (simp add: uhs_id_from_output_def input_hash_def sha_writes_sha256 put_input_def
      put_out_point_def put_array_def put_u64_def)

lemma uhs_output_nth:
  "i < length (m_outputs tx) \<Longrightarrow>
     m_uhs_outputs (compact_tx_of tx) ! i = uhs_id_from_output (tx_id tx) (word_of_nat i) (m_outputs tx ! i)"
  by (simp add: compact_tx_of_def Let_def)

lemma length_uhs_outputs [simp]: "length (m_uhs_outputs (compact_tx_of tx)) = length (m_outputs tx)"
  by (simp add: compact_tx_of_def Let_def)

lemma input_hash_inject:
  assumes "input_hash a = input_hash b" "wf_input a" "wf_input b"
  shows "a = b \<or> sha_collision (put_input a) (put_input b)"
  using assms sha256_eq_cases [of "put_input a" "put_input b"]
  by (auto simp: input_hash_def sha_writes_sha256 input_fmt.put_inject)

lemma tx_id_inject:
  assumes "tx_id a = tx_id b" "wf_full_tx a" "wf_full_tx b"
  shows "(m_inputs a = m_inputs b \<and> m_outputs a = m_outputs b) \<or>
    sha_collision (put_inputs (m_inputs a) @ put_outputs (m_outputs a))
                  (put_inputs (m_inputs b) @ put_outputs (m_outputs b))"
proof -
  have "put_inputs (m_inputs a) @ put_outputs (m_outputs a) =
      put_inputs (m_inputs b) @ put_outputs (m_outputs b) \<Longrightarrow>
      m_inputs a = m_inputs b \<and> put_outputs (m_outputs a) = put_outputs (m_outputs b)"
    using assms(2,3) by (intro inputs_fmt.put_inject_append) (auto simp: wf_full_tx_def)
  then show ?thesis
    using assms sha256_eq_cases [of "put_inputs (m_inputs a) @ put_outputs (m_outputs a)"
        "put_inputs (m_inputs b) @ put_outputs (m_outputs b)"]
    by (auto simp: tx_id_def sha_writes_sha256 wf_full_tx_def outputs_fmt.put_inject)
qed

lemma sha_collision_inputs:
  assumes "input_hash a = input_hash b" "wf_input a" "wf_input b" "a \<noteq> b"
  shows "sha_collision (put_input a) (put_input b)"
  using input_hash_inject [OF assms(1-3)] assms(4) by simp

lemma wf_input_from_output:
  "wf_full_tx tx \<Longrightarrow> input_from_output tx i = Some inp \<Longrightarrow> wf_input inp"
  by (auto simp: input_from_output_def input_from_output_id_def wf_input_def wf_out_point_def
      tx_id_def wf_full_tx_def wf_vector_def split: if_splits)

lemma input_from_output_inject:
  assumes "wf_full_tx tx" "input_from_output tx i = Some inp" "input_from_output tx j = Some inp"
  shows "i = j"
proof -
  have "i < 2 ^ 64" "j < 2 ^ 64" "(word_of_nat i :: u64) = word_of_nat j"
    using assms by (auto simp: input_from_output_def input_from_output_id_def wf_full_tx_def
        wf_vector_def split: if_splits)
  then show ?thesis
    by (simp add: word_unat_eq_iff unat_of_nat)
qed

lemma uhs_output_input_hash:
  "map_option input_hash (input_from_output tx i) =
    (if i < length (m_outputs tx) then Some (m_uhs_outputs (compact_tx_of tx) ! i) else None)"
  by (simp add: input_from_output_def input_from_output_id_def uhs_output_nth uhs_id_input_hash)

section \<open>Properties\<close>

text \<open>C12: The wire format of a full transaction is exact in both directions: reading bytes
  yields a transaction and a rest if and only if the transaction is well formed and the
  bytes are its serialization followed by the rest. So a serialized transaction is read
  back unchanged, truncated bytes are rejected, and no transaction has two encodings, with
  the reservation loop of the vector reader included.\<close>

theorem full_tx_format_exact:
  "get_full_tx bs = Some (tx, r) \<longleftrightarrow> wf_full_tx tx \<and> bs = put_full_tx tx @ r"
  by (rule full_tx_fmt.get_iff)

text \<open>C15: A compact transaction, attestations included, is read back unchanged from its
  serialization, whatever follows, and every proper prefix of the serialization is
  rejected.\<close>

theorem compact_tx_round_trip:
  assumes "wf_compact_tx tx"
  shows "get_compact_tx (put_compact_tx tx @ r) = Some (tx, r) \<and>
    (\<forall>k < length (put_compact_tx tx). get_compact_tx (take k (put_compact_tx tx)) = None)"
  using compact_tx_fmt.get_put [OF assms] compact_tx_fmt.truncated_rejected [OF assms] by simp

theorem compact_tx_round_trip_witness:
  "let tx = \<lparr>m_id = replicate 32 1, c_inputs = [replicate 32 2], m_uhs_outputs = [],
             m_attestations = [(replicate 32 3, replicate 64 4)]\<rparr>
   in get_compact_tx (put_compact_tx tx @ [9]) = Some (tx, [9])"
  using compact_tx_round_trip [of "\<lparr>m_id = replicate 32 1, c_inputs = [replicate 32 2],
      m_uhs_outputs = [], m_attestations = [(replicate 32 3, replicate 64 4)]\<rparr>" "[9]"]
  by (simp add: wf_compact_tx_def wf_vector_def wf_map_def size_defs Let_def)

text \<open>C13: The UHS identifier that the compact transaction creates for output \<open>i\<close> is the hash of
  the input by which output \<open>i\<close> is spent later, so the identifier a spending transaction
  removes is the one the creating transaction added, although the two are computed by
  different functions (\<open>uhs_id_from_output\<close> and \<open>input::hash\<close>); an index out of range has no
  input.\<close>

theorem uhs_output_spendable:
  "map_option input_hash (input_from_output tx i) =
    (if i < length (m_outputs tx) then Some (m_uhs_outputs (compact_tx_of tx) ! i) else None)"
  by (rule uhs_output_input_hash)

text \<open>C14: A transaction identifier commits to all inputs and outputs: two well-formed
  transactions with the same identifier have the same inputs and outputs and the same
  compact transaction, or their serializations are an explicit SHA-256 collision. The
  witnesses are not part of the identifier.\<close>

theorem tx_id_binding:
  assumes "wf_full_tx a" "wf_full_tx b" "tx_id a = tx_id b"
  shows "(m_inputs a = m_inputs b \<and> m_outputs a = m_outputs b \<and> compact_tx_of a = compact_tx_of b) \<or>
    sha_collision (put_inputs (m_inputs a) @ put_outputs (m_outputs a))
                  (put_inputs (m_inputs b) @ put_outputs (m_outputs b))"
  using tx_id_inject [OF assms(3,1,2)] by (auto simp: compact_tx_of_def assms(3))

theorem tx_id_binding_witness:
  "let out = \<lparr>m_witness_program_commitment = replicate 32 1, m_value = 5\<rparr>;
       a = \<lparr>m_inputs = [], m_outputs = [out], m_witness = [[1]]\<rparr>;
       b = \<lparr>m_inputs = [], m_outputs = [out], m_witness = [[2, 3]]\<rparr>
   in a \<noteq> b \<and> (compact_tx_of a = compact_tx_of b \<or>
     sha_collision (put_inputs (m_inputs a) @ put_outputs (m_outputs a))
                   (put_inputs (m_inputs b) @ put_outputs (m_outputs b)))"
proof -
  define out where "out = \<lparr>m_witness_program_commitment = replicate 32 1 :: byte list, m_value = 5 :: u64\<rparr>"
  have "wf_output out"
    by (simp add: out_def wf_output_def size_defs)
  then show ?thesis
    using tx_id_binding [of "\<lparr>m_inputs = [], m_outputs = [out], m_witness = [[1]]\<rparr>"
        "\<lparr>m_inputs = [], m_outputs = [out], m_witness = [[2, 3]]\<rparr>"]
    by (auto simp: wf_full_tx_def wf_vector_def tx_id_def Let_def simp flip: out_def)
qed

text \<open>The UHS identifiers that one well-formed transaction creates are pairwise
  different, even for identical outputs, unless two of its spending inputs are an explicit
  SHA-256 collision.\<close>

theorem uhs_outputs_distinct:
  assumes "wf_full_tx tx"
  shows "distinct (m_uhs_outputs (compact_tx_of tx)) \<or>
    (\<exists>i j a b. i \<noteq> j \<and> input_from_output tx i = Some a \<and> input_from_output tx j = Some b \<and>
       sha_collision (put_input a) (put_input b))"
proof (cases "distinct (m_uhs_outputs (compact_tx_of tx))")
  case False
  then obtain i j where ij: "i \<noteq> j" "i < length (m_outputs tx)" "j < length (m_outputs tx)"
    "m_uhs_outputs (compact_tx_of tx) ! i = m_uhs_outputs (compact_tx_of tx) ! j"
    by (auto simp: distinct_conv_nth)
  then obtain a b where ab: "input_from_output tx i = Some a" "input_from_output tx j = Some b"
    "input_hash a = input_hash b"
    using uhs_output_input_hash [of tx i] uhs_output_input_hash [of tx j] by auto
  moreover have "a \<noteq> b"
    using input_from_output_inject [OF assms] ab ij(1) by blast
  ultimately have "sha_collision (put_input a) (put_input b)"
    using wf_input_from_output [OF assms] by (intro sha_collision_inputs) auto
  then show ?thesis
    using ij(1) ab by blast
qed simp

theorem uhs_outputs_distinct_witness:
  "let out = \<lparr>m_witness_program_commitment = replicate 32 1, m_value = 5\<rparr>;
       tx = \<lparr>m_inputs = [], m_outputs = [out, out], m_witness = []\<rparr>
   in distinct (m_uhs_outputs (compact_tx_of tx)) \<or>
     (\<exists>i j a b. i \<noteq> j \<and> input_from_output tx i = Some a \<and> input_from_output tx j = Some b \<and>
       sha_collision (put_input a) (put_input b))"
  unfolding Let_def
  by (rule uhs_outputs_distinct) (simp add: wf_full_tx_def wf_vector_def wf_output_def size_defs)

end
