(* ===== verification/Tx_Error.thy ===== *)
theory Tx_Error
  imports Transaction
begin

text \<open>
  The errors that shards and the atomizer report to the watchtowers
  (\<open>uhs/atomizer/watchtower/tx_error_messages.cpp\<close>) and their wire format. A variant is written
  as the index of its alternative in one byte, followed by the value; an index out of range
  fails an assertion of the reader, which is \<open>None\<close> here like an input that is too short.
\<close>

datatype tx_error_info =
  Error_sync
| Error_inputs_dne "hash_t list"
| Error_stxo_range
| Error_incomplete
| Error_inputs_spent "hash_t list"

record wt_error =
  e_tx_id :: hash_t
  e_info :: tx_error_info

definition wt_error_to_string :: "wt_error \<Rightarrow> string" where
  "wt_error_to_string e =
    (case e_info e of
       Error_sync \<Rightarrow> ''Shard is not synchronized with atomizer''
     | Error_inputs_dne _ \<Rightarrow> ''Input(s) do not exist''
     | Error_stxo_range \<Rightarrow> ''Transaction not in STXO Cache range''
     | Error_inputs_spent _ \<Rightarrow> ''Input(s) are already spent''
     | Error_incomplete \<Rightarrow> ''Did not receive attestations to all inputs before STXO cache expired'')"

text \<open>Two lists of spent inputs stand for the same unordered set if they have the same elements.\<close>

definition error_info_eq :: "tx_error_info \<Rightarrow> tx_error_info \<Rightarrow> bool" where
  "error_info_eq a b =
    (case (a, b) of
       (Error_inputs_spent x, Error_inputs_spent y) \<Rightarrow> set x = set y
     | _ \<Rightarrow> a = b)"

definition wt_error_eq :: "wt_error \<Rightarrow> wt_error \<Rightarrow> bool" where
  "wt_error_eq a b \<longleftrightarrow> e_tx_id b = e_tx_id a \<and> error_info_eq (e_info b) (e_info a)"

section \<open>Wire format\<close>

definition put_error_info :: "tx_error_info putter" where
  "put_error_info i =
    (case i of
       Error_sync \<Rightarrow> put_u8 0
     | Error_inputs_dne ids \<Rightarrow> put_u8 1 @ put_hashes ids
     | Error_stxo_range \<Rightarrow> put_u8 2
     | Error_incomplete \<Rightarrow> put_u8 3
     | Error_inputs_spent ids \<Rightarrow> put_u8 4 @ put_set put_array ids)"

definition get_error_info :: "tx_error_info getter" where
  "get_error_info bs = do {
     (idx, r) \<leftarrow> get_u8 bs;
     if idx = 0 then Some (Error_sync, r)
     else if idx = 1 then do { (ids, r) \<leftarrow> get_hashes r; Some (Error_inputs_dne ids, r) }
     else if idx = 2 then Some (Error_stxo_range, r)
     else if idx = 3 then Some (Error_incomplete, r)
     else if idx = 4 then do { (ids, r) \<leftarrow> get_unordered_set (get_array hash_size) r; Some (Error_inputs_spent ids, r) }
     else None }"

definition put_wt_error :: "wt_error putter" where
  "put_wt_error e = put_array (e_tx_id e) @ put_error_info (e_info e)"

definition get_wt_error :: "wt_error getter" where
  "get_wt_error bs = do {
     (i, r) \<leftarrow> get_array hash_size bs;
     (info, r) \<leftarrow> get_error_info r;
     Some (\<lparr>e_tx_id = i, e_info = info\<rparr>, r) }"

definition wf_error_info :: "tx_error_info \<Rightarrow> bool" where
  "wf_error_info i =
    (case i of
       Error_inputs_dne ids \<Rightarrow> wf_vector (is_array hash_size) ids
     | Error_inputs_spent ids \<Rightarrow> wf_set (is_array hash_size) ids
     | _ \<Rightarrow> True)"

definition wf_wt_error :: "wt_error \<Rightarrow> bool" where
  "wf_wt_error e \<longleftrightarrow> is_array hash_size (e_tx_id e) \<and> wf_error_info (e_info e)"

lemmas spent_set_codec = codec_unordered_set [OF hash.codec_axioms]

interpretation error_info_fmt: codec put_error_info get_error_info wf_error_info
proof (standard, goal_cases)
  case (1 x r)
  then show ?case
    by (cases x) (simp_all add: put_error_info_def get_error_info_def wf_error_info_def u8.get_put
        hashes_fmt.get_put codec.get_put [OF spent_set_codec])
next
  case (2 bs x r e)
  then obtain idx r1 where i: "get_u8 bs = Some (idx, r1)"
    by (auto simp: get_error_info_def bind_Some_pair)
  have e: "get_u8 (bs @ e) = Some (idx, r1 @ e)"
    by (rule u8.get_append [OF i])
  show ?case
    using 2 unfolding get_error_info_def i e
    by (auto simp: bind_Some_pair hashes_fmt.get_append codec.get_append [OF spent_set_codec] split: if_splits)
qed

interpretation wt_error_fmt: codec put_wt_error get_wt_error wf_wt_error
proof (standard, goal_cases)
  case (1 x r)
  then show ?case
    by (simp add: put_wt_error_def get_wt_error_def wf_wt_error_def hash.get_put error_info_fmt.get_put)
next
  case (2 bs x r e)
  then show ?case
    by (auto simp: get_wt_error_def bind_Some_pair hash.get_append error_info_fmt.get_append)
qed

end
