(* ===== verification/Validation.thy ===== *)
theory Validation
  imports Transaction
begin

text \<open>
  Static validation of transactions (\<open>uhs/transaction/validation.cpp\<close>): every check with its
  error code, in the order in which \<open>check_tx\<close> runs them, and the attestation check of the
  transaction processor. The main lemma characterises acceptance by a declarative predicate
  over unbounded integers; the 64-bit overflow guard of the code is exactly right once zero
  values have been excluded.
\<close>

section \<open>Errors\<close>

datatype input_error_code = duplicate | data_error

datatype output_error_code = zero_value

datatype witness_error_code =
    missing_witness_program_type
  | unknown_witness_program_type
  | malformed
  | program_mismatch
  | invalid_public_key
  | invalid_signature

datatype tx_error_code =
    no_inputs
  | no_outputs
  | missing_witness
  | asymmetric_values
  | value_overflow

text \<open>\<open>tx_error\<close>, a variant of the structs \<open>input_error\<close>, \<open>output_error\<close>, \<open>witness_error\<close> and
  of \<open>tx_error_code\<close>; the last field of each struct is the index \<open>m_idx\<close>.\<close>

datatype tx_error =
    Input_error input_error_code "output_error_code option" nat
  | Output_error output_error_code nat
  | Witness_error witness_error_code nat
  | Tx_error tx_error_code

definition p2pk :: byte where "p2pk = 0"

definition p2pk_witness_prog_len :: nat where
  "p2pk_witness_prog_len = 1 + pubkey_len"

definition p2pk_witness_len :: nat where
  "p2pk_witness_len = p2pk_witness_prog_len + sig_len"

section \<open>Checks\<close>

text \<open>A loop over a vector that returns at the first element with an error.\<close>

fun first_error :: "(nat \<Rightarrow> 'a \<Rightarrow> 'e option) \<Rightarrow> nat \<Rightarrow> 'a list \<Rightarrow> 'e option" where
  "first_error chk idx [] = None"
| "first_error chk idx (x # xs) =
    (case chk idx x of Some e \<Rightarrow> Some e | None \<Rightarrow> first_error chk (Suc idx) xs)"

definition check_input_count :: "full_tx \<Rightarrow> tx_error option" where
  "check_input_count tx = (if m_inputs tx = [] then Some (Tx_error no_inputs) else None)"

definition check_output_count :: "full_tx \<Rightarrow> tx_error option" where
  "check_output_count tx = (if m_outputs tx = [] then Some (Tx_error no_outputs) else None)"

definition check_witness_count :: "full_tx \<Rightarrow> tx_error option" where
  "check_witness_count tx =
    (if length (m_inputs tx) \<noteq> length (m_witness tx) then Some (Tx_error missing_witness) else None)"

fun check_input_set_loop :: "out_point set \<Rightarrow> nat \<Rightarrow> input list \<Rightarrow> tx_error option" where
  "check_input_set_loop inps idx [] = None"
| "check_input_set_loop inps idx (inp # rest) =
    (if m_prevout inp \<in> inps then Some (Input_error duplicate None idx)
     else check_input_set_loop (insert (m_prevout inp) inps) (Suc idx) rest)"

definition check_input_set :: "full_tx \<Rightarrow> tx_error option" where
  "check_input_set tx = check_input_set_loop {} 0 (m_inputs tx)"

definition check_tx_structure :: "full_tx \<Rightarrow> tx_error option" where
  "check_tx_structure tx =
    (case check_input_count tx of Some e \<Rightarrow> Some e | None \<Rightarrow>
     case check_output_count tx of Some e \<Rightarrow> Some e | None \<Rightarrow>
     case check_witness_count tx of Some e \<Rightarrow> Some e | None \<Rightarrow>
     case check_input_set tx of Some e \<Rightarrow> Some e | None \<Rightarrow> None)"

definition check_output_value :: "tx_output \<Rightarrow> output_error_code option" where
  "check_output_value out = (if m_value out < 1 then Some zero_value else None)"

definition check_input_structure ::
  "input \<Rightarrow> (input_error_code \<times> output_error_code option) option" where
  "check_input_structure inp =
    (case check_output_value (m_prevout_data inp) of
       Some e \<Rightarrow> Some (data_error, Some e)
     | None \<Rightarrow> None)"

text \<open>One of the two summation loops of \<open>check_in_out_set\<close>; \<open>None\<close> is \<open>value_overflow\<close>.\<close>

fun sum_values :: "u64 \<Rightarrow> u64 list \<Rightarrow> u64 option" where
  "sum_values t [] = Some t"
| "sum_values t (v # vs) = (if t + v \<le> t then None else sum_values (t + v) vs)"

definition check_in_out_set :: "full_tx \<Rightarrow> tx_error option" where
  "check_in_out_set tx =
    (case sum_values 0 (map (m_value \<circ> m_prevout_data) (m_inputs tx)) of
       None \<Rightarrow> Some (Tx_error value_overflow)
     | Some input_total \<Rightarrow>
         (case sum_values 0 (map m_value (m_outputs tx)) of
            None \<Rightarrow> Some (Tx_error value_overflow)
          | Some output_total \<Rightarrow>
              if input_total \<noteq> output_total then Some (Tx_error asymmetric_values) else None))"

definition check_p2pk_witness_len :: "full_tx \<Rightarrow> nat \<Rightarrow> witness_error_code option" where
  "check_p2pk_witness_len tx idx =
    (if length (m_witness tx ! idx) \<noteq> p2pk_witness_len then Some malformed else None)"

definition check_p2pk_witness_commitment :: "full_tx \<Rightarrow> nat \<Rightarrow> witness_error_code option" where
  "check_p2pk_witness_commitment tx idx =
    (let witness_program_hash = hash_data (take p2pk_witness_prog_len (m_witness tx ! idx));
         witness_program_commitment =
           m_witness_program_commitment (m_prevout_data (m_inputs tx ! idx))
     in if witness_program_hash \<noteq> witness_program_commitment then Some program_mismatch else None)"

definition check_p2pk_witness_signature ::
  "secp256k1 \<Rightarrow> full_tx \<Rightarrow> nat \<Rightarrow> witness_error_code option" where
  "check_p2pk_witness_signature S tx idx =
    (let wit = m_witness tx ! idx;
         pubkey_arr = take pubkey_len (drop 1 wit);
         sighash = tx_id tx;
         sig_arr = take sig_len (drop p2pk_witness_prog_len wit)
     in if \<not> xonly_pubkey_parse S pubkey_arr then Some invalid_public_key
        else if \<not> schnorrsig_verify S sig_arr sighash pubkey_arr then Some invalid_signature
        else None)"

definition check_p2pk_witness :: "secp256k1 \<Rightarrow> full_tx \<Rightarrow> nat \<Rightarrow> witness_error_code option" where
  "check_p2pk_witness S tx idx =
    (case check_p2pk_witness_len tx idx of Some e \<Rightarrow> Some e | None \<Rightarrow>
     case check_p2pk_witness_commitment tx idx of Some e \<Rightarrow> Some e | None \<Rightarrow>
     case check_p2pk_witness_signature S tx idx of Some e \<Rightarrow> Some e | None \<Rightarrow> None)"

definition check_witness :: "secp256k1 \<Rightarrow> full_tx \<Rightarrow> nat \<Rightarrow> witness_error_code option" where
  "check_witness S tx idx =
    (let witness_program = m_witness tx ! idx in
     if witness_program = [] then Some missing_witness_program_type
     else if hd witness_program = p2pk then check_p2pk_witness S tx idx
     else Some unknown_witness_program_type)"

definition check_tx :: "secp256k1 \<Rightarrow> full_tx \<Rightarrow> tx_error option" where
  "check_tx S tx =
    (case check_tx_structure tx of Some e \<Rightarrow> Some e | None \<Rightarrow>
     case first_error (\<lambda>idx inp. map_option (\<lambda>(code, data). Input_error code data idx)
                                   (check_input_structure inp)) 0 (m_inputs tx) of Some e \<Rightarrow> Some e | None \<Rightarrow>
     case first_error (\<lambda>idx out. map_option (\<lambda>code. Output_error code idx)
                                   (check_output_value out)) 0 (m_outputs tx) of Some e \<Rightarrow> Some e | None \<Rightarrow>
     case check_in_out_set tx of Some e \<Rightarrow> Some e | None \<Rightarrow>
     first_error (\<lambda>idx _. map_option (\<lambda>code. Witness_error code idx) (check_witness S tx idx))
       0 (m_witness tx))"

definition get_p2pk_witness_commitment :: "pubkey_t \<Rightarrow> hash_t" where
  "get_p2pk_witness_commitment payee = hash_data (p2pk # payee)"

definition check_attestations :: "secp256k1 \<Rightarrow> compact_tx \<Rightarrow> pubkey_t set \<Rightarrow> nat \<Rightarrow> bool" where
  "check_attestations S tx pubkeys threshold \<longleftrightarrow>
    (if length (m_attestations tx) < threshold then False
     else list_all (\<lambda>att. fst att \<in> pubkeys \<and> compact_tx_verify S tx att) (m_attestations tx))"

section \<open>Declarative specification\<close>

text \<open>
  A witness of input \<open>idx\<close> is valid: type byte, public key and signature, the commitment of
  the spent output is the hash of type and key, and the signature is one of the transaction
  identifier under that key.
\<close>

definition p2pk_spend_ok :: "secp256k1 \<Rightarrow> hash_t \<Rightarrow> input \<Rightarrow> witness_t \<Rightarrow> bool" where
  "p2pk_spend_ok S txid inp wit \<longleftrightarrow>
    (\<exists>pubkey sig. wit = p2pk # pubkey @ sig \<and> length pubkey = pubkey_len \<and> length sig = sig_len \<and>
       m_witness_program_commitment (m_prevout_data inp) = get_p2pk_witness_commitment pubkey \<and>
       xonly_pubkey_parse S pubkey \<and> schnorrsig_verify S sig txid pubkey)"

definition tx_valid :: "secp256k1 \<Rightarrow> full_tx \<Rightarrow> bool" where
  "tx_valid S tx \<longleftrightarrow>
     m_inputs tx \<noteq> [] \<and> m_outputs tx \<noteq> [] \<and>
     distinct (map m_prevout (m_inputs tx)) \<and>
     (\<forall>inp \<in> set (m_inputs tx). 0 < unat (m_value (m_prevout_data inp))) \<and>
     (\<forall>out \<in> set (m_outputs tx). 0 < unat (m_value out)) \<and>
     (\<Sum>inp \<leftarrow> m_inputs tx. unat (m_value (m_prevout_data inp))) =
       (\<Sum>out \<leftarrow> m_outputs tx. unat (m_value out)) \<and>
     (\<Sum>out \<leftarrow> m_outputs tx. unat (m_value out)) < 2 ^ 64 \<and>
     list_all2 (p2pk_spend_ok S (tx_id tx)) (m_inputs tx) (m_witness tx)"

section \<open>Lemmas\<close>

lemma first_error_None:
  "first_error chk idx xs = None \<longleftrightarrow> (\<forall>i < length xs. chk (idx + i) (xs ! i) = None)"
proof (induction xs arbitrary: idx)
  case (Cons x xs)
  show ?case
    by (simp add: Cons.IH All_less_Suc2 split: option.split)
qed simp

lemma first_error_Some:
  "first_error chk idx xs = Some e \<longleftrightarrow>
    (\<exists>i < length xs. chk (idx + i) (xs ! i) = Some e \<and> (\<forall>j < i. chk (idx + j) (xs ! j) = None))"
proof (induction xs arbitrary: idx)
  case (Cons x xs)
  show ?case
    by (cases "chk idx x") (auto simp: Cons.IH Ex_less_Suc2 All_less_Suc2)
qed simp

lemma check_input_set_loop_None:
  "check_input_set_loop inps idx ins = None \<longleftrightarrow>
     distinct (map m_prevout ins) \<and> inps \<inter> m_prevout ` set ins = {}"
  by (induction inps idx ins rule: check_input_set_loop.induct) auto

lemma check_input_set_None: "check_input_set tx = None \<longleftrightarrow> distinct (map m_prevout (m_inputs tx))"
  by (simp add: check_input_set_def check_input_set_loop_None)

lemma check_tx_structure_None:
  "check_tx_structure tx = None \<longleftrightarrow> m_inputs tx \<noteq> [] \<and> m_outputs tx \<noteq> [] \<and>
     length (m_inputs tx) = length (m_witness tx) \<and> distinct (map m_prevout (m_inputs tx))"
  by (auto simp: check_tx_structure_def check_input_count_def check_output_count_def
      check_witness_count_def check_input_set_None split: if_splits)

lemma check_output_value_None: "check_output_value out = None \<longleftrightarrow> 0 < unat (m_value out)"
  by (simp add: check_output_value_def unat_gt_0 word_less_1)

lemma check_input_structure_None:
  "check_input_structure inp = None \<longleftrightarrow> 0 < unat (m_value (m_prevout_data inp))"
  using check_output_value_None [of "m_prevout_data inp"]
  by (cases "check_output_value (m_prevout_data inp)") (simp_all add: check_input_structure_def)

lemma sum_values_Some:
  "sum_values t vs = Some s \<longleftrightarrow> (\<forall>v \<in> set vs. 0 < unat v) \<and>
     unat t + sum_list (map unat vs) < 2 ^ 64 \<and> unat s = unat t + sum_list (map unat vs)"
proof (induction t vs rule: sum_values.induct)
  case (1 t)
  show ?case
    using unat_lt2p [of t] by (auto simp: word_unat_eq_iff)
next
  case (2 t v vs)
  show ?case
  proof (cases "t + v \<le> t")
    case True
    then have "v = 0 \<or> 2 ^ 64 \<le> unat t + unat v"
      using word_add_wrap_iff [of v t] by auto
    then show ?thesis
      using True by auto
  next
    case False
    then show ?thesis
      using 2 word_add_no_wrap [OF False] by auto
  qed
qed

lemma check_in_out_set_None:
  "check_in_out_set tx = None \<longleftrightarrow>
     (\<forall>inp \<in> set (m_inputs tx). 0 < unat (m_value (m_prevout_data inp))) \<and>
     (\<forall>out \<in> set (m_outputs tx). 0 < unat (m_value out)) \<and>
     (\<Sum>inp \<leftarrow> m_inputs tx. unat (m_value (m_prevout_data inp))) =
       (\<Sum>out \<leftarrow> m_outputs tx. unat (m_value out)) \<and>
     (\<Sum>out \<leftarrow> m_outputs tx. unat (m_value out)) < 2 ^ 64"
    (is "_ \<longleftrightarrow> ?I \<and> ?O \<and> ?eq \<and> ?b")
proof -
  define iv where "iv = map (m_value \<circ> m_prevout_data) (m_inputs tx)"
  define ov where "ov = map m_value (m_outputs tx)"
  have "check_in_out_set tx = None \<longleftrightarrow> (\<exists>s. sum_values 0 iv = Some s \<and> sum_values 0 ov = Some s)"
    by (auto simp: check_in_out_set_def iv_def ov_def split: option.split)
  also have "\<dots> \<longleftrightarrow> (\<forall>v \<in> set iv. 0 < unat v) \<and> (\<forall>v \<in> set ov. 0 < unat v) \<and>
      sum_list (map unat iv) = sum_list (map unat ov) \<and> sum_list (map unat ov) < 2 ^ 64"
    (is "?L \<longleftrightarrow> ?R")
  proof
    assume ?R
    then have "sum_values 0 iv = Some (word_of_nat (sum_list (map unat ov)))"
      "sum_values 0 ov = Some (word_of_nat (sum_list (map unat ov)))"
      by (simp_all add: sum_values_Some unat_of_nat)
    then show ?L by blast
  qed (auto simp: sum_values_Some)
  finally show ?thesis
    by (simp add: iv_def ov_def comp_def)
qed

lemma check_witness_None:
  "check_witness S tx idx = None \<longleftrightarrow>
     p2pk_spend_ok S (tx_id tx) (m_inputs tx ! idx) (m_witness tx ! idx)"
proof -
  define wit where "wit = m_witness tx ! idx"
  let ?key = "take pubkey_len (drop 1 wit)"
  let ?sig = "take sig_len (drop p2pk_witness_prog_len wit)"
  have split: "wit = p2pk # ?key @ ?sig"
    if "wit \<noteq> []" "hd wit = p2pk" "length wit = p2pk_witness_len"
    using that by (cases wit) (simp_all add: p2pk_witness_len_def p2pk_witness_prog_len_def size_defs
        flip: take_add)
  have "check_witness S tx idx = None \<longleftrightarrow>
      wit \<noteq> [] \<and> hd wit = p2pk \<and> length wit = p2pk_witness_len \<and>
      hash_data (take p2pk_witness_prog_len wit) =
        m_witness_program_commitment (m_prevout_data (m_inputs tx ! idx)) \<and>
      xonly_pubkey_parse S ?key \<and> schnorrsig_verify S ?sig (tx_id tx) ?key"
    by (auto simp: check_witness_def check_p2pk_witness_def check_p2pk_witness_len_def
        check_p2pk_witness_commitment_def check_p2pk_witness_signature_def wit_def Let_def
        split: option.split)
  also have "\<dots> \<longleftrightarrow> p2pk_spend_ok S (tx_id tx) (m_inputs tx ! idx) wit"
    (is "?L \<longleftrightarrow> ?R")
  proof
    assume L: ?L
    then have "take p2pk_witness_prog_len wit = p2pk # ?key"
      by (cases wit) (simp_all add: p2pk_witness_prog_len_def)
    moreover have "length ?key = pubkey_len" "length ?sig = sig_len"
      using L by (simp_all add: p2pk_witness_len_def p2pk_witness_prog_len_def)
    ultimately show ?R
      using L split unfolding p2pk_spend_ok_def get_p2pk_witness_commitment_def by metis
  next
    assume ?R
    then show ?L
      by (auto simp: p2pk_spend_ok_def get_p2pk_witness_commitment_def p2pk_witness_len_def
          p2pk_witness_prog_len_def)
  qed
  finally show ?thesis
    by (simp add: wit_def)
qed

lemma check_tx_None: "check_tx S tx = None \<longleftrightarrow> tx_valid S tx"
proof -
  have "check_tx S tx = None \<longleftrightarrow> check_tx_structure tx = None \<and>
      (\<forall>inp \<in> set (m_inputs tx). check_input_structure inp = None) \<and>
      (\<forall>out \<in> set (m_outputs tx). check_output_value out = None) \<and>
      check_in_out_set tx = None \<and>
      (\<forall>i < length (m_witness tx). check_witness S tx i = None)"
    by (simp add: check_tx_def first_error_None all_set_conv_all_nth)
  then show ?thesis
    by (auto simp: tx_valid_def check_tx_structure_None check_input_structure_None
        check_output_value_None check_in_out_set_None check_witness_None list_all2_conv_all_nth)
qed

section \<open>Attestations\<close>

text \<open>
  What the sources rely on from libsecp256k1: a valid private key yields a 32-byte x-only
  public key that parses, and a signature made with the private key is 64 bytes long and
  verifies under that public key.
\<close>

definition schnorr_correct :: "secp256k1 \<Rightarrow> bool" where
  "schnorr_correct S \<longleftrightarrow> (\<forall>sk pk m. keypair_xonly_pub S sk = Some pk \<longrightarrow>
     is_pubkey pk \<and> xonly_pubkey_parse S pk \<and> is_sig (schnorrsig_sign S m sk) \<and>
     schnorrsig_verify S (schnorrsig_sign S m sk) m pk)"

text \<open>A concrete instance: every key is valid, signatures are constant.\<close>

definition toy_secp :: secp256k1 where
  "toy_secp = \<lparr>xonly_pubkey_parse = (\<lambda>_. True), schnorrsig_verify = (\<lambda>sig m pk. sig = replicate 64 0),
     keypair_xonly_pub = (\<lambda>sk. Some (take 32 (sk @ replicate 32 0))),
     schnorrsig_sign = (\<lambda>m sk. replicate 64 0)\<rparr>"

lemma schnorr_correct_toy: "schnorr_correct toy_secp"
  by (auto simp: schnorr_correct_def toy_secp_def size_defs)

lemma compact_tx_hash_attestations [simp]:
  "compact_tx_hash (tx\<lparr>m_attestations := a\<rparr>) = compact_tx_hash tx"
  by (simp add: compact_tx_hash_def)

lemma compact_tx_verify_attestations [simp]:
  "compact_tx_verify S (tx\<lparr>m_attestations := a\<rparr>) att = compact_tx_verify S tx att"
  by (simp add: compact_tx_verify_def)

lemma compact_tx_sign_verify:
  assumes "schnorr_correct S" "compact_tx_sign S tx key = Some att"
  shows "compact_tx_verify S tx att" and "is_pubkey (fst att)" and "is_sig (snd att)"
    and "keypair_xonly_pub S key = Some (fst att)"
  using assms
  by (auto simp: schnorr_correct_def compact_tx_sign_def compact_tx_verify_def
      pubkey_from_privkey_def bind_eq_Some_conv)

lemma check_attestations_iff:
  "check_attestations S tx pubkeys threshold \<longleftrightarrow> threshold \<le> length (m_attestations tx) \<and>
     (\<forall>att \<in> set (m_attestations tx). fst att \<in> pubkeys \<and> compact_tx_verify S tx att)"
  by (auto simp: check_attestations_def list_all_iff)

section \<open>Properties\<close>

text \<open>C1: \<open>check_tx\<close> accepts exactly the valid transactions. Acceptance means at least one
  input and output, one witness per input, no outpoint spent twice, no zero value, and that
  the values are conserved as unbounded integers: the sum of the inputs equals the sum of
  the outputs and is below $2^{64}$, so no wrap-around can create money; each witness is a
  type byte, a public key the spent output commits to, and a Schnorr signature of the
  transaction identifier under that key. Conversely every such transaction is accepted.\<close>

theorem check_tx_accepts_exactly_valid: "check_tx S tx = None \<longleftrightarrow> tx_valid S tx"
  by (rule check_tx_None)

text \<open>The error that \<open>check_tx\<close> reports is the first one: when it reports a witness error
  at index \<open>idx\<close>, that witness fails with that code, every earlier witness is valid, and the
  structure, the values and the totals of the transaction are fine.\<close>

theorem check_tx_first_witness_error:
  assumes "check_tx S tx = Some (Witness_error code idx)"
  shows "idx < length (m_witness tx) \<and> check_witness S tx idx = Some code \<and>
    (\<forall>j < idx. p2pk_spend_ok S (tx_id tx) (m_inputs tx ! j) (m_witness tx ! j)) \<and>
    check_tx_structure tx = None \<and> check_in_out_set tx = None"
proof -
  have no_wit: "check_tx_structure tx \<noteq> Some (Witness_error code idx)"
    "check_in_out_set tx \<noteq> Some (Witness_error code idx)"
  proof -
    have "check_input_set_loop A i ins \<noteq> Some (Witness_error code idx)" for A i ins
      by (induction A i ins rule: check_input_set_loop.induct) auto
    then show "check_tx_structure tx \<noteq> Some (Witness_error code idx)"
      by (auto simp: check_tx_structure_def check_input_count_def check_output_count_def
          check_witness_count_def check_input_set_def split: option.split if_split)
    show "check_in_out_set tx \<noteq> Some (Witness_error code idx)"
      by (auto simp: check_in_out_set_def split: option.split)
  qed
  have "first_error (\<lambda>i _. map_option (\<lambda>c. Witness_error c i) (check_witness S tx i)) 0 (m_witness tx)
      = Some (Witness_error code idx)" "check_tx_structure tx = None" "check_in_out_set tx = None"
    using assms no_wit by (auto simp: check_tx_def first_error_Some split: option.splits)
  then show ?thesis
    by (auto simp: first_error_Some check_witness_None)
qed

theorem check_tx_first_witness_error_witness:
  "let inp = \<lparr>m_prevout = \<lparr>m_tx_id = replicate 32 1, m_index = 0\<rparr>,
              m_prevout_data = \<lparr>m_witness_program_commitment = replicate 32 2, m_value = 5\<rparr>\<rparr>;
       tx = \<lparr>m_inputs = [inp],
             m_outputs = [\<lparr>m_witness_program_commitment = replicate 32 3, m_value = 5\<rparr>],
             m_witness = [[7]]\<rparr>
   in check_tx toy_secp tx = Some (Witness_error unknown_witness_program_type 0) \<and>
      check_tx_structure tx = None \<and> check_in_out_set tx = None"
proof -
  define inp where "inp = \<lparr>m_prevout = \<lparr>m_tx_id = replicate 32 (1 :: byte), m_index = 0\<rparr>,
    m_prevout_data = \<lparr>m_witness_program_commitment = replicate 32 2, m_value = 5\<rparr>\<rparr>"
  define tx where "tx = \<lparr>m_inputs = [inp],
    m_outputs = [\<lparr>m_witness_program_commitment = replicate 32 (3 :: byte), m_value = 5\<rparr>],
    m_witness = [[7 :: byte]]\<rparr>"
  have "check_tx toy_secp tx = Some (Witness_error unknown_witness_program_type 0)"
    by (simp add: tx_def inp_def check_tx_def check_tx_structure_def check_input_count_def
        check_output_count_def check_witness_count_def check_input_set_def check_input_structure_def
        check_output_value_def check_in_out_set_def check_witness_def p2pk_def)
  from this check_tx_first_witness_error [OF this] show ?thesis
    by (simp add: Let_def tx_def inp_def)
qed

text \<open>C17: A compact transaction that passes \<open>check_attestations\<close> carries a quorum: at least
  \<open>threshold\<close> different public keys of the configured sentinels, each with a signature that
  verifies for the hash of this transaction, which covers identifier, inputs and outputs
  but not the attestations themselves.\<close>

theorem check_attestations_quorum:
  assumes "distinct (map fst (m_attestations tx))" "check_attestations S tx pubkeys threshold"
  shows "threshold \<le> card {k \<in> pubkeys. \<exists>sig. (k, sig) \<in> set (m_attestations tx) \<and>
    xonly_pubkey_parse S k \<and> schnorrsig_verify S sig (compact_tx_hash tx) k}"
proof -
  let ?Q = "{k \<in> pubkeys. \<exists>sig. (k, sig) \<in> set (m_attestations tx) \<and>
    xonly_pubkey_parse S k \<and> schnorrsig_verify S sig (compact_tx_hash tx) k}"
  have "k \<in> pubkeys \<and> xonly_pubkey_parse S k \<and> schnorrsig_verify S sig (compact_tx_hash tx) k"
    if "(k, sig) \<in> set (m_attestations tx)" for k sig
  proof -
    have "fst (k, sig) \<in> pubkeys \<and> compact_tx_verify S tx (k, sig)"
      using assms(2) that unfolding check_attestations_iff by blast
    then show ?thesis
      by (simp add: compact_tx_verify_def)
  qed
  then have "fst ` set (m_attestations tx) \<subseteq> ?Q"
    by (intro image_subsetI CollectI) (metis prod.collapse)
  moreover have "?Q \<subseteq> fst ` set (m_attestations tx)"
  proof
    fix k assume "k \<in> ?Q"
    then obtain sig where "(k, sig) \<in> set (m_attestations tx)"
      by blast
    then have "fst (k, sig) \<in> fst ` set (m_attestations tx)"
      by (rule imageI)
    then show "k \<in> fst ` set (m_attestations tx)"
      by simp
  qed
  ultimately have "?Q = fst ` set (m_attestations tx)"
    by (rule equalityI [rotated])
  moreover have "card (fst ` set (m_attestations tx)) = length (m_attestations tx)"
    using distinct_card [OF assms(1)] by simp
  ultimately have "card ?Q = length (m_attestations tx)"
    by (simp only:)
  then show ?thesis
    using assms(2) by (simp add: check_attestations_iff)
qed

theorem check_attestations_quorum_witness:
  "let tx = \<lparr>m_id = replicate 32 1, c_inputs = [], m_uhs_outputs = [],
       m_attestations = [(replicate 32 3, replicate 64 0), (replicate 32 4, replicate 64 0)]\<rparr>
   in 2 \<le> card {k \<in> {replicate 32 3, replicate 32 4}. \<exists>sig. (k, sig) \<in> set (m_attestations tx) \<and>
     xonly_pubkey_parse toy_secp k \<and> schnorrsig_verify toy_secp sig (compact_tx_hash tx) k}"
  unfolding Let_def
  by (rule check_attestations_quorum)
     (simp_all add: check_attestations_iff compact_tx_verify_def toy_secp_def numeral_eq_Suc)

end
