(* ===== verification/Config.thy ===== *)
theory Config
  imports Prelude
begin

text \<open>
  The part of \<open>util/common/config.cpp\<close> that the transaction processors use at run time: the
  assignment of hashes to shards by their first byte. A range is inclusive on both sides.
\<close>

type_synonym shard_range = "byte \<times> byte"

definition hash_in_shard_range :: "shard_range \<Rightarrow> hash_t \<Rightarrow> bool" where
  "hash_in_shard_range rng val \<longleftrightarrow> hd val \<ge> fst rng \<and> hd val \<le> snd rng"

lemma hash_in_full_range [simp]: "hash_in_shard_range (0, 255) h"
  using unat_lt2p [of "hd h"] by (simp add: hash_in_shard_range_def word_le_nat_alt)

end
