(* ===== verification/Cache_Set.thy ===== *)
theory Cache_Set
  imports Prelude
begin

text \<open>
  The bounded set \<open>cache_set\<close> of \<open>util/common/cache_set.hpp\<close>: a hash set and a queue of
  references to its elements in insertion order. The lemmas give the invariant that ties the
  two together and the exact contents after a sequence of insertions.
\<close>

record 'k cache_set =
  cs_vals :: "'k set"
  cs_queue :: "'k list"
  cs_max_size :: nat

definition cache_set_init :: "nat \<Rightarrow> 'k cache_set" where
  "cache_set_init n = \<lparr>cs_vals = {}, cs_queue = [], cs_max_size = n\<rparr>"

text \<open>Returns whether the value was new; the oldest value leaves when the queue, with the new
  value in it, has reached the maximum size.\<close>

definition cs_add :: "'k cache_set \<Rightarrow> 'k \<Rightarrow> bool \<times> 'k cache_set" where
  "cs_add c val =
    (if val \<in> cs_vals c then (False, c)
     else let c1 = c\<lparr>cs_vals := insert val (cs_vals c), cs_queue := cs_queue c @ [val]\<rparr>;
              c2 = (if cs_max_size c1 \<le> length (cs_queue c1)
                    then c1\<lparr>cs_vals := cs_vals c1 - {hd (cs_queue c1)}, cs_queue := tl (cs_queue c1)\<rparr>
                    else c1)
          in (True, c2))"

definition cs_contains :: "'k cache_set \<Rightarrow> 'k \<Rightarrow> bool" where
  "cs_contains c val \<longleftrightarrow> val \<in> cs_vals c"

section \<open>Invariant\<close>

text \<open>Queue and set agree, and the queue is shorter than the maximum size (the assertion of the
  code, which only asks for at most the maximum size, always holds).\<close>

definition cs_inv :: "'k cache_set \<Rightarrow> bool" where
  "cs_inv c \<longleftrightarrow> set (cs_queue c) = cs_vals c \<and> distinct (cs_queue c) \<and>
     length (cs_queue c) \<le> cs_max_size c - 1"

lemma cs_inv_init [simp]: "cs_inv (cache_set_init n)"
  by (simp add: cs_inv_def cache_set_init_def)

lemma cs_add_max_size [simp]: "cs_max_size (snd (cs_add c v)) = cs_max_size c"
  by (simp add: cs_add_def Let_def)

lemma cs_inv_add:
  assumes "cs_inv c"
  shows "cs_inv (snd (cs_add c v))"
proof (cases "v \<in> cs_vals c")
  case True
  then show ?thesis
    using assms by (simp add: cs_add_def)
next
  case False
  obtain x xs where q: "cs_queue c @ [v] = x # xs"
    by (cases "cs_queue c @ [v]") auto
  have d: "distinct (x # xs)" "set (x # xs) = insert v (cs_vals c)" "length xs = length (cs_queue c)"
    using assms False arg_cong [OF q, of distinct] arg_cong [OF q, of set] arg_cong [OF q, of length]
    by (auto simp: cs_inv_def)
  then have "set xs = insert v (cs_vals c) - {x}"
    by auto
  then show ?thesis
    using assms False d by (auto simp: cs_add_def Let_def q cs_inv_def)
qed

text \<open>The queue after an insertion: the newest values, up to one less than the maximum size.\<close>

lemma cs_queue_add:
  assumes "cs_inv c" "v \<notin> cs_vals c"
  shows "cs_queue (snd (cs_add c v)) =
    drop (Suc (length (cs_queue c)) - (cs_max_size c - 1)) (cs_queue c @ [v])"
proof (cases "cs_max_size c \<le> Suc (length (cs_queue c))")
  case True
  have "Suc (length (cs_queue c)) - (cs_max_size c - 1) = 1"
    using True assms(1) by (auto simp: cs_inv_def)
  then show ?thesis
    using True assms by (cases "cs_queue c") (simp_all add: cs_add_def Let_def)
next
  case False
  then show ?thesis
    using assms by (simp add: cs_add_def Let_def)
qed

definition cs_add_all :: "'k cache_set \<Rightarrow> 'k list \<Rightarrow> 'k cache_set" where
  "cs_add_all c vs = foldl (\<lambda>c v. snd (cs_add c v)) c vs"

lemma cs_inv_add_all: "cs_inv c \<Longrightarrow> cs_inv (cs_add_all c vs)"
  by (induction vs arbitrary: c) (simp_all add: cs_add_all_def cs_inv_add)

lemma cs_add_all_snoc: "cs_add_all c (vs @ [v]) = snd (cs_add (cs_add_all c vs) v)"
  by (simp add: cs_add_all_def)

lemma cs_max_size_add_all [simp]: "cs_max_size (cs_add_all c vs) = cs_max_size c"
  by (induction vs rule: rev_induct) (simp_all add: cs_add_all_snoc, simp add: cs_add_all_def)

lemma cs_queue_add_all:
  "distinct vs \<Longrightarrow>
     cs_queue (cs_add_all (cache_set_init n) vs) = drop (length vs - (n - 1)) vs"
proof (induction vs rule: rev_induct)
  case Nil
  show ?case
    by (simp add: cs_add_all_def cache_set_init_def)
next
  case (snoc v vs)
  let ?c = "cs_add_all (cache_set_init n) vs"
  have inv: "cs_inv ?c"
    by (rule cs_inv_add_all) simp
  have q: "cs_queue ?c = drop (length vs - (n - 1)) vs" and size: "cs_max_size ?c = n"
    using snoc by (simp_all add: cache_set_init_def)
  have "v \<notin> cs_vals ?c"
    using inv q snoc.prems in_set_dropD [of v "length vs - (n - 1)" vs] by (auto simp: cs_inv_def)
  then have "cs_queue (cs_add_all (cache_set_init n) (vs @ [v])) =
      drop (Suc (length (cs_queue ?c)) - (n - 1)) (cs_queue ?c @ [v])"
    using cs_queue_add [OF inv] size by (simp add: cs_add_all_snoc)
  also have "\<dots> = drop (length (vs @ [v]) - (n - 1)) (vs @ [v])"
    by (cases "length vs \<le> n - 1") (simp_all add: q Suc_diff_le)
  finally show ?case .
qed

text \<open>A \<open>cache_set\<close> of maximum size \<open>n\<close>, after the insertion of pairwise different values,
  contains exactly the last \<open>n - 1\<close> of them: it evicts when the queue, with the new value in
  it, reaches the maximum size, so one slot is never used and a cache of size 1 is always
  empty.\<close>

theorem cache_set_keeps_most_recent:
  assumes "distinct vs"
  shows "cs_contains (cs_add_all (cache_set_init n) vs) v \<longleftrightarrow>
    v \<in> set (drop (length vs - (n - 1)) vs)"
proof -
  have "cs_inv (cs_add_all (cache_set_init n) vs)"
    by (rule cs_inv_add_all) simp
  then show ?thesis
    using cs_queue_add_all [OF assms, of n] by (auto simp: cs_inv_def cs_contains_def)
qed

theorem cache_set_keeps_most_recent_witness:
  "\<not> cs_contains (cs_add_all (cache_set_init 3) [10, 20, 30 :: nat]) 10 \<and>
   cs_contains (cs_add_all (cache_set_init 3) [10, 20, 30 :: nat]) 20"
  using cache_set_keeps_most_recent [of "[10, 20, 30 :: nat]" 3] by simp

end
