(* ===== verification/Locking_Shard.thy ===== *)
theory Locking_Shard
  imports Validation Config Cache_Set "HOL-Library.Disjoint_Sets"
begin

text \<open>
  The in-memory locking shard of the two-phase-commit architecture
  (\<open>uhs/twophase/locking_shard/locking_shard.cpp\<close>) and its replicated state machine
  (\<open>locking_shard/state_machine.cpp\<close>). A shard owns the unspent outputs (the UHS) whose
  first byte is in its range. Each operation runs under the exclusive lock of the shard, so
  it is a function from state to state; \<open>None\<close> is a failed assertion or a \<open>fatal\<close> log call,
  which ends the process.
\<close>

section \<open>State\<close>

record prepared_dtx =
  m_txs :: "compact_tx list"
  m_results :: "bool list"

record locking_shard =
  m_output_range :: shard_range
  m_running :: bool
  m_uhs :: "hash_t set"
  m_locked :: "hash_t set"
  m_prepared_dtxs :: "hash_t \<rightharpoonup> prepared_dtx"
  m_applied_dtxs :: "hash_t set"
  m_completed_txs :: "hash_t cache_set"
  m_sentinel_public_keys :: "pubkey_t set"
  m_attestation_threshold :: nat

definition locking_shard_init ::
  "shard_range \<Rightarrow> nat \<Rightarrow> pubkey_t set \<Rightarrow> nat \<Rightarrow> locking_shard" where
  "locking_shard_init output_range cache_size pubkeys threshold =
    \<lparr>m_output_range = output_range, m_running = True, m_uhs = {}, m_locked = {},
     m_prepared_dtxs = Map.empty, m_applied_dtxs = {}, m_completed_txs = cache_set_init cache_size,
     m_sentinel_public_keys = pubkeys, m_attestation_threshold = threshold\<rparr>"

text \<open>
  \<open>read_preseed_file\<close>, with the contents of the file as the argument (\<open>None\<close> if it does not
  exist). The stream reader fills the UHS hash by hash until it has as many as announced; when
  a read fails, the hashes read so far stay and the call still succeeds.
\<close>

function read_hashes :: "nat \<Rightarrow> hash_t set \<Rightarrow> byte list \<Rightarrow> hash_t set" where
  "read_hashes len uhs bs =
    (if card uhs < len \<and> hash_size \<le> length bs
     then read_hashes len (insert (take hash_size bs) uhs) (drop hash_size bs)
     else uhs)"
  by pat_completeness auto
termination
  by (relation "measure (\<lambda>(len, uhs, bs). length bs)") (auto simp: hash_size_def)

declare read_hashes.simps [simp del]

definition read_preseed_file :: "locking_shard \<Rightarrow> byte list option \<Rightarrow> bool \<times> locking_shard" where
  "read_preseed_file s contents =
    (case contents of
       None \<Rightarrow> (False, s)
     | Some bs \<Rightarrow>
         (True, s\<lparr>m_uhs := (case get_u64 bs of
                              None \<Rightarrow> {}
                            | Some (len, r) \<Rightarrow> read_hashes (unat len) {} r)\<rparr>))"

section \<open>Operations\<close>

definition in_shard :: "locking_shard \<Rightarrow> hash_t \<Rightarrow> bool" where
  "in_shard s h \<longleftrightarrow> hash_in_shard_range (m_output_range s) h"

definition discard_dtx :: "locking_shard \<Rightarrow> hash_t \<Rightarrow> bool \<times> locking_shard" where
  "discard_dtx s dtx_id =
    (if m_running s then (True, s\<lparr>m_applied_dtxs := m_applied_dtxs s - {dtx_id}\<rparr>) else (False, s))"

text \<open>The second loop of \<open>check_and_lock_tx\<close>: \<open>extract\<close> from the UHS must find the hash.\<close>

fun lock_inputs :: "locking_shard \<Rightarrow> hash_t list \<Rightarrow> locking_shard option" where
  "lock_inputs s [] = Some s"
| "lock_inputs s (uhs_id # rest) =
    (if in_shard s uhs_id
     then if uhs_id \<notin> m_uhs s then None
          else lock_inputs (s\<lparr>m_uhs := m_uhs s - {uhs_id}, m_locked := insert uhs_id (m_locked s)\<rparr>) rest
     else lock_inputs s rest)"

definition check_and_lock_tx ::
  "secp256k1 \<Rightarrow> locking_shard \<Rightarrow> compact_tx \<Rightarrow> (bool \<times> locking_shard) option" where
  "check_and_lock_tx S s t =
    (if \<not> check_attestations S t (m_sentinel_public_keys s) (m_attestation_threshold s)
     then Some (False, s)
     else if list_ex (\<lambda>uhs_id. in_shard s uhs_id \<and> uhs_id \<notin> m_uhs s) (c_inputs t)
     then Some (False, s)
     else map_option (\<lambda>s'. (True, s')) (lock_inputs s (c_inputs t)))"

fun lock_txs ::
  "secp256k1 \<Rightarrow> locking_shard \<Rightarrow> compact_tx list \<Rightarrow> (bool list \<times> locking_shard) option" where
  "lock_txs S s [] = Some ([], s)"
| "lock_txs S s (t # ts) = do {
     (success, s1) \<leftarrow> check_and_lock_tx S s t;
     (ret, s2) \<leftarrow> lock_txs S s1 ts;
     Some (success # ret, s2) }"

definition lock_outputs ::
  "secp256k1 \<Rightarrow> locking_shard \<Rightarrow> compact_tx list \<Rightarrow> hash_t
     \<Rightarrow> (bool list option \<times> locking_shard) option" where
  "lock_outputs S s txs dtx_id =
    (if \<not> m_running s then Some (None, s)
     else case m_prepared_dtxs s dtx_id of
       Some p \<Rightarrow> Some (Some (m_results p), s)
     | None \<Rightarrow> do {
         (ret, s') \<leftarrow> lock_txs S s txs;
         Some (Some ret, s'\<lparr>m_prepared_dtxs :=
           (m_prepared_dtxs s')(dtx_id \<mapsto> \<lparr>m_txs = txs, m_results = ret\<rparr>)\<rparr>) })"

text \<open>The body of the loop of \<open>apply_outputs\<close> for one transaction and its flag.\<close>

definition apply_completed :: "locking_shard \<Rightarrow> hash_t \<Rightarrow> locking_shard" where
  "apply_completed s txid =
    (if in_shard s txid then s\<lparr>m_completed_txs := snd (cs_add (m_completed_txs s) txid)\<rparr> else s)"

fun apply_uhs_outputs :: "locking_shard \<Rightarrow> bool \<Rightarrow> hash_t list \<Rightarrow> locking_shard" where
  "apply_uhs_outputs s complete [] = s"
| "apply_uhs_outputs s complete (uhs_id # rest) =
    apply_uhs_outputs
      (if in_shard s uhs_id \<and> complete then s\<lparr>m_uhs := insert uhs_id (m_uhs s)\<rparr> else s) complete rest"

fun apply_inputs :: "locking_shard \<Rightarrow> bool \<Rightarrow> hash_t list \<Rightarrow> locking_shard" where
  "apply_inputs s complete [] = s"
| "apply_inputs s complete (uhs_id # rest) =
    apply_inputs
      (if in_shard s uhs_id
       then let was_locked = uhs_id \<in> m_locked s;
                s1 = s\<lparr>m_locked := m_locked s - {uhs_id}\<rparr>
            in if \<not> complete \<and> was_locked then s1\<lparr>m_uhs := insert uhs_id (m_uhs s1)\<rparr> else s1
       else s) complete rest"

definition apply_tx :: "locking_shard \<Rightarrow> bool \<Rightarrow> compact_tx \<Rightarrow> locking_shard" where
  "apply_tx s complete t =
    apply_inputs (apply_uhs_outputs (apply_completed s (m_id t)) complete (m_uhs_outputs t))
      complete (c_inputs t)"

fun apply_txs :: "locking_shard \<Rightarrow> bool list \<Rightarrow> compact_tx list \<Rightarrow> locking_shard" where
  "apply_txs s (c # cs) (t # ts) = apply_txs (apply_tx s c t) cs ts"
| "apply_txs s _ _ = s"

definition apply_outputs ::
  "locking_shard \<Rightarrow> bool list \<Rightarrow> hash_t \<Rightarrow> (bool \<times> locking_shard) option" where
  "apply_outputs s complete_txs dtx_id =
    (if \<not> m_running s then Some (False, s)
     else case m_prepared_dtxs s dtx_id of
       None \<Rightarrow> if dtx_id \<notin> m_applied_dtxs s then None else Some (True, s)
     | Some p \<Rightarrow>
         if length complete_txs \<noteq> length (m_txs p) then None
         else let s' = apply_txs s complete_txs (m_txs p)
              in Some (True, s'\<lparr>m_prepared_dtxs := (m_prepared_dtxs s')(dtx_id := None),
                                m_applied_dtxs := insert dtx_id (m_applied_dtxs s')\<rparr>))"

definition stop :: "locking_shard \<Rightarrow> locking_shard" where
  "stop s = s\<lparr>m_running := False\<rparr>"

definition check_unspent :: "locking_shard \<Rightarrow> hash_t \<Rightarrow> bool" where
  "check_unspent s uhs_id \<longleftrightarrow> uhs_id \<in> m_uhs s \<or> uhs_id \<in> m_locked s"

definition check_tx_id :: "locking_shard \<Rightarrow> hash_t \<Rightarrow> bool" where
  "check_tx_id s txid \<longleftrightarrow> cs_contains (m_completed_txs s) txid"

section \<open>Replicated state machine\<close>

datatype shard_params = Lock_params "compact_tx list" | Apply_params "bool list" | Discard_params

record shard_request =
  req_dtx_id :: hash_t
  req_params :: shard_params

datatype shard_response = Lock_response "bool list" | Apply_response | Discard_response

text \<open>\<open>None\<close>: an assertion on the result fails or the shard operation ends the process.\<close>

definition process_request ::
  "secp256k1 \<Rightarrow> locking_shard \<Rightarrow> shard_request \<Rightarrow> (shard_response \<times> locking_shard) option" where
  "process_request S s req =
    (case req_params req of
       Lock_params txs \<Rightarrow>
         (case lock_outputs S s txs (req_dtx_id req) of
            Some (Some res, s') \<Rightarrow> Some (Lock_response res, s')
          | _ \<Rightarrow> None)
     | Apply_params complete_txs \<Rightarrow>
         (case apply_outputs s complete_txs (req_dtx_id req) of
            Some (True, s') \<Rightarrow> Some (Apply_response, s')
          | _ \<Rightarrow> None)
     | Discard_params \<Rightarrow>
         (case discard_dtx s (req_dtx_id req) of
            (True, s') \<Rightarrow> Some (Discard_response, s')
          | _ \<Rightarrow> None))"

record shard_sm =
  sm_shard :: locking_shard
  sm_last_committed_idx :: u64

text \<open>\<open>commit\<close> of a request that has been read from the log entry.\<close>

definition shard_sm_commit ::
  "secp256k1 \<Rightarrow> shard_sm \<Rightarrow> u64 \<Rightarrow> shard_request \<Rightarrow> (shard_response \<times> shard_sm) option" where
  "shard_sm_commit S sm log_idx req =
    (if log_idx \<noteq> sm_last_committed_idx sm + 1 then None
     else do {
       (resp, shard) \<leftarrow> process_request S (sm_shard sm) req;
       Some (resp, sm\<lparr>sm_last_committed_idx := log_idx, sm_shard := shard\<rparr>) })"

definition shard_sm_commit_config :: "shard_sm \<Rightarrow> u64 \<Rightarrow> shard_sm option" where
  "shard_sm_commit_config sm log_idx =
    (if log_idx \<noteq> sm_last_committed_idx sm + 1 then None
     else Some (sm\<lparr>sm_last_committed_idx := log_idx\<rparr>))"

section \<open>Effect of the operations\<close>

text \<open>The hashes of a list that belong to the shard; for a transaction, its inputs and outputs
  there.\<close>

definition shard_hashes :: "locking_shard \<Rightarrow> hash_t list \<Rightarrow> hash_t set" where
  "shard_hashes s hs = {h \<in> set hs. in_shard s h}"

abbreviation shard_ins :: "locking_shard \<Rightarrow> compact_tx \<Rightarrow> hash_t set" where
  "shard_ins s t \<equiv> shard_hashes s (c_inputs t)"

abbreviation shard_outs :: "locking_shard \<Rightarrow> compact_tx \<Rightarrow> hash_t set" where
  "shard_outs s t \<equiv> shard_hashes s (m_uhs_outputs t)"

lemma in_shard_update [simp]:
  "in_shard (s\<lparr>m_uhs := x\<rparr>) = in_shard s"
  "in_shard (s\<lparr>m_locked := x\<rparr>) = in_shard s"
  "in_shard (s\<lparr>m_prepared_dtxs := p\<rparr>) = in_shard s"
  "in_shard (s\<lparr>m_applied_dtxs := x\<rparr>) = in_shard s"
  "in_shard (s\<lparr>m_completed_txs := c\<rparr>) = in_shard s"
  by (simp_all add: in_shard_def fun_eq_iff)

lemma shard_hashes_update [simp]:
  "shard_hashes (s\<lparr>m_uhs := x\<rparr>) = shard_hashes s"
  "shard_hashes (s\<lparr>m_locked := x\<rparr>) = shard_hashes s"
  "shard_hashes (s\<lparr>m_prepared_dtxs := p\<rparr>) = shard_hashes s"
  "shard_hashes (s\<lparr>m_applied_dtxs := x\<rparr>) = shard_hashes s"
  "shard_hashes (s\<lparr>m_completed_txs := c\<rparr>) = shard_hashes s"
  by (simp_all add: shard_hashes_def fun_eq_iff)

lemma shard_hashes_Nil [simp]: "shard_hashes s [] = {}"
  by (simp add: shard_hashes_def)

lemma shard_hashes_Cons [simp]:
  "shard_hashes s (h # hs) = (if in_shard s h then insert h (shard_hashes s hs) else shard_hashes s hs)"
  by (auto simp: shard_hashes_def)

text \<open>Moving a set of hashes from the UHS to the locked set.\<close>

definition move_locked :: "hash_t set \<Rightarrow> locking_shard \<Rightarrow> locking_shard" where
  "move_locked L s = s\<lparr>m_uhs := m_uhs s - L, m_locked := m_locked s \<union> L\<rparr>"

lemma move_locked_simps [simp]:
  "m_uhs (move_locked L s) = m_uhs s - L"
  "m_locked (move_locked L s) = m_locked s \<union> L"
  "m_prepared_dtxs (move_locked L s) = m_prepared_dtxs s"
  "m_applied_dtxs (move_locked L s) = m_applied_dtxs s"
  "m_completed_txs (move_locked L s) = m_completed_txs s"
  "m_running (move_locked L s) = m_running s"
  "m_output_range (move_locked L s) = m_output_range s"
  "m_sentinel_public_keys (move_locked L s) = m_sentinel_public_keys s"
  "m_attestation_threshold (move_locked L s) = m_attestation_threshold s"
  "in_shard (move_locked L s) = in_shard s"
  "shard_hashes (move_locked L s) = shard_hashes s"
  by (simp_all add: move_locked_def)

lemma move_locked_empty [simp]: "move_locked {} s = s"
  by (simp add: move_locked_def)

lemma move_locked_twice [simp]: "move_locked L (move_locked M s) = move_locked (L \<union> M) s"
proof -
  have "m_uhs s - M - L = m_uhs s - (L \<union> M)" "m_locked s \<union> M \<union> L = m_locked s \<union> (L \<union> M)"
    by auto
  then show ?thesis
    by (simp add: move_locked_def)
qed

lemma lock_inputs_eq:
  "lock_inputs s hs =
    (if distinct (filter (in_shard s) hs) \<and> shard_hashes s hs \<subseteq> m_uhs s
     then Some (move_locked (shard_hashes s hs) s) else None)"
proof (induction s hs rule: lock_inputs.induct)
  case (2 s h hs)
  have step: "s\<lparr>m_uhs := m_uhs s - {h}, m_locked := insert h (m_locked s)\<rparr> = move_locked {h} s"
    by (simp add: move_locked_def)
  show ?case
  proof (cases "in_shard s h \<and> h \<in> m_uhs s")
    case True
    have "distinct (filter (in_shard s) (h # hs)) \<and> shard_hashes s (h # hs) \<subseteq> m_uhs s \<longleftrightarrow>
        distinct (filter (in_shard s) hs) \<and> shard_hashes s hs \<subseteq> m_uhs s - {h}"
      using True by (auto simp: shard_hashes_def)
    moreover have "lock_inputs s (h # hs) = lock_inputs (move_locked {h} s) hs"
      using True by (simp add: step)
    ultimately show ?thesis
      using 2(1) True unfolding step by simp
  next
    case False
    then show ?thesis
      using 2(2) by auto
  qed
qed simp

text \<open>A transaction can be locked: its attestations are fine and its inputs are in the UHS.\<close>

definition lockable :: "secp256k1 \<Rightarrow> locking_shard \<Rightarrow> compact_tx \<Rightarrow> bool" where
  "lockable S s t \<longleftrightarrow>
     check_attestations S t (m_sentinel_public_keys s) (m_attestation_threshold s) \<and>
     shard_ins s t \<subseteq> m_uhs s"

lemma check_and_lock_tx_eq:
  "check_and_lock_tx S s t =
    (if lockable S s t
     then if distinct (filter (in_shard s) (c_inputs t))
          then Some (True, move_locked (shard_ins s t) s) else None
     else Some (False, s))"
  by (auto simp: check_and_lock_tx_def lockable_def lock_inputs_eq list_ex_iff shard_hashes_def)

text \<open>The inputs that transaction \<open>i\<close> of a batch has locked, by the vector of results.\<close>

definition claims :: "locking_shard \<Rightarrow> bool list \<Rightarrow> compact_tx list \<Rightarrow> nat \<Rightarrow> hash_t set" where
  "claims s ret txs i = (if i < length txs \<and> ret ! i then shard_ins s (txs ! i) else {})"

lemma claims_update [simp]:
  "claims (s\<lparr>m_uhs := x\<rparr>) = claims s"
  "claims (s\<lparr>m_locked := x\<rparr>) = claims s"
  "claims (s\<lparr>m_prepared_dtxs := p\<rparr>) = claims s"
  "claims (s\<lparr>m_applied_dtxs := x\<rparr>) = claims s"
  "claims (s\<lparr>m_completed_txs := c\<rparr>) = claims s"
  "claims (move_locked L s) = claims s"
  by (simp_all add: claims_def fun_eq_iff)

lemma claims_Nil [simp]: "claims s ret [] = (\<lambda>_. {})"
  by (simp add: claims_def fun_eq_iff)

lemma claims_Cons [simp]:
  "claims s (b # ret) (t # txs) 0 = (if b then shard_ins s t else {})"
  "claims s (b # ret) (t # txs) (Suc i) = claims s ret txs i"
  by (simp_all add: claims_def)

lemma UN_nat_split: "(\<Union>i. f i) = f 0 \<union> (\<Union>i. f (Suc i))" for f :: "nat \<Rightarrow> 'a set"
  by (auto simp: UN_iff) (metis not0_implies_Suc)

lemma lock_txs_effect:
  assumes "lock_txs S s txs = Some (ret, s')"
  shows "length ret = length txs \<and> s' = move_locked (\<Union>i. claims s ret txs i) s \<and>
    (\<Union>i. claims s ret txs i) \<subseteq> m_uhs s \<and> disjoint_family (claims s ret txs)"
  using assms
proof (induction txs arbitrary: s ret s')
  case Nil
  then show ?case
    by (simp add: disjoint_family_on_def)
next
  case (Cons t txs)
  then obtain b s1 ret1 where 1: "check_and_lock_tx S s t = Some (b, s1)"
    and 2: "lock_txs S s1 txs = Some (ret1, s')" and ret: "ret = b # ret1"
    by (auto simp: bind_eq_Some_conv)
  define R where "R = (if b then shard_ins s t else {})"
  have s1: "s1 = move_locked R s" and R: "R \<subseteq> m_uhs s"
    using 1 by (auto simp: check_and_lock_tx_eq R_def lockable_def split: if_splits)
  have IH: "length ret1 = length txs" "s' = move_locked (\<Union>i. claims s ret1 txs i) s1"
    "(\<Union>i. claims s ret1 txs i) \<subseteq> m_uhs s - R" "disjoint_family (claims s ret1 txs)"
    using Cons.IH [OF 2] unfolding s1 by auto
  have U: "(\<Union>i. claims s ret (t # txs) i) = R \<union> (\<Union>i. claims s ret1 txs i)"
    by (subst UN_nat_split) (simp add: ret R_def)
  have "claims s ret (t # txs) i \<inter> claims s ret (t # txs) j = {}" if "i \<noteq> j" for i j
    using IH(3,4) that unfolding ret disjoint_family_on_def
    by (cases i; cases j) (auto simp flip: R_def)
  then show ?case
    using IH R unfolding U s1 by (auto simp: ret disjoint_family_on_def Un_commute)
qed

lemma lock_txs_total:
  assumes "\<forall>t \<in> set txs. distinct (c_inputs t)"
  shows "\<exists>ret s'. lock_txs S s txs = Some (ret, s')"
  using assms
proof (induction txs arbitrary: s)
  case (Cons t txs)
  have "\<exists>b s1. check_and_lock_tx S s t = Some (b, s1)"
    using Cons.prems by (auto simp: check_and_lock_tx_eq)
  then obtain b s1 where "check_and_lock_tx S s t = Some (b, s1)"
    by blast
  moreover obtain ret s2 where "lock_txs S s1 txs = Some (ret, s2)"
    using Cons by fastforce
  ultimately show ?case
    by simp
qed simp

lemma apply_uhs_outputs_eq:
  "apply_uhs_outputs s c hs = s\<lparr>m_uhs := m_uhs s \<union> (if c then shard_hashes s hs else {})\<rparr>"
  by (induction s c hs rule: apply_uhs_outputs.induct) auto

lemma apply_inputs_eq:
  "apply_inputs s c hs = s\<lparr>m_uhs := m_uhs s \<union> (if c then {} else shard_hashes s hs \<inter> m_locked s),
     m_locked := m_locked s - shard_hashes s hs\<rparr>"
proof (induction s c hs rule: apply_inputs.induct)
  case (2 s c h hs)
  show ?case
  proof (cases "in_shard s h")
    case True
    have "m_locked s - {h} - shard_hashes s hs = m_locked s - insert h (shard_hashes s hs)"
      "insert h (m_uhs s) \<union> shard_hashes s hs \<inter> (m_locked s - {h}) =
        m_uhs s \<union> insert h (shard_hashes s hs) \<inter> m_locked s" if "h \<in> m_locked s"
      using that by auto
    moreover have "m_locked s - {h} - shard_hashes s hs = m_locked s - insert h (shard_hashes s hs)"
      "shard_hashes s hs \<inter> (m_locked s - {h}) = insert h (shard_hashes s hs) \<inter> m_locked s"
      if "h \<notin> m_locked s"
      using that by auto
    moreover have "m_locked s - {h} - shard_hashes s hs = m_locked s - insert h (shard_hashes s hs)"
      by auto
    ultimately show ?thesis
      using 2 True by (cases "h \<in> m_locked s"; cases c) (simp_all add: Let_def)
  next
    case False
    then show ?thesis
      using 2 by simp
  qed
qed simp

text \<open>One transaction of an apply, whoever holds the locks.\<close>

lemma apply_tx_simps [simp]:
  "m_uhs (apply_tx s c t) =
     m_uhs s \<union> (if c then shard_outs s t else shard_ins s t \<inter> m_locked s)"
  "m_locked (apply_tx s c t) = m_locked s - shard_ins s t"
  "m_prepared_dtxs (apply_tx s c t) = m_prepared_dtxs s"
  "m_applied_dtxs (apply_tx s c t) = m_applied_dtxs s"
  "m_output_range (apply_tx s c t) = m_output_range s"
  "m_running (apply_tx s c t) = m_running s"
  "m_sentinel_public_keys (apply_tx s c t) = m_sentinel_public_keys s"
  "m_attestation_threshold (apply_tx s c t) = m_attestation_threshold s"
  "in_shard (apply_tx s c t) = in_shard s"
  by (simp_all add: apply_tx_def apply_completed_def apply_inputs_eq apply_uhs_outputs_eq)

lemma shard_hashes_apply_tx [simp]: "shard_hashes (apply_tx s c t) = shard_hashes s"
  by (simp add: shard_hashes_def fun_eq_iff)

lemma claims_apply_tx [simp]: "claims (apply_tx s c t) = claims s"
  by (simp add: claims_def fun_eq_iff)

lemma apply_txs_simps [simp]:
  "m_prepared_dtxs (apply_txs s cs ts) = m_prepared_dtxs s"
  "m_applied_dtxs (apply_txs s cs ts) = m_applied_dtxs s"
  "m_output_range (apply_txs s cs ts) = m_output_range s"
  "m_running (apply_txs s cs ts) = m_running s"
  "m_sentinel_public_keys (apply_txs s cs ts) = m_sentinel_public_keys s"
  "m_attestation_threshold (apply_txs s cs ts) = m_attestation_threshold s"
  "in_shard (apply_txs s cs ts) = in_shard s"
  by (induction s cs ts rule: apply_txs.induct) auto

lemma shard_hashes_apply_txs [simp]: "shard_hashes (apply_txs s cs ts) = shard_hashes s"
  by (simp add: shard_hashes_def fun_eq_iff)

text \<open>
  The situation in which an apply touches only locks that the batch itself holds: every
  completed transaction was locked, the locked inputs are still locked, and the inputs of a
  transaction that was not locked are free, except for those that an earlier transaction of
  the batch has locked.
\<close>

definition own_locks :: "locking_shard \<Rightarrow> bool list \<Rightarrow> bool list \<Rightarrow> compact_tx list \<Rightarrow> bool" where
  "own_locks s cs rs ts \<longleftrightarrow> length cs = length ts \<and> length rs = length ts \<and>
     (\<forall>i < length ts. cs ! i \<longrightarrow> rs ! i) \<and>
     (\<forall>i. claims s rs ts i \<subseteq> m_locked s) \<and>
     (\<forall>i < length ts. \<not> rs ! i \<longrightarrow> shard_ins s (ts ! i) \<inter> m_locked s \<subseteq> (\<Union>j<i. claims s rs ts j)) \<and>
     disjoint_family (claims s rs ts)"

lemma own_locks_step:
  assumes "own_locks s (c # cs) (r # rs) (t # ts)"
  shows "own_locks (apply_tx s c t) cs rs ts"
    and "c \<Longrightarrow> r" and "r \<Longrightarrow> shard_ins s t \<subseteq> m_locked s"
    and "\<not> r \<Longrightarrow> shard_ins s t \<inter> m_locked s = {}"
proof -
  let ?C = "claims s (r # rs) (t # ts)"
  have len: "length cs = length ts" "length rs = length ts"
    and imp: "\<And>i. i < length (t # ts) \<Longrightarrow> (c # cs) ! i \<Longrightarrow> (r # rs) ! i"
    and sub: "\<And>i. ?C i \<subseteq> m_locked s"
    and free: "\<And>i. i < length (t # ts) \<Longrightarrow> \<not> (r # rs) ! i \<Longrightarrow>
        shard_ins s ((t # ts) ! i) \<inter> m_locked s \<subseteq> (\<Union>j<i. ?C j)"
    and disj: "disjoint_family ?C"
    using assms by (auto simp: own_locks_def)
  show "c \<Longrightarrow> r"
    using imp [of 0] by simp
  show r: "r \<Longrightarrow> shard_ins s t \<subseteq> m_locked s"
    using sub [of 0] by simp
  show nr: "\<not> r \<Longrightarrow> shard_ins s t \<inter> m_locked s = {}"
    using free [of 0] by simp
  have keep: "claims s rs ts i \<subseteq> m_locked s - shard_ins s t" for i
  proof -
    have "?C 0 \<inter> ?C (Suc i) = {}"
      using disj unfolding disjoint_family_on_def by blast
    then have "r \<Longrightarrow> shard_ins s t \<inter> claims s rs ts i = {}"
      by simp
    then show ?thesis
      using sub [of "Suc i"] nr by (cases r) auto
  qed
  have free': "shard_ins s (ts ! i) \<inter> (m_locked s - shard_ins s t) \<subseteq> (\<Union>j<i. claims s rs ts j)"
    if i: "i < length ts" "\<not> rs ! i" for i
  proof
    fix x assume x: "x \<in> shard_ins s (ts ! i) \<inter> (m_locked s - shard_ins s t)"
    then obtain j where j: "j < Suc i" "x \<in> ?C j"
      using free [of "Suc i"] i by auto
    then show "x \<in> (\<Union>j<i. claims s rs ts j)"
      using x by (cases j) (auto split: if_splits)
  qed
  have "disjoint_family (claims s rs ts)"
    using disj unfolding disjoint_family_on_def
    by (metis UNIV_I claims_Cons(2) nat.inject)
  then show "own_locks (apply_tx s c t) cs rs ts"
    using len keep free' imp [of "Suc i" for i] unfolding own_locks_def by force
qed

text \<open>What a batch creates, consumes and gives back, by the flags of the apply.\<close>

definition created :: "locking_shard \<Rightarrow> bool list \<Rightarrow> compact_tx list \<Rightarrow> nat \<Rightarrow> hash_t set" where
  "created s cs ts i = (if i < length ts \<and> cs ! i then shard_outs s (ts ! i) else {})"

definition released ::
  "locking_shard \<Rightarrow> bool list \<Rightarrow> bool list \<Rightarrow> compact_tx list \<Rightarrow> nat \<Rightarrow> hash_t set" where
  "released s cs rs ts i = (if i < length ts \<and> \<not> cs ! i then claims s rs ts i else {})"

lemma created_simps [simp]:
  "created s cs [] = (\<lambda>_. {})"
  "created s (c # cs) (t # ts) 0 = (if c then shard_outs s t else {})"
  "created s (c # cs) (t # ts) (Suc i) = created s cs ts i"
  "created (apply_tx s c t) = created s"
  by (simp_all add: created_def fun_eq_iff)

lemma released_simps [simp]:
  "released s cs rs [] = (\<lambda>_. {})"
  "released s (c # cs) (r # rs) (t # ts) 0 = (if \<not> c \<and> r then shard_ins s t else {})"
  "released s (c # cs) (r # rs) (t # ts) (Suc i) = released s cs rs ts i"
  "released (apply_tx s c t) = released s"
  by (simp_all add: released_def fun_eq_iff)

lemma apply_txs_effect:
  assumes "own_locks s cs rs ts"
  shows "m_uhs (apply_txs s cs ts) =
      m_uhs s \<union> (\<Union>i. created s cs ts i) \<union> (\<Union>i. released s cs rs ts i) \<and>
    m_locked (apply_txs s cs ts) = m_locked s - (\<Union>i. claims s rs ts i)"
  using assms
proof (induction ts arbitrary: s cs rs)
  case Nil
  then show ?case
    by simp
next
  case (Cons t ts)
  obtain c cs' r rs' where cr: "cs = c # cs'" "rs = r # rs'"
    using Cons.prems by (cases cs; cases rs) (auto simp: own_locks_def)
  note step = own_locks_step [OF Cons.prems [unfolded cr]]
  have 1: "(\<Union>i. created s cs (t # ts) i) = (if c then shard_outs s t else {}) \<union> (\<Union>i. created s cs' ts i)"
    "(\<Union>i. released s cs rs (t # ts) i) =
       (if \<not> c \<and> r then shard_ins s t else {}) \<union> (\<Union>i. released s cs' rs' ts i)"
    "(\<Union>i. claims s rs (t # ts) i) = (if r then shard_ins s t else {}) \<union> (\<Union>i. claims s rs' ts i)"
    unfolding cr by (subst UN_nat_split, simp)+
  have 2: "m_uhs (apply_tx s c t) = m_uhs s \<union> (if c then shard_outs s t else {}) \<union>
      (if \<not> c \<and> r then shard_ins s t else {})"
    "m_locked (apply_tx s c t) = m_locked s - (if r then shard_ins s t else {})"
    using step(2-4) by (cases c; cases r; auto)+
  show ?case
    using Cons.IH [OF step(1)] unfolding 1 2 by (auto simp: cr)
qed

text \<open>The first transaction of a list that spends a hash on this shard.\<close>

fun first_spender :: "locking_shard \<Rightarrow> compact_tx list \<Rightarrow> hash_t \<Rightarrow> nat option" where
  "first_spender s [] h = None"
| "first_spender s (t # ts) h = (if h \<in> shard_ins s t then Some 0 else map_option Suc (first_spender s ts h))"

lemma first_spender_None: "first_spender s ts h = None \<longleftrightarrow> (\<forall>t \<in> set ts. h \<notin> shard_ins s t)"
  by (induction ts) auto

lemma first_spender_update [simp]:
  "first_spender (s\<lparr>m_uhs := U, m_locked := L, m_completed_txs := C\<rparr>) = first_spender s"
proof (intro ext)
  fix ts h show "first_spender (s\<lparr>m_uhs := U, m_locked := L, m_completed_txs := C\<rparr>) ts h = first_spender s ts h"
    by (induction ts) simp_all
qed

text \<open>The identifiers that the loop of \<open>apply_outputs\<close> adds to the cache, in order.\<close>

definition add_completed :: "locking_shard \<Rightarrow> compact_tx list \<Rightarrow> hash_t cache_set" where
  "add_completed s ts = foldl (\<lambda>c txid. snd (cs_add c txid)) (m_completed_txs s) (filter (in_shard s) (map m_id ts))"

lemma apply_tx_eq:
  "apply_tx s c t = s\<lparr>m_uhs := m_uhs s \<union> (if c then shard_outs s t else shard_ins s t \<inter> m_locked s),
     m_locked := m_locked s - shard_ins s t, m_completed_txs := add_completed s [t]\<rparr>"
  by (simp add: apply_tx_def apply_completed_def apply_inputs_eq apply_uhs_outputs_eq add_completed_def)

lemma apply_txs_exact:
  "length cs = length ts \<Longrightarrow> apply_txs s cs ts =
    s\<lparr>m_uhs := {h. h \<in> m_uhs s \<or> (\<exists>i < length ts. cs ! i \<and> h \<in> shard_outs s (ts ! i)) \<or>
         h \<in> m_locked s \<and> (\<exists>i. first_spender s ts h = Some i \<and> \<not> cs ! i)},
      m_locked := {h \<in> m_locked s. first_spender s ts h = None},
      m_completed_txs := add_completed s ts\<rparr>"
proof (induction s cs ts rule: apply_txs.induct)
  case (1 s c cs t ts)
  let ?s = "apply_tx s c t"
  have l: "length cs = length ts"
    using "1.prems" by simp
  have outs: "(\<exists>i < length (t # ts). (c # cs) ! i \<and> h \<in> shard_outs s ((t # ts) ! i)) \<longleftrightarrow>
      c \<and> h \<in> shard_outs s t \<or> (\<exists>i < length ts. cs ! i \<and> h \<in> shard_outs s (ts ! i))" for h
    by (auto simp: less_Suc_eq_0_disj)
  have spent: "(\<exists>i. first_spender s (t # ts) h = Some i \<and> \<not> (c # cs) ! i) \<longleftrightarrow>
      (if h \<in> shard_ins s t then \<not> c else \<exists>i. first_spender s ts h = Some i \<and> \<not> cs ! i)" for h
    by auto
  have fs: "first_spender ?s = first_spender s"
    by (simp add: apply_tx_eq)
  have uhs: "m_uhs ?s = m_uhs s \<union> (if c then shard_outs s t else shard_ins s t \<inter> m_locked s)" "m_locked ?s = m_locked s - shard_ins s t"
    by simp_all
  have "{h. h \<in> m_uhs ?s \<or> (\<exists>i < length ts. cs ! i \<and> h \<in> shard_outs s (ts ! i)) \<or>
        h \<in> m_locked ?s \<and> (\<exists>i. first_spender s ts h = Some i \<and> \<not> cs ! i)} =
      {h. h \<in> m_uhs s \<or> (\<exists>i < length (t # ts). (c # cs) ! i \<and> h \<in> shard_outs s ((t # ts) ! i)) \<or>
        h \<in> m_locked s \<and> (\<exists>i. first_spender s (t # ts) h = Some i \<and> \<not> (c # cs) ! i)}"
    unfolding outs spent uhs by (cases c) auto
  moreover have "{h \<in> m_locked ?s. first_spender s ts h = None} = {h \<in> m_locked s. first_spender s (t # ts) h = None}"
    unfolding uhs by auto
  moreover have "add_completed ?s ts = add_completed s (t # ts)"
    by (simp add: add_completed_def apply_tx_eq)
  ultimately show ?case
    using "1.IH" [OF l] unfolding apply_txs.simps(1) fs by (simp add: apply_tx_eq)
qed (auto simp: add_completed_def)

section \<open>Invariant\<close>

text \<open>The hashes that transaction \<open>i\<close> of the prepared batch \<open>d\<close> holds locked.\<close>

definition holds :: "locking_shard \<Rightarrow> hash_t \<Rightarrow> nat \<Rightarrow> hash_t set" where
  "holds s d i = (case m_prepared_dtxs s d of None \<Rightarrow> {}
     | Some p \<Rightarrow> claims s (m_results p) (m_txs p) i)"

text \<open>
  The UHS and the locked set are disjoint; the locked set is exactly what the prepared batches
  hold; and no hash is held by two transactions.
\<close>

definition shard_inv :: "locking_shard \<Rightarrow> bool" where
  "shard_inv s \<longleftrightarrow>
     m_uhs s \<inter> m_locked s = {} \<and>
     (\<forall>d p. m_prepared_dtxs s d = Some p \<longrightarrow> length (m_results p) = length (m_txs p)) \<and>
     m_locked s = (\<Union>d i. holds s d i) \<and>
     disjoint_family (\<lambda>(d, i). holds s d i) \<and>
     cs_inv (m_completed_txs s)"

definition ledger :: "locking_shard \<Rightarrow> hash_t set" where
  "ledger s = m_uhs s \<union> m_locked s"

lemma check_unspent_ledger: "check_unspent s h \<longleftrightarrow> h \<in> ledger s"
  by (simp add: check_unspent_def ledger_def)

lemma shard_inv_init: "shard_inv (locking_shard_init r n keys k)"
  by (simp add: shard_inv_def locking_shard_init_def holds_def disjoint_family_on_def)

lemma claims_cong: "m_output_range s' = m_output_range s \<Longrightarrow> claims s' = claims s"
  by (simp add: claims_def shard_hashes_def in_shard_def fun_eq_iff)

lemma holds_cong:
  assumes "m_output_range s' = m_output_range s" "m_prepared_dtxs s' d = m_prepared_dtxs s d"
  shows "holds s' d i = holds s d i"
  unfolding holds_def assms(2) claims_cong [OF assms(1)] ..

lemma holds_update [simp]:
  "holds (s\<lparr>m_uhs := x\<rparr>) = holds s"
  "holds (s\<lparr>m_applied_dtxs := x\<rparr>) = holds s"
  by (intro ext holds_cong; simp)+

lemma shard_inv_preseed:
  assumes "shard_inv s" "m_locked s = {}"
  shows "shard_inv (snd (read_preseed_file s c))"
  using assms
  by (auto simp: shard_inv_def read_preseed_file_def disjoint_family_on_def split: option.split)

lemma lock_outputs_new:
  assumes "m_running s" "m_prepared_dtxs s d = None" "lock_outputs S s txs d = Some (res, s')"
  obtains ret where "res = Some ret" "length ret = length txs"
    "disjoint_family (claims s ret txs)" "(\<Union>i. claims s ret txs i) \<subseteq> m_uhs s"
    "s' = (move_locked (\<Union>i. claims s ret txs i) s)
       \<lparr>m_prepared_dtxs := (m_prepared_dtxs s)(d \<mapsto> \<lparr>m_txs = txs, m_results = ret\<rparr>)\<rparr>"
    "lock_txs S s txs = Some (ret, move_locked (\<Union>i. claims s ret txs i) s)"
proof -
  obtain ret s1 where 1: "lock_txs S s txs = Some (ret, s1)" "res = Some ret"
    "s' = s1\<lparr>m_prepared_dtxs := (m_prepared_dtxs s1)(d \<mapsto> \<lparr>m_txs = txs, m_results = ret\<rparr>)\<rparr>"
    using assms by (auto simp: lock_outputs_def bind_eq_Some_conv)
  from lock_txs_effect [OF 1(1)] 1 show thesis
    by (intro that [of ret]) auto
qed

lemma holds_lock:
  assumes "m_prepared_dtxs s d = None"
    and "s' = (move_locked L s)\<lparr>m_prepared_dtxs := (m_prepared_dtxs s)(d \<mapsto> \<lparr>m_txs = txs, m_results = ret\<rparr>)\<rparr>"
  shows "holds s' d' i = (if d' = d then claims s ret txs i else holds s d' i)" and "holds s d i = {}"
proof -
  have "d' \<noteq> d \<Longrightarrow> holds s' d' i = holds s d' i"
    by (rule holds_cong) (simp_all add: assms(2))
  then show "holds s' d' i = (if d' = d then claims s ret txs i else holds s d' i)"
    using assms by (simp add: holds_def)
  show "holds s d i = {}"
    using assms(1) by (simp add: holds_def)
qed

lemma UN_replace:
  assumes "\<And>i. H d i = {}"
  shows "(\<Union>d' i. if d' = d then C i else H d' i) = (\<Union>d' i. H d' i) \<union> (\<Union>i. C i)"
proof
  show "(\<Union>d' i. H d' i) \<union> (\<Union>i. C i) \<subseteq> (\<Union>d' i. if d' = d then C i else H d' i)"
  proof (intro Un_least UN_least)
    fix d' i
    have "H d' i \<subseteq> (\<Union>i. if d' = d then C i else H d' i)"
      using assms [of i] by (cases "d' = d") auto
    then show "H d' i \<subseteq> (\<Union>d' i. if d' = d then C i else H d' i)"
      by (rule order_trans) (rule UN_upper, simp)
  next
    fix i
    have "C i \<subseteq> (\<Union>i. if d = d then C i else H d i)"
      by auto
    then show "C i \<subseteq> (\<Union>d' i. if d' = d then C i else H d' i)"
      by (rule order_trans) (rule UN_upper, simp)
  qed
qed (auto split: if_splits)

lemma shard_inv_lock_outputs:
  assumes inv: "shard_inv s" and lock: "lock_outputs S s txs d = Some (res, s')"
  shows "shard_inv s' \<and> ledger s' = ledger s"
proof (cases "m_running s \<and> m_prepared_dtxs s d = None")
  case False
  then show ?thesis
    using assms by (auto simp: lock_outputs_def split: if_splits option.splits)
next
  case True
  then obtain ret where len: "length ret = length txs" and disj: "disjoint_family (claims s ret txs)"
    and sub: "(\<Union>i. claims s ret txs i) \<subseteq> m_uhs s"
    and s': "s' = (move_locked (\<Union>i. claims s ret txs i) s)
       \<lparr>m_prepared_dtxs := (m_prepared_dtxs s)(d \<mapsto> \<lparr>m_txs = txs, m_results = ret\<rparr>)\<rparr>"
    using lock_outputs_new [OF _ _ lock] by blast
  note h = holds_lock [OF conjunct2 [OF True] s']
  let ?L = "\<Union>i. claims s ret txs i"
  have locked: "m_locked s = (\<Union>d i. holds s d i)"
    using inv by (simp add: shard_inv_def)
  have "(\<Union>d i. holds s' d i) = m_locked s \<union> ?L"
    unfolding locked h(1) by (rule UN_replace) (rule h(2))
  moreover have "holds s' d1 i1 \<inter> holds s' d2 i2 = {}" if "(d1, i1) \<noteq> (d2, i2)" for d1 i1 d2 i2
  proof -
    have "holds s d1 i1 \<inter> holds s d2 i2 = {}"
      using inv that unfolding shard_inv_def disjoint_family_on_def by fastforce
    moreover have "claims s ret txs i1 \<inter> claims s ret txs i2 = {}" if "i1 \<noteq> i2"
      using disj that unfolding disjoint_family_on_def by blast
    moreover have "claims s ret txs i \<inter> holds s d' j = {}" "holds s d' j \<inter> claims s ret txs i = {}"
      for i d' j
      using sub inv locked unfolding shard_inv_def by blast+
    ultimately show ?thesis
      using that unfolding h(1) by auto
  qed
  ultimately show ?thesis
    using inv sub len unfolding shard_inv_def disjoint_family_on_def
    by (auto simp: s' ledger_def)
qed

text \<open>
  The batch \<open>d\<close> can be applied with flags \<open>cs\<close>: it is prepared, only locked transactions are
  completed, the inputs of its transactions that could not be locked are not held by another
  batch or by a later transaction of the same batch, and new outputs are not locked.
\<close>

definition can_apply :: "locking_shard \<Rightarrow> bool list \<Rightarrow> hash_t \<Rightarrow> prepared_dtx \<Rightarrow> bool" where
  "can_apply s cs d p \<longleftrightarrow> m_running s \<and> m_prepared_dtxs s d = Some p \<and> length cs = length (m_txs p) \<and>
     (\<forall>i < length cs. cs ! i \<longrightarrow> m_results p ! i) \<and>
     (\<forall>i < length cs. \<not> m_results p ! i \<longrightarrow>
        shard_ins s (m_txs p ! i) \<inter> m_locked s \<subseteq> (\<Union>j<i. holds s d j)) \<and>
     (\<forall>i < length cs. cs ! i \<longrightarrow> shard_outs s (m_txs p ! i) \<inter> m_locked s = {})"

lemma can_apply_own_locks:
  assumes "shard_inv s" "can_apply s cs d p"
  shows "own_locks s cs (m_results p) (m_txs p)"
proof -
  have h: "holds s d = claims s (m_results p) (m_txs p)"
    using assms(2) by (simp add: can_apply_def holds_def fun_eq_iff)
  have "holds s d i \<subseteq> m_locked s" for i
    using assms(1) unfolding shard_inv_def by blast
  moreover have "disjoint_family (holds s d)"
    using assms(1) unfolding shard_inv_def disjoint_family_on_def by fastforce
  ultimately show ?thesis
    using assms unfolding own_locks_def h [symmetric] by (auto simp: can_apply_def shard_inv_def)
qed

lemma apply_outputs_effect:
  assumes inv: "shard_inv s" and can: "can_apply s cs d p"
  obtains s' where "apply_outputs s cs d = Some (True, s')"
    "m_uhs s' = m_uhs s \<union> (\<Union>i. created s cs (m_txs p) i) \<union> (\<Union>i. released s cs (m_results p) (m_txs p) i)"
    "m_locked s' = m_locked s - (\<Union>i. holds s d i)"
    "m_prepared_dtxs s' = (m_prepared_dtxs s)(d := None)"
    "m_applied_dtxs s' = insert d (m_applied_dtxs s)"
    "m_output_range s' = m_output_range s" "m_running s'"
    "m_completed_txs s' = m_completed_txs (apply_txs s cs (m_txs p))"
proof -
  let ?s = "apply_txs s cs (m_txs p)"
  have "apply_outputs s cs d = Some (True, ?s\<lparr>m_prepared_dtxs := (m_prepared_dtxs s)(d := None),
      m_applied_dtxs := insert d (m_applied_dtxs s)\<rparr>)"
    using can by (simp add: can_apply_def apply_outputs_def Let_def)
  moreover have "holds s d = claims s (m_results p) (m_txs p)"
    using can by (simp add: can_apply_def holds_def fun_eq_iff)
  ultimately show thesis
    using apply_txs_effect [OF can_apply_own_locks [OF assms]] can
    by (intro that [of "?s\<lparr>m_prepared_dtxs := (m_prepared_dtxs s)(d := None),
      m_applied_dtxs := insert d (m_applied_dtxs s)\<rparr>"]) (simp_all add: can_apply_def)
qed

lemma cs_inv_apply_txs: "cs_inv (m_completed_txs s) \<Longrightarrow> cs_inv (m_completed_txs (apply_txs s cs ts))"
proof (induction s cs ts rule: apply_txs.induct)
  case (1 s c cs t ts)
  have "cs_inv (m_completed_txs (apply_tx s c t))"
    using 1(2) by (simp add: apply_tx_def apply_completed_def apply_inputs_eq apply_uhs_outputs_eq cs_inv_add)
  then show ?case
    using 1(1) by simp
qed auto

lemma released_subset: "released s cs rs ts i \<subseteq> claims s rs ts i"
  by (simp add: released_def)

lemma UN_remove:
  assumes "\<And>x d' i j. x \<in> H d' i \<Longrightarrow> x \<in> H d j \<Longrightarrow> d' = d"
  shows "(\<Union>d' i. H d' i) - (\<Union>i. H d i) = (\<Union>d' i. if d' = d then {} else H d' i)"
proof
  show "(\<Union>d' i. H d' i) - (\<Union>i. H d i) \<subseteq> (\<Union>d' i. if d' = d then {} else H d' i)"
  proof
    fix x assume "x \<in> (\<Union>d' i. H d' i) - (\<Union>i. H d i)"
    then obtain d' i where "x \<in> H d' i" "d' \<noteq> d"
      by auto
    then have "x \<in> (\<Union>i. if d' = d then {} else H d' i)"
      by auto
    then show "x \<in> (\<Union>d' i. if d' = d then {} else H d' i)"
      by (rule UN_I [OF UNIV_I])
  qed
qed (use assms in \<open>auto split: if_splits\<close>)

lemma shard_inv_apply_outputs:
  assumes inv: "shard_inv s" and can: "can_apply s cs d p"
    and app: "apply_outputs s cs d = Some (b, s')"
  shows "shard_inv s'"
proof -
  obtain s1 where s1: "apply_outputs s cs d = Some (True, s1)"
    "m_uhs s1 = m_uhs s \<union> (\<Union>i. created s cs (m_txs p) i) \<union> (\<Union>i. released s cs (m_results p) (m_txs p) i)"
    "m_locked s1 = m_locked s - (\<Union>i. holds s d i)"
    "m_prepared_dtxs s1 = (m_prepared_dtxs s)(d := None)" "m_output_range s1 = m_output_range s"
    "m_completed_txs s1 = m_completed_txs (apply_txs s cs (m_txs p))"
    by (rule apply_outputs_effect [OF inv can])
  have s': "s' = s1"
    using app s1(1) by simp
  have h: "holds s1 d' i = (if d' = d then {} else holds s d' i)" for d' i
    using holds_cong [OF s1(5), of d' i] s1(4) by (auto simp: holds_def)
  have disj: "holds s d1 i1 \<inter> holds s d2 i2 = {}" if "(d1, i1) \<noteq> (d2, i2)" for d1 i1 d2 i2
    using inv that unfolding shard_inv_def disjoint_family_on_def by fastforce
  have locked: "m_locked s = (\<Union>d i. holds s d i)"
    using inv by (simp add: shard_inv_def)
  have "m_locked s1 = (\<Union>d i. holds s1 d i)"
  proof -
    have "d' = d" if "x \<in> holds s d' i" "x \<in> holds s d j" for x d' i j
      using disj [of d' i d j] that by blast
    then show ?thesis
      unfolding s1(3) locked h by (rule UN_remove)
  qed
  moreover have "disjoint_family (\<lambda>(d, i). holds s1 d i)"
    using disj by (auto simp: disjoint_family_on_def h)
  moreover have "m_uhs s1 \<inter> m_locked s1 = {}"
  proof -
    have "created s cs (m_txs p) i \<inter> m_locked s = {}" for i
      using can by (simp add: created_def can_apply_def)
    moreover have "released s cs (m_results p) (m_txs p) i \<subseteq> holds s d i" for i
      using can released_subset [of s cs "m_results p" "m_txs p" i] by (simp add: can_apply_def holds_def)
    moreover have "m_uhs s \<inter> m_locked s = {}"
      using inv unfolding shard_inv_def by blast
    ultimately show ?thesis
      unfolding s1(2,3) by blast
  qed
  ultimately show ?thesis
    using inv s1 cs_inv_apply_txs [of s cs "m_txs p"] unfolding s' shard_inv_def by auto
qed

text \<open>What a batch consumes when it is applied.\<close>

definition consumed :: "locking_shard \<Rightarrow> bool list \<Rightarrow> compact_tx list \<Rightarrow> nat \<Rightarrow> hash_t set" where
  "consumed s cs ts i = (if i < length ts \<and> cs ! i then shard_ins s (ts ! i) else {})"

lemma ledger_arith:
  "H = C \<union> R \<Longrightarrow> C \<inter> R = {} \<Longrightarrow> H \<subseteq> L \<Longrightarrow> U \<inter> L = {} \<Longrightarrow> U \<union> N \<union> R \<union> (L - H) = (U \<union> L - C) \<union> N"
  by blast

lemma ledger_apply_outputs:
  assumes inv: "shard_inv s" and can: "can_apply s cs d p"
    and app: "apply_outputs s cs d = Some (b, s')"
  shows "ledger s' = (ledger s - (\<Union>i. consumed s cs (m_txs p) i)) \<union> (\<Union>i. created s cs (m_txs p) i)"
proof -
  let ?C = "\<Union>i. consumed s cs (m_txs p) i" and ?N = "\<Union>i. created s cs (m_txs p) i"
    and ?R = "\<Union>i. released s cs (m_results p) (m_txs p) i" and ?H = "\<Union>i. holds s d i"
  obtain s1 where s1: "apply_outputs s cs d = Some (True, s1)" "m_uhs s1 = m_uhs s \<union> ?N \<union> ?R"
    "m_locked s1 = m_locked s - ?H"
    by (rule apply_outputs_effect [OF inv can])
  have h: "holds s d i = consumed s cs (m_txs p) i \<union> released s cs (m_results p) (m_txs p) i" for i
    using can by (auto simp: can_apply_def holds_def claims_def consumed_def released_def)
  have disj: "consumed s cs (m_txs p) i \<inter> released s cs (m_results p) (m_txs p) j = {}" for i j
  proof (cases "i = j")
    case True
    then show ?thesis
      by (simp add: consumed_def released_def)
  next
    case False
    then have "holds s d i \<inter> holds s d j = {}"
      using inv unfolding shard_inv_def disjoint_family_on_def by fastforce
    then show ?thesis
      unfolding h by blast
  qed
  have "?H = ?C \<union> ?R" "?C \<inter> ?R = {}"
    using disj unfolding h by auto
  moreover have "?H \<subseteq> m_locked s" "m_uhs s \<inter> m_locked s = {}"
    using inv unfolding shard_inv_def by blast+
  ultimately have "m_uhs s \<union> ?N \<union> ?R \<union> (m_locked s - ?H) = (m_uhs s \<union> m_locked s - ?C) \<union> ?N"
    by (rule ledger_arith)
  moreover have "s' = s1"
    using app s1(1) by simp
  ultimately show ?thesis
    by (simp only: ledger_def s1(2,3))
qed

lemma UN_less_Suc_split: "(\<Union>j<Suc i. f j) = f 0 \<union> (\<Union>j<i. f (Suc j))" for f :: "nat \<Rightarrow> 'a set"
  by (auto simp: lessThan_Suc_eq_insert_0)

lemma lock_txs_results:
  assumes "lock_txs S s txs = Some (ret, s')" "i < length txs"
  shows "ret ! i \<longleftrightarrow>
    check_attestations S (txs ! i) (m_sentinel_public_keys s) (m_attestation_threshold s) \<and>
    shard_ins s (txs ! i) \<subseteq> m_uhs s - (\<Union>j<i. claims s ret txs j)"
  using assms
proof (induction txs arbitrary: s ret s' i)
  case (Cons t txs)
  then obtain b s1 ret1 where 1: "check_and_lock_tx S s t = Some (b, s1)"
    and 2: "lock_txs S s1 txs = Some (ret1, s')" and ret: "ret = b # ret1"
    by (auto simp: bind_eq_Some_conv)
  have b: "b \<longleftrightarrow> lockable S s t" and s1: "s1 = move_locked (if b then shard_ins s t else {}) s"
    using 1 by (auto simp: check_and_lock_tx_eq split: if_splits)
  show ?case
  proof (cases i)
    case 0
    then show ?thesis
      by (simp add: ret b lockable_def)
  next
    case (Suc k)
    then have "ret1 ! k \<longleftrightarrow>
      check_attestations S (txs ! k) (m_sentinel_public_keys s) (m_attestation_threshold s) \<and>
      shard_ins s (txs ! k) \<subseteq> m_uhs s - (if b then shard_ins s t else {}) - (\<Union>j<k. claims s ret1 txs j)"
      using Cons.IH [OF 2, of k] Cons.prems(2) unfolding s1 by simp
    then show ?thesis
      unfolding Suc by (simp add: ret UN_less_Suc_split Diff_Un Diff_Int2) blast
  qed
qed simp

lemma apply_outputs_applied:
  assumes "apply_outputs s cs d = Some (True, s')"
  shows "m_running s' \<and> m_prepared_dtxs s' d = None \<and> d \<in> m_applied_dtxs s'"
  using assms by (auto simp: apply_outputs_def Let_def split: if_splits option.splits)

lemma lock_outputs_prepared:
  assumes "lock_outputs S s txs d = Some (Some ret, s')"
  shows "m_running s' \<and> (\<exists>p. m_prepared_dtxs s' d = Some p \<and> m_results p = ret)"
proof (cases "m_prepared_dtxs s d")
  case None
  then have run: "m_running s"
    using assms by (auto simp: lock_outputs_def split: if_splits)
  obtain ret' where "Some ret = Some ret'" "s' = (move_locked (\<Union>i. claims s ret' txs i) s)
      \<lparr>m_prepared_dtxs := (m_prepared_dtxs s)(d \<mapsto> \<lparr>m_txs = txs, m_results = ret'\<rparr>)\<rparr>"
    by (rule lock_outputs_new [OF run None assms])
  then show ?thesis
    using run by simp
next
  case (Some p)
  then show ?thesis
    using assms by (auto simp: lock_outputs_def split: if_splits)
qed

section \<open>Concrete shards\<close>

definition sample_tx :: "byte \<Rightarrow> byte list \<Rightarrow> byte list \<Rightarrow> compact_tx" where
  "sample_tx i ins outs = \<lparr>m_id = sample_hash i, c_inputs = map sample_hash ins,
     m_uhs_outputs = map sample_hash outs, m_attestations = []\<rparr>"

lemma shard_inv_fresh:
  "shard_inv s \<Longrightarrow> m_locked s = {} \<Longrightarrow> shard_inv (s\<lparr>m_uhs := U\<rparr>)"
  by (auto simp: shard_inv_def disjoint_family_on_def)

text \<open>A shard on which batch 9, with one transaction that spends 5 and creates 6, is locked.\<close>

definition sample_locked_shard :: locking_shard where
  "sample_locked_shard = (locking_shard_init (0, 255) 10 {} 0)
     \<lparr>m_locked := {sample_hash 5},
      m_prepared_dtxs := [sample_hash 9 \<mapsto> \<lparr>m_txs = [sample_tx 1 [5] [6]], m_results = [True]\<rparr>]\<rparr>"

lemma holds_sample:
  "holds sample_locked_shard d i = (if d = sample_hash 9 \<and> i = 0 then {sample_hash 5} else {})"
  by (auto simp: holds_def sample_locked_shard_def claims_def shard_hashes_def in_shard_def
      sample_tx_def locking_shard_init_def)

lemma shard_inv_sample: "shard_inv sample_locked_shard"
  unfolding shard_inv_def holds_sample
  by (auto simp: sample_locked_shard_def locking_shard_init_def sample_tx_def disjoint_family_on_def
      split: if_splits)

section \<open>Properties\<close>

text \<open>C6: Locking a new batch whose transactions have no duplicate inputs always returns and is
  exact. Flag \<open>i\<close> is set if and only if transaction \<open>i\<close> is properly attested and all its
  inputs of this shard are in the UHS and not locked by an earlier transaction of the batch;
  exactly the inputs of the flagged transactions move from the UHS to the locked set; no
  input is locked for two transactions; the set of unspent outputs, as \<open>check_unspent\<close> reports
  it, does not change; and the shard invariant is kept.\<close>

theorem lock_outputs_exact:
  assumes "shard_inv s" "m_running s" "m_prepared_dtxs s d = None"
    and "\<forall>t \<in> set txs. distinct (c_inputs t)"
  shows "\<exists>ret s'. lock_outputs S s txs d = Some (Some ret, s') \<and> length ret = length txs \<and>
    (\<forall>i < length txs. ret ! i \<longleftrightarrow>
       check_attestations S (txs ! i) (m_sentinel_public_keys s) (m_attestation_threshold s) \<and>
       shard_ins s (txs ! i) \<subseteq> m_uhs s - (\<Union>j<i. claims s ret txs j)) \<and>
    m_uhs s' = m_uhs s - (\<Union>i. claims s ret txs i) \<and>
    m_locked s' = m_locked s \<union> (\<Union>i. claims s ret txs i) \<and>
    disjoint_family (claims s ret txs) \<and>
    (\<forall>h. check_unspent s' h = check_unspent s h) \<and> shard_inv s'"
proof -
  obtain ret0 s0 where "lock_txs S s txs = Some (ret0, s0)"
    using lock_txs_total [OF assms(4)] by blast
  then have "\<exists>res s'. lock_outputs S s txs d = Some (res, s')"
    using assms(2,3) by (simp add: lock_outputs_def)
  then obtain res s' where lock: "lock_outputs S s txs d = Some (res, s')"
    by blast
  obtain ret where ret: "res = Some ret" "length ret = length txs" "disjoint_family (claims s ret txs)"
    "s' = (move_locked (\<Union>i. claims s ret txs i) s)
       \<lparr>m_prepared_dtxs := (m_prepared_dtxs s)(d \<mapsto> \<lparr>m_txs = txs, m_results = ret\<rparr>)\<rparr>"
    "lock_txs S s txs = Some (ret, move_locked (\<Union>i. claims s ret txs i) s)"
    by (rule lock_outputs_new [OF assms(2,3) lock])
  have "shard_inv s'" "ledger s' = ledger s"
    using shard_inv_lock_outputs [OF assms(1) lock] by auto
  then show ?thesis
    using lock ret lock_txs_results [OF ret(5)]
    by (intro exI [of _ ret] exI [of _ s']) (simp add: check_unspent_ledger)
qed

theorem lock_outputs_exact_witness:
  "let s = (locking_shard_init (0, 255) 10 {} 0)\<lparr>m_uhs := {sample_hash 5}\<rparr>;
       txs = [sample_tx 1 [5] [6], sample_tx 2 [5] [7]]
   in \<exists>ret s'. lock_outputs toy_secp s txs (sample_hash 9) = Some (Some ret, s') \<and>
     m_locked s' = (\<Union>i. claims s ret txs i) \<and> disjoint_family (claims s ret txs) \<and> shard_inv s'"
proof -
  define s where "s = (locking_shard_init (0, 255) 10 {} 0)\<lparr>m_uhs := {sample_hash 5}\<rparr>"
  have "shard_inv s"
    unfolding s_def by (rule shard_inv_fresh [OF shard_inv_init]) (simp add: locking_shard_init_def)
  moreover have "m_running s" "m_prepared_dtxs s (sample_hash 9) = None" "m_locked s = {}"
    by (simp_all add: s_def locking_shard_init_def)
  ultimately show ?thesis
    using lock_outputs_exact [of s "sample_hash 9" "[sample_tx 1 [5] [6], sample_tx 2 [5] [7]]" toy_secp]
    unfolding Let_def s_def [symmetric] by (fastforce simp: sample_tx_def)
qed


text \<open>Applying a prepared batch is the atomic update of the ledger. If only locked
  transactions are completed, no other holder of a lock is hit and the new outputs are fresh,
  then the apply succeeds, the set of unspent outputs loses exactly the inputs and gains
  exactly the outputs of the completed transactions, the locks of the batch are gone, the
  locks of every other batch are untouched, and the shard invariant is kept.\<close>

theorem apply_outputs_atomic:
  assumes "shard_inv s" "can_apply s cs d p"
  shows "\<exists>s'. apply_outputs s cs d = Some (True, s') \<and>
    (\<forall>h. check_unspent s' h \<longleftrightarrow>
       (check_unspent s h \<and> h \<notin> (\<Union>i. consumed s cs (m_txs p) i)) \<or> h \<in> (\<Union>i. created s cs (m_txs p) i)) \<and>
    m_locked s' = m_locked s - (\<Union>i. holds s d i) \<and>
    (\<forall>d' i. d' \<noteq> d \<longrightarrow> holds s' d' i = holds s d' i) \<and> shard_inv s'"
proof -
  obtain s' where s': "apply_outputs s cs d = Some (True, s')"
    "m_locked s' = m_locked s - (\<Union>i. holds s d i)"
    "m_prepared_dtxs s' = (m_prepared_dtxs s)(d := None)" "m_output_range s' = m_output_range s"
    by (rule apply_outputs_effect [OF assms])
  have "d' \<noteq> d \<Longrightarrow> holds s' d' i = holds s d' i" for d' i
    by (rule holds_cong) (simp_all add: s')
  then show ?thesis
    using s' shard_inv_apply_outputs [OF assms s'(1)] ledger_apply_outputs [OF assms s'(1)]
    by (intro exI [of _ s']) (simp add: check_unspent_ledger)
qed

theorem apply_outputs_atomic_witness:
  "\<exists>s'. apply_outputs sample_locked_shard [True] (sample_hash 9) = Some (True, s') \<and>
     check_unspent s' (sample_hash 6) \<and> \<not> check_unspent s' (sample_hash 5) \<and> shard_inv s'"
proof -
  have range: "in_shard sample_locked_shard h" for h
    by (simp add: in_shard_def sample_locked_shard_def locking_shard_init_def)
  let ?p = "\<lparr>m_txs = [sample_tx 1 [5] [6]], m_results = [True]\<rparr>"
  have "can_apply sample_locked_shard [True] (sample_hash 9) ?p"
    by (simp add: can_apply_def shard_hashes_def range sample_tx_def)
       (simp add: sample_locked_shard_def locking_shard_init_def sample_tx_def)
  moreover have "(\<Union>i. consumed sample_locked_shard [True] (m_txs ?p) i) = {sample_hash 5}"
    "(\<Union>i. created sample_locked_shard [True] (m_txs ?p) i) = {sample_hash 6}"
    by (subst UN_nat_split, simp add: consumed_def created_def range sample_tx_def)+
  ultimately obtain s' where s': "apply_outputs sample_locked_shard [True] (sample_hash 9) = Some (True, s')"
    and u: "\<And>h. check_unspent s' h \<longleftrightarrow>
      (check_unspent sample_locked_shard h \<and> h \<notin> {sample_hash 5}) \<or> h \<in> {sample_hash 6}"
    and "shard_inv s'"
    using apply_outputs_atomic [OF shard_inv_sample, of "[True]" "sample_hash 9" ?p] by metis
  moreover have "check_unspent s' (sample_hash 6)" "\<not> check_unspent s' (sample_hash 5)"
    unfolding u by simp_all
  ultimately show ?thesis
    by blast
qed

text \<open>Requests may be retried. A lock that returned results returns the same results and
  leaves the state alone when the same batch is locked again, whatever transactions the
  repeated request carries; an apply that succeeded succeeds again and leaves the state
  alone, whatever flags the repeated request carries.\<close>

theorem shard_retries_idempotent:
  "(lock_outputs S s txs d = Some (Some ret, s1) \<longrightarrow>
      lock_outputs S s1 txs' d = Some (Some ret, s1)) \<and>
   (apply_outputs s cs d = Some (True, s2) \<longrightarrow> apply_outputs s2 cs' d = Some (True, s2))"
  using lock_outputs_prepared [of S s txs d ret s1] apply_outputs_applied [of s cs d s2]
  by (auto simp: lock_outputs_def [of S s1] apply_outputs_def [of s2])

theorem shard_retries_idempotent_witness:
  "let s = sample_locked_shard;
       r = lock_outputs toy_secp s [] (sample_hash 9)
   in r = Some (Some [True], s) \<and> lock_outputs toy_secp s [sample_tx 3 [4] []] (sample_hash 9) = r"
proof -
  have "lock_outputs toy_secp sample_locked_shard [] (sample_hash 9) = Some (Some [True], sample_locked_shard)"
    by (simp add: lock_outputs_def sample_locked_shard_def locking_shard_init_def)
  then show ?thesis
    using shard_retries_idempotent [of toy_secp sample_locked_shard "[]" "sample_hash 9" "[True]"
        sample_locked_shard "[sample_tx 3 [4] []]"]
    by (simp add: Let_def)
qed

text \<open>The locks of one transaction are not safe from the abort of another. When a batch
  holds a transaction \<open>b\<close> that cannot be locked because one of its inputs is missing, followed
  by a transaction \<open>a\<close> that spends another input \<open>x\<close> of \<open>b\<close>, the shard locks \<open>x\<close> for \<open>a\<close>;
  when it then applies the batch with \<open>b\<close> aborted and \<open>a\<close> completed, the abort of \<open>b\<close> moves \<open>x\<close>
  back to the UHS before \<open>a\<close> is completed. Transaction \<open>a\<close> has created its outputs, and the
  input it spent is unspent and can be locked again.\<close>

theorem abort_releases_lock_of_other_tx:
  assumes "m_running s" "m_prepared_dtxs s d = None" "x \<in> m_uhs s" "in_shard s x"
    and "y \<notin> m_uhs s" "in_shard s y"
    and "check_attestations S a (m_sentinel_public_keys s) (m_attestation_threshold s)"
    and "c_inputs b = [x, y]" "c_inputs a = [x]"
  shows "\<exists>s1 s2. lock_outputs S s [b, a] d = Some (Some [False, True], s1) \<and>
    apply_outputs s1 [False, True] d = Some (True, s2) \<and>
    shard_outs s a \<subseteq> m_uhs s2 \<and> x \<in> m_uhs s2"
proof -
  have "lock_txs S s [b, a] = Some ([False, True], move_locked {x} s)"
    using assms by (simp add: check_and_lock_tx_eq lockable_def)
  then obtain s1 where s1: "lock_outputs S s [b, a] d = Some (Some [False, True], s1)"
    "s1 = (move_locked {x} s)\<lparr>m_prepared_dtxs :=
       (m_prepared_dtxs s)(d \<mapsto> \<lparr>m_txs = [b, a], m_results = [False, True]\<rparr>)\<rparr>"
    using assms(1,2) by (simp add: lock_outputs_def del: lock_txs.simps)
  let ?s = "apply_tx (apply_tx s1 False b) True a"
  have "apply_outputs s1 [False, True] d = Some (True, ?s\<lparr>m_prepared_dtxs := (m_prepared_dtxs s1)(d := None),
      m_applied_dtxs := insert d (m_applied_dtxs s1)\<rparr>)"
    using assms(1) by (simp add: apply_outputs_def s1(2) Let_def)
  moreover have "x \<in> m_uhs ?s" "shard_outs s a \<subseteq> m_uhs ?s"
    using assms by (auto simp: s1(2))
  ultimately show ?thesis
    using s1(1) by (intro exI [of _ s1] exI [of _ "?s\<lparr>m_prepared_dtxs := (m_prepared_dtxs s1)(d := None),
      m_applied_dtxs := insert d (m_applied_dtxs s1)\<rparr>"]) simp
qed

theorem abort_releases_lock_of_other_tx_witness:
  "let s = (locking_shard_init (0, 255) 10 {} 0)\<lparr>m_uhs := {sample_hash 5}\<rparr>
   in \<exists>s1 s2. lock_outputs toy_secp s [sample_tx 2 [5, 8] [7], sample_tx 1 [5] [6]] (sample_hash 9)
        = Some (Some [False, True], s1) \<and>
      apply_outputs s1 [False, True] (sample_hash 9) = Some (True, s2) \<and> sample_hash 5 \<in> m_uhs s2"
  using abort_releases_lock_of_other_tx
    [of "(locking_shard_init (0, 255) 10 {} 0)\<lparr>m_uhs := {sample_hash 5}\<rparr>" "sample_hash 9"
      "sample_hash 5" "sample_hash 8" toy_secp "sample_tx 1 [5] [6]" "sample_tx 2 [5, 8] [7]"]
  by (fastforce simp: locking_shard_init_def sample_tx_def in_shard_def check_attestations_iff Let_def)

end
