(* ===== verification/Raft_SM.thy ===== *)
theory Raft_SM
  imports Locking_Shard
begin

text \<open>
  The interface between the replicated state machines and the Raft log. A replica executes the
  entries of the log in order: commands with \<open>commit\<close>, changes of the cluster configuration with
  \<open>commit_config\<close>. Every state machine of the system checks that the index of an entry is the
  successor of the last one. Raft itself is a library; what it promises, that all replicas
  execute prefixes of one log, is the argument \<open>log\<close> below. An execution that ends the process
  is \<open>None\<close>.
\<close>

datatype 'cmd log_entry = Command 'cmd | Config_change

section \<open>Executing a log\<close>

text \<open>One entry at its index, and a log from the index after the last one.\<close>

definition raft_apply ::
  "('st \<Rightarrow> u64 \<Rightarrow> 'cmd \<Rightarrow> ('res \<times> 'st) option) \<Rightarrow> ('st \<Rightarrow> u64 \<Rightarrow> 'st option) \<Rightarrow> 'st \<Rightarrow> u64
     \<Rightarrow> 'cmd log_entry \<Rightarrow> ('res list \<times> 'st) option" where
  "raft_apply commit commit_config st idx e =
    (case e of
       Command c \<Rightarrow> map_option (\<lambda>(r, st'). ([r], st')) (commit st idx c)
     | Config_change \<Rightarrow> map_option (\<lambda>st'. ([], st')) (commit_config st idx))"

fun raft_run ::
  "('st \<Rightarrow> u64 \<Rightarrow> 'cmd \<Rightarrow> ('res \<times> 'st) option) \<Rightarrow> ('st \<Rightarrow> u64 \<Rightarrow> 'st option) \<Rightarrow> 'st \<Rightarrow> u64
     \<Rightarrow> 'cmd log_entry list \<Rightarrow> ('res list \<times> 'st) option" where
  "raft_run commit commit_config st idx [] = Some ([], st)"
| "raft_run commit commit_config st idx (e # log) =
    (case raft_apply commit commit_config st idx e of
       None \<Rightarrow> None
     | Some (rs, st') \<Rightarrow>
         map_option (\<lambda>(rs', st''). (rs @ rs', st'')) (raft_run commit commit_config st' (idx + 1) log))"

lemma raft_run_append:
  "raft_run c cc st idx (xs @ ys) =
    (case raft_run c cc st idx xs of
       None \<Rightarrow> None
     | Some (rs, st') \<Rightarrow>
         map_option (\<lambda>(rs', st''). (rs @ rs', st'')) (raft_run c cc st' (idx + word_of_nat (length xs)) ys))"
  by (induction xs arbitrary: st idx)
     (auto split: option.splits simp: algebra_simps option.map_comp comp_def option.map_id0 [unfolded id_def] case_prod_unfold)

section \<open>The interface\<close>

locale raft_state_machine =
  fixes commit :: "'st \<Rightarrow> u64 \<Rightarrow> 'cmd \<Rightarrow> ('res \<times> 'st) option"
    and commit_config :: "'st \<Rightarrow> u64 \<Rightarrow> 'st option"
    and last_commit_index :: "'st \<Rightarrow> u64"
  assumes commit_index:
      "commit st i d = Some (r, st') \<Longrightarrow> i = last_commit_index st + 1 \<and> last_commit_index st' = i"
    and config_index:
      "commit_config st i = Some st' \<Longrightarrow> i = last_commit_index st + 1 \<and> last_commit_index st' = i"
begin

lemma apply_index:
  "raft_apply commit commit_config st i e = Some (rs, st') \<Longrightarrow>
     i = last_commit_index st + 1 \<and> last_commit_index st' = i"
  by (auto simp: raft_apply_def split: log_entry.splits dest: commit_index config_index)

text \<open>An entry is executed once: a replica refuses the entry it has just executed.\<close>

lemma redelivery_refused:
  "raft_apply commit commit_config st i e = Some (rs, st') \<Longrightarrow> raft_apply commit commit_config st' i e' = None"
  using apply_index [of st i e rs st'] apply_index [of st' i e'] by (cases "raft_apply commit commit_config st' i e'") auto

text \<open>The index counts the executed entries.\<close>

lemma run_index:
  "raft_run commit commit_config st i log = Some (rs, st') \<Longrightarrow>
     last_commit_index st' = last_commit_index st + word_of_nat (length log)"
proof (induction log arbitrary: st i rs)
  case (Cons e log)
  then obtain rs1 st1 rs2 where s: "raft_apply commit commit_config st i e = Some (rs1, st1)"
    "raft_run commit commit_config st1 (i + 1) log = Some (rs2, st')"
    by (auto split: option.splits)
  show ?case
    using apply_index [OF s(1)] Cons.IH [OF s(2)] by (simp add: algebra_simps)
qed simp

text \<open>
  Replicas that start alike and execute prefixes of one log agree on the common part: the
  longer one has passed through the state of the shorter one.
\<close>

lemma replicas_agree:
  assumes "raft_run commit commit_config st i (xs @ ys) = Some (rs, st2)"
  shows "\<exists>rs1 rs2 st1. raft_run commit commit_config st i xs = Some (rs1, st1) \<and>
    raft_run commit commit_config st1 (last_commit_index st1 + 1) ys = Some (rs2, st2) \<and> rs = rs1 @ rs2 \<and>
    last_commit_index st1 = last_commit_index st + word_of_nat (length xs)"
proof -
  obtain rs1 st1 rs2 where r: "raft_run commit commit_config st i xs = Some (rs1, st1)"
    "raft_run commit commit_config st1 (i + word_of_nat (length xs)) ys = Some (rs2, st2)" "rs = rs1 @ rs2"
    using assms by (auto simp: raft_run_append split: option.splits)
  have "raft_run commit commit_config st1 (last_commit_index st1 + 1) ys = Some (rs2, st2)"
  proof (cases ys)
    case (Cons e ys')
    then obtain rs3 st3 where "raft_apply commit commit_config st1 (i + word_of_nat (length xs)) e = Some (rs3, st3)"
      using r(2) by (auto split: option.splits)
    from apply_index [OF this] show ?thesis
      using r(2) by simp
  qed (use r(2) in simp)
  then show ?thesis
    using r run_index [OF r(1)] by blast
qed

end

interpretation shard_raft: raft_state_machine "shard_sm_commit S" shard_sm_commit_config sm_last_committed_idx
  for S
  by unfold_locales (auto simp: shard_sm_commit_def shard_sm_commit_config_def split: if_splits bind_splits)

end
