(* ===== verification/Atomizer.thy ===== *)
theory Atomizer
  imports Tx_Error Raft_SM
begin

text \<open>
  The atomizer (\<open>uhs/atomizer/atomizer\<close>): the aggregation of attestations and the cache of spent
  outputs (\<open>atomizer.cpp\<close>), its replicated state machine (\<open>state_machine.cpp\<close>), the collection of
  notifications by the leader (\<open>atomizer_raft.cpp\<close>) and the handlers of its controller
  (\<open>controller.cpp\<close>). Unordered maps are association lists; a transaction is looked up by its
  identifier, as \<open>compact_tx::operator==\<close> compares it. \<open>None\<close> is an index outside a vector, a loop
  that does not end, or a failed assertion.
\<close>

section \<open>State\<close>

record block =
  b_height :: u64
  b_transactions :: "compact_tx list"

record atomizer =
  a_txs :: "(compact_tx \<times> u32 set) list list"
  a_complete_txs :: "compact_tx list"
  a_spent :: "hash_t set list"
  a_best_height :: u64
  a_spent_cache_depth :: u64

definition atomizer_init :: "u64 \<Rightarrow> u64 \<Rightarrow> atomizer" where
  "atomizer_init best_height stxo_cache_depth =
    \<lparr>a_txs = replicate (unat (stxo_cache_depth + 1)) [], a_complete_txs = [],
     a_spent = replicate (unat (stxo_cache_depth + 1)) {},
     a_best_height = best_height, a_spent_cache_depth = stxo_cache_depth\<rparr>"

definition pending_transactions :: "atomizer \<Rightarrow> nat" where
  "pending_transactions a = length (a_complete_txs a)"

definition atomizer_height :: "atomizer \<Rightarrow> u64" where
  "atomizer_height a = a_best_height a"

section \<open>Checks\<close>

definition get_notification_offset :: "atomizer \<Rightarrow> u64 \<Rightarrow> u64" where
  "get_notification_offset a block_height = a_best_height a - block_height"

definition check_notification_offset :: "atomizer \<Rightarrow> u64 \<Rightarrow> compact_tx \<Rightarrow> wt_error option" where
  "check_notification_offset a height_offset tx =
    (if height_offset > a_spent_cache_depth a \<and> c_inputs tx \<noteq> []
     then Some \<lparr>e_tx_id = m_id tx, e_info = Error_stxo_range\<rparr> else None)"

text \<open>
  The loop over the offsets up to and including \<open>cache_check_range\<close>: it does not end when the
  range is the largest value of its type, and it reads the cache only for transactions with
  inputs.
\<close>

definition check_stxo_cache :: "atomizer \<Rightarrow> compact_tx \<Rightarrow> u64 \<Rightarrow> wt_error option option" where
  "check_stxo_cache a tx cache_check_range =
    (if cache_check_range + 1 = 0 then None
     else if c_inputs tx = [] then Some None
     else if unat cache_check_range \<ge> length (a_spent a) then None
     else let err_set = remdups (concat (map (\<lambda>offset. filter (\<lambda>inp. inp \<in> a_spent a ! offset) (c_inputs tx))
                          [0..<Suc (unat cache_check_range)]))
       in if err_set \<noteq> [] then Some (Some \<lparr>e_tx_id = m_id tx, e_info = Error_inputs_spent err_set\<rparr>)
          else Some None)"

definition add_tx_to_stxo_cache :: "atomizer \<Rightarrow> compact_tx \<Rightarrow> atomizer" where
  "add_tx_to_stxo_cache a tx = a\<lparr>a_spent := (a_spent a)[0 := a_spent a ! 0 \<union> set (c_inputs tx)]\<rparr>"

section \<open>Operations\<close>

definition insert_complete :: "atomizer \<Rightarrow> u64 \<Rightarrow> compact_tx \<Rightarrow> (wt_error option \<times> atomizer) option" where
  "insert_complete a oldest_attestation tx =
    (let height_offset = get_notification_offset a oldest_attestation in
     case check_notification_offset a height_offset tx of
       Some e \<Rightarrow> Some (Some e, a)
     | None \<Rightarrow> do {
         err_set \<leftarrow> check_stxo_cache a tx height_offset;
         case err_set of
           Some e \<Rightarrow> Some (Some e, a)
         | None \<Rightarrow> let a' = add_tx_to_stxo_cache a tx in
             Some (None, a'\<lparr>a_complete_txs := a_complete_txs a' @ [tx]\<rparr>) })"

fun find_tx :: "compact_tx \<Rightarrow> (compact_tx \<times> 'a) list \<Rightarrow> (compact_tx \<times> 'a) option" where
  "find_tx tx [] = None"
| "find_tx tx (e # m) = (if compact_tx_eq (fst e) tx then Some e else find_tx tx m)"

definition erase_tx :: "compact_tx \<Rightarrow> (compact_tx \<times> 'a) list \<Rightarrow> (compact_tx \<times> 'a) list" where
  "erase_tx tx m = filter (\<lambda>e. \<not> compact_tx_eq (fst e) tx) m"

text \<open>The entry of the notification: inserted, or its attestations merged.\<close>

definition merge_notification ::
  "compact_tx \<Rightarrow> u32 set \<Rightarrow> (compact_tx \<times> u32 set) list \<Rightarrow> (compact_tx \<times> u32 set) list" where
  "merge_notification tx attestations m =
    (case find_tx tx m of
       None \<Rightarrow> m @ [(tx, attestations)]
     | Some _ \<Rightarrow> map (\<lambda>(t, s). if compact_tx_eq t tx then (t, s \<union> attestations) else (t, s)) m)"

definition atomizer_insert ::
  "atomizer \<Rightarrow> u64 \<Rightarrow> compact_tx \<Rightarrow> u32 set \<Rightarrow> (wt_error option \<times> atomizer) option" where
  "atomizer_insert a block_height tx attestations =
    (let height_offset = get_notification_offset a block_height in
     case check_notification_offset a height_offset tx of
       Some e \<Rightarrow> Some (Some e, a)
     | None \<Rightarrow>
         if unat height_offset \<ge> length (a_txs a) then None
         else
           let off = unat height_offset;
               a1 = a\<lparr>a_txs := (a_txs a)[off := merge_notification tx attestations (a_txs a ! off)]\<rparr>;
               txit = fst (the (find_tx tx (a_txs a1 ! off)));
               tx_its = filter (\<lambda>o'. find_tx txit (a_txs a1 ! o') \<noteq> None) [0..<Suc (unat (a_spent_cache_depth a))];
               total_attestations = (\<Union>o' \<in> set tx_its. snd (the (find_tx txit (a_txs a1 ! o'))));
               oldest_attestation = last tx_its
           in if card total_attestations \<noteq> length (c_inputs txit) then Some (None, a1)
              else do {
                err_set \<leftarrow> check_stxo_cache a1 txit (word_of_nat oldest_attestation);
                case err_set of
                  Some e \<Rightarrow> Some (Some e, a1)
                | None \<Rightarrow>
                    let a2 = add_tx_to_stxo_cache a1 txit;
                        done = fst (the (find_tx txit (a_txs a1 ! oldest_attestation)))
                    in Some (None, a2\<lparr>a_txs := map (erase_tx txit) (a_txs a2),
                                      a_complete_txs := a_complete_txs a2 @ [done]\<rparr>) })"

text \<open>The rotation moves every entry one block back and clears the first.\<close>

definition make_block :: "atomizer \<Rightarrow> (block \<times> wt_error list) \<times> atomizer" where
  "make_block a =
    (let depth = unat (a_spent_cache_depth a);
         best = a_best_height a + 1;
         errs = map (\<lambda>tx. \<lparr>e_tx_id = m_id (fst tx), e_info = Error_incomplete\<rparr>) (a_txs a ! depth)
     in ((\<lparr>b_height = best, b_transactions = a_complete_txs a\<rparr>, errs),
         a\<lparr>a_complete_txs := [], a_best_height := best,
           a_spent := {} # take depth (a_spent a), a_txs := [] # take depth (a_txs a)\<rparr>))"

section \<open>Messages\<close>

record tx_notify_request =
  n_tx :: compact_tx
  n_attestations :: "u64 list"
  n_block_height :: u64

record aggregate_tx_notification =
  agg_tx :: compact_tx
  m_oldest_attestation :: u64

datatype sm_request =
  Aggregate_tx_notify_request "aggregate_tx_notification list"
| Make_block_request
| Get_block_request u64
| Prune_request u64

datatype sm_response =
  Make_block_response block "wt_error list"
| Get_block_response block
| Errors_response "wt_error list"

datatype atomizer_request =
  Req_tx_notify tx_notify_request | Req_prune u64 | Req_get_block u64

definition put_block :: "block putter" where
  "put_block blk = put_u64 (b_height blk) @ put_vector put_compact_tx (b_transactions blk)"

definition get_block_fmt :: "block getter" where
  "get_block_fmt bs = do {
     (h, r) \<leftarrow> get_u64 bs;
     (txs, r) \<leftarrow> get_vector sizeof_compact_tx get_compact_tx r;
     Some (\<lparr>b_height = h, b_transactions = txs\<rparr>, r) }"

definition put_tx_notify :: "tx_notify_request putter" where
  "put_tx_notify msg = put_u64 (n_block_height msg) @ put_compact_tx (n_tx msg) @ put_set put_u64 (n_attestations msg)"

definition get_tx_notify :: "tx_notify_request getter" where
  "get_tx_notify bs = do {
     (h, r) \<leftarrow> get_u64 bs;
     (tx, r) \<leftarrow> get_compact_tx r;
     (att, r) \<leftarrow> get_unordered_set get_u64 r;
     Some (\<lparr>n_tx = tx, n_attestations = att, n_block_height = h\<rparr>, r) }"

definition put_aggregate :: "aggregate_tx_notification putter" where
  "put_aggregate msg = put_u64 (m_oldest_attestation msg) @ put_compact_tx (agg_tx msg)"

definition get_aggregate :: "aggregate_tx_notification getter" where
  "get_aggregate bs = do {
     (h, r) \<leftarrow> get_u64 bs;
     (tx, r) \<leftarrow> get_compact_tx r;
     Some (\<lparr>agg_tx = tx, m_oldest_attestation = h\<rparr>, r) }"

definition sizeof_aggregate :: nat where "sizeof_aggregate = 144"
definition sizeof_wt_error :: nat where "sizeof_wt_error = 48"

definition put_sm_request :: "sm_request putter" where
  "put_sm_request req =
    (case req of
       Aggregate_tx_notify_request aggs \<Rightarrow> put_u8 0 @ put_vector put_aggregate aggs
     | Make_block_request \<Rightarrow> put_u8 1
     | Get_block_request h \<Rightarrow> put_u8 2 @ put_u64 h
     | Prune_request h \<Rightarrow> put_u8 3 @ put_u64 h)"

definition get_sm_request :: "sm_request getter" where
  "get_sm_request bs = do {
     (idx, r) \<leftarrow> get_u8 bs;
     if idx = 0 then do { (aggs, r) \<leftarrow> get_vector sizeof_aggregate get_aggregate r; Some (Aggregate_tx_notify_request aggs, r) }
     else if idx = 1 then Some (Make_block_request, r)
     else if idx = 2 then do { (h, r) \<leftarrow> get_u64 r; Some (Get_block_request h, r) }
     else if idx = 3 then do { (h, r) \<leftarrow> get_u64 r; Some (Prune_request h, r) }
     else None }"

definition put_sm_response :: "sm_response putter" where
  "put_sm_response resp =
    (case resp of
       Make_block_response blk errs \<Rightarrow> put_u8 0 @ put_block blk @ put_vector put_wt_error errs
     | Get_block_response blk \<Rightarrow> put_u8 1 @ put_block blk
     | Errors_response errs \<Rightarrow> put_u8 2 @ put_vector put_wt_error errs)"

definition get_sm_response :: "sm_response getter" where
  "get_sm_response bs = do {
     (idx, r) \<leftarrow> get_u8 bs;
     if idx = 0 then do {
       (blk, r) \<leftarrow> get_block_fmt r; (errs, r) \<leftarrow> get_vector sizeof_wt_error get_wt_error r;
       Some (Make_block_response blk errs, r) }
     else if idx = 1 then do { (blk, r) \<leftarrow> get_block_fmt r; Some (Get_block_response blk, r) }
     else if idx = 2 then do { (errs, r) \<leftarrow> get_vector sizeof_wt_error get_wt_error r; Some (Errors_response errs, r) }
     else None }"

definition put_atomizer_request :: "atomizer_request putter" where
  "put_atomizer_request req =
    (case req of
       Req_tx_notify msg \<Rightarrow> put_u8 0 @ put_tx_notify msg
     | Req_prune h \<Rightarrow> put_u8 1 @ put_u64 h
     | Req_get_block h \<Rightarrow> put_u8 2 @ put_u64 h)"

definition get_atomizer_request :: "atomizer_request getter" where
  "get_atomizer_request bs = do {
     (idx, r) \<leftarrow> get_u8 bs;
     if idx = 0 then do { (msg, r) \<leftarrow> get_tx_notify r; Some (Req_tx_notify msg, r) }
     else if idx = 1 then do { (h, r) \<leftarrow> get_u64 r; Some (Req_prune h, r) }
     else if idx = 2 then do { (h, r) \<leftarrow> get_u64 r; Some (Req_get_block h, r) }
     else None }"

section \<open>Replicated state machine\<close>

record atomizer_sm =
  asm_atomizer :: atomizer
  asm_blocks :: "(u64 \<times> block) list"
  asm_last_committed_idx :: u64
  asm_tx_notify_count :: u64

definition atomizer_sm_init :: "u64 \<Rightarrow> atomizer_sm" where
  "atomizer_sm_init stxo_cache_depth =
    \<lparr>asm_atomizer = atomizer_init 0 stxo_cache_depth, asm_blocks = [], asm_last_committed_idx = 0, asm_tx_notify_count = 0\<rparr>"

fun insert_aggregates ::
  "atomizer \<Rightarrow> aggregate_tx_notification list \<Rightarrow> (wt_error list \<times> atomizer) option" where
  "insert_aggregates a [] = Some ([], a)"
| "insert_aggregates a (msg # msgs) = do {
     (err, a1) \<leftarrow> insert_complete a (m_oldest_attestation msg) (agg_tx msg);
     (errs, a2) \<leftarrow> insert_aggregates a1 msgs;
     Some (case err of Some e \<Rightarrow> e # errs | None \<Rightarrow> errs, a2) }"

definition atomizer_process :: "atomizer_sm \<Rightarrow> sm_request \<Rightarrow> (sm_response option \<times> atomizer_sm) option" where
  "atomizer_process sm req =
    (case req of
       Aggregate_tx_notify_request aggs \<Rightarrow> do {
         (errs, a) \<leftarrow> insert_aggregates (asm_atomizer sm) aggs;
         Some (if errs \<noteq> [] then Some (Errors_response errs) else None,
           sm\<lparr>asm_atomizer := a, asm_tx_notify_count := asm_tx_notify_count sm + word_of_nat (length aggs)\<rparr>) }
     | Make_block_request \<Rightarrow>
         let ((blk, errs), a) = make_block (asm_atomizer sm) in
         Some (Some (Make_block_response blk errs),
           sm\<lparr>asm_atomizer := a, asm_blocks := emplace (b_height blk) blk (asm_blocks sm)\<rparr>)
     | Get_block_request h \<Rightarrow> Some (map_option Get_block_response (map_of (asm_blocks sm) h), sm)
     | Prune_request h \<Rightarrow>
         Some (None, sm\<lparr>asm_blocks := filter (\<lambda>(_, blk). \<not> b_height blk < h) (asm_blocks sm)\<rparr>))"

definition atomizer_commit :: "atomizer_sm \<Rightarrow> u64 \<Rightarrow> byte list \<Rightarrow> (byte list option \<times> atomizer_sm) option" where
  "atomizer_commit sm log_idx data =
    (if log_idx \<noteq> asm_last_committed_idx sm + 1 then None
     else do {
       req \<leftarrow> from_buffer get_sm_request data;
       (resp, sm') \<leftarrow> atomizer_process (sm\<lparr>asm_last_committed_idx := log_idx\<rparr>) req;
       Some (map_option put_sm_response resp, sm') })"

definition atomizer_commit_config :: "atomizer_sm \<Rightarrow> u64 \<Rightarrow> atomizer_sm option" where
  "atomizer_commit_config sm log_idx =
    (if log_idx \<noteq> asm_last_committed_idx sm + 1 then None else Some (sm\<lparr>asm_last_committed_idx := log_idx\<rparr>))"

lemma atomizer_process_idx: "atomizer_process sm req = Some (r, sm') \<Longrightarrow> asm_last_committed_idx sm' = asm_last_committed_idx sm"
  by (auto simp: atomizer_process_def Let_def split: sm_request.splits bind_splits prod.splits)

interpretation atomizer_raft: raft_state_machine atomizer_commit atomizer_commit_config asm_last_committed_idx
  by unfold_locales
     (auto simp: atomizer_commit_def atomizer_commit_config_def split: if_splits bind_splits dest: atomizer_process_idx)

section \<open>Collecting notifications\<close>

text \<open>
  The leader collects the attestations of each transaction: pairs of an input index and the
  height at which it was attested, one pair per index since \<open>attestation_cmp\<close> compares the
  indices only.
\<close>

record atomizer_leader =
  l_txs :: "(compact_tx \<times> (u64 \<times> u64) list) list"
  l_complete_txs :: "aggregate_tx_notification list"

definition atomizer_leader_init :: atomizer_leader where
  "atomizer_leader_init = \<lparr>l_txs = [], l_complete_txs = []\<rparr>"

definition attestation_insert :: "u64 \<times> u64 \<Rightarrow> (u64 \<times> u64) list \<Rightarrow> (u64 \<times> u64) list" where
  "attestation_insert p s = (if fst p \<in> fst ` set s then s else s @ [p])"

fun merge_attestations :: "u64 \<Rightarrow> u64 list \<Rightarrow> (u64 \<times> u64) list \<Rightarrow> (u64 \<times> u64) list" where
  "merge_attestations block_height [] s = s"
| "merge_attestations block_height (n # ns) s =
    (let n_it = map_of s n in
     merge_attestations block_height ns
       (if (\<exists>h. n_it = Some h \<and> h < block_height) \<or> n_it = None
        then attestation_insert (n, block_height) s else s))"

definition oldest_height :: "(u64 \<times> u64) list \<Rightarrow> u64" where
  "oldest_height atts = foldl (\<lambda>oldest att. if oldest = 0 \<or> snd att < oldest then snd att else oldest) 0 atts"

definition tx_notify ::
  "secp256k1 \<Rightarrow> pubkey_t set \<Rightarrow> nat \<Rightarrow> atomizer_leader \<Rightarrow> tx_notify_request \<Rightarrow> atomizer_leader" where
  "tx_notify S keys threshold l notif =
    (if \<not> check_attestations S (n_tx notif) keys threshold then l
     else
       let (tx, atts) =
             (case find_tx (n_tx notif) (l_txs l) of
                Some (t, s) \<Rightarrow> (t, merge_attestations (n_block_height notif) (n_attestations notif) s)
              | None \<Rightarrow> (n_tx notif, foldl (\<lambda>s n. attestation_insert (n, n_block_height notif) s) [] (n_attestations notif)));
           rest = erase_tx tx (l_txs l)
       in if length atts \<noteq> length (c_inputs tx) then l\<lparr>l_txs := rest @ [(tx, atts)]\<rparr>
          else l\<lparr>l_txs := rest,
                 l_complete_txs := l_complete_txs l @ [\<lparr>agg_tx = tx, m_oldest_attestation = oldest_height atts\<rparr>]\<rparr>)"

text \<open>The request that \<open>send_complete_txs\<close> replicates, if any.\<close>

definition send_complete_txs :: "atomizer_leader \<Rightarrow> sm_request option \<times> atomizer_leader" where
  "send_complete_txs l =
    (if l_complete_txs l = [] then (None, l)
     else (Some (Aggregate_tx_notify_request (l_complete_txs l)), l\<lparr>l_complete_txs := []\<rparr>))"

section \<open>Handlers of the controller\<close>

text \<open>
  What the handler of a packet does: push a notification on the queue or replicate a request.
  A reply to a block request goes to the peer that asked.
\<close>

datatype server_action = Push_notification tx_notify_request | Make_request sm_request

definition server_handler :: "bool \<Rightarrow> byte list \<Rightarrow> server_action list" where
  "server_handler is_leader pkt =
    (if \<not> is_leader then []
     else case from_buffer get_atomizer_request pkt of
            None \<Rightarrow> []
          | Some (Req_tx_notify notif) \<Rightarrow> [Push_notification notif]
          | Some (Req_prune h) \<Rightarrow> [Make_request (Prune_request h)]
          | Some (Req_get_block h) \<Rightarrow> [Make_request (Get_block_request h)])"

datatype broadcast = To_shards "byte list" | To_watchtowers "byte list"

text \<open>The results of a block and of a batch of notifications; \<open>None\<close> is a failed assertion.\<close>

definition raft_result_handler :: "byte list option \<Rightarrow> broadcast list option" where
  "raft_result_handler r = do {
     res \<leftarrow> r;
     resp \<leftarrow> from_buffer get_sm_response res;
     case resp of
       Make_block_response blk errs \<Rightarrow>
         Some (To_shards (put_block blk) # (if errs \<noteq> [] then [To_watchtowers (put_vector put_wt_error errs)] else []))
     | _ \<Rightarrow> None }"

definition err_return_handler :: "byte list option \<Rightarrow> broadcast list option" where
  "err_return_handler r =
    (case r of
       None \<Rightarrow> Some []
     | Some res \<Rightarrow>
         (case from_buffer get_sm_response res of
            Some (Errors_response errs) \<Rightarrow> Some [To_watchtowers (put_vector put_wt_error errs)]
          | _ \<Rightarrow> None))"

end
