(* ===== verification/Uhs_Shard.thy ===== *)
theory Uhs_Shard
  imports Atomizer
begin

text \<open>
  The shards of the atomizer architecture (\<open>uhs/atomizer/shard/shard.cpp\<close> and the handlers of its
  \<open>controller.cpp\<close>). The database is LevelDB, a library: its read and its atomic batch of writes
  are the operations of the record \<open>leveldb\<close>, an argument of the definitions. A snapshot of the
  database is the state at the time it was taken.
\<close>

section \<open>The database\<close>

datatype db_op = Db_put "byte list" "byte list" | Db_delete "byte list"

record 'db leveldb =
  db_get :: "'db \<Rightarrow> byte list \<Rightarrow> byte list option"
  db_write :: "'db \<Rightarrow> db_op list \<Rightarrow> 'db"

text \<open>What a batch does to the value of a key: its operations apply in order.\<close>

fun batch_value :: "byte list option \<Rightarrow> byte list \<Rightarrow> db_op list \<Rightarrow> byte list option" where
  "batch_value v k [] = v"
| "batch_value v k (Db_put k' x # ops) = batch_value (if k' = k then Some x else v) k ops"
| "batch_value v k (Db_delete k' # ops) = batch_value (if k' = k then None else v) k ops"

definition leveldb_ok :: "'db leveldb \<Rightarrow> bool" where
  "leveldb_ok L \<longleftrightarrow> (\<forall>db ops k. db_get L (db_write L db ops) k = batch_value (db_get L db k) k ops)"

section \<open>State\<close>

definition best_block_height_key :: "byte list" where
  "best_block_height_key = map (word_of_nat \<circ> of_char) ''bestBlockHeight''"

record 'db uhs_shard =
  m_db :: 'db
  s_best_block_height :: u64
  m_snp :: 'db
  m_snp_height :: u64
  m_prefix_range :: shard_range

definition update_snapshot :: "'db uhs_shard \<Rightarrow> 'db uhs_shard" where
  "update_snapshot s = s\<lparr>m_snp_height := s_best_block_height s, m_snp := m_db s\<rparr>"

text \<open>
  Opening a database: the height is read back, or written as zero to a new database. \<open>None\<close> is
  the failed assertion on the size of the value.
\<close>

definition open_db :: "'db leveldb \<Rightarrow> shard_range \<Rightarrow> 'db \<Rightarrow> 'db uhs_shard option" where
  "open_db L prefix_range db =
    (case db_get L db best_block_height_key of
       None \<Rightarrow>
         let db' = db_write L db [Db_put best_block_height_key (put_u64 0)] in
         Some (update_snapshot \<lparr>m_db = db', s_best_block_height = 0, m_snp = db', m_snp_height = 0,
                                m_prefix_range = prefix_range\<rparr>)
     | Some v \<Rightarrow>
         if length v \<noteq> 8 then None
         else Some (update_snapshot \<lparr>m_db = db, s_best_block_height = word_of_nat (le_value v), m_snp = db,
                                     m_snp_height = 0, m_prefix_range = prefix_range\<rparr>))"

definition is_output_on_shard :: "'db uhs_shard \<Rightarrow> hash_t \<Rightarrow> bool" where
  "is_output_on_shard s uhs_hash = hash_in_shard_range (m_prefix_range s) uhs_hash"

section \<open>Blocks\<close>

definition block_tx_ops :: "'db uhs_shard \<Rightarrow> compact_tx \<Rightarrow> db_op list" where
  "block_tx_ops s tx =
    map (\<lambda>out. Db_put out []) (filter (is_output_on_shard s) (m_uhs_outputs tx)) @
    map Db_delete (filter (is_output_on_shard s) (c_inputs tx))"

definition digest_block :: "'db leveldb \<Rightarrow> 'db uhs_shard \<Rightarrow> block \<Rightarrow> bool \<times> 'db uhs_shard" where
  "digest_block L s blk =
    (if b_height blk \<noteq> s_best_block_height s + 1 then (False, s)
     else
       let h = s_best_block_height s + 1;
           batch = concat (map (block_tx_ops s) (b_transactions blk)) @ [Db_put best_block_height_key (put_u64 h)]
       in (True, update_snapshot (s\<lparr>s_best_block_height := h, m_db := db_write L (m_db s) batch\<rparr>)))"

section \<open>Transactions\<close>

text \<open>The loop over the inputs: the attested indices and the inputs that do not exist.\<close>

fun check_inputs ::
  "'db leveldb \<Rightarrow> 'db uhs_shard \<Rightarrow> u64 \<Rightarrow> hash_t list \<Rightarrow> u64 list \<times> hash_t list" where
  "check_inputs L s i [] = ([], [])"
| "check_inputs L s i (inp # inps) =
    (let (attestations, dne_inputs) = check_inputs L s (i + 1) inps in
     if \<not> is_output_on_shard s inp then (attestations, dne_inputs)
     else if db_get L (m_snp s) inp = None then (attestations, inp # dne_inputs)
     else (i # attestations, dne_inputs))"

definition digest_transaction ::
  "'db leveldb \<Rightarrow> 'db uhs_shard \<Rightarrow> compact_tx \<Rightarrow> tx_notify_request + wt_error" where
  "digest_transaction L s tx =
    (if m_snp_height s = 0 then Inr \<lparr>e_tx_id = m_id tx, e_info = Error_sync\<rparr>
     else if c_inputs tx = [] then Inr \<lparr>e_tx_id = m_id tx, e_info = Error_inputs_dne []\<rparr>
     else
       let (attestations, dne_inputs) = check_inputs L s 0 (c_inputs tx) in
       if dne_inputs \<noteq> [] then Inr \<lparr>e_tx_id = m_id tx, e_info = Error_inputs_dne dne_inputs\<rparr>
       else Inl \<lparr>n_tx = tx, n_attestations = attestations, n_block_height = m_snp_height s\<rparr>)"

section \<open>Handlers of the controller\<close>

text \<open>
  What the request consumer does with a packet: it drops it, notifies the atomizer, or reports
  an error to the watchtowers.
\<close>

datatype shard_message = To_atomizer "byte list" | Report_error "byte list"

definition request_consumer ::
  "'db leveldb \<Rightarrow> secp256k1 \<Rightarrow> pubkey_t set \<Rightarrow> nat \<Rightarrow> 'db uhs_shard \<Rightarrow> byte list \<Rightarrow> shard_message list" where
  "request_consumer L S keys threshold s pkt =
    (case from_buffer get_compact_tx pkt of
       None \<Rightarrow> []
     | Some tx \<Rightarrow>
         if \<not> check_attestations S tx keys threshold then []
         else case digest_transaction L s tx of
                Inl msg \<Rightarrow> [To_atomizer (put_atomizer_request (Req_tx_notify msg))]
              | Inr err \<Rightarrow> [Report_error (put_vector put_wt_error [err])])"

text \<open>
  Catching up: the missing blocks are requested from the archiver, whose answers \<open>archive\<close> gives;
  a block that is not there yet is asked for again. \<open>fuel\<close> bounds the number of requests.
\<close>

fun catch_up ::
  "nat \<Rightarrow> 'db leveldb \<Rightarrow> (u64 \<Rightarrow> nat \<Rightarrow> block option) \<Rightarrow> nat \<Rightarrow> 'db uhs_shard \<Rightarrow> u64 \<Rightarrow> u64 \<Rightarrow> ('db uhs_shard \<times> nat) option" where
  "catch_up 0 L archive time s i to_height = None"
| "catch_up (Suc fuel) L archive time s i to_height =
    (if \<not> i < to_height then Some (s, time)
     else case archive i time of
            Some blk \<Rightarrow> catch_up fuel L archive (Suc time) (snd (digest_block L s blk)) (i + 1) to_height
          | None \<Rightarrow> catch_up fuel L archive (Suc time) s i to_height)"

fun atomizer_handler ::
  "nat \<Rightarrow> 'db leveldb \<Rightarrow> (u64 \<Rightarrow> nat \<Rightarrow> block option) \<Rightarrow> nat \<Rightarrow> 'db uhs_shard \<Rightarrow> block \<Rightarrow> 'db uhs_shard option" where
  "atomizer_handler 0 L archive time s blk = None"
| "atomizer_handler (Suc fuel) L archive time s blk =
    (case digest_block L s blk of
       (True, s') \<Rightarrow> Some s'
     | (False, _) \<Rightarrow> do {
         (s', time') \<leftarrow> catch_up fuel L archive time s (s_best_block_height s + 1) (b_height blk);
         atomizer_handler fuel L archive time' s' blk })"

section \<open>The ledger a shard keeps\<close>

text \<open>The effect of a transaction and of a block on the set of unspent hashes.\<close>

definition apply_uhs :: "hash_t set \<Rightarrow> compact_tx \<Rightarrow> hash_t set" where
  "apply_uhs U t = (U \<union> set (m_uhs_outputs t)) - set (c_inputs t)"

definition apply_block :: "hash_t set \<Rightarrow> block \<Rightarrow> hash_t set" where
  "apply_block U blk = foldl apply_uhs U (b_transactions blk)"

lemma batch_value_append: "batch_value v k (xs @ ys) = batch_value (batch_value v k xs) k ys"
  by (induction v k xs rule: batch_value.induct) auto

lemma batch_value_puts:
  "batch_value v k (map (\<lambda>out. Db_put out []) hs) \<noteq> None \<longleftrightarrow> v \<noteq> None \<or> k \<in> set hs"
  by (induction hs arbitrary: v) auto

lemma batch_value_deletes:
  "batch_value v k (map Db_delete hs) \<noteq> None \<longleftrightarrow> v \<noteq> None \<and> k \<notin> set hs"
  by (induction hs arbitrary: v) auto

lemma batch_value_tx:
  "batch_value v h (block_tx_ops s t) \<noteq> None \<longleftrightarrow>
    (if is_output_on_shard s h then (v \<noteq> None \<or> h \<in> set (m_uhs_outputs t)) \<and> h \<notin> set (c_inputs t) else v \<noteq> None)"
  unfolding block_tx_ops_def batch_value_append batch_value_deletes batch_value_puts by auto

lemma foldl_apply_uhs_local:
  "(h \<in> U \<longleftrightarrow> h \<in> V) \<Longrightarrow> h \<in> foldl apply_uhs U ts \<longleftrightarrow> h \<in> foldl apply_uhs V ts"
  by (induction ts arbitrary: U V) (auto simp: apply_uhs_def)

lemma batch_value_txs:
  "is_output_on_shard s h \<Longrightarrow> (v \<noteq> None \<longleftrightarrow> h \<in> U) \<Longrightarrow>
     batch_value v h (concat (map (block_tx_ops s) ts)) \<noteq> None \<longleftrightarrow> h \<in> foldl apply_uhs U ts"
proof (induction ts arbitrary: v U)
  case (Cons t ts)
  have "batch_value v h (block_tx_ops s t) \<noteq> None \<longleftrightarrow> h \<in> apply_uhs U t"
    using Cons.prems unfolding batch_value_tx by (simp add: apply_uhs_def)
  from Cons.IH [OF Cons.prems(1) this] show ?case
    by (simp add: batch_value_append)
qed simp

lemma batch_value_txs_off:
  "\<not> is_output_on_shard s h \<Longrightarrow> batch_value v h (concat (map (block_tx_ops s) ts)) \<noteq> None \<longleftrightarrow> v \<noteq> None"
proof (induction ts arbitrary: v)
  case (Cons t ts)
  have "batch_value v h (block_tx_ops s t) \<noteq> None \<longleftrightarrow> v \<noteq> None"
    using Cons.prems unfolding batch_value_tx by simp
  then show ?case
    using Cons.IH [OF Cons.prems, of "batch_value v h (block_tx_ops s t)"] by (simp add: batch_value_append)
qed simp

text \<open>The height is kept under a key that is not a hash.\<close>

lemma best_key_not_hash: "is_hash h \<Longrightarrow> h \<noteq> best_block_height_key"
  by (auto simp: best_block_height_key_def is_array_def hash_size_def)

text \<open>
  A shard that is in step with a chain: its database and its snapshot hold the hashes of its
  range that are unspent after the blocks it has digested, and the stored height is theirs.
\<close>

definition shard_at :: "'db leveldb \<Rightarrow> 'db uhs_shard \<Rightarrow> hash_t set \<Rightarrow> u64 \<Rightarrow> bool" where
  "shard_at L s U h \<longleftrightarrow> s_best_block_height s = h \<and> m_snp_height s = h \<and> m_snp s = m_db s \<and>
     db_get L (m_db s) best_block_height_key = Some (put_u64 h) \<and>
     (\<forall>x. is_hash x \<longrightarrow> db_get L (m_db s) x \<noteq> None \<longleftrightarrow> is_output_on_shard s x \<and> x \<in> U)"

lemma digest_block_at:
  assumes L: "leveldb_ok L" and s: "shard_at L s U h" and blk: "b_height blk = h + 1"
  shows "\<exists>s'. digest_block L s blk = (True, s') \<and> shard_at L s' (apply_block U blk) (h + 1) \<and>
    m_prefix_range s' = m_prefix_range s"
proof -
  let ?ops = "concat (map (block_tx_ops s) (b_transactions blk))"
  let ?s = "update_snapshot (s\<lparr>s_best_block_height := h + 1,
    m_db := db_write L (m_db s) (?ops @ [Db_put best_block_height_key (put_u64 (h + 1))])\<rparr>)"
  have get: "db_get L (m_db ?s) k = batch_value (batch_value (db_get L (m_db s) k) k ?ops) k [Db_put best_block_height_key (put_u64 (h + 1))]" for k
    using L by (simp add: leveldb_ok_def update_snapshot_def batch_value_append)
  have "db_get L (m_db ?s) x \<noteq> None \<longleftrightarrow> is_output_on_shard ?s x \<and> x \<in> apply_block U blk" if x: "is_hash x" for x
  proof (cases "is_output_on_shard s x")
    case True
    have "db_get L (m_db s) x \<noteq> None \<longleftrightarrow> x \<in> U"
      using s x True by (simp add: shard_at_def)
    from batch_value_txs [OF True this] show ?thesis
      using True best_key_not_hash [OF x] unfolding get
      by (simp add: apply_block_def is_output_on_shard_def update_snapshot_def)
  next
    case False
    have "db_get L (m_db s) x = None"
      using s x False unfolding shard_at_def by blast
    then show ?thesis
      using False best_key_not_hash [OF x] batch_value_txs_off [OF False, of "None"] unfolding get
      by (simp add: is_output_on_shard_def update_snapshot_def)
  qed
  moreover have "db_get L (m_db ?s) best_block_height_key = Some (put_u64 (h + 1))"
    unfolding get by simp
  ultimately have "shard_at L ?s (apply_block U blk) (h + 1)"
    by (simp add: shard_at_def update_snapshot_def)
  then show ?thesis
    using s blk by (auto simp: digest_block_def shard_at_def update_snapshot_def Let_def)
qed

lemma open_db_at:
  assumes "shard_at L s U h"
  shows "open_db L (m_prefix_range s) (m_db s) = Some s"
proof -
  have "word_of_nat (le_value (put_u64 h)) = h"
    using u64.get_put_nil [OF TrueI, of h] by (simp add: get_u64_def get_bytes_def)
  then show ?thesis
    using assms by (cases s) (simp add: open_db_def shard_at_def update_snapshot_def)
qed

text \<open>The attested indices are those of the inputs that exist.\<close>

lemma check_inputs_index:
  assumes "check_inputs L s i inps = (att, [])"
  shows "n \<in> set att \<Longrightarrow> \<exists>j < length inps. n = i + word_of_nat j \<and> is_output_on_shard s (inps ! j) \<and> db_get L (m_snp s) (inps ! j) \<noteq> None"
  using assms
proof (induction inps arbitrary: i att)
  case (Cons inp inps)
  obtain att1 dne1 where c: "check_inputs L s (i + 1) inps = (att1, dne1)"
    by fastforce
  have att: "dne1 = []" "att = att1 \<or> att = i # att1 \<and> is_output_on_shard s inp \<and> db_get L (m_snp s) inp \<noteq> None"
    using Cons.prems(2) c by (auto split: if_splits)
  show ?case
  proof (cases "n \<in> set att1")
    case True
    obtain j where "j < length inps" "n = i + 1 + word_of_nat j" "is_output_on_shard s (inps ! j)" "db_get L (m_snp s) (inps ! j) \<noteq> None"
      using Cons.IH [OF True c [unfolded att(1)]] by blast
    then show ?thesis
      by (intro exI [of _ "Suc j"]) (simp add: algebra_simps)
  next
    case False
    then show ?thesis
      using att(2) Cons.prems(1) by (intro exI [of _ 0]) auto
  qed
qed simp

text \<open>A notification tells the truth about the chain at its height.\<close>

lemma digest_transaction_true:
  assumes s: "shard_at L s U h" and msg: "digest_transaction L s tx = Inl msg"
    and wf: "list_all is_hash (c_inputs tx)" "length (c_inputs tx) < 2 ^ 64"
  shows "n_tx msg = tx" "n_block_height msg = h" "h \<noteq> 0" "c_inputs tx \<noteq> []"
    and "n \<in> set (n_attestations msg) \<Longrightarrow> unat n < length (c_inputs tx) \<and> c_inputs tx ! unat n \<in> U"
proof -
  obtain att where c: "check_inputs L s 0 (c_inputs tx) = (att, [])" and m: "n_attestations msg = att"
    and r: "n_tx msg = tx" "n_block_height msg = h" "h \<noteq> 0" "c_inputs tx \<noteq> []"
    using msg s by (auto simp: digest_transaction_def shard_at_def split: if_splits prod.splits)
  show "n_tx msg = tx" "n_block_height msg = h" "h \<noteq> 0" "c_inputs tx \<noteq> []"
    by (fact r)+
  assume "n \<in> set (n_attestations msg)"
  then obtain j where j: "j < length (c_inputs tx)" "n = word_of_nat j" "db_get L (m_snp s) (c_inputs tx ! j) \<noteq> None"
    using check_inputs_index [OF c, of n] m by auto
  have "unat n = j"
    using j wf(2) by (simp add: unsigned_of_nat take_bit_nat_eq_self)
  moreover have "c_inputs tx ! j \<in> U"
    using s j wf(1) by (auto simp: shard_at_def list_all_length)
  ultimately show "unat n < length (c_inputs tx) \<and> c_inputs tx ! unat n \<in> U"
    using j(1) by simp
qed

section \<open>Catching up\<close>

text \<open>
  The blocks of a chain by height, and an archiver that answers with the block of the chain or not at all: each block below
  some height has a time of its own from which on it is always given.
\<close>

definition chain_block :: "block list \<Rightarrow> nat \<Rightarrow> block" where
  "chain_block chain h = chain ! (h - 1)"

definition chain_ok :: "block list \<Rightarrow> bool" where
  "chain_ok chain \<longleftrightarrow> length chain < 2 ^ 64 - 1 \<and> (\<forall>i < length chain. b_height (chain ! i) = word_of_nat (Suc i))"

definition uhs_after :: "hash_t set \<Rightarrow> block list \<Rightarrow> nat \<Rightarrow> hash_t set" where
  "uhs_after U chain h = foldl apply_block U (take h chain)"

lemma uhs_after_Suc: "h < length chain \<Longrightarrow> uhs_after U chain (Suc h) = apply_block (uhs_after U chain h) (chain ! h)"
  by (simp add: uhs_after_def take_Suc_conv_app_nth)

lemma unat_height: "n < 2 ^ 64 \<Longrightarrow> unat (word_of_nat n :: u64) = n"
  by (simp add: unsigned_of_nat take_bit_nat_eq_self)

lemma digest_next:
  assumes L: "leveldb_ok L" and c: "chain_ok chain" "h < length chain" and s: "shard_at L s (uhs_after U chain h) (word_of_nat h)"
  shows "\<exists>s'. digest_block L s (chain ! h) = (True, s') \<and> shard_at L s' (uhs_after U chain (Suc h)) (word_of_nat (Suc h)) \<and>
    m_prefix_range s' = m_prefix_range s"
  using digest_block_at [OF L s, of "chain ! h"] c by (simp add: chain_ok_def uhs_after_Suc add.commute)

definition archive_ok :: "(u64 \<Rightarrow> nat \<Rightarrow> block option) \<Rightarrow> block list \<Rightarrow> nat \<Rightarrow> (nat \<Rightarrow> nat) \<Rightarrow> bool" where
  "archive_ok archive chain tip avail \<longleftrightarrow> (\<forall>h t. 0 < h \<and> h < tip \<longrightarrow>
     archive (word_of_nat h) t \<in> {None, Some (chain ! (h - 1))} \<and> (avail h \<le> t \<longrightarrow> archive (word_of_nat h) t \<noteq> None))"

definition all_available :: "nat \<Rightarrow> (nat \<Rightarrow> nat) \<Rightarrow> nat" where
  "all_available tip avail = Max (insert 0 (avail ` {0<..<tip}))"

lemma archive_answers:
  assumes "archive_ok archive chain tip avail" "Suc h < tip"
  shows "archive (word_of_nat (Suc h)) t = Some (chain ! h) \<or>
    archive (word_of_nat (Suc h)) t = None \<and> t < all_available tip avail"
proof -
  have "archive (word_of_nat (Suc h)) t \<in> {None, Some (chain ! h)}" "avail (Suc h) \<le> t \<longrightarrow> archive (word_of_nat (Suc h)) t \<noteq> None"
    using assms unfolding archive_ok_def by (metis diff_Suc_1 zero_less_Suc)+
  moreover have "avail (Suc h) \<le> all_available tip avail"
    unfolding all_available_def using assms(2) by (intro Max_ge) auto
  ultimately show ?thesis
    by (auto simp del: of_nat_Suc)
qed

lemma catch_up_completes:
  assumes L: "leveldb_ok L" and c: "chain_ok chain" "tip \<le> length chain" and a: "archive_ok archive chain tip avail"
    and s: "shard_at L s (uhs_after U chain h) (word_of_nat h)" "Suc h \<le> tip"
    and fuel: "(tip - h) + (all_available tip avail - t) \<le> fuel"
  shows "\<exists>s' t'. catch_up fuel L archive t s (word_of_nat (Suc h)) (word_of_nat tip) = Some (s', t') \<and>
    shard_at L s' (uhs_after U chain (tip - 1)) (word_of_nat (tip - 1)) \<and> m_prefix_range s' = m_prefix_range s"
  using s fuel
proof (induction fuel arbitrary: s h t)
  case (Suc fuel)
  have bound: "tip < 2 ^ 64" "Suc h < 2 ^ 64"
    using c Suc.prems(2) by (auto simp: chain_ok_def)
  have lt: "(word_of_nat (Suc h) :: u64) < word_of_nat tip \<longleftrightarrow> Suc h < tip"
    using bound by (simp only: word_less_nat_alt unat_height)
  show ?case
  proof (cases "Suc h < tip")
    case False
    then have "tip = Suc h"
      using Suc.prems(2) by simp
    then show ?thesis
      using Suc.prems(1) lt False by simp
  next
    case True
    from archive_answers [OF a True, of t] show ?thesis
    proof (elim disjE conjE)
      assume ar: "archive (word_of_nat (Suc h)) t = None" and early: "t < all_available tip avail"
      have "tip - h + (all_available tip avail - Suc t) \<le> fuel"
        using Suc.prems(3) early by simp
      from Suc.IH [OF Suc.prems(1,2) this] show ?thesis
        using lt True ar by simp
    next
      assume ar: "archive (word_of_nat (Suc h)) t = Some (chain ! h)"
      obtain s1 where s1: "digest_block L s (chain ! h) = (True, s1)"
        "shard_at L s1 (uhs_after U chain (Suc h)) (word_of_nat (Suc h))" "m_prefix_range s1 = m_prefix_range s"
        using digest_next [OF L c(1) _ Suc.prems(1)] True c(2) by auto
      have "tip - Suc h + (all_available tip avail - Suc t) \<le> fuel"
        using Suc.prems(3) True by simp
      from Suc.IH [OF s1(2) _ this] show ?thesis
        using lt True ar s1 by (simp add: add.commute)
    qed
  qed
qed simp

text \<open>A concrete database for the examples: a map.\<close>

definition map_leveldb :: "(byte list \<Rightarrow> byte list option) leveldb" where
  "map_leveldb = \<lparr>db_get = (\<lambda>db k. db k), db_write = (\<lambda>db ops k. batch_value (db k) k ops)\<rparr>"

lemma map_leveldb_ok: "leveldb_ok map_leveldb"
  by (simp add: leveldb_ok_def map_leveldb_def)

definition sample_uhs_shard :: "(byte list \<Rightarrow> byte list option) uhs_shard" where
  "sample_uhs_shard =
    (let db = [best_block_height_key \<mapsto> put_u64 1, sample_hash 5 \<mapsto> []]
     in \<lparr>m_db = db, s_best_block_height = 1, m_snp = db, m_snp_height = 1, m_prefix_range = (0, 255)\<rparr>)"

lemma sample_uhs_shard_at: "shard_at map_leveldb sample_uhs_shard {sample_hash 5} 1"
proof -
  have "best_block_height_key \<noteq> sample_hash 5"
    using best_key_not_hash [of "sample_hash 5"] by simp
  then show ?thesis
    using best_key_not_hash
    by (auto simp: shard_at_def sample_uhs_shard_def map_leveldb_def Let_def is_output_on_shard_def)
qed

definition sample_chain :: "block list" where
  "sample_chain = [\<lparr>b_height = 1, b_transactions = []\<rparr>, \<lparr>b_height = 2, b_transactions = [sample_tx 1 [5] [6]]\<rparr>,
     \<lparr>b_height = 3, b_transactions = [sample_tx 2 [6] [7]]\<rparr>]"

lemma sample_chain_ok: "chain_ok sample_chain"
  by (simp add: chain_ok_def sample_chain_def All_less_Suc2)

section \<open>Properties\<close>

text \<open>C30: A shard applies blocks to its part of the ledger atomically and durably. If its database
  holds exactly the unspent hashes of its range after \<open>h\<close> blocks, it accepts the block of height
  \<open>h + 1\<close> and no other, holds exactly the unspent hashes after that block, and a restart from
  the database alone restores the same shard.\<close>

theorem digest_block_durable:
  assumes "leveldb_ok L" "shard_at L s U h"
  shows "(b_height blk \<noteq> h + 1 \<longrightarrow> digest_block L s blk = (False, s)) \<and>
    (b_height blk = h + 1 \<longrightarrow> (\<exists>s'. digest_block L s blk = (True, s') \<and> shard_at L s' (apply_block U blk) (h + 1) \<and>
       open_db L (m_prefix_range s) (m_db s') = Some s'))"
proof (intro conjI impI)
  show "digest_block L s blk = (False, s)" if "b_height blk \<noteq> h + 1"
    using that assms(2) by (simp add: digest_block_def shard_at_def)
  assume "b_height blk = h + 1"
  then obtain s' where "digest_block L s blk = (True, s')" "shard_at L s' (apply_block U blk) (h + 1)"
    "m_prefix_range s' = m_prefix_range s"
    using digest_block_at [OF assms] by blast
  then show "\<exists>s'. digest_block L s blk = (True, s') \<and> shard_at L s' (apply_block U blk) (h + 1) \<and>
      open_db L (m_prefix_range s) (m_db s') = Some s'"
    using open_db_at by metis
qed

theorem digest_block_durable_witness:
  "\<exists>s'. digest_block map_leveldb sample_uhs_shard \<lparr>b_height = 2, b_transactions = [sample_tx 1 [5] [6]]\<rparr> = (True, s') \<and>
     shard_at map_leveldb s' {sample_hash 6} 2 \<and> open_db map_leveldb (0, 255) (m_db s') = Some s'"
proof -
  have "apply_block {sample_hash 5} \<lparr>b_height = 2, b_transactions = [sample_tx 1 [5] [6]]\<rparr> = {sample_hash 6}"
    by (auto simp: apply_block_def apply_uhs_def sample_tx_def)
  then show ?thesis
    using digest_block_durable [OF map_leveldb_ok sample_uhs_shard_at, of "\<lparr>b_height = 2, b_transactions = [sample_tx 1 [5] [6]]\<rparr>"]
    by (simp add: sample_uhs_shard_def Let_def)
qed

text \<open>C34: A shard that receives a block ahead of its height catches up. The archiver is assumed to answer a request with the block of the
  chain or not at all, and to have each earlier block from some time on, a different time for each block; the received block is the block of its height
  in the chain. Then the handler of the atomizer's block ends, however long the archiver takes for each of them: the number of turns is bounded by the
  number of missing blocks and the time until the last of them is available. The shard then holds its part of the ledger after that block.\<close>

theorem shard_catches_up:
  assumes "leveldb_ok L" "chain_ok chain" "0 < tip" "tip \<le> length chain" "archive_ok archive chain tip avail"
    and "shard_at L s (uhs_after U chain h) (word_of_nat h)" "h < tip" "tip - h + (all_available tip avail - t) + 2 \<le> fuel"
  shows "\<exists>s'. atomizer_handler fuel L archive t s (chain ! (tip - 1)) = Some s' \<and>
    shard_at L s' (uhs_after U chain tip) (word_of_nat tip)"
proof -
  obtain f where f: "fuel = Suc (Suc f)"
    using assms(8) by (cases fuel; cases "fuel - 1") auto
  have last: "\<exists>s2. digest_block L s1 (chain ! (tip - 1)) = (True, s2) \<and> shard_at L s2 (uhs_after U chain tip) (word_of_nat tip)"
    if "shard_at L s1 (uhs_after U chain (tip - 1)) (word_of_nat (tip - 1))" for s1
    using digest_next [OF assms(1,2) _ that] assms(3,4) by fastforce
  have hts: "b_height (chain ! (tip - 1)) = word_of_nat tip" "s_best_block_height s = word_of_nat h"
    using assms(2,3,4,6) by (auto simp: chain_ok_def shard_at_def)
  show ?thesis
  proof (cases "h = tip - 1")
    case True
    then show ?thesis
      using last [of s] assms(6) unfolding f by auto
  next
    case False
    have "tip < 2 ^ 64" "Suc h < 2 ^ 64"
      using assms(2,4,7) by (simp_all add: chain_ok_def)
    then have "unat (word_of_nat tip :: u64) = tip" "unat (word_of_nat (Suc h) :: u64) = Suc h"
      by (simp_all only: unat_height)
    then have ne: "word_of_nat tip \<noteq> (word_of_nat (Suc h) :: u64)"
      using False assms(7) by (metis diff_Suc_1)
    then have d: "digest_block L s (chain ! (tip - 1)) = (False, s)"
      using hts by (simp add: digest_block_def add.commute)
    have "tip - h + (all_available tip avail - t) \<le> Suc f" "Suc h \<le> tip"
      using assms(7,8) f by simp_all
    then obtain s1 t' where s1: "catch_up (Suc f) L archive t s (word_of_nat (Suc h)) (word_of_nat tip) = Some (s1, t')"
      "shard_at L s1 (uhs_after U chain (tip - 1)) (word_of_nat (tip - 1))"
      using catch_up_completes [OF assms(1,2,4,5,6)] by blast
    then show ?thesis
      using last [OF s1(2)] d hts unfolding f by (auto simp: add.commute)
  qed
qed

text \<open>An archiver that gets block \<open>h\<close> at time \<open>2 h\<close>.\<close>

definition slow_archive :: "u64 \<Rightarrow> nat \<Rightarrow> block option" where
  "slow_archive h t = (if t < 2 * unat h then None else Some (sample_chain ! (unat h - 1)))"

lemma slow_archive_ok: "archive_ok slow_archive sample_chain 3 (\<lambda>h. 2 * h)" "all_available 3 (\<lambda>h. 2 * h) = 4"
proof -
  show "archive_ok slow_archive sample_chain 3 (\<lambda>h. 2 * h)"
    by (auto simp: archive_ok_def slow_archive_def unat_height)
  have "{0<..<3} = {1, 2 :: nat}"
    by auto
  then show "all_available 3 (\<lambda>h. 2 * h) = 4"
    by (simp add: all_available_def)
qed

theorem shard_catches_up_witness:
  "\<exists>s'. atomizer_handler 9 map_leveldb slow_archive 0 sample_uhs_shard (sample_chain ! 2) = Some s' \<and>
     shard_at map_leveldb s' {sample_hash 7} 3"
proof -
  have s: "shard_at map_leveldb sample_uhs_shard (uhs_after {sample_hash 5} sample_chain 1) (word_of_nat 1)"
    using sample_uhs_shard_at by (simp add: uhs_after_def sample_chain_def apply_block_def)
  have "uhs_after {sample_hash 5} sample_chain 3 = {sample_hash 7}"
    by (auto simp: uhs_after_def sample_chain_def apply_block_def apply_uhs_def sample_tx_def)
  then show ?thesis
    using shard_catches_up [OF map_leveldb_ok sample_chain_ok _ _ slow_archive_ok(1) s, of 0 9]
    by (simp add: slow_archive_ok(2) sample_chain_def)
qed

text \<open>A block that the shard has already digested is never finished with. If the height of a
  received block is not above the height of the shard, the handler repeats without end:
  whatever the archiver answers, no number of turns is enough.\<close>

theorem old_block_never_handled:
  assumes "b_height blk \<le> s_best_block_height s" "s_best_block_height s + 1 \<noteq> 0"
  shows "atomizer_handler fuel L archive t s blk = None"
proof (induction fuel arbitrary: t)
  case (Suc fuel)
  have "b_height blk \<noteq> s_best_block_height s + 1" "\<not> s_best_block_height s + 1 < b_height blk"
    using assms unatSuc [of "s_best_block_height s"] by (auto simp: word_le_nat_alt word_less_nat_alt add.commute)
  then have d: "digest_block L s blk = (False, s)"
    and c: "catch_up (Suc n) L archive t s (s_best_block_height s + 1) (b_height blk) = Some (s, t)" for n
    by (simp_all add: digest_block_def)
  show ?case
    using Suc c by (cases fuel) (simp_all add: d)
qed simp

theorem old_block_never_handled_witness:
  "atomizer_handler 100 map_leveldb (\<lambda>_ _. None) 0 sample_uhs_shard (sample_chain ! 0) = None"
  by (rule old_block_never_handled) (simp_all add: sample_chain_def sample_uhs_shard_def Let_def)

end
