(* ===== verification/Atomizer_System.thy ===== *)
theory Atomizer_System
  imports Uhs_Shard
begin

text \<open>
  The atomizer architecture as a whole: shards that digest transactions and blocks, the leader
  that collects their attestations, and the replicated atomizer that settles transactions
  into blocks. The components run their own definitions; the step relation leaves everything
  else open: which transactions are submitted, in which order notifications arrive, how often
  they are delivered, when the leader changes, how far each shard is behind, and how the
  notifications are grouped into log entries.
\<close>

section \<open>Steps\<close>

record 'db system =
  y_sm :: atomizer_sm
  y_chain :: "block list"
  y_shards :: "'db uhs_shard list"
  y_notifs :: "tx_notify_request set"
  y_leader :: atomizer_leader
  y_aggs :: "aggregate_tx_notification set"

inductive system_step ::
  "'db leveldb \<Rightarrow> secp256k1 \<Rightarrow> pubkey_t set \<Rightarrow> nat \<Rightarrow> compact_tx set \<Rightarrow> 'db system \<Rightarrow> 'db system \<Rightarrow> bool"
  for L S keys n T where
  submit: "i < length (y_shards y) \<Longrightarrow> t \<in> T \<Longrightarrow> check_attestations S t keys n \<Longrightarrow>
    digest_transaction L (y_shards y ! i) t = Inl msg \<Longrightarrow>
    system_step L S keys n T y (y\<lparr>y_notifs := insert msg (y_notifs y)\<rparr>)"
| digest: "i < length (y_shards y) \<Longrightarrow> blk \<in> set (y_chain y) \<Longrightarrow> digest_block L (y_shards y ! i) blk = (ok, s') \<Longrightarrow>
    system_step L S keys n T y (y\<lparr>y_shards := (y_shards y)[i := s']\<rparr>)"
| notify: "msg \<in> y_notifs y \<Longrightarrow>
    system_step L S keys n T y (y\<lparr>y_leader := tx_notify S keys n (y_leader y) msg\<rparr>)"
| send: "send_complete_txs (y_leader y) = (Some (Aggregate_tx_notify_request aggs), l) \<Longrightarrow>
    system_step L S keys n T y (y\<lparr>y_leader := l, y_aggs := y_aggs y \<union> set aggs\<rparr>)"
| fail_over: "system_step L S keys n T y (y\<lparr>y_leader := atomizer_leader_init\<rparr>)"
| commit: "set aggs \<subseteq> y_aggs y \<Longrightarrow> atomizer_process (y_sm y) (Aggregate_tx_notify_request aggs) = Some (r, sm) \<Longrightarrow>
    system_step L S keys n T y (y\<lparr>y_sm := sm\<rparr>)"
| settle: "atomizer_process (y_sm y) Make_block_request = Some (Some (Make_block_response blk errs), sm) \<Longrightarrow>
    length (y_chain y) + 2 < 2 ^ 64 \<Longrightarrow>
    system_step L S keys n T y (y\<lparr>y_sm := sm, y_chain := y_chain y @ [blk]\<rparr>)"
| prune: "atomizer_process (y_sm y) (Prune_request h) = Some (r, sm) \<Longrightarrow>
    system_step L S keys n T y (y\<lparr>y_sm := sm\<rparr>)"

text \<open>Before the first block the shards hold their parts of the initial supply \<open>U\<close>.\<close>

definition system_init :: "'db leveldb \<Rightarrow> hash_t set \<Rightarrow> u64 \<Rightarrow> 'db system \<Rightarrow> bool" where
  "system_init L U depth y \<longleftrightarrow> y_sm y = atomizer_sm_init depth \<and> y_chain y = [] \<and> y_notifs y = {} \<and>
     y_leader y = atomizer_leader_init \<and> y_aggs y = {} \<and> (\<forall>s \<in> set (y_shards y). shard_at L s U 0)"

text \<open>
  The submitted transactions: their inputs are hashes, and an identifier, which is the hash of
  the inputs and the outputs, stands for one list of inputs.
\<close>

definition txs_ok :: "compact_tx set \<Rightarrow> bool" where
  "txs_ok T \<longleftrightarrow> (\<forall>t \<in> T. \<forall>u \<in> T. m_id t = m_id u \<longrightarrow> c_inputs t = c_inputs u) \<and>
     (\<forall>t \<in> T. list_all is_hash (c_inputs t) \<and> length (c_inputs t) < 2 ^ 64)"

section \<open>Valid histories\<close>

text \<open>Every transaction spends outputs that exist and are unspent when it is settled.\<close>

fun valid_txs :: "hash_t set \<Rightarrow> compact_tx list \<Rightarrow> bool" where
  "valid_txs U [] = True"
| "valid_txs U (t # ts) \<longleftrightarrow> set (c_inputs t) \<subseteq> U \<and> valid_txs (apply_uhs U t) ts"

lemma valid_txs_append: "valid_txs U (ts @ us) \<longleftrightarrow> valid_txs U ts \<and> valid_txs (foldl apply_uhs U ts) us"
  by (induction U ts rule: valid_txs.induct) auto

definition chain_txs :: "block list \<Rightarrow> compact_tx list" where
  "chain_txs chain = concat (map b_transactions chain)"

lemma chain_txs_append: "chain_txs (c @ d) = chain_txs c @ chain_txs d"
  by (simp add: chain_txs_def)

lemma foldl_blocks: "foldl apply_block U bs = foldl apply_uhs U (concat (map b_transactions bs))"
  by (induction bs arbitrary: U) (simp_all add: apply_block_def)

lemma uhs_after_txs: "uhs_after U chain h = foldl apply_uhs U (chain_txs (take h chain))"
  by (simp add: uhs_after_def chain_txs_def foldl_blocks)

lemma apply_uhs_keeps: "x \<in> U \<Longrightarrow> \<forall>t \<in> set ts. x \<notin> set (c_inputs t) \<Longrightarrow> x \<in> foldl apply_uhs U ts"
  by (induction ts arbitrary: U) (auto simp: apply_uhs_def)

text \<open>An output that is unspent at height \<open>h\<close> and not spent since is unspent now.\<close>

lemma unspent_since:
  assumes "x \<in> uhs_after U chain h" "\<forall>t \<in> set (chain_txs (drop h chain) @ pending). x \<notin> set (c_inputs t)"
  shows "x \<in> foldl apply_uhs U (chain_txs chain @ pending)"
proof -
  have "chain_txs chain @ pending = chain_txs (take h chain) @ chain_txs (drop h chain) @ pending"
    by (metis append.assoc append_take_drop_id chain_txs_append)
  then show ?thesis
    using assms apply_uhs_keeps unfolding uhs_after_txs by (metis foldl_append)
qed

section \<open>The cache of spent outputs\<close>

text \<open>The transactions settled \<open>k\<close> blocks ago; those of the block to come for \<open>k = 0\<close>.\<close>

definition settled_before :: "block list \<Rightarrow> compact_tx list \<Rightarrow> nat \<Rightarrow> compact_tx list" where
  "settled_before chain pending k =
    (if k = 0 then pending else if k \<le> length chain then b_transactions (chain ! (length chain - k)) else [])"

definition inputs_of :: "compact_tx list \<Rightarrow> hash_t set" where
  "inputs_of ts = (\<Union>t \<in> set ts. set (c_inputs t))"

definition atomizer_inv :: "hash_t set \<Rightarrow> u64 \<Rightarrow> block list \<Rightarrow> atomizer \<Rightarrow> bool" where
  "atomizer_inv U depth chain a \<longleftrightarrow> a_spent_cache_depth a = depth \<and> a_best_height a = word_of_nat (length chain) \<and>
     length (a_spent a) = Suc (unat depth) \<and>
     (\<forall>k \<le> unat depth. a_spent a ! k = inputs_of (settled_before chain (a_complete_txs a) k)) \<and>
     valid_txs U (chain_txs chain @ a_complete_txs a)"

text \<open>
  What a complete notification claims: every input was unspent at some height from the oldest
  attestation on.
\<close>

definition aggregate_true :: "hash_t set \<Rightarrow> block list \<Rightarrow> aggregate_tx_notification \<Rightarrow> bool" where
  "aggregate_true U chain g \<longleftrightarrow> c_inputs (agg_tx g) \<noteq> [] \<and>
     (\<exists>old \<le> length chain. m_oldest_attestation g = word_of_nat old \<and>
       (\<forall>x \<in> set (c_inputs (agg_tx g)). \<exists>h. old \<le> h \<and> h \<le> length chain \<and> x \<in> uhs_after U chain h))"

lemma settled_since:
  assumes "t \<in> set (chain_txs (drop h chain) @ pending)" "old \<le> h" "h \<le> length chain"
  shows "\<exists>k \<le> length chain - old. t \<in> set (settled_before chain pending k)"
proof (cases "t \<in> set pending")
  case True
  then show ?thesis
    by (intro exI [of _ 0]) (simp add: settled_before_def)
next
  case False
  then obtain blk where "blk \<in> set (drop h chain)" "t \<in> set (b_transactions blk)"
    using assms(1) by (auto simp: chain_txs_def)
  then obtain j where j: "j < length chain - h" "t \<in> set (b_transactions (chain ! (h + j)))"
    by (auto simp: in_set_conv_nth [of blk])
  then show ?thesis
    using assms(2,3) by (intro exI [of _ "length chain - (h + j)"]) (auto simp: settled_before_def)
qed

lemma check_stxo_cache_None:
  assumes "check_stxo_cache a tx r = Some None" "c_inputs tx \<noteq> []"
  shows "\<forall>k \<le> unat r. set (c_inputs tx) \<inter> a_spent a ! k = {}"
  using assms by (auto simp: check_stxo_cache_def Let_def filter_empty_conv less_Suc_eq_le split: if_splits)

lemma insert_complete_cases:
  assumes "insert_complete a old t = Some (e, a')"
  shows "a' = a \<or> (\<not> (a_best_height a - old > a_spent_cache_depth a \<and> c_inputs t \<noteq> []) \<and>
    check_stxo_cache a t (a_best_height a - old) = Some None \<and>
    a' = a\<lparr>a_spent := (a_spent a)[0 := a_spent a ! 0 \<union> set (c_inputs t)], a_complete_txs := a_complete_txs a @ [t]\<rparr>)"
  using assms
  by (auto simp: insert_complete_def get_notification_offset_def check_notification_offset_def add_tx_to_stxo_cache_def Let_def
      split: if_splits bind_splits option.splits)

text \<open>The cache covers every block since the oldest attestation, so that an accepted transaction is valid.\<close>

lemma accepted_valid:
  assumes inv: "atomizer_inv U depth chain a" and bound: "length chain < 2 ^ 64" and true: "aggregate_true U chain g"
    and off: "\<not> (a_best_height a - m_oldest_attestation g > a_spent_cache_depth a \<and> c_inputs (agg_tx g) \<noteq> [])"
    and chk: "check_stxo_cache a (agg_tx g) (a_best_height a - m_oldest_attestation g) = Some None"
  shows "set (c_inputs (agg_tx g)) \<subseteq> foldl apply_uhs U (chain_txs chain @ a_complete_txs a)"
proof
  fix x
  assume x: "x \<in> set (c_inputs (agg_tx g))"
  obtain old where old: "old \<le> length chain" "m_oldest_attestation g = word_of_nat old"
      "\<exists>h. old \<le> h \<and> h \<le> length chain \<and> x \<in> uhs_after U chain h"
    using true x unfolding aggregate_true_def by blast
  then obtain h where h: "old \<le> h" "h \<le> length chain" "x \<in> uhs_after U chain h"
    by blast
  have r: "unat (a_best_height a - m_oldest_attestation g) = length chain - old"
    using inv old(1,2) bound
    by (simp add: atomizer_inv_def of_nat_diff [symmetric] unat_height del: of_nat_diff)
  have le: "length chain - old \<le> unat depth"
    using off true inv r by (simp add: aggregate_true_def atomizer_inv_def word_less_nat_alt)
  have free: "x \<notin> a_spent a ! k" if "k \<le> length chain - old" for k
    using check_stxo_cache_None [OF chk] true x that r by (auto simp: aggregate_true_def)
  have "x \<notin> set (c_inputs t)" if t: "t \<in> set (chain_txs (drop h chain) @ a_complete_txs a)" for t
  proof -
    obtain k where k: "k \<le> length chain - old" "t \<in> set (settled_before chain (a_complete_txs a) k)"
      using settled_since [OF t h(1,2)] by blast
    then have "a_spent a ! k = inputs_of (settled_before chain (a_complete_txs a) k)"
      using inv le by (simp add: atomizer_inv_def)
    then show ?thesis
      using free [OF k(1)] k(2) by (auto simp: inputs_of_def)
  qed
  then show "x \<in> foldl apply_uhs U (chain_txs chain @ a_complete_txs a)"
    using unspent_since [OF h(3)] by blast
qed

lemma insert_complete_inv:
  assumes inv: "atomizer_inv U depth chain a" and bound: "length chain < 2 ^ 64" and true: "aggregate_true U chain g"
    and ins: "insert_complete a (m_oldest_attestation g) (agg_tx g) = Some (e, a')"
  shows "atomizer_inv U depth chain a'"
  using insert_complete_cases [OF ins]
proof (elim disjE conjE)
  assume off: "\<not> (a_best_height a - m_oldest_attestation g > a_spent_cache_depth a \<and> c_inputs (agg_tx g) \<noteq> [])"
    and chk: "check_stxo_cache a (agg_tx g) (a_best_height a - m_oldest_attestation g) = Some None"
    and a': "a' = a\<lparr>a_spent := (a_spent a)[0 := a_spent a ! 0 \<union> set (c_inputs (agg_tx g))],
      a_complete_txs := a_complete_txs a @ [agg_tx g]\<rparr>"
  have "valid_txs U (chain_txs chain @ a_complete_txs a @ [agg_tx g])"
    using inv accepted_valid [OF inv bound true off chk]
    unfolding append_assoc [symmetric] valid_txs_append by (simp add: atomizer_inv_def valid_txs_append)
  then show ?thesis
    using inv by (auto simp: atomizer_inv_def a' nth_list_update settled_before_def inputs_of_def)
qed (use inv in simp)

lemma insert_aggregates_inv:
  "insert_aggregates a gs = Some (errs, a') \<Longrightarrow> atomizer_inv U depth chain a \<Longrightarrow> length chain < 2 ^ 64 \<Longrightarrow>
     \<forall>g \<in> set gs. aggregate_true U chain g \<Longrightarrow> atomizer_inv U depth chain a'"
proof (induction gs arbitrary: a errs)
  case (Cons g gs)
  obtain e a1 errs' where a1: "insert_complete a (m_oldest_attestation g) (agg_tx g) = Some (e, a1)"
    "insert_aggregates a1 gs = Some (errs', a')"
    using Cons.prems(1) by (auto split: bind_splits)
  have "atomizer_inv U depth chain a1"
    using insert_complete_inv [OF Cons.prems(2,3) _ a1(1)] Cons.prems(4) by simp
  then show ?case
    using Cons.IH [OF a1(2)] Cons.prems(3,4) by simp
qed simp

text \<open>Making a block moves every set of spent outputs one block back.\<close>

lemma make_block_inv:
  assumes inv: "atomizer_inv U depth chain a" and mk: "make_block a = ((blk, errs), a')"
  shows "b_height blk = word_of_nat (Suc (length chain))" "atomizer_inv U depth (chain @ [blk]) a'"
proof -
  have blk: "blk = \<lparr>b_height = a_best_height a + 1, b_transactions = a_complete_txs a\<rparr>"
    and a': "a_complete_txs a' = []" "a_best_height a' = a_best_height a + 1" "a_spent_cache_depth a' = a_spent_cache_depth a"
      "a_spent a' = {} # take (unat (a_spent_cache_depth a)) (a_spent a)"
    using mk by (auto simp: make_block_def Let_def)
  show h: "b_height blk = word_of_nat (Suc (length chain))"
    using inv by (simp add: blk atomizer_inv_def add.commute)
  have "a_spent a' ! k = inputs_of (settled_before (chain @ [blk]) [] k)" if "k \<le> unat depth" for k
  proof (cases k)
    case 0
    then show ?thesis
      by (simp add: a' settled_before_def inputs_of_def)
  next
    case (Suc j)
    then have "settled_before (chain @ [blk]) [] k = settled_before chain (a_complete_txs a) j"
      by (auto simp: settled_before_def blk nth_append)
    then show ?thesis
      using inv Suc that by (simp add: a' atomizer_inv_def)
  qed
  then show "atomizer_inv U depth (chain @ [blk]) a'"
    using inv by (auto simp: atomizer_inv_def a' chain_txs_append chain_txs_def blk add.commute min_def)
qed

section \<open>Attestations\<close>

text \<open>An attestation tells the truth: the input was unspent at the height it names.\<close>

definition attestation_true :: "hash_t set \<Rightarrow> block list \<Rightarrow> hash_t list \<Rightarrow> u64 \<times> u64 \<Rightarrow> bool" where
  "attestation_true U chain inps p \<longleftrightarrow> unat (fst p) < length inps \<and>
     (\<exists>h. 1 \<le> h \<and> h \<le> length chain \<and> snd p = word_of_nat h \<and> inps ! unat (fst p) \<in> uhs_after U chain h)"

definition notif_true :: "hash_t set \<Rightarrow> block list \<Rightarrow> tx_notify_request \<Rightarrow> bool" where
  "notif_true U chain msg \<longleftrightarrow> c_inputs (n_tx msg) \<noteq> [] \<and>
     (\<forall>n \<in> set (n_attestations msg). attestation_true U chain (c_inputs (n_tx msg)) (n, n_block_height msg))"

definition collected_ok :: "hash_t set \<Rightarrow> block list \<Rightarrow> hash_t list \<Rightarrow> (u64 \<times> u64) list \<Rightarrow> bool" where
  "collected_ok U chain inps atts \<longleftrightarrow> distinct (map fst atts) \<and> (\<forall>p \<in> set atts. attestation_true U chain inps p)"

lemma attestation_insert_ok:
  "collected_ok U chain inps s \<Longrightarrow> attestation_true U chain inps p \<Longrightarrow> collected_ok U chain inps (attestation_insert p s)"
  by (auto simp: collected_ok_def attestation_insert_def)

lemma insert_attestations_ok:
  "collected_ok U chain inps s \<Longrightarrow> \<forall>n \<in> set ns. attestation_true U chain inps (n, h) \<Longrightarrow>
     collected_ok U chain inps (foldl (\<lambda>s n. attestation_insert (n, h) s) s ns)"
  by (induction ns arbitrary: s) (simp_all add: attestation_insert_ok)

lemma merge_attestations_ok:
  "collected_ok U chain inps s \<Longrightarrow> \<forall>n \<in> set ns. attestation_true U chain inps (n, h) \<Longrightarrow>
     collected_ok U chain inps (merge_attestations h ns s)"
  by (induction h ns s rule: merge_attestations.induct) (simp_all add: attestation_insert_ok Let_def)

text \<open>As many attestations as inputs, with distinct indices, are one for every input.\<close>

lemma collected_all:
  assumes "collected_ok U chain inps atts" "length atts = length inps" "i < length inps"
  shows "\<exists>p \<in> set atts. unat (fst p) = i"
proof -
  let ?is = "map (unat \<circ> fst) atts"
  have "distinct ?is"
    using assms(1) by (auto simp: collected_ok_def distinct_map inj_on_def word_unat_eq_iff [symmetric])
  moreover have "set ?is \<subseteq> {..<length inps}"
    using assms(1) by (auto simp: collected_ok_def attestation_true_def)
  ultimately have "set ?is = {..<length inps}"
    using assms(2) by (simp add: card_subset_eq distinct_card del: set_map)
  then show ?thesis
    using assms(3) by (metis (no_types, lifting) comp_apply imageE lessThan_iff set_map)
qed

lemma oldest_height_le:
  assumes "\<forall>p \<in> set atts. snd p \<noteq> 0" "p \<in> set atts"
  shows "oldest_height atts \<noteq> 0" "oldest_height atts \<le> snd p" "oldest_height atts \<in> snd ` set atts"
proof -
  let ?f = "\<lambda>oldest (att :: u64 \<times> u64). if oldest = 0 \<or> snd att < oldest then snd att else oldest"
  have "\<forall>p \<in> set as. snd p \<noteq> 0 \<Longrightarrow> as \<noteq> [] \<Longrightarrow>
    foldl ?f 0 as \<in> snd ` set as \<and> (\<forall>p \<in> set as. foldl ?f 0 as \<le> snd p)" for as :: "(u64 \<times> u64) list"
  proof (induction as rule: rev_induct)
    case (snoc q as)
    show ?case
    proof (cases "as = []")
      case False
      then have as: "foldl ?f 0 as \<in> snd ` set as" "\<forall>p \<in> set as. foldl ?f 0 as \<le> snd p"
        using snoc by simp_all
      show ?thesis
      proof (cases "foldl ?f 0 as = 0 \<or> snd q < foldl ?f 0 as")
        case True
        then have "foldl ?f 0 (as @ [q]) = snd q" "foldl ?f 0 as = 0 \<or> (\<forall>p \<in> set as. snd q \<le> snd p)"
          using as(2) by auto
        moreover have "foldl ?f 0 as \<noteq> 0"
          using as(1) snoc.prems(1) by fastforce
        ultimately show ?thesis
          by simp
      next
        case False
        then have "foldl ?f 0 (as @ [q]) = foldl ?f 0 as"
          by simp
        then show ?thesis
          using as False by (auto simp: not_less)
      qed
    qed simp
  qed simp
  from this [OF assms(1)] assms(2)
  have "oldest_height atts \<in> snd ` set atts \<and> (\<forall>p \<in> set atts. oldest_height atts \<le> snd p)"
    unfolding oldest_height_def by fastforce
  then show "oldest_height atts \<noteq> 0" "oldest_height atts \<le> snd p" "oldest_height atts \<in> snd ` set atts"
    using assms by auto
qed

lemma complete_true:
  assumes c: "collected_ok U chain (c_inputs t) atts" "length atts = length (c_inputs t)" "c_inputs t \<noteq> []"
    and bound: "length chain < 2 ^ 64"
  shows "aggregate_true U chain \<lparr>agg_tx = t, m_oldest_attestation = oldest_height atts\<rparr>"
proof -
  have h: "\<exists>h. 1 \<le> h \<and> h \<le> length chain \<and> snd p = word_of_nat h \<and> c_inputs t ! unat (fst p) \<in> uhs_after U chain h"
    if "p \<in> set atts" for p
    using c(1) that by (auto simp: collected_ok_def attestation_true_def)
  have nz: "\<forall>p \<in> set atts. snd p \<noteq> 0"
  proof
    fix p
    assume "p \<in> set atts"
    then obtain k where "1 \<le> k" "k \<le> length chain" "snd p = word_of_nat k"
      using h by blast
    then show "snd p \<noteq> 0"
      using bound unat_height [of k] by auto
  qed
  obtain q where q: "q \<in> set atts" "snd q = oldest_height atts"
    using oldest_height_le(3) [OF nz] c(2,3) by (metis hd_in_set imageE length_0_conv)
  obtain old where old: "1 \<le> old" "old \<le> length chain" "oldest_height atts = word_of_nat old"
    using h [OF q(1)] q(2) by auto
  have "\<exists>k. old \<le> k \<and> k \<le> length chain \<and> x \<in> uhs_after U chain k" if x: "x \<in> set (c_inputs t)" for x
  proof -
    obtain i where i: "i < length (c_inputs t)" "x = c_inputs t ! i"
      using x unfolding in_set_conv_nth by metis
    obtain p where p: "p \<in> set atts" "unat (fst p) = i"
      using collected_all [OF c(1,2) i(1)] by blast
    obtain k where k: "k \<le> length chain" "snd p = word_of_nat k" "x \<in> uhs_after U chain k"
      using h [OF p(1)] p(2) i(2) by auto
    have "old \<le> k"
      using oldest_height_le(2) [OF nz p(1)] old k bound by (simp add: word_le_nat_alt unat_height)
    then show ?thesis
      using k by blast
  qed
  then show ?thesis
    using c(3) old by (auto simp: aggregate_true_def)
qed

section \<open>The invariant of the system\<close>

definition leader_ok :: "hash_t set \<Rightarrow> block list \<Rightarrow> compact_tx set \<Rightarrow> atomizer_leader \<Rightarrow> bool" where
  "leader_ok U chain T l \<longleftrightarrow>
     (\<forall>(t, atts) \<in> set (l_txs l). t \<in> T \<and> c_inputs t \<noteq> [] \<and> collected_ok U chain (c_inputs t) atts) \<and>
     (\<forall>g \<in> set (l_complete_txs l). aggregate_true U chain g)"

lemma find_tx_Some: "find_tx tx m = Some (t, s) \<Longrightarrow> (t, s) \<in> set m \<and> m_id t = m_id tx"
  by (induction m) (auto simp: compact_tx_eq_def split: if_splits)

lemma leader_store_ok:
  assumes l: "leader_ok U chain T l" and t: "t \<in> T" "c_inputs t \<noteq> []" "collected_ok U chain (c_inputs t) atts"
    and bound: "length chain < 2 ^ 64"
  shows "leader_ok U chain T
    (if length atts \<noteq> length (c_inputs t) then l\<lparr>l_txs := erase_tx t (l_txs l) @ [(t, atts)]\<rparr>
     else l\<lparr>l_txs := erase_tx t (l_txs l),
            l_complete_txs := l_complete_txs l @ [\<lparr>agg_tx = t, m_oldest_attestation = oldest_height atts\<rparr>]\<rparr>)"
  using l t complete_true [OF t(3) _ t(2) bound] by (auto simp: leader_ok_def erase_tx_def)

lemma tx_notify_ok:
  assumes l: "leader_ok U chain T l" and T: "txs_ok T" and msg: "n_tx msg \<in> T" "notif_true U chain msg"
    and bound: "length chain < 2 ^ 64"
  shows "leader_ok U chain T (tx_notify S keys n l msg)"
proof (cases "check_attestations S (n_tx msg) keys n")
  case True
  have atts: "\<forall>i \<in> set (n_attestations msg). attestation_true U chain (c_inputs (n_tx msg)) (i, n_block_height msg)"
    and ne: "c_inputs (n_tx msg) \<noteq> []"
    using msg(2) by (auto simp: notif_true_def)
  show ?thesis
  proof (cases "find_tx (n_tx msg) (l_txs l)")
    case None
    have "collected_ok U chain (c_inputs (n_tx msg))
        (foldl (\<lambda>s i. attestation_insert (i, n_block_height msg) s) [] (n_attestations msg))"
      using atts by (intro insert_attestations_ok) (simp_all add: collected_ok_def)
    from leader_store_ok [OF l msg(1) ne this bound] show ?thesis
      by (simp add: tx_notify_def True None Let_def)
  next
    case (Some e)
    obtain t s where e: "e = (t, s)"
      by fastforce
    have t: "(t, s) \<in> set (l_txs l)" "m_id t = m_id (n_tx msg)"
      using find_tx_Some [of "n_tx msg" "l_txs l" t s] Some e by simp_all
    have tT: "t \<in> T" "collected_ok U chain (c_inputs t) s"
      using l t(1) by (auto simp: leader_ok_def)
    have same: "c_inputs t = c_inputs (n_tx msg)"
      using T tT(1) msg(1) t(2) unfolding txs_ok_def by blast
    have "collected_ok U chain (c_inputs t) (merge_attestations (n_block_height msg) (n_attestations msg) s)"
      using merge_attestations_ok [OF tT(2)] atts same by simp
    from leader_store_ok [OF l tT(1) _ this bound] show ?thesis
      using ne same by (simp add: tx_notify_def True Some e Let_def)
  qed
qed (use l in \<open>simp add: tx_notify_def\<close>)

text \<open>A longer chain keeps what was true of a shorter one.\<close>

lemma uhs_after_grow: "h \<le> length chain \<Longrightarrow> uhs_after U (chain @ [blk]) h = uhs_after U chain h"
  by (simp add: uhs_after_def)

lemma attestation_true_grow: "attestation_true U chain inps p \<Longrightarrow> attestation_true U (chain @ [blk]) inps p"
  unfolding attestation_true_def by (metis le_SucI length_append_singleton uhs_after_grow)

lemma aggregate_true_grow: "aggregate_true U chain g \<Longrightarrow> aggregate_true U (chain @ [blk]) g"
  unfolding aggregate_true_def by (metis le_SucI length_append_singleton uhs_after_grow)

lemma leader_ok_grow: "leader_ok U chain T l \<Longrightarrow> leader_ok U (chain @ [blk]) T l"
  unfolding leader_ok_def collected_ok_def using attestation_true_grow aggregate_true_grow by fast

lemma notif_true_grow: "notif_true U chain msg \<Longrightarrow> notif_true U (chain @ [blk]) msg"
  unfolding notif_true_def using attestation_true_grow by fast

definition shard_ok :: "'db leveldb \<Rightarrow> hash_t set \<Rightarrow> block list \<Rightarrow> 'db uhs_shard \<Rightarrow> bool" where
  "shard_ok L U chain s \<longleftrightarrow> (\<exists>h \<le> length chain. shard_at L s (uhs_after U chain h) (word_of_nat h))"

lemma shard_ok_grow: "shard_ok L U chain s \<Longrightarrow> shard_ok L U (chain @ [blk]) s"
  unfolding shard_ok_def by (metis le_SucI length_append_singleton uhs_after_grow)

lemma shard_ok_digest:
  assumes L: "leveldb_ok L" and c: "chain_ok chain" and s: "shard_ok L U chain s" and blk: "blk \<in> set chain"
    and d: "digest_block L s blk = (ok, s')"
  shows "shard_ok L U chain s'"
proof (cases "b_height blk = s_best_block_height s + 1")
  case True
  obtain h where h: "h \<le> length chain" "shard_at L s (uhs_after U chain h) (word_of_nat h)"
    using s by (auto simp: shard_ok_def)
  obtain i where i: "i < length chain" "blk = chain ! i"
    using blk by (auto simp: in_set_conv_nth)
  have bound: "Suc i < 2 ^ 64" "Suc h < 2 ^ 64"
    using c h(1) i(1) by (auto simp: chain_ok_def)
  have "(word_of_nat (Suc i) :: u64) = word_of_nat (Suc h)"
    using True c i h(2) by (simp add: chain_ok_def shard_at_def)
  then have "i = h"
    using bound by (metis Suc_inject unat_height)
  then show ?thesis
    using digest_next [OF L c _ h(2)] d i unfolding shard_ok_def by (metis Pair_inject Suc_leI)
qed (use s d in \<open>simp add: digest_block_def\<close>)

lemma shard_ok_notifies:
  assumes s: "shard_ok L U chain s" and d: "digest_transaction L s t = Inl msg" and T: "txs_ok T" "t \<in> T"
  shows "n_tx msg = t" "notif_true U chain msg"
proof -
  obtain h where h: "h \<le> length chain" "shard_at L s (uhs_after U chain h) (word_of_nat h)"
    using s by (auto simp: shard_ok_def)
  have wf: "list_all is_hash (c_inputs t)" "length (c_inputs t) < 2 ^ 64"
    using T unfolding txs_ok_def by blast+
  note d' = digest_transaction_true [OF h(2) d wf]
  show "n_tx msg = t"
    by (fact d'(1))
  have "1 \<le> h"
    using d'(3) by (cases h) auto
  then show "notif_true U chain msg"
    using d' h(1) by (auto simp: notif_true_def attestation_true_def)
qed

definition system_inv ::
  "'db leveldb \<Rightarrow> hash_t set \<Rightarrow> u64 \<Rightarrow> compact_tx set \<Rightarrow> 'db system \<Rightarrow> bool" where
  "system_inv L U depth T y \<longleftrightarrow> chain_ok (y_chain y) \<and> atomizer_inv U depth (y_chain y) (asm_atomizer (y_sm y)) \<and>
     (\<forall>s \<in> set (y_shards y). shard_ok L U (y_chain y) s) \<and>
     (\<forall>msg \<in> y_notifs y. n_tx msg \<in> T \<and> notif_true U (y_chain y) msg) \<and>
     leader_ok U (y_chain y) T (y_leader y) \<and> (\<forall>g \<in> y_aggs y. aggregate_true U (y_chain y) g)"

lemma system_init_inv:
  assumes "system_init L U depth y" "depth + 1 \<noteq> 0"
  shows "system_inv L U depth T y"
proof -
  have "unat (depth + 1) = Suc (unat depth)"
    using unatSuc [of depth] assms(2) by (simp add: add.commute)
  then have "atomizer_inv U depth [] (atomizer_init 0 depth)"
    by (auto simp: atomizer_inv_def atomizer_init_def settled_before_def inputs_of_def chain_txs_def nth_append less_Suc_eq_le
        simp del: replicate_Suc)
  then show ?thesis
    using assms(1)
    by (simp add: system_inv_def system_init_def chain_ok_def atomizer_sm_init_def leader_ok_def atomizer_leader_init_def
        shard_ok_def uhs_after_def)
qed

lemma system_step_inv:
  assumes step: "system_step L S keys n T y y'" and L: "leveldb_ok L" and T: "txs_ok T" and inv: "system_inv L U depth T y"
  shows "system_inv L U depth T y'"
  using step
proof cases
  case (submit i t msg)
  have s: "shard_ok L U (y_chain y) (y_shards y ! i)"
    using inv submit(2) by (simp add: system_inv_def)
  note shard_ok_notifies [OF s submit(5) T submit(3)]
  then show ?thesis
    using inv submit(1,3) by (simp add: system_inv_def)
next
  case (digest i blk ok s')
  have "shard_ok L U (y_chain y) s'"
    using shard_ok_digest [OF L _ _ digest(3,4)] inv digest(2) by (simp add: system_inv_def)
  then have "\<forall>s \<in> set ((y_shards y)[i := s']). shard_ok L U (y_chain y) s"
    using inv set_update_subset_insert [of "y_shards y" i s'] unfolding system_inv_def by blast
  then show ?thesis
    using inv digest(1) by (simp add: system_inv_def)
next
  case (notify msg)
  have "length (y_chain y) < 2 ^ 64"
    using inv by (simp add: system_inv_def chain_ok_def)
  then show ?thesis
    using inv notify tx_notify_ok [OF _ T, of U "y_chain y" "y_leader y" msg S keys n] by (simp add: system_inv_def)
next
  case (send aggs l)
  have "set aggs = set (l_complete_txs (y_leader y))" "l = y_leader y\<lparr>l_complete_txs := []\<rparr>"
    using send(2) by (auto simp: send_complete_txs_def split: if_splits)
  then show ?thesis
    using inv send(1) by (auto simp: system_inv_def leader_ok_def)
next
  case fail_over
  then show ?thesis
    using inv by (simp add: system_inv_def leader_ok_def atomizer_leader_init_def)
next
  case (commit aggs r sm)
  obtain errs where "insert_aggregates (asm_atomizer (y_sm y)) aggs = Some (errs, asm_atomizer sm)"
    using commit(3) by (auto simp: atomizer_process_def split: bind_splits)
  from insert_aggregates_inv [OF this, of U depth "y_chain y"] have "atomizer_inv U depth (y_chain y) (asm_atomizer sm)"
    using inv commit(2) unfolding system_inv_def chain_ok_def by (simp add: subset_iff)
  then show ?thesis
    using inv commit(1) by (simp add: system_inv_def)
next
  case (settle blk errs sm)
  have mk: "make_block (asm_atomizer (y_sm y)) = ((blk, errs), asm_atomizer sm)"
    using settle(2) by (auto simp: atomizer_process_def Let_def split: prod.splits)
  have a: "atomizer_inv U depth (y_chain y) (asm_atomizer (y_sm y))"
    using inv by (simp add: system_inv_def)
  have "chain_ok (y_chain y @ [blk])"
    using inv settle(3) make_block_inv(1) [OF a mk] by (auto simp: system_inv_def chain_ok_def nth_append less_Suc_eq)
  then show ?thesis
    using inv settle(1) make_block_inv(2) [OF a mk]
    by (auto simp: system_inv_def shard_ok_grow leader_ok_grow notif_true_grow aggregate_true_grow)
next
  case (prune h r sm)
  have "asm_atomizer sm = asm_atomizer (y_sm y)"
    using prune(2) by (auto simp: atomizer_process_def)
  then show ?thesis
    using inv prune(1) by (simp add: system_inv_def)
qed

lemma system_reach_inv:
  assumes "(system_step L S keys n T)\<^sup>*\<^sup>* y0 y" "system_init L U depth y0" "depth + 1 \<noteq> 0" "leveldb_ok L" "txs_ok T"
  shows "system_inv L U depth T y"
  using assms(1)
  by (induction rule: rtranclp_induct) (use assms system_init_inv system_step_inv in blast)+

section \<open>Spending twice\<close>

lemma not_unspent_step: "x \<in> foldl apply_uhs U ts \<Longrightarrow> x \<in> U \<or> (\<exists>t \<in> set ts. x \<in> set (m_uhs_outputs t))"
  by (induction ts arbitrary: U) (auto simp: apply_uhs_def)

text \<open>In a valid history a hash is spent twice only when a transaction in between creates it again.\<close>

lemma valid_spent_twice:
  assumes v: "valid_txs U ts" and ij: "i < j" "j < length ts"
    and x: "x \<in> set (c_inputs (ts ! i))" "x \<in> set (c_inputs (ts ! j))"
  shows "\<exists>k. i < k \<and> k < j \<and> x \<in> set (m_uhs_outputs (ts ! k))"
proof -
  let ?mid = "drop (Suc i) (take j ts)"
  have "ts = take j ts @ ts ! j # drop (Suc j) ts"
    using ij(2) by (rule id_take_nth_drop)
  then have "set (c_inputs (ts ! j)) \<subseteq> foldl apply_uhs U (take j ts)"
    using v valid_txs_append [of U "take j ts" "ts ! j # drop (Suc j) ts"] by simp
  then have "x \<in> foldl apply_uhs U (take j ts)"
    using x(2) by blast
  moreover have "take j ts = take i ts @ ts ! i # ?mid"
    using id_take_nth_drop [of i "take j ts"] ij by (simp add: min_def)
  ultimately have "x \<in> foldl apply_uhs U (take i ts @ ts ! i # ?mid)"
    by metis
  then have "x \<in> foldl apply_uhs (apply_uhs (foldl apply_uhs U (take i ts)) (ts ! i)) ?mid"
    by (simp del: drop_take)
  then obtain t where t: "t \<in> set ?mid" "x \<in> set (m_uhs_outputs t)"
    using not_unspent_step x(1) by (fastforce simp: apply_uhs_def)
  then obtain m where "m < length ?mid" "t = ?mid ! m"
    by (metis in_set_conv_nth)
  then show ?thesis
    using t(2) ij by (intro exI [of _ "Suc i + m"]) simp
qed

section \<open>Properties\<close>

text \<open>C4: The atomizer architecture never settles a double spend. Start from an empty chain, shards
  holding their parts of the initial supply, and run the components in any order: shards lag behind by
  any number of blocks, notifications are duplicated and reordered, leaders fail and lose the
  attestations they collected, complete notifications are replicated more than once. Then every
  transaction of the chain spends outputs that are unspent at its point of the chain; a hash is
  spent twice only if a transaction in between creates it again; and every shard holds exactly
  the hashes of its range that are unspent after the blocks it has digested.\<close>

theorem atomizer_chain_valid:
  assumes "leveldb_ok L" "txs_ok T" "depth + 1 \<noteq> 0" "system_init L U depth y0"
    and "(system_step L S keys n T)\<^sup>*\<^sup>* y0 y"
  shows "valid_txs U (chain_txs (y_chain y)) \<and>
    (\<forall>i j x. i < j \<and> j < length (chain_txs (y_chain y)) \<and>
      x \<in> set (c_inputs (chain_txs (y_chain y) ! i)) \<and> x \<in> set (c_inputs (chain_txs (y_chain y) ! j)) \<longrightarrow>
      (\<exists>k. i < k \<and> k < j \<and> x \<in> set (m_uhs_outputs (chain_txs (y_chain y) ! k)))) \<and>
    (\<forall>s \<in> set (y_shards y).
      \<exists>h \<le> length (y_chain y). shard_at L s (uhs_after U (y_chain y) h) (word_of_nat h))"
proof -
  have inv: "system_inv L U depth T y"
    using system_reach_inv [OF assms(5,4,3,1,2)] .
  then have v: "valid_txs U (chain_txs (y_chain y))"
    by (simp add: system_inv_def atomizer_inv_def valid_txs_append)
  have "\<forall>s \<in> set (y_shards y). shard_ok L U (y_chain y) s"
    using inv by (simp add: system_inv_def)
  then show ?thesis
    using v valid_spent_twice [OF v] unfolding shard_ok_def by blast
qed

definition sample_system :: "(byte list \<Rightarrow> byte list option) system" where
  "sample_system =
    (let db = [best_block_height_key \<mapsto> put_u64 0, sample_hash 5 \<mapsto> []]
     in \<lparr>y_sm = atomizer_sm_init 2, y_chain = [],
         y_shards = [\<lparr>m_db = db, s_best_block_height = 0, m_snp = db, m_snp_height = 0, m_prefix_range = (0, 255)\<rparr>],
         y_notifs = {}, y_leader = atomizer_leader_init, y_aggs = {}\<rparr>)"

lemma sample_system_init: "system_init map_leveldb {sample_hash 5} 2 sample_system"
proof -
  have "best_block_height_key \<noteq> sample_hash 5"
    using best_key_not_hash [of "sample_hash 5"] by simp
  then show ?thesis
    using best_key_not_hash
    by (auto simp: system_init_def sample_system_def Let_def shard_at_def map_leveldb_def is_output_on_shard_def
        hash_in_shard_range_def sample_hash_def split: if_splits)
qed

text \<open>A run that settles a transaction in the second block.\<close>

lemma make_block_request:
  "\<exists>errs sm'. atomizer_process sm Make_block_request = Some (Some (Make_block_response
      \<lparr>b_height = a_best_height (asm_atomizer sm) + 1, b_transactions = a_complete_txs (asm_atomizer sm)\<rparr> errs), sm') \<and>
    a_best_height (asm_atomizer sm') = a_best_height (asm_atomizer sm) + 1 \<and> a_complete_txs (asm_atomizer sm') = [] \<and>
    a_spent (asm_atomizer sm') = {} # take (unat (a_spent_cache_depth (asm_atomizer sm))) (a_spent (asm_atomizer sm)) \<and>
    a_spent_cache_depth (asm_atomizer sm') = a_spent_cache_depth (asm_atomizer sm)"
  by (simp add: atomizer_process_def make_block_def Let_def)

lemma sample_settles:
  fixes y :: "(byte list \<Rightarrow> byte list option) system"
  assumes "a_best_height (asm_atomizer (y_sm y)) = 1" "a_complete_txs (asm_atomizer (y_sm y)) = []"
    "a_spent (asm_atomizer (y_sm y)) = [{}, {}, {}]" "a_spent_cache_depth (asm_atomizer (y_sm y)) = 2"
    and y: "y_leader y = atomizer_leader_init" "length (y_chain y) = 1" "y_aggs y = {}"
    and msg: "\<lparr>n_tx = sample_tx 1 [5] [6], n_attestations = [0], n_block_height = 1\<rparr> \<in> y_notifs y"
  shows "\<exists>y' blk. (system_step map_leveldb toy_secp {} 0 T)\<^sup>*\<^sup>* y y' \<and> y_chain y' = y_chain y @ [blk] \<and>
    b_transactions blk = [sample_tx 1 [5] [6]]"
proof -
  let ?t = "sample_tx 1 [5] [6]" and ?step = "system_step map_leveldb toy_secp {} 0 T"
  let ?msg = "\<lparr>n_tx = ?t, n_attestations = [0], n_block_height = 1\<rparr>"
  let ?g = "\<lparr>agg_tx = ?t, m_oldest_attestation = 1\<rparr>"
  define y1 where "y1 = y\<lparr>y_leader := \<lparr>l_txs = [], l_complete_txs = [?g]\<rparr>\<rparr>"
  define y2 where "y2 = y1\<lparr>y_leader := atomizer_leader_init, y_aggs := {?g}\<rparr>"
  have "tx_notify toy_secp {} 0 (y_leader y) ?msg = \<lparr>l_txs = [], l_complete_txs = [?g]\<rparr>"
    by (simp add: y tx_notify_def atomizer_leader_init_def check_attestations_def attestation_insert_def oldest_height_def
        erase_tx_def sample_tx_def)
  then have 1: "?step y y1"
    using system_step.notify [OF msg, of map_leveldb toy_secp "{}" 0 T] by (simp add: y1_def)
  have 2: "?step y1 y2"
    using system_step.send [of y1 "[?g]" atomizer_leader_init map_leveldb toy_secp "{}" 0 T] y
    by (simp add: y2_def y1_def send_complete_txs_def atomizer_leader_init_def)
  obtain r sm where sm: "atomizer_process (y_sm y) (Aggregate_tx_notify_request [?g]) = Some (r, sm)"
      "a_complete_txs (asm_atomizer sm) = [?t]"
    using assms(1-4)
    by (auto simp: atomizer_process_def insert_complete_def get_notification_offset_def check_notification_offset_def
        check_stxo_cache_def add_tx_to_stxo_cache_def sample_tx_def Let_def)
  have 3: "?step y2 (y2\<lparr>y_sm := sm\<rparr>)"
    using system_step.commit [of "[?g]" y2 r sm map_leveldb toy_secp "{}" 0 T] sm(1) by (simp add: y2_def y1_def)
  obtain blk errs sm' where blk: "atomizer_process sm Make_block_request = Some (Some (Make_block_response blk errs), sm')"
      "b_transactions blk = [?t]"
    using make_block_request [of sm] sm(2) by fastforce
  have 4: "?step (y2\<lparr>y_sm := sm\<rparr>) (y2\<lparr>y_sm := sm', y_chain := y_chain y @ [blk]\<rparr>)"
    using system_step.settle [of "y2\<lparr>y_sm := sm\<rparr>" blk errs sm' map_leveldb toy_secp "{}" 0 T] blk(1) y(2)
    by (simp add: y2_def y1_def)
  have "?step\<^sup>*\<^sup>* y (y2\<lparr>y_sm := sm', y_chain := y_chain y @ [blk]\<rparr>)"
    using 1 2 3 4 by (meson converse_rtranclp_into_rtranclp rtranclp.rtrancl_refl)
  then show ?thesis
    using blk(2) by (intro exI conjI) auto
qed

lemma sample_run:
  "\<exists>y. (system_step map_leveldb toy_secp {} 0 {sample_tx 1 [5] [6]})\<^sup>*\<^sup>* sample_system y \<and>
     chain_txs (y_chain y) = [sample_tx 1 [5] [6]]"
proof -
  let ?t = "sample_tx 1 [5] [6]" and ?blk = "\<lparr>b_height = 1, b_transactions = []\<rparr>"
  let ?step = "system_step map_leveldb toy_secp {} 0 {?t}"
  have key: "best_block_height_key \<noteq> sample_hash 5"
    using best_key_not_hash [of "sample_hash 5"] by simp
  have rep: "replicate 2 {} = [{} :: hash_t set, {}]"
    by (simp add: numeral_2_eq_2)
  obtain errs sm1 where sm1: "atomizer_process (atomizer_sm_init 2) Make_block_request = Some (Some (Make_block_response ?blk errs), sm1)"
      "a_best_height (asm_atomizer sm1) = 1" "a_complete_txs (asm_atomizer sm1) = []"
      "a_spent (asm_atomizer sm1) = [{}, {}, {}]" "a_spent_cache_depth (asm_atomizer sm1) = 2"
    using make_block_request [of "atomizer_sm_init 2"] by (auto simp: atomizer_sm_init_def atomizer_init_def rep)
  define s0 where "s0 = hd (y_shards sample_system)"
  define s1 where "s1 = snd (digest_block map_leveldb s0 ?blk)"
  define y1 where "y1 = sample_system\<lparr>y_sm := sm1, y_chain := [?blk]\<rparr>"
  define y2 where "y2 = y1\<lparr>y_shards := [s1]\<rparr>"
  have 1: "?step sample_system y1"
    using system_step.settle [of sample_system ?blk errs sm1] sm1(1) by (simp add: y1_def sample_system_def Let_def)
  have 2: "?step y1 y2"
    using system_step.digest [of 0 y1 ?blk map_leveldb]
    by (simp add: y2_def y1_def s1_def s0_def sample_system_def Let_def) (metis prod.collapse)
  let ?msg = "\<lparr>n_tx = ?t, n_attestations = [0], n_block_height = 1\<rparr>"
  have "digest_transaction map_leveldb s1 ?t = Inl ?msg"
    using key by (simp add: s1_def s0_def sample_system_def Let_def digest_block_def digest_transaction_def update_snapshot_def
        map_leveldb_def sample_tx_def is_output_on_shard_def)
  then have 3: "?step y2 (y2\<lparr>y_notifs := {?msg}\<rparr>)"
    using system_step.submit [of 0 y2 ?t "{?t}" toy_secp "{}" 0 map_leveldb ?msg]
    by (simp add: y2_def y1_def sample_system_def Let_def check_attestations_def sample_tx_def)
  obtain y' blk where y': "?step\<^sup>*\<^sup>* (y2\<lparr>y_notifs := {?msg}\<rparr>) y'" "y_chain y' = [?blk, blk]" "b_transactions blk = [?t]"
    using sample_settles [of "y2\<lparr>y_notifs := {?msg}\<rparr>" "{?t}"] sm1
    by (auto simp: y2_def y1_def sample_system_def Let_def)
  then have "?step\<^sup>*\<^sup>* sample_system y'"
    using 1 2 3 by (meson converse_rtranclp_into_rtranclp)
  then show ?thesis
    using y' by (intro exI [of _ y']) (simp add: chain_txs_def)
qed

theorem atomizer_chain_valid_witness:
  "\<exists>y. (system_step map_leveldb toy_secp {} 0 {sample_tx 1 [5] [6]})\<^sup>*\<^sup>* sample_system y \<and>
     chain_txs (y_chain y) = [sample_tx 1 [5] [6]] \<and> valid_txs {sample_hash 5} (chain_txs (y_chain y)) \<and>
     (\<exists>s \<in> set (y_shards y). \<exists>h \<le> length (y_chain y).
        shard_at map_leveldb s (uhs_after {sample_hash 5} (y_chain y) h) (word_of_nat h))"
proof -
  obtain y where y: "(system_step map_leveldb toy_secp {} 0 {sample_tx 1 [5] [6]})\<^sup>*\<^sup>* sample_system y"
      "chain_txs (y_chain y) = [sample_tx 1 [5] [6]]"
    using sample_run by blast
  have "y_shards y \<noteq> []"
    using y(1) by (induction rule: rtranclp_induct) (auto simp: sample_system_def Let_def elim!: system_step.cases)
  moreover have "txs_ok {sample_tx 1 [5] [6]}"
    by (simp add: txs_ok_def sample_tx_def)
  ultimately show ?thesis
    using atomizer_chain_valid [OF map_leveldb_ok _ _ sample_system_init y(1)] y hd_in_set by fastforce
qed

end
