(* ===== verification/Atomizer_Messages.thy ===== *)
theory Atomizer_Messages
  imports Atomizer
begin

text \<open>
  The messages of the atomizer are read back as they were written, and what the replicated state
  machine and the handlers of the controller do on bytes is what they do on the values.
\<close>

section \<open>Formats\<close>

definition wf_block :: "block \<Rightarrow> bool" where
  "wf_block blk \<longleftrightarrow> wf_vector wf_compact_tx (b_transactions blk)"

definition wf_tx_notify :: "tx_notify_request \<Rightarrow> bool" where
  "wf_tx_notify msg \<longleftrightarrow> wf_compact_tx (n_tx msg) \<and> wf_set (\<lambda>_. True) (n_attestations msg)"

definition wf_aggregate :: "aggregate_tx_notification \<Rightarrow> bool" where
  "wf_aggregate msg \<longleftrightarrow> wf_compact_tx (agg_tx msg)"

lemmas notification_sizes = sizeof_aggregate_def sizeof_wt_error_def sizeof_defs

lemmas block_txs_codec = codec_vector [OF compact_tx_fmt.codec_axioms, of sizeof_compact_tx]
lemmas errors_codec = codec_vector [OF wt_error_fmt.codec_axioms, of sizeof_wt_error]
lemmas index_set_codec = codec_unordered_set [OF u64.codec_axioms]

interpretation block_fmt: codec put_block get_block_fmt wf_block
  by (rule codec_record [OF codec_pair [OF u64.codec_axioms block_txs_codec],
        where f = "\<lambda>x. (b_height x, b_transactions x)" and c = "\<lambda>(h, t). \<lparr>b_height = h, b_transactions = t\<rparr>"])
     (auto simp: put_block_def get_block_fmt_def wf_block_def record_format notification_sizes)

interpretation tx_notify_fmt: codec put_tx_notify get_tx_notify wf_tx_notify
  by (rule codec_record [OF codec_pair [OF u64.codec_axioms codec_pair [OF compact_tx_fmt.codec_axioms index_set_codec]],
        where f = "\<lambda>x. (n_block_height x, n_tx x, n_attestations x)"
          and c = "\<lambda>(h, t, a). \<lparr>n_tx = t, n_attestations = a, n_block_height = h\<rparr>"])
     (auto simp: put_tx_notify_def get_tx_notify_def wf_tx_notify_def record_format)

interpretation aggregate_fmt: codec put_aggregate get_aggregate wf_aggregate
  by (rule codec_record [OF codec_pair [OF u64.codec_axioms compact_tx_fmt.codec_axioms],
        where f = "\<lambda>x. (m_oldest_attestation x, agg_tx x)" and c = "\<lambda>(h, t). \<lparr>agg_tx = t, m_oldest_attestation = h\<rparr>"])
     (auto simp: put_aggregate_def get_aggregate_def wf_aggregate_def record_format)

lemmas aggregates_codec = codec_vector [OF aggregate_fmt.codec_axioms, of sizeof_aggregate]

text \<open>The variants: one byte with the index of the alternative, then the alternative.\<close>

definition wf_sm_request :: "sm_request \<Rightarrow> bool" where
  "wf_sm_request req = (case req of Aggregate_tx_notify_request aggs \<Rightarrow> wf_vector wf_aggregate aggs | _ \<Rightarrow> True)"

definition wf_sm_response :: "sm_response \<Rightarrow> bool" where
  "wf_sm_response resp =
    (case resp of
       Make_block_response blk errs \<Rightarrow> wf_block blk \<and> wf_vector wf_wt_error errs
     | Get_block_response blk \<Rightarrow> wf_block blk
     | Errors_response errs \<Rightarrow> wf_vector wf_wt_error errs)"

definition wf_atomizer_request :: "atomizer_request \<Rightarrow> bool" where
  "wf_atomizer_request req = (case req of Req_tx_notify msg \<Rightarrow> wf_tx_notify msg | _ \<Rightarrow> True)"

lemma errors_codec': "codec (put_vector put_wt_error) (get_vector sizeof_wt_error get_wt_error) (wf_vector wf_wt_error)"
  by (rule errors_codec) (simp_all add: notification_sizes)

lemma aggregates_codec': "codec (put_vector put_aggregate) (get_vector sizeof_aggregate get_aggregate) (wf_vector wf_aggregate)"
  by (rule aggregates_codec) (simp_all add: notification_sizes)

lemmas variant_get_put = u8.get_put u64.get_put block_fmt.get_put tx_notify_fmt.get_put
  codec.get_put [OF errors_codec'] codec.get_put [OF aggregates_codec']
lemmas variant_get_append = u64.get_append block_fmt.get_append tx_notify_fmt.get_append
  codec.get_append [OF errors_codec'] codec.get_append [OF aggregates_codec']

interpretation sm_request_fmt: codec put_sm_request get_sm_request wf_sm_request
proof (standard, goal_cases)
  case (1 x r)
  then show ?case
    by (cases x) (simp_all add: put_sm_request_def get_sm_request_def wf_sm_request_def variant_get_put)
next
  case (2 bs x r e)
  then obtain i r1 where i: "get_u8 bs = Some (i, r1)"
    by (auto simp: get_sm_request_def bind_Some_pair)
  show ?case
    using 2 unfolding get_sm_request_def i u8.get_append [OF i]
    by (auto simp: bind_Some_pair variant_get_append split: if_splits)
qed

interpretation sm_response_fmt: codec put_sm_response get_sm_response wf_sm_response
proof (standard, goal_cases)
  case (1 x r)
  then show ?case
    by (cases x) (simp_all add: put_sm_response_def get_sm_response_def wf_sm_response_def variant_get_put)
next
  case (2 bs x r e)
  then obtain i r1 where i: "get_u8 bs = Some (i, r1)"
    by (auto simp: get_sm_response_def bind_Some_pair)
  show ?case
    using 2 unfolding get_sm_response_def i u8.get_append [OF i]
    by (auto simp: bind_Some_pair variant_get_append split: if_splits)
qed

interpretation atomizer_request_fmt: codec put_atomizer_request get_atomizer_request wf_atomizer_request
proof (standard, goal_cases)
  case (1 x r)
  then show ?case
    by (cases x) (simp_all add: put_atomizer_request_def get_atomizer_request_def wf_atomizer_request_def variant_get_put)
next
  case (2 bs x r e)
  then obtain i r1 where i: "get_u8 bs = Some (i, r1)"
    by (auto simp: get_atomizer_request_def bind_Some_pair)
  show ?case
    using 2 unfolding get_atomizer_request_def i u8.get_append [OF i]
    by (auto simp: bind_Some_pair variant_get_append split: if_splits)
qed

section \<open>The state machine on values\<close>

text \<open>
  What holds of the state between two log entries: the caches have an entry for every offset up
  to the depth, the attestations are collected by the leader and not here, and every
  transaction and block can be written and read back.
\<close>

definition atomizer_wf :: "atomizer \<Rightarrow> bool" where
  "atomizer_wf a \<longleftrightarrow> a_spent_cache_depth a + 1 \<noteq> 0 \<and> length (a_spent a) = Suc (unat (a_spent_cache_depth a)) \<and>
     length (a_txs a) = Suc (unat (a_spent_cache_depth a)) \<and> (\<forall>m \<in> set (a_txs a). m = []) \<and>
     list_all wf_compact_tx (a_complete_txs a)"

definition atomizer_sm_wf :: "atomizer_sm \<Rightarrow> bool" where
  "atomizer_sm_wf sm \<longleftrightarrow> atomizer_wf (asm_atomizer sm) \<and> (\<forall>(h, blk) \<in> set (asm_blocks sm). wf_block blk \<and> b_height blk = h)"

lemma atomizer_sm_init_wf: "depth + 1 \<noteq> 0 \<Longrightarrow> atomizer_sm_wf (atomizer_sm_init depth)"
  using unatSuc [of depth]
  by (simp add: atomizer_sm_wf_def atomizer_wf_def atomizer_sm_init_def atomizer_init_def add.commute)

lemma check_stxo_cache_total:
  assumes "atomizer_wf a" "c_inputs tx \<noteq> []" "\<not> r > a_spent_cache_depth a" "wf_compact_tx tx"
  shows "\<exists>e. check_stxo_cache a tx r = Some e \<and> (\<forall>x. e = Some x \<longrightarrow> wf_wt_error x)"
proof -
  let ?errs = "remdups (concat (map (\<lambda>offset. filter (\<lambda>inp. inp \<in> a_spent a ! offset) (c_inputs tx)) [0..<Suc (unat r)]))"
  have r: "unat r < length (a_spent a)"
    using assms(1,3) by (simp add: atomizer_wf_def word_less_nat_alt)
  have "r + 1 \<noteq> 0"
    using assms(1,3) by (metis atomizer_wf_def eq_neg_iff_add_eq_0 not_less_iff_gr_or_eq word_order.not_eq_extremum)
  moreover have "set ?errs \<subseteq> set (c_inputs tx)"
    by auto
  moreover have "length ?errs \<le> length (c_inputs tx)"
    using card_mono [OF _ calculation(2)] card_length [of "c_inputs tx"] by (simp add: length_remdups_card_conv)
  ultimately show ?thesis
    using r assms(2,4)
    by (auto simp: check_stxo_cache_def Let_def wf_wt_error_def wf_error_info_def wf_set_def wf_compact_tx_def wf_vector_def
        is_array_def)
qed

lemma insert_complete_wf:
  assumes a: "atomizer_wf a" and g: "wf_aggregate g" "c_inputs (agg_tx g) \<noteq> []"
  shows "\<exists>e a'. insert_complete a (m_oldest_attestation g) (agg_tx g) = Some (e, a') \<and> atomizer_wf a' \<and>
    (\<forall>x. e = Some x \<longrightarrow> wf_wt_error x) \<and> length (a_complete_txs a') \<le> Suc (length (a_complete_txs a))"
proof -
  let ?r = "get_notification_offset a (m_oldest_attestation g)"
  have tx: "wf_compact_tx (agg_tx g)"
    using g(1) by (simp add: wf_aggregate_def)
  show ?thesis
  proof (cases "?r > a_spent_cache_depth a")
    case True
    then show ?thesis
      using a g(2) tx
      by (simp add: insert_complete_def check_notification_offset_def wf_wt_error_def wf_error_info_def wf_compact_tx_def)
  next
    case False
    obtain e where e: "check_stxo_cache a (agg_tx g) ?r = Some e" "\<forall>x. e = Some x \<longrightarrow> wf_wt_error x"
      using check_stxo_cache_total [OF a g(2) False tx] by blast
    have "insert_complete a (m_oldest_attestation g) (agg_tx g) = (case e of Some x \<Rightarrow> Some (Some x, a)
       | None \<Rightarrow> Some (None, (add_tx_to_stxo_cache a (agg_tx g))\<lparr>a_complete_txs := a_complete_txs a @ [agg_tx g]\<rparr>))"
      using False e(1)
      by (cases e) (simp_all add: insert_complete_def check_notification_offset_def add_tx_to_stxo_cache_def Let_def)
    then show ?thesis
      using a e(2) tx by (cases e) (auto simp: add_tx_to_stxo_cache_def atomizer_wf_def)
  qed
qed

lemma insert_aggregates_wf:
  "atomizer_wf a \<Longrightarrow> \<forall>g \<in> set gs. wf_aggregate g \<and> c_inputs (agg_tx g) \<noteq> [] \<Longrightarrow>
   \<exists>errs a'. insert_aggregates a gs = Some (errs, a') \<and> atomizer_wf a' \<and> (\<forall>x \<in> set errs. wf_wt_error x) \<and>
     length errs \<le> length gs"
proof (induction gs arbitrary: a)
  case (Cons g gs)
  obtain e a1 where 1: "insert_complete a (m_oldest_attestation g) (agg_tx g) = Some (e, a1)" "atomizer_wf a1"
      "\<forall>x. e = Some x \<longrightarrow> wf_wt_error x"
    using insert_complete_wf [OF Cons.prems(1), of g] Cons.prems(2) by auto
  obtain errs a2 where 2: "insert_aggregates a1 gs = Some (errs, a2)" "atomizer_wf a2" "\<forall>x \<in> set errs. wf_wt_error x"
      "length errs \<le> length gs"
    using Cons.IH [OF 1(2)] Cons.prems(2) by auto
  show ?case
    using 1 2 by (cases e) auto
qed simp

lemma make_block_wf:
  assumes "atomizer_wf a" "length (a_complete_txs a) < 2 ^ 64"
  shows "\<exists>blk a'. make_block a = ((blk, []), a') \<and> atomizer_wf a' \<and> wf_block blk"
proof -
  have "a_txs a ! unat (a_spent_cache_depth a) = []"
    using assms(1) nth_mem [of "unat (a_spent_cache_depth a)" "a_txs a"] by (simp add: atomizer_wf_def)
  then show ?thesis
    using assms by (auto simp: make_block_def Let_def atomizer_wf_def wf_block_def wf_vector_def list_all_iff dest: in_set_takeD)
qed

text \<open>Every request is answered, and the answer can be written and read back.\<close>

lemma atomizer_process_wf:
  assumes sm: "atomizer_sm_wf sm" and req: "wf_sm_request req" "length (a_complete_txs (asm_atomizer sm)) < 2 ^ 64"
    and inps: "\<forall>aggs. req = Aggregate_tx_notify_request aggs \<longrightarrow> (\<forall>g \<in> set aggs. c_inputs (agg_tx g) \<noteq> [])"
  shows "\<exists>resp sm'. atomizer_process sm req = Some (resp, sm') \<and> atomizer_sm_wf sm' \<and> (\<forall>x. resp = Some x \<longrightarrow> wf_sm_response x)"
proof (cases req)
  case (Aggregate_tx_notify_request aggs)
  have "\<forall>g \<in> set aggs. wf_aggregate g \<and> c_inputs (agg_tx g) \<noteq> []" "length aggs < 2 ^ 64"
    using req(1) inps by (auto simp: Aggregate_tx_notify_request wf_sm_request_def wf_vector_def)
  then obtain errs a' where "insert_aggregates (asm_atomizer sm) aggs = Some (errs, a')" "atomizer_wf a'"
      "\<forall>x \<in> set errs. wf_wt_error x" "length errs < 2 ^ 64"
    using insert_aggregates_wf [of "asm_atomizer sm" aggs] sm unfolding atomizer_sm_wf_def by (meson le_less_trans)
  then show ?thesis
    using sm by (simp add: Aggregate_tx_notify_request atomizer_process_def atomizer_sm_wf_def wf_sm_response_def wf_vector_def)
next
  case Make_block_request
  obtain blk a' where "make_block (asm_atomizer sm) = ((blk, []), a')" "atomizer_wf a'" "wf_block blk"
    using make_block_wf [OF _ req(2)] sm by (auto simp: atomizer_sm_wf_def)
  then show ?thesis
    using sm by (auto simp: Make_block_request atomizer_process_def atomizer_sm_wf_def wf_sm_response_def wf_vector_def
        emplace_def)
next
  case (Get_block_request h)
  then show ?thesis
    using sm by (auto simp: atomizer_process_def atomizer_sm_wf_def wf_sm_response_def dest!: map_of_SomeD)
next
  case (Prune_request h)
  then show ?thesis
    using sm by (auto simp: atomizer_process_def atomizer_sm_wf_def)
qed

section \<open>Properties\<close>

text \<open>C31: The replicated atomizer does on bytes what it does on values, and never gets stuck. In a
  well-formed state, every well-formed request (whose transactions have inputs), written to the
  log and executed at the next index, is decoded to the same request, leads to a well-formed
  state, and any reply is read back as it was written. The reply to a request for a block passes
  the assertions of the leader's handler, which sends the shards the block of the next height
  with exactly the pending transactions, and no errors; the reply to a batch of notifications
  passes those of the other handler.\<close>

theorem atomizer_replies:
  assumes sm: "atomizer_sm_wf sm" and req: "wf_sm_request req" "length (a_complete_txs (asm_atomizer sm)) < 2 ^ 64"
    and inps: "\<forall>aggs. req = Aggregate_tx_notify_request aggs \<longrightarrow> (\<forall>g \<in> set aggs. c_inputs (agg_tx g) \<noteq> [])"
  shows "\<exists>resp sm'. atomizer_commit sm (asm_last_committed_idx sm + 1) (put_sm_request req) = Some (map_option put_sm_response resp, sm') \<and>
    atomizer_process (sm\<lparr>asm_last_committed_idx := asm_last_committed_idx sm + 1\<rparr>) req = Some (resp, sm') \<and> atomizer_sm_wf sm' \<and>
    (\<forall>x. resp = Some x \<longrightarrow> from_buffer get_sm_response (put_sm_response x) = Some x) \<and>
    (req = Make_block_request \<longrightarrow> (\<exists>blk. raft_result_handler (map_option put_sm_response resp) = Some [To_shards (put_block blk)] \<and>
       from_buffer get_block_fmt (put_block blk) = Some blk \<and> b_height blk = a_best_height (asm_atomizer sm) + 1 \<and>
       b_transactions blk = a_complete_txs (asm_atomizer sm))) \<and>
    (\<forall>aggs. req = Aggregate_tx_notify_request aggs \<longrightarrow> err_return_handler (map_option put_sm_response resp) \<noteq> None)"
proof -
  let ?sm = "sm\<lparr>asm_last_committed_idx := asm_last_committed_idx sm + 1\<rparr>"
  have "atomizer_sm_wf ?sm" "length (a_complete_txs (asm_atomizer ?sm)) < 2 ^ 64"
    using sm req(2) by (simp_all add: atomizer_sm_wf_def)
  from atomizer_process_wf [OF this(1) req(1) this(2) inps]
  obtain resp sm' where p: "atomizer_process ?sm req = Some (resp, sm')" "atomizer_sm_wf sm'" "\<forall>x. resp = Some x \<longrightarrow> wf_sm_response x"
    by blast
  have c: "atomizer_commit sm (asm_last_committed_idx sm + 1) (put_sm_request req) = Some (map_option put_sm_response resp, sm')"
    using p(1) sm_request_fmt.from_buffer_put [OF req(1), of "[]"] by (simp add: atomizer_commit_def)
  have rd: "\<forall>x. resp = Some x \<longrightarrow> from_buffer get_sm_response (put_sm_response x) = Some x"
    using p(3) sm_response_fmt.from_buffer_put [of _ "[]"] by simp
  have blk: "\<exists>blk. raft_result_handler (map_option put_sm_response resp) = Some [To_shards (put_block blk)] \<and>
       from_buffer get_block_fmt (put_block blk) = Some blk \<and> b_height blk = a_best_height (asm_atomizer sm) + 1 \<and>
       b_transactions blk = a_complete_txs (asm_atomizer sm)" if "req = Make_block_request"
  proof -
    obtain b a' where b: "make_block (asm_atomizer sm) = ((b, []), a')" "wf_block b"
      using make_block_wf [OF _ req(2)] sm by (auto simp: atomizer_sm_wf_def)
    then have "resp = Some (Make_block_response b [])"
      using p(1) that by (simp add: atomizer_process_def)
    then show ?thesis
      using b rd block_fmt.from_buffer_put [OF b(2), of "[]"]
      by (intro exI [of _ b]) (auto simp: raft_result_handler_def make_block_def Let_def)
  qed
  have "err_return_handler (map_option put_sm_response resp) \<noteq> None" if "req = Aggregate_tx_notify_request aggs" for aggs
    using p(1) rd that
    by (auto simp: atomizer_process_def err_return_handler_def split: bind_splits if_splits)
  then show ?thesis
    using p c rd blk by blast
qed

theorem atomizer_replies_witness:
  "\<exists>blk resp sm'. atomizer_commit (atomizer_sm_init 2) 1 (put_sm_request Make_block_request) = Some (resp, sm') \<and>
     raft_result_handler resp = Some [To_shards (put_block blk)] \<and> from_buffer get_block_fmt (put_block blk) = Some blk \<and>
     b_height blk = 1 \<and> b_transactions blk = []"
  using atomizer_replies [of "atomizer_sm_init 2" Make_block_request] atomizer_sm_init_wf [of 2]
  by (auto simp: wf_sm_request_def atomizer_sm_init_def atomizer_init_def)

end
