(* ===== verification/Decimal.thy ===== *)
theory Decimal
  imports Prelude "HOL-Library.Monad_Syntax"
begin

text \<open>
  Decimal numbers in strings, as \<open>std::to_string\<close> writes them and \<open>std::stoul\<close> and \<open>std::stoull\<close>
  read them, and strings as the bytes that are stored and hashed.
\<close>

definition string_bytes :: "string \<Rightarrow> byte list" where
  "string_bytes s = map (word_of_nat \<circ> of_char) s"

definition bytes_string :: "byte list \<Rightarrow> string" where
  "bytes_string bs = map (char_of \<circ> unat) bs"

definition dec_digit :: "nat \<Rightarrow> char" where
  "dec_digit d = char_of (48 + d)"

fun dec_string :: "nat \<Rightarrow> string" where
  "dec_string n = (if n < 10 then [dec_digit n] else dec_string (n div 10) @ [dec_digit (n mod 10)])"

declare dec_string.simps [simp del]

definition is_dec :: "char \<Rightarrow> bool" where
  "is_dec c \<longleftrightarrow> of_char c \<in> {48..57 :: nat}"

definition dec_value :: "string \<Rightarrow> nat" where
  "dec_value s = foldl (\<lambda>v c. 10 * v + (of_char c - 48)) 0 s"

definition is_space :: "char \<Rightarrow> bool" where
  "is_space c \<longleftrightarrow> of_char c = (32 :: nat) \<or> of_char c \<in> {9..13 :: nat}"

text \<open>
  Leading blanks and a sign are skipped, the longest run of digits is read; no digit or a value
  outside 64 bits raises an exception. A negative number wraps around.
\<close>

definition stoul :: "string \<Rightarrow> nat option" where
  "stoul s =
    (let t = dropWhile is_space s;
         neg = (t \<noteq> [] \<and> hd t = CHR ''-'');
         u = (if t \<noteq> [] \<and> (hd t = CHR ''-'' \<or> hd t = CHR ''+'') then tl t else t);
         ds = takeWhile is_dec u
     in if ds = [] \<or> dec_value ds \<ge> 2 ^ 64 then None
        else Some (if neg then (2 ^ 64 - dec_value ds) mod 2 ^ 64 else dec_value ds))"

section \<open>Reading back\<close>

lemma of_char_digit: "d < 10 \<Longrightarrow> of_char (dec_digit d) = 48 + d"
  by (simp add: dec_digit_def)

lemma is_dec_digit: "d < 10 \<Longrightarrow> is_dec (dec_digit d)"
  by (simp add: is_dec_def of_char_digit)

lemma dec_value_string: "dec_value (dec_string n) = n"
proof (induction n rule: dec_string.induct)
  case (1 n)
  show ?case
  proof (cases "n < 10")
    case True
    then show ?thesis
      by (subst dec_string.simps) (simp add: dec_value_def of_char_digit)
  next
    case False
    then show ?thesis
      using 1 by (subst dec_string.simps) (simp add: dec_value_def of_char_digit)
  qed
qed

lemma dec_string_digits: "\<forall>c \<in> set (dec_string n). is_dec c"
proof (induction n rule: dec_string.induct)
  case (1 n)
  then show ?case
    by (subst dec_string.simps) (auto simp: is_dec_digit)
qed

lemma dec_string_not_Nil [simp]: "dec_string n \<noteq> []"
  by (subst dec_string.simps) simp

lemma dec_string_inject [simp]: "dec_string m = dec_string n \<longleftrightarrow> m = n"
  by (metis dec_value_string)

lemma stoul_dec_string:
  assumes "n < 2 ^ 64"
  shows "stoul (dec_string n) = Some n"
proof -
  obtain c cs where c: "dec_string n = c # cs"
    by (cases "dec_string n") auto
  have "is_dec c"
    using dec_string_digits [of n] c by simp
  then have "\<not> is_space c" "c \<noteq> CHR ''-''" "c \<noteq> CHR ''+''"
    by (auto simp: is_dec_def is_space_def)
  moreover have "takeWhile is_dec (dec_string n) = dec_string n"
    using dec_string_digits by (simp add: takeWhile_eq_all_conv)
  ultimately show ?thesis
    using assms dec_value_string [of n] by (simp add: stoul_def c)
qed

lemma bytes_string_bytes [simp]: "bytes_string (string_bytes s) = s"
proof -
  have "char_of (unat (word_of_nat (of_char c) :: byte)) = c" for c
    by (simp add: unsigned_of_nat take_bit_eq_mod of_char_mod_256)
  then show ?thesis
    by (simp add: bytes_string_def string_bytes_def comp_def)
qed

lemma string_bytes_inject [simp]: "string_bytes s = string_bytes t \<longleftrightarrow> s = t"
  by (metis bytes_string_bytes)

end
