(* ===== verification/Atomizer_Snapshot.thy ===== *)
theory Atomizer_Snapshot
  imports Atomizer_Messages Decimal "HOL-Library.List_Lexorder"
begin

text \<open>
  Snapshots of the replicated state machine of the atomizer (\<open>uhs/atomizer/atomizer/state_machine.cpp\<close>, with
  \<open>serialize\<close> and \<open>deserialize\<close> of \<open>atomizer.cpp\<close> and the format in \<open>format.cpp\<close>): the directory of snapshot files,
  the creation of a snapshot, its transfer to another replica and the restart of a replica. The metadata of a
  snapshot is a type of NuRaft and a parameter, as is the order in which an unordered set is iterated. \<open>None\<close>
  is the end of the process: \<open>exit\<close>, a failed assertion or an exception of \<open>stoull\<close>.
\<close>

section \<open>Parameters\<close>

record 'snp nuraft_snapshot =
  snp_last_log_idx :: "'snp \<Rightarrow> u64"
  snp_serialize :: "'snp \<Rightarrow> byte list"
  snp_deserialize :: "byte list \<Rightarrow> 'snp option"
  snp_set_size :: "nat \<Rightarrow> 'snp \<Rightarrow> 'snp"

record set_order =
  hash_order :: "hash_t set \<Rightarrow> hash_t list"
  index_order :: "u32 set \<Rightarrow> u32 list"

section \<open>Format\<close>

text \<open>The sizes of \<open>std::unordered_set\<close> and \<open>std::unordered_map\<close>, which bound the reservation.\<close>

definition sizeof_unordered :: nat where "sizeof_unordered = 56"

definition put_tx_map :: "set_order \<Rightarrow> (compact_tx \<times> u32 set) list putter" where
  "put_tx_map It m = put_map put_compact_tx (\<lambda>s. put_set put_u32 (index_order It s)) m"

definition emplace_tx :: "compact_tx \<Rightarrow> 'v \<Rightarrow> (compact_tx \<times> 'v) list \<Rightarrow> (compact_tx \<times> 'v) list" where
  "emplace_tx tx v m = (if find_tx tx m = None then m @ [(tx, v)] else m)"

definition get_index_set :: "u32 set getter" where
  "get_index_set bs = do { (xs, r) \<leftarrow> get_unordered_set get_u32 bs; Some (set xs, r) }"

definition get_hash_set :: "hash_t set getter" where
  "get_hash_set bs = do { (xs, r) \<leftarrow> get_unordered_set (get_array hash_size) bs; Some (set xs, r) }"

text \<open>The map compares transactions by their identifier.\<close>

partial_function (option) get_tx_map_loop ::
  "nat \<Rightarrow> (compact_tx \<times> u32 set) list \<Rightarrow> (compact_tx \<times> u32 set) list getter" where
  "get_tx_map_loop len m bs =
    (if length m < len
     then case get_pair get_compact_tx get_index_set bs of
        None \<Rightarrow> None
      | Some ((k, v), r) \<Rightarrow> get_tx_map_loop len (emplace_tx k v m) r
     else Some (m, bs))"

definition get_tx_map :: "(compact_tx \<times> u32 set) list getter" where
  "get_tx_map bs = do { (len, r) \<leftarrow> get_u64 bs; get_tx_map_loop (unat len) [] r }"

definition put_atomizer :: "set_order \<Rightarrow> atomizer putter" where
  "put_atomizer It a =
    put_u64 (a_spent_cache_depth a) @ put_u64 (a_best_height a) @ put_vector put_compact_tx (a_complete_txs a) @
    put_vector (\<lambda>s. put_set put_array (hash_order It s)) (a_spent a) @ put_vector (put_tx_map It) (a_txs a)"

definition get_atomizer :: "atomizer getter" where
  "get_atomizer bs = do {
     (depth, r) \<leftarrow> get_u64 bs;
     (height, r) \<leftarrow> get_u64 r;
     (txs, r) \<leftarrow> get_vector sizeof_compact_tx get_compact_tx r;
     (spent, r) \<leftarrow> get_vector sizeof_unordered get_hash_set r;
     (maps, r) \<leftarrow> get_vector sizeof_unordered get_tx_map r;
     Some (\<lparr>a_txs = maps, a_complete_txs = txs, a_spent = spent, a_best_height = height, a_spent_cache_depth = depth\<rparr>, r) }"

record 'snp snapshot =
  sp_atomizer :: atomizer
  sp_snp :: 'snp
  sp_blocks :: "(u64 \<times> block) list"

definition put_snapshot :: "'snp nuraft_snapshot \<Rightarrow> set_order \<Rightarrow> 'snp snapshot putter" where
  "put_snapshot N It snp =
    put_buffer (snp_serialize N (sp_snp snp)) @ put_atomizer It (sp_atomizer snp) @ put_map put_u64 put_block (sp_blocks snp)"

definition get_snapshot :: "'snp nuraft_snapshot \<Rightarrow> 'snp snapshot getter" where
  "get_snapshot N bs = do {
     (snp_buf, r) \<leftarrow> get_buffer bs;
     snp \<leftarrow> snp_deserialize N snp_buf;
     (a, r) \<leftarrow> get_atomizer r;
     (blocks, r) \<leftarrow> get_map get_u64 get_block_fmt r;
     Some (\<lparr>sp_atomizer = a, sp_snp = snp, sp_blocks = blocks\<rparr>, r) }"

section \<open>The directory\<close>

type_synonym dir = "(string \<times> byte list) list"

definition dir_remove :: "string \<Rightarrow> dir \<Rightarrow> dir" where
  "dir_remove name d = filter (\<lambda>e. fst e \<noteq> name) d"

definition dir_write :: "string \<Rightarrow> byte list \<Rightarrow> dir \<Rightarrow> dir" where
  "dir_write name contents d = (name, contents) # dir_remove name d"

definition dir_rename :: "string \<Rightarrow> string \<Rightarrow> dir \<Rightarrow> dir" where
  "dir_rename old new d = (case map_of d old of None \<Rightarrow> d | Some contents \<Rightarrow> dir_write new contents (dir_remove old d))"

definition tmp_file :: string where "tmp_file = ''tmp''"

definition get_snapshot_path :: "u64 \<Rightarrow> string" where
  "get_snapshot_path idx = dec_string (unat idx)"

section \<open>Operations\<close>

record snapshot_sm =
  ss_sm :: atomizer_sm
  ss_dir :: dir

fun max_index :: "string list \<Rightarrow> u64 \<Rightarrow> u64 option" where
  "max_index [] max_idx = Some max_idx"
| "max_index (name # names) max_idx =
    (if name = tmp_file then max_index names max_idx
     else do {
       f_idx \<leftarrow> stoul name;
       max_index names (if word_of_nat f_idx > max_idx then word_of_nat f_idx else max_idx) })"

definition read_file :: "'snp nuraft_snapshot \<Rightarrow> dir \<Rightarrow> u64 \<Rightarrow> bool \<Rightarrow> 'snp snapshot option option" where
  "read_file N d idx open_fail_fatal =
    (case map_of d (get_snapshot_path idx) of
       None \<Rightarrow> if open_fail_fatal then None else Some None
     | Some contents \<Rightarrow> do {
         (snp, _) \<leftarrow> get_snapshot N contents;
         Some (Some (snp\<lparr>sp_snp := snp_set_size N (length contents) (sp_snp snp)\<rparr>)) })"

definition read_snapshot :: "'snp nuraft_snapshot \<Rightarrow> dir \<Rightarrow> u64 \<Rightarrow> 'snp snapshot option option" where
  "read_snapshot N d idx =
    (if idx = 0
     then do {
       max_idx \<leftarrow> max_index (map fst d) 0;
       if max_idx = 0 then Some None else read_file N d max_idx True }
     else read_file N d idx False)"

definition apply_snapshot :: "'snp nuraft_snapshot \<Rightarrow> 'snp \<Rightarrow> snapshot_sm \<Rightarrow> (bool \<times> snapshot_sm) option" where
  "apply_snapshot N s st = do {
     snp \<leftarrow> read_snapshot N (ss_dir st) (snp_last_log_idx N s);
     case snp of
       None \<Rightarrow> Some (False, st)
     | Some p \<Rightarrow> Some (True, st\<lparr>ss_sm := (ss_sm st)\<lparr>asm_blocks := sp_blocks p, asm_atomizer := sp_atomizer p,
                                                    asm_last_committed_idx := snp_last_log_idx N s\<rparr>\<rparr>) }"

definition last_snapshot :: "'snp nuraft_snapshot \<Rightarrow> snapshot_sm \<Rightarrow> 'snp option option" where
  "last_snapshot N st = do { snp \<leftarrow> read_snapshot N (ss_dir st) 0; Some (map_option sp_snp snp) }"

definition state_machine_start :: "'snp nuraft_snapshot \<Rightarrow> u64 \<Rightarrow> dir \<Rightarrow> snapshot_sm option" where
  "state_machine_start N stxo_cache_depth d = do {
     let st = \<lparr>ss_sm = atomizer_sm_init stxo_cache_depth, ss_dir = d\<rparr>;
     snp \<leftarrow> last_snapshot N st;
     case snp of
       None \<Rightarrow> Some st
     | Some s \<Rightarrow> do { (ok, st') \<leftarrow> apply_snapshot N s st; if ok then Some st' else None } }"

text \<open>Removal of the temporary file and of older snapshots, for the given names of the directory.\<close>

fun remove_old :: "u64 \<Rightarrow> string list \<Rightarrow> dir \<Rightarrow> dir option" where
  "remove_old idx [] d = Some d"
| "remove_old idx (name # names) d =
    (if name = tmp_file then remove_old idx names (dir_remove name d)
     else do {
       f_idx \<leftarrow> stoul name;
       remove_old idx names (if word_of_nat f_idx < idx then dir_remove name d else d) })"

definition snapshot_bytes :: "'snp nuraft_snapshot \<Rightarrow> set_order \<Rightarrow> 'snp \<Rightarrow> atomizer_sm \<Rightarrow> byte list" where
  "snapshot_bytes N It snp sm = put_snapshot N It \<lparr>sp_atomizer = asm_atomizer sm, sp_snp = snp, sp_blocks = asm_blocks sm\<rparr>"

definition create_snapshot ::
  "'snp nuraft_snapshot \<Rightarrow> set_order \<Rightarrow> 'snp \<Rightarrow> snapshot_sm \<Rightarrow> snapshot_sm option" where
  "create_snapshot N It s st =
    (if snp_last_log_idx N s \<noteq> asm_last_committed_idx (ss_sm st) then None
     else do {
       snp \<leftarrow> snp_deserialize N (snp_serialize N s);
       let idx = snp_last_log_idx N s;
       let d = dir_rename tmp_file (get_snapshot_path idx) (dir_write tmp_file (snapshot_bytes N It snp (ss_sm st)) (ss_dir st));
       d' \<leftarrow> remove_old idx (map fst d) d;
       Some (st\<lparr>ss_dir := d'\<rparr>) })"

definition read_logical_snp_obj :: "'snp nuraft_snapshot \<Rightarrow> 'snp \<Rightarrow> snapshot_sm \<Rightarrow> byte list option" where
  "read_logical_snp_obj N s st = map_of (ss_dir st) (get_snapshot_path (snp_last_log_idx N s))"

definition save_logical_snp_obj ::
  "'snp nuraft_snapshot \<Rightarrow> 'snp \<Rightarrow> u64 \<Rightarrow> byte list \<Rightarrow> snapshot_sm \<Rightarrow> (u64 \<times> snapshot_sm) option" where
  "save_logical_snp_obj N s obj_id data st =
    (if obj_id \<noteq> 0 then None
     else Some (obj_id + 1, st\<lparr>ss_dir := dir_rename tmp_file (get_snapshot_path (snp_last_log_idx N s)) (dir_write tmp_file data (ss_dir st))\<rparr>))"

section \<open>Reading back\<close>

lemma codec_image:
  assumes "codec p g w" "\<And>x. put x = p (f x)" "\<And>bs. get bs = map_option (\<lambda>(y, r). (c y, r)) (g bs)"
    and "\<And>x. ok x \<Longrightarrow> c (f x) = x \<and> w (f x)"
  shows "codec put get ok"
proof (standard, goal_cases)
  case (1 x r)
  then show ?case
    using assms(4) by (simp add: assms(2,3) codec.get_put [OF assms(1)])
next
  case (2 bs x r e)
  then obtain y where "g bs = Some (y, r)" "x = c y"
    by (auto simp: assms(3))
  then show ?case
    using codec.get_append [OF assms(1), of bs y r e] by (simp add: assms(3))
qed

text \<open>Every order of iteration lists the elements of a finite set once.\<close>

definition order_ok :: "set_order \<Rightarrow> bool" where
  "order_ok It \<longleftrightarrow> (\<forall>s. finite s \<longrightarrow> set (hash_order It s) = s \<and> distinct (hash_order It s)) \<and>
     (\<forall>s. set (index_order It s) = s \<and> distinct (index_order It s))"

definition wf_hash_set :: "hash_t set \<Rightarrow> bool" where
  "wf_hash_set s \<longleftrightarrow> finite s \<and> card s < 2 ^ 64 \<and> (\<forall>h \<in> s. is_hash h)"

lemma hash_set_codec:
  assumes "order_ok It"
  shows "codec (\<lambda>s. put_set put_array (hash_order It s)) get_hash_set wf_hash_set"
proof (rule codec_image [OF codec_unordered_set [OF hash.codec_axioms], where f = "hash_order It" and c = set])
  fix s
  assume "wf_hash_set s"
  moreover from this have s: "set (hash_order It s) = s" "distinct (hash_order It s)"
    using assms by (simp_all add: order_ok_def wf_hash_set_def)
  ultimately show "set (hash_order It s) = s \<and> wf_set (is_array hash_size) (hash_order It s)"
    using distinct_card [OF s(2)] by (simp add: wf_set_def wf_hash_set_def)
qed (simp_all add: get_hash_set_def map_conv_bind_option case_prod_unfold comp_def)

lemma index_set_codec32:
  assumes "order_ok It"
  shows "codec (\<lambda>s. put_set put_u32 (index_order It s)) get_index_set (\<lambda>_. True)"
proof (rule codec_image [OF codec_unordered_set [OF u32.codec_axioms], where f = "index_order It" and c = set])
  fix s :: "u32 set"
  have s: "set (index_order It s) = s" "distinct (index_order It s)"
    using assms by (simp_all add: order_ok_def)
  have "length (index_order It s) \<le> card (UNIV :: u32 set)"
    using distinct_card [OF s(2)] by (metis card_mono finite subset_UNIV)
  then have "length (index_order It s) < 2 ^ 64"
    by (simp add: card_word)
  then show "set (index_order It s) = s \<and> wf_set (\<lambda>_. True) (index_order It s)"
    using s by (simp add: wf_set_def)
qed (simp_all add: get_index_set_def map_conv_bind_option case_prod_unfold comp_def)

definition wf_tx_map :: "(compact_tx \<times> u32 set) list \<Rightarrow> bool" where
  "wf_tx_map m \<longleftrightarrow> length m < 2 ^ 64 \<and> distinct (map (m_id \<circ> fst) m) \<and> (\<forall>e \<in> set m. wf_compact_tx (fst e))"

lemma find_tx_None: "find_tx tx m = None \<longleftrightarrow> m_id tx \<notin> set (map (m_id \<circ> fst) m)"
  by (induction m) (auto simp: compact_tx_eq_def)

lemma get_tx_map_loop_put:
  assumes It: "order_ok It" and "\<forall>e \<in> set m. wf_compact_tx (fst e)"
    and "distinct (map (m_id \<circ> fst) (acc @ m))" "len = length (acc @ m)"
  shows "get_tx_map_loop len acc (concat (map (put_pair put_compact_tx (\<lambda>s. put_set put_u32 (index_order It s))) m) @ r) = Some (acc @ m, r)"
  using assms(2-4)
proof (induction m arbitrary: acc)
  case Nil
  then show ?case
    by (subst get_tx_map_loop.simps) simp
next
  case (Cons kv m)
  let ?p = "put_pair put_compact_tx (\<lambda>s. put_set put_u32 (index_order It s))"
  obtain k y where kv: "kv = (k, y)" by (cases kv)
  have "get_pair get_compact_tx get_index_set (?p kv @ concat (map ?p m) @ r) = Some (kv, concat (map ?p m) @ r)"
    using Cons.prems(1) kv by (intro codec.get_put [OF codec_pair [OF compact_tx_fmt.codec_axioms index_set_codec32 [OF It]]]) auto
  moreover have "emplace_tx k y acc = acc @ [kv]"
    using Cons.prems(2) kv by (auto simp: emplace_tx_def find_tx_None)
  moreover have "get_tx_map_loop len (acc @ [kv]) (concat (map ?p m) @ r) = Some ((acc @ [kv]) @ m, r)"
    using Cons.prems by (intro Cons.IH) auto
  ultimately show ?case
    using Cons.prems(3) kv by (subst get_tx_map_loop.simps) simp
qed

lemma get_tx_map_loop_append:
  assumes It: "order_ok It" and "get_tx_map_loop len m bs = Some y"
  shows "get_tx_map_loop len m (bs @ e) = Some (fst y, snd y @ e)"
proof (rule get_tx_map_loop.raw_induct [where P = "\<lambda>len m bs y. get_tx_map_loop len m (bs @ e) = Some (fst y, snd y @ e)",
      rule_format, OF _ assms(2)], goal_cases)
  case (1 loop len m bs y)
  show ?case
  proof (cases "length m < len")
    case False
    then show ?thesis
      using 1(2) by (subst get_tx_map_loop.simps) auto
  next
    case True
    then obtain k x r where kx: "get_pair get_compact_tx get_index_set bs = Some ((k, x), r)"
      and y: "loop len (emplace_tx k x m) r = Some y"
      using 1(2) by (auto split: option.splits)
    have "get_pair get_compact_tx get_index_set (bs @ e) = Some ((k, x), r @ e)"
      using codec.get_append [OF codec_pair [OF compact_tx_fmt.codec_axioms index_set_codec32 [OF It]] kx] .
    then show ?thesis
      using True 1(1) [OF y] by (subst get_tx_map_loop.simps) simp
  qed
qed

lemma tx_map_codec:
  assumes "order_ok It"
  shows "codec (put_tx_map It) get_tx_map wf_tx_map"
proof (standard, goal_cases)
  case (1 x r)
  then show ?case
    by (simp add: put_tx_map_def put_map_def get_tx_map_def wf_tx_map_def u64.get_put unat_length_u64
        get_tx_map_loop_put [OF assms, where acc = "[]", simplified])
next
  case (2 bs x r e)
  then obtain len r1 where *: "get_u64 bs = Some (len, r1)" "get_tx_map_loop (unat len) [] r1 = Some (x, r)"
    by (auto simp: get_tx_map_def bind_Some_pair)
  then show ?case
    using u64.get_append [OF *(1), of e] get_tx_map_loop_append [OF assms *(2), of e]
    by (simp add: get_tx_map_def)
qed

section \<open>Snapshots are read back\<close>

text \<open>What is relied on of the metadata of a snapshot.\<close>

definition snp_ok :: "'snp nuraft_snapshot \<Rightarrow> bool" where
  "snp_ok N \<longleftrightarrow> (\<forall>s. snp_deserialize N (snp_serialize N s) = Some s \<and> length (snp_serialize N s) < 2 ^ 64) \<and>
     (\<forall>s n. snp_last_log_idx N (snp_set_size N n s) = snp_last_log_idx N s)"

text \<open>The bounds that the containers of the code have, and one entry per transaction in every map.\<close>

definition atomizer_sized :: "atomizer \<Rightarrow> bool" where
  "atomizer_sized a \<longleftrightarrow> wf_vector wf_compact_tx (a_complete_txs a) \<and> wf_vector wf_hash_set (a_spent a) \<and> wf_vector wf_tx_map (a_txs a)"

definition snapshot_sized :: "atomizer_sm \<Rightarrow> bool" where
  "snapshot_sized sm \<longleftrightarrow> atomizer_sized (asm_atomizer sm) \<and> wf_map (\<lambda>_. True) wf_block (asm_blocks sm)"

lemma atomizer_codec:
  assumes "order_ok It"
  shows "codec (put_atomizer It) get_atomizer atomizer_sized"
proof (rule codec_record [OF codec_pair [OF u64.codec_axioms codec_pair [OF u64.codec_axioms codec_pair [OF block_txs_codec
        codec_pair [OF codec_vector [OF hash_set_codec [OF assms], of sizeof_unordered] codec_vector [OF tx_map_codec [OF assms], of sizeof_unordered]]]]],
      where f = "\<lambda>a. (a_spent_cache_depth a, a_best_height a, a_complete_txs a, a_spent a, a_txs a)"
        and c = "\<lambda>(d, h, t, s, m). \<lparr>a_txs = m, a_complete_txs = t, a_spent = s, a_best_height = h, a_spent_cache_depth = d\<rparr>"])
qed (auto simp: put_atomizer_def get_atomizer_def atomizer_sized_def record_format notification_sizes sizeof_unordered_def)

lemma get_snapshot_bytes:
  assumes "snp_ok N" "order_ok It" "snapshot_sized sm"
  shows "get_snapshot N (snapshot_bytes N It s sm) = Some (\<lparr>sp_atomizer = asm_atomizer sm, sp_snp = s, sp_blocks = asm_blocks sm\<rparr>, [])"
proof -
  have b: "codec (put_map put_u64 put_block) (get_map get_u64 get_block_fmt) (wf_map (\<lambda>_. True) wf_block)"
    by (rule codec_map [OF u64.codec_axioms block_fmt.codec_axioms])
  show ?thesis
    using assms(1,3) by (simp add: get_snapshot_def snapshot_bytes_def put_snapshot_def snp_ok_def snapshot_sized_def buffer.get_put
        codec.get_put [OF atomizer_codec [OF assms(2)]] codec.get_put_nil [OF b])
qed

section \<open>The files of a replica\<close>

text \<open>The files of a directory: snapshots up to an index, and maybe a temporary file.\<close>

definition dir_ok :: "dir \<Rightarrow> u64 \<Rightarrow> bool" where
  "dir_ok d n \<longleftrightarrow> (\<forall>name \<in> fst ` set d. name = tmp_file \<or> (\<exists>k. 0 < k \<and> k \<le> unat n \<and> name = dec_string k))"

lemma snapshot_path_not_tmp [simp]: "get_snapshot_path idx \<noteq> tmp_file" "tmp_file \<noteq> get_snapshot_path idx"
proof -
  have "\<not> is_dec (CHR ''t'')"
    by (simp add: is_dec_def)
  then show "get_snapshot_path idx \<noteq> tmp_file"
    using dec_string_digits [of "unat idx"] by (auto simp: get_snapshot_path_def tmp_file_def)
  then show "tmp_file \<noteq> get_snapshot_path idx"
    by simp
qed

lemma dec_string_not_tmp [simp]: "dec_string k \<noteq> tmp_file"
proof -
  have "\<not> is_dec (CHR ''t'')"
    by (simp add: is_dec_def)
  then show ?thesis
    using dec_string_digits [of k] by (auto simp: tmp_file_def)
qed

lemma stoul_index: "k \<le> unat (n :: u64) \<Longrightarrow> stoul (dec_string k) = Some k"
  using unat_lt2p [of n] by (simp add: stoul_dec_string)

lemma index_le: "k \<le> unat (n :: u64) \<Longrightarrow> word_of_nat k \<le> n \<and> unat (word_of_nat k :: u64) = k"
  using unat_lt2p [of n] by (simp add: word_le_nat_alt unat_of_nat)

lemma max_index_top:
  assumes "\<forall>name \<in> set names. name = tmp_file \<or> (\<exists>k. 0 < k \<and> k \<le> unat n \<and> name = dec_string k)"
    and "m \<le> n" "m = n \<or> get_snapshot_path n \<in> set names"
  shows "max_index names m = Some n"
  using assms
proof (induction names arbitrary: m)
  case (Cons name names)
  show ?case
  proof (cases "name = tmp_file")
    case True
    then show ?thesis
      using Cons by auto
  next
    case False
    then obtain k where k: "k \<le> unat n" "name = dec_string k"
      using Cons.prems(1) by auto
    then have s: "stoul name = Some k" "word_of_nat k \<le> n" "unat (word_of_nat k :: u64) = k"
      using stoul_index index_le by auto
    have "name = get_snapshot_path n \<Longrightarrow> word_of_nat k = n"
      using k by (simp add: get_snapshot_path_def)
    then show ?thesis
      using False s Cons.prems Cons.IH [of "if word_of_nat k > m then word_of_nat k else m"] by (auto split: if_splits)
  qed
qed simp

lemma max_index_tmp: "max_index (filter (\<lambda>name. name \<noteq> tmp_file) names) m = max_index names m"
  by (induction names arbitrary: m) (auto split: bind_splits)

lemma map_of_dir_write: "map_of (dir_write name b d) x = (if x = name then Some b else map_of d x)"
proof -
  have "map_of (filter (\<lambda>e. fst e \<noteq> name) d) x = (if x = name then None else map_of d x)"
    by (induction d) auto
  then show ?thesis
    by (simp add: dir_write_def dir_remove_def)
qed

lemma map_of_dir_remove: "map_of (dir_remove name d) x = (if x = name then None else map_of d x)"
  unfolding dir_remove_def by (induction d) auto

lemma dir_rename_write: "dir_rename tmp_file new (dir_write tmp_file b d) = dir_write new b (dir_remove tmp_file (dir_write tmp_file b d))"
  by (simp add: dir_rename_def map_of_dir_write)

lemma remove_old_Some:
  assumes "\<forall>name \<in> set names. name = tmp_file \<or> (\<exists>k. 0 < k \<and> k \<le> unat n \<and> name = dec_string k)"
  shows "\<exists>d'. remove_old n names d = Some d'"
  using assms
proof (induction names arbitrary: d)
  case (Cons name names)
  show ?case
  proof (cases "name = tmp_file")
    case False
    then obtain k where "k \<le> unat n" "name = dec_string k"
      using Cons.prems by auto
    then show ?thesis
      using Cons stoul_index [of k n] by simp
  qed (use Cons in simp)
qed simp

text \<open>Whatever has been removed, the snapshot with the given index stays, and nothing is added.\<close>

lemma remove_old_keeps:
  assumes "remove_old n names d = Some d'"
  shows "map_of d' (get_snapshot_path n) = map_of d (get_snapshot_path n) \<and> set d' \<subseteq> set d"
  using assms
proof (induction names arbitrary: d)
  case (Cons name names)
  show ?case
  proof (cases "name = tmp_file")
    case True
    then show ?thesis
      using Cons.IH [of "dir_remove name d"] Cons.prems by (auto simp: map_of_dir_remove) (auto simp: dir_remove_def)
  next
    case False
    then obtain k where k: "stoul name = Some k"
        "remove_old n names (if word_of_nat k < n then dir_remove name d else d) = Some d'"
      using Cons.prems by (auto split: bind_splits)
    have "name \<noteq> get_snapshot_path n" if "word_of_nat k < n"
    proof
      assume "name = get_snapshot_path n"
      then have "k = unat n"
        using k(1) stoul_index [of "unat n" n] by (simp add: get_snapshot_path_def)
      then show False
        using that by simp
    qed
    moreover have "set (dir_remove name d) \<subseteq> set d"
      by (auto simp: dir_remove_def)
    ultimately show ?thesis
      using Cons.IH [OF k(2)] by (auto simp: map_of_dir_remove split: if_splits)
  qed
qed simp

lemma dir_ok_mono: "dir_ok d n \<Longrightarrow> set d' \<subseteq> set d \<Longrightarrow> dir_ok d' n"
  unfolding dir_ok_def by blast

text \<open>A replica that starts on a directory with the snapshot of a state at its latest index.\<close>

lemma state_machine_start_at:
  assumes "snp_ok N" "order_ok It" "snapshot_sized sm" "snp_last_log_idx N s = asm_last_committed_idx sm"
    and "asm_last_committed_idx sm \<noteq> 0" "dir_ok d (asm_last_committed_idx sm)"
    and "map_of d (get_snapshot_path (asm_last_committed_idx sm)) = Some (snapshot_bytes N It s sm)"
  shows "state_machine_start N depth d = Some \<lparr>ss_sm = sm\<lparr>asm_tx_notify_count := 0\<rparr>, ss_dir = d\<rparr>"
proof -
  let ?n = "asm_last_committed_idx sm"
  let ?p = "\<lparr>sp_atomizer = asm_atomizer sm, sp_snp = snp_set_size N (length (snapshot_bytes N It s sm)) s, sp_blocks = asm_blocks sm\<rparr>"
  have "get_snapshot_path ?n \<in> set (map fst d)"
    using map_of_SomeD [OF assms(7)] by force
  then have m: "max_index (map fst d) 0 = Some ?n"
    using assms(6) by (intro max_index_top) (auto simp: dir_ok_def)
  have f: "read_file N d ?n b = Some (Some ?p)" for b
    by (simp add: read_file_def assms(7) get_snapshot_bytes [OF assms(1-3)])
  have "snp_last_log_idx N (sp_snp ?p) = ?n"
    using assms(1,4) by (simp add: snp_ok_def)
  then show ?thesis
    using assms(5) by (simp add: state_machine_start_def last_snapshot_def apply_snapshot_def read_snapshot_def m f atomizer_sm_init_def)
qed

lemma renamed_dir:
  fixes b :: "byte list"
  assumes "dir_ok d n" "n \<noteq> 0"
  defines "d1 \<equiv> dir_rename tmp_file (get_snapshot_path n) (dir_write tmp_file b d)"
  shows "dir_ok d1 n" "map_of d1 (get_snapshot_path n) = Some b"
proof -
  have n: "fst ` set d1 \<subseteq> insert (get_snapshot_path n) (fst ` set d)"
    unfolding d1_def dir_rename_write by (auto simp: dir_write_def dir_remove_def)
  have k: "\<exists>k. 0 < k \<and> k \<le> unat n \<and> get_snapshot_path n = dec_string k"
    using assms(2) by (intro exI [of _ "unat n"]) (simp add: get_snapshot_path_def unat_gt_0)
  show "dir_ok d1 n"
    unfolding dir_ok_def
  proof
    fix name
    assume "name \<in> fst ` set d1"
    with n have "name = get_snapshot_path n \<or> name \<in> fst ` set d"
      by blast
    then show "name = tmp_file \<or> (\<exists>k. 0 < k \<and> k \<le> unat n \<and> name = dec_string k)"
    proof
      assume "name \<in> fst ` set d"
      with assms(1) show ?thesis
        unfolding dir_ok_def by (rule bspec)
    qed (simp only: k simp_thms)
  qed
  show "map_of d1 (get_snapshot_path n) = Some b"
    by (simp add: d1_def dir_rename_write map_of_dir_write)
qed

section \<open>Restarts\<close>

text \<open>The number of notifications is only reported: two states that differ in it answer every log in the same way.\<close>

definition uncounted :: "atomizer_sm \<Rightarrow> atomizer_sm" where
  "uncounted sm = sm\<lparr>asm_tx_notify_count := 0\<rparr>"

lemma atomizer_process_uncounted:
  "map_option (apsnd uncounted) (atomizer_process (sm\<lparr>asm_tx_notify_count := k\<rparr>) req) =
    map_option (apsnd uncounted) (atomizer_process sm req)"
  by (cases req; simp add: atomizer_process_def uncounted_def case_prod_unfold Let_def)
     (auto simp: uncounted_def split: bind_splits)

lemma uncounted_eq: "uncounted a = uncounted b \<Longrightarrow> a = b\<lparr>asm_tx_notify_count := asm_tx_notify_count a\<rparr>"
  by (cases a; cases b) (simp add: uncounted_def)

lemma atomizer_commit_uncounted:
  assumes "uncounted a = uncounted b"
  shows "map_option (apsnd uncounted) (atomizer_commit a i data) = map_option (apsnd uncounted) (atomizer_commit b i data)"
proof -
  let ?k = "asm_tx_notify_count a"
  have a: "a = b\<lparr>asm_tx_notify_count := ?k\<rparr>"
    by (rule uncounted_eq [OF assms])
  have "a\<lparr>asm_last_committed_idx := j\<rparr> = (b\<lparr>asm_last_committed_idx := j\<rparr>)\<lparr>asm_tx_notify_count := ?k\<rparr>" for j
    by (subst a) simp
  then have p: "map_option (apsnd uncounted) (atomizer_process (a\<lparr>asm_last_committed_idx := j\<rparr>) req) =
      map_option (apsnd uncounted) (atomizer_process (b\<lparr>asm_last_committed_idx := j\<rparr>) req)" for j req
    by (simp only: atomizer_process_uncounted)
  have "map_option (apsnd uncounted) (do { (resp, sm') \<leftarrow> x; Some (map_option put_sm_response resp, sm') }) =
      map_option (apfst (map_option put_sm_response)) (map_option (apsnd uncounted) x)" for x
    by (cases x) auto
  moreover have "asm_last_committed_idx a = asm_last_committed_idx b"
    by (subst a) simp
  ultimately show ?thesis
    by (auto simp: atomizer_commit_def p split: bind_splits)
qed

definition same_machine :: "atomizer_sm \<Rightarrow> atomizer_sm \<Rightarrow> bool" where
  "same_machine a b \<longleftrightarrow> asm_atomizer a = asm_atomizer b \<and> asm_blocks a = asm_blocks b \<and> asm_last_committed_idx a = asm_last_committed_idx b \<and>
     (\<forall>i log. map_option fst (raft_run atomizer_commit atomizer_commit_config a i log) =
        map_option fst (raft_run atomizer_commit atomizer_commit_config b i log))"

lemma raft_run_uncounted:
  assumes "uncounted a = uncounted b"
  shows "map_option fst (raft_run atomizer_commit atomizer_commit_config a i log) =
    map_option fst (raft_run atomizer_commit atomizer_commit_config b i log)"
  using assms
proof (induction log arbitrary: a b i)
  case (Cons e log)
  let ?run = "\<lambda>st. raft_apply atomizer_commit atomizer_commit_config st i e"
  have "map_option (apsnd uncounted) (?run a) = map_option (apsnd uncounted) (?run b)"
  proof (cases e)
    case (Command c)
    have "map_option (apsnd uncounted) (map_option (\<lambda>(r, st'). ([r], st')) x) =
        map_option (apfst (\<lambda>r. [r])) (map_option (apsnd uncounted) x)" for x :: "(byte list option \<times> atomizer_sm) option"
      by (cases x) auto
    then show ?thesis
      using atomizer_commit_uncounted [OF Cons.prems, of i c] by (simp add: raft_apply_def Command)
  next
    case Config_change
    then show ?thesis
      by (subst (1) uncounted_eq [OF Cons.prems]) (simp add: raft_apply_def atomizer_commit_config_def uncounted_def)
  qed
  then consider "?run a = None" "?run b = None"
    | rs a' b' where "?run a = Some (rs, a')" "?run b = Some (rs, b')" "uncounted a' = uncounted b'"
    by (cases "?run a"; cases "?run b") auto
  then show ?case
  proof cases
    case 2
    have "map_option fst (map_option (\<lambda>(rs', st'). (rs @ rs', st')) x) = map_option (append rs) (map_option fst x)"
      for x :: "(byte list option list \<times> atomizer_sm) option"
      by (cases x) auto
    then show ?thesis
      using Cons.IH [OF 2(3), of "i + 1"] by (simp add: 2(1,2))
  qed simp
qed simp

lemma same_machine_count: "same_machine (sm\<lparr>asm_tx_notify_count := k\<rparr>) sm"
  unfolding same_machine_def by (intro conjI allI raft_run_uncounted) (simp_all add: uncounted_def)

lemma create_snapshot_dir:
  assumes "snp_ok N" "dir_ok d (asm_last_committed_idx sm)" "asm_last_committed_idx sm \<noteq> 0"
    and "snp_last_log_idx N s = asm_last_committed_idx sm"
  obtains d' where "create_snapshot N It s \<lparr>ss_sm = sm, ss_dir = d\<rparr> = Some \<lparr>ss_sm = sm, ss_dir = d'\<rparr>"
    "dir_ok d' (asm_last_committed_idx sm)"
    "map_of d' (get_snapshot_path (asm_last_committed_idx sm)) = Some (snapshot_bytes N It s sm)"
proof -
  let ?n = "asm_last_committed_idx sm"
  let ?d1 = "dir_rename tmp_file (get_snapshot_path ?n) (dir_write tmp_file (snapshot_bytes N It s sm) d)"
  note d1 = renamed_dir [OF assms(2,3), of "snapshot_bytes N It s sm"]
  obtain d' where r: "remove_old ?n (map fst ?d1) ?d1 = Some d'"
    using remove_old_Some [of "map fst ?d1" ?n ?d1] d1(1) by (auto simp: dir_ok_def)
  show thesis
  proof (rule that)
    show "create_snapshot N It s \<lparr>ss_sm = sm, ss_dir = d\<rparr> = Some \<lparr>ss_sm = sm, ss_dir = d'\<rparr>"
      using assms(1,4) r by (simp add: create_snapshot_def snp_ok_def Let_def)
    show "dir_ok d' ?n" "map_of d' (get_snapshot_path ?n) = Some (snapshot_bytes N It s sm)"
      using remove_old_keeps [OF r] d1 dir_ok_mono by auto
  qed
qed

text \<open>C8: A snapshot stands for the log before it. After \<open>create_snapshot\<close>, a replica that is started again on its
  directory, and any other replica that receives the snapshot with \<open>read_logical_snp_obj\<close>, \<open>save_logical_snp_obj\<close> and
  \<open>apply_snapshot\<close>, whatever its state and files, has the state of the atomizer, the blocks and the index at which the snapshot was made, and answers
  every further log exactly as the replica that made it.\<close>

theorem snapshot_restart:
  assumes "snp_ok N" "order_ok It" "snapshot_sized sm" "dir_ok d (asm_last_committed_idx sm)" "asm_last_committed_idx sm \<noteq> 0"
    and "snp_last_log_idx N s = asm_last_committed_idx sm"
  shows "\<exists>st. create_snapshot N It s \<lparr>ss_sm = sm, ss_dir = d\<rparr> = Some st \<and> ss_sm st = sm \<and> dir_ok (ss_dir st) (asm_last_committed_idx sm) \<and>
    (\<exists>r. state_machine_start N depth (ss_dir st) = Some r \<and> same_machine (ss_sm r) sm) \<and>
    (\<exists>data. read_logical_snp_obj N s st = Some data \<and>
      (\<forall>f. \<exists>f1 f2. save_logical_snp_obj N s 0 data f = Some (1, f1) \<and> apply_snapshot N s f1 = Some (True, f2) \<and> same_machine (ss_sm f2) sm))"
proof -
  let ?n = "asm_last_committed_idx sm"
  let ?b = "snapshot_bytes N It s sm"
  obtain d' where d': "create_snapshot N It s \<lparr>ss_sm = sm, ss_dir = d\<rparr> = Some \<lparr>ss_sm = sm, ss_dir = d'\<rparr>" "dir_ok d' ?n"
    "map_of d' (get_snapshot_path ?n) = Some ?b"
    by (rule create_snapshot_dir [OF assms(1,4-6)])
  have "\<exists>f1 f2. save_logical_snp_obj N s 0 ?b f = Some (1, f1) \<and> apply_snapshot N s f1 = Some (True, f2) \<and> same_machine (ss_sm f2) sm" for f
  proof -
    let ?f1 = "f\<lparr>ss_dir := dir_rename tmp_file (get_snapshot_path ?n) (dir_write tmp_file ?b (ss_dir f))\<rparr>"
    have "save_logical_snp_obj N s 0 ?b f = Some (1, ?f1)"
      by (simp add: save_logical_snp_obj_def assms(6))
    moreover have "apply_snapshot N s ?f1 = Some (True, ?f1\<lparr>ss_sm := sm\<lparr>asm_tx_notify_count := asm_tx_notify_count (ss_sm f)\<rparr>\<rparr>)"
      using assms(5) by (simp add: apply_snapshot_def read_snapshot_def read_file_def assms(6) dir_rename_write map_of_dir_write
          get_snapshot_bytes [OF assms(1-3)])
    ultimately show ?thesis
      using same_machine_count by fastforce
  qed
  moreover have "read_logical_snp_obj N s \<lparr>ss_sm = sm, ss_dir = d'\<rparr> = Some ?b"
    by (simp add: read_logical_snp_obj_def assms(6) d'(3))
  ultimately show ?thesis
    using d' state_machine_start_at [OF assms(1-3,6,5) d'(2,3), of depth] same_machine_count by auto
qed

text \<open>A concrete instance: the metadata is the index, and sets are iterated in ascending order.\<close>

definition index_snapshot :: "u64 nuraft_snapshot" where
  "index_snapshot = \<lparr>snp_last_log_idx = (\<lambda>s. s), snp_serialize = put_u64, snp_deserialize = from_buffer get_u64, snp_set_size = (\<lambda>n s. s)\<rparr>"

definition ascending :: set_order where
  "ascending = \<lparr>hash_order = sorted_list_of_set, index_order = sorted_list_of_set\<rparr>"

lemma index_snapshot_ok: "snp_ok index_snapshot"
  by (simp add: snp_ok_def index_snapshot_def from_buffer_def u64.get_put_nil)

lemma ascending_ok: "order_ok ascending"
  by (simp add: order_ok_def ascending_def)

definition sample_machine :: atomizer_sm where
  "sample_machine = (atomizer_sm_init 1)\<lparr>asm_blocks := [(1, \<lparr>b_height = 1, b_transactions = []\<rparr>)], asm_last_committed_idx := 3\<rparr>"

definition sample_dir :: dir where
  "sample_dir = [(tmp_file, [1, 2]), (dec_string 2, [3])]"

lemma sample_machine_sized: "snapshot_sized sample_machine"
  by (simp add: snapshot_sized_def sample_machine_def atomizer_sm_init_def atomizer_init_def atomizer_sized_def wf_vector_def
      wf_hash_set_def wf_tx_map_def wf_map_def wf_block_def)

lemma sample_dir_ok: "dir_ok sample_dir (asm_last_committed_idx sample_machine)"
  by (auto simp: dir_ok_def sample_dir_def sample_machine_def intro: exI [of _ 2])

theorem snapshot_restart_witness:
  "\<exists>st. create_snapshot index_snapshot ascending 3 \<lparr>ss_sm = sample_machine, ss_dir = sample_dir\<rparr> = Some st \<and>
    (\<exists>r. state_machine_start index_snapshot 1 (ss_dir st) = Some r \<and> same_machine (ss_sm r) sample_machine)"
proof -
  have "asm_last_committed_idx sample_machine \<noteq> 0" "snp_last_log_idx index_snapshot 3 = asm_last_committed_idx sample_machine"
    by (simp_all add: sample_machine_def index_snapshot_def)
  from snapshot_restart [OF index_snapshot_ok ascending_ok sample_machine_sized sample_dir_ok this, of 1] show ?thesis
    by blast
qed

text \<open>
  Where the creation of a snapshot can be interrupted: the temporary file has been written in part, or it has
  been renamed and some of the old files have been removed.
\<close>

definition crash_dirs :: "'snp nuraft_snapshot \<Rightarrow> set_order \<Rightarrow> 'snp \<Rightarrow> atomizer_sm \<Rightarrow> dir \<Rightarrow> dir set" where
  "crash_dirs N It s sm d =
    {dir_write tmp_file (take k (snapshot_bytes N It s sm)) d | k. True} \<union>
    {c. \<exists>j. let d1 = dir_rename tmp_file (get_snapshot_path (snp_last_log_idx N s)) (dir_write tmp_file (snapshot_bytes N It s sm) d)
         in remove_old (snp_last_log_idx N s) (take j (map fst d1)) d1 = Some c}"

lemma state_machine_start_tmp: "map_option ss_sm (state_machine_start N depth (dir_write tmp_file b d)) = map_option ss_sm (state_machine_start N depth d)"
proof -
  have "filter (\<lambda>name. name \<noteq> tmp_file) (map fst (dir_write tmp_file b d)) = filter (\<lambda>name. name \<noteq> tmp_file) (map fst d)"
    by (simp add: dir_write_def dir_remove_def filter_map comp_def)
  then have "max_index (map fst (dir_write tmp_file b d)) 0 = max_index (map fst d) 0"
    by (metis max_index_tmp)
  moreover have "read_file N (dir_write tmp_file b d) = read_file N d"
    by (intro ext) (simp add: read_file_def map_of_dir_write)
  ultimately have r: "read_snapshot N (dir_write tmp_file b d) idx = read_snapshot N d idx" for idx
    by (simp only: read_snapshot_def)
  show ?thesis
    by (simp add: state_machine_start_def last_snapshot_def apply_snapshot_def r Let_def) (auto split: bind_splits option.splits)
qed

text \<open>C9: The creation of a snapshot is atomic. If the process ends at any point of \<open>create_snapshot\<close>, a replica that is started on the files that are
  left does what it would have done before, or has the complete new state.\<close>

theorem snapshot_crash_safe:
  assumes "snp_ok N" "order_ok It" "snapshot_sized sm" "dir_ok d (asm_last_committed_idx sm)" "asm_last_committed_idx sm \<noteq> 0"
    and "snp_last_log_idx N s = asm_last_committed_idx sm" "c \<in> crash_dirs N It s sm d"
  shows "map_option ss_sm (state_machine_start N depth c) = map_option ss_sm (state_machine_start N depth d) \<or>
    map_option ss_sm (state_machine_start N depth c) = Some (sm\<lparr>asm_tx_notify_count := 0\<rparr>)"
proof -
  let ?n = "asm_last_committed_idx sm"
  let ?d1 = "dir_rename tmp_file (get_snapshot_path ?n) (dir_write tmp_file (snapshot_bytes N It s sm) d)"
  note d1 = renamed_dir [OF assms(4,5), of "snapshot_bytes N It s sm"]
  consider k where "c = dir_write tmp_file (take k (snapshot_bytes N It s sm)) d"
    | j where "remove_old ?n (take j (map fst ?d1)) ?d1 = Some c"
    using assms(6,7) by (auto simp: crash_dirs_def Let_def)
  then show ?thesis
  proof cases
    case 1
    then show ?thesis
      by (simp only: state_machine_start_tmp simp_thms)
  next
    case 2
    then have "map_of c (get_snapshot_path ?n) = Some (snapshot_bytes N It s sm)" "dir_ok c ?n"
      using remove_old_keeps [OF 2] d1 dir_ok_mono by auto
    then show ?thesis
      using state_machine_start_at [OF assms(1-3,6,5), of c depth] by simp
  qed
qed

theorem snapshot_crash_safe_witness:
  "map_option ss_sm (state_machine_start index_snapshot 1 (dir_write tmp_file [] sample_dir)) =
     map_option ss_sm (state_machine_start index_snapshot 1 sample_dir) \<or>
   map_option ss_sm (state_machine_start index_snapshot 1 (dir_write tmp_file [] sample_dir)) = Some (sample_machine\<lparr>asm_tx_notify_count := 0\<rparr>)"
proof -
  have "asm_last_committed_idx sample_machine \<noteq> 0" "snp_last_log_idx index_snapshot 3 = asm_last_committed_idx sample_machine"
    by (simp_all add: sample_machine_def index_snapshot_def)
  moreover have "dir_write tmp_file [] sample_dir \<in> crash_dirs index_snapshot ascending 3 sample_machine sample_dir"
    by (auto simp: crash_dirs_def intro!: exI [of _ 0])
  ultimately show ?thesis
    by (rule snapshot_crash_safe [OF index_snapshot_ok ascending_ok sample_machine_sized sample_dir_ok])
qed

end
