(* ===== verification/Archiver.thy ===== *)
theory Archiver
  imports Uhs_Shard Atomizer_Messages Decimal
begin

text \<open>
  The archiver (\<open>uhs/atomizer/archiver/controller.cpp\<close>) stores the chain of blocks, in order, in a
  LevelDB database, and answers requests for blocks. Blocks that arrive too early are deferred
  and their predecessors requested from the atomizer. \<open>None\<close> is an exception or a failed
  assertion. Writing to the database is assumed to succeed.
\<close>

section \<open>Operations\<close>

record 'db archiver =
  ar_db :: 'db
  ar_best_height :: u64
  ar_deferred :: "(u64 \<times> block) list"
  ar_max_samples :: u64
  ar_samples :: u64
  ar_sample_collection_active :: bool
  ar_running :: bool

definition bestblock_key :: "byte list" where
  "bestblock_key = string_bytes ''bestblock''"

definition height_key :: "u64 \<Rightarrow> byte list" where
  "height_key h = string_bytes (dec_string (unat h))"

definition read_height :: "byte list \<Rightarrow> u64 option" where
  "read_height v = map_option word_of_nat (stoul (bytes_string v))"

definition init_best_block :: "'db leveldb \<Rightarrow> 'db archiver \<Rightarrow> 'db archiver option" where
  "init_best_block L s =
    (case db_get L (ar_db s) bestblock_key of
       None \<Rightarrow> Some (s\<lparr>ar_db := db_write L (ar_db s) [Db_put bestblock_key (height_key 0)], ar_best_height := 0\<rparr>)
     | Some v \<Rightarrow> do { h \<leftarrow> read_height v; Some (s\<lparr>ar_best_height := h\<rparr>) })"

text \<open>The first part of \<open>digest_block\<close>: a height of zero is read again from the database.\<close>

definition reread_height :: "'db leveldb \<Rightarrow> 'db archiver \<Rightarrow> 'db archiver option" where
  "reread_height L s =
    (if ar_best_height s = 0 then
       (case db_get L (ar_db s) bestblock_key of
          Some v \<Rightarrow> do { h \<leftarrow> read_height v; Some (s\<lparr>ar_best_height := h\<rparr>) }
        | None \<Rightarrow> Some s)
     else Some s)"

text \<open>A contiguous block is written together with its height.\<close>

definition store_block :: "'db leveldb \<Rightarrow> 'db archiver \<Rightarrow> block \<Rightarrow> 'db archiver" where
  "store_block L s blk =
    s\<lparr>ar_db := db_write L (ar_db s) [Db_put (height_key (b_height blk)) (put_block blk),
                                   Db_put bestblock_key (height_key (b_height blk))],
      ar_best_height := ar_best_height s + 1,
      ar_samples := (if ar_sample_collection_active s then ar_samples s + 1 else ar_samples s),
      ar_deferred := filter (\<lambda>e. fst e \<noteq> b_height blk) (ar_deferred s)\<rparr>"

text \<open>
  The messages to the atomizer are the second component. The recursion ends because every
  further block was deferred and is no longer afterwards.
\<close>

function archive_block :: "'db leveldb \<Rightarrow> 'db archiver \<Rightarrow> block \<Rightarrow> ('db archiver \<times> atomizer_request list) option" where
  "archive_block L s0 blk = do {
     s \<leftarrow> reread_height L s0;
     if b_height blk \<le> ar_best_height s then Some (s, [])
     else if b_height blk \<noteq> ar_best_height s + 1 then
       Some (s\<lparr>ar_deferred := emplace (b_height blk) blk (ar_deferred s)\<rparr>,
             if map_of (ar_deferred s) (b_height blk - 1) = None then [Req_get_block (b_height blk - 1)] else [])
     else
       let s' = store_block L s blk;
           msgs = [Req_prune (ar_best_height s')]
       in case map_of (ar_deferred s) (b_height blk + 1) of
            None \<Rightarrow> Some (s', msgs)
          | Some next_blk \<Rightarrow> do { (s'', msgs') \<leftarrow> archive_block L s' next_blk; Some (s'', msgs @ msgs') } }"
  by pat_completeness auto

definition archive_measure :: "'db archiver \<Rightarrow> block \<Rightarrow> nat" where
  "archive_measure s blk =
    (if ar_best_height s = 0 \<or> b_height blk = ar_best_height s + 1
     then card (insert (b_height blk) (fst ` set (ar_deferred s))) else 0)"

lemma reread_height_deferred: "reread_height L s0 = Some s \<Longrightarrow> ar_deferred s = ar_deferred s0 \<and> (ar_best_height s0 \<noteq> 0 \<longrightarrow> s = s0)"
  by (auto simp: reread_height_def split: if_splits option.splits bind_splits)

lemma archive_measure_decreases:
  assumes s: "reread_height L s0 = Some s" and h: "\<not> b_height blk \<le> ar_best_height s" "b_height blk = ar_best_height s + 1"
    and n: "map_of (ar_deferred s) (b_height blk + 1) = Some next_blk"
  shows "archive_measure (store_block L s blk) next_blk < archive_measure s0 blk"
proof -
  let ?K = "fst ` set (ar_deferred s)" and ?b = "b_height blk"
  have m: "archive_measure s0 blk = card (insert ?b ?K)"
    using reread_height_deferred [OF s] h(2) by (auto simp: archive_measure_def)
  have keys: "fst ` set (ar_deferred (store_block L s blk)) = ?K - {?b}"
    by (auto simp: store_block_def)
  have best: "ar_best_height (store_block L s blk) = ?b" "?b \<noteq> 0"
    using h(1) by (auto simp: h(2) store_block_def)
  have "archive_measure (store_block L s blk) next_blk \<le> card (?K - {?b})"
  proof (cases "b_height next_blk = ?b + 1")
    case True
    have "?b + 1 \<in> ?K - {?b}"
      using n by (force dest: map_of_SomeD)
    then show ?thesis
      using True best by (simp add: archive_measure_def keys insert_absorb)
  qed (use best in \<open>simp add: archive_measure_def\<close>)
  also have "\<dots> < card (insert ?b ?K)"
    by (intro psubset_card_mono) auto
  finally show ?thesis
    using m by simp
qed

termination archive_block
  by (relation "measure (\<lambda>(_, s, blk). archive_measure s blk)") (auto intro: archive_measure_decreases)

declare archive_block.simps [simp del]

definition get_block :: "'db leveldb \<Rightarrow> 'db archiver \<Rightarrow> u64 \<Rightarrow> block option option" where
  "get_block L s height =
    (case db_get L (ar_db s) (height_key height) of
       None \<Rightarrow> Some None
     | Some v \<Rightarrow> map_option Some (from_buffer get_block_fmt v))"

text \<open>The handlers: the reply to a request and the reaction to a block of the atomizer.\<close>

definition archiver_server_handler :: "'db leveldb \<Rightarrow> 'db archiver \<Rightarrow> byte list \<Rightarrow> byte list option option" where
  "archiver_server_handler L s pkt =
    (case from_buffer get_u64 pkt of
       None \<Rightarrow> Some None
     | Some h \<Rightarrow> do { blk \<leftarrow> get_block L s h; Some (Some (put_option put_block blk)) })"

definition archiver_atomizer_handler ::
  "'db leveldb \<Rightarrow> 'db archiver \<Rightarrow> byte list \<Rightarrow> ('db archiver \<times> atomizer_request list) option" where
  "archiver_atomizer_handler L s pkt =
    (case from_buffer get_block_fmt pkt of
       None \<Rightarrow> Some (s, [])
     | Some blk \<Rightarrow>
         if ar_max_samples s \<noteq> 0 \<and> ar_samples s \<ge> ar_max_samples s then Some (s\<lparr>ar_running := False\<rparr>, [])
         else archive_block L s blk)"

text \<open>
  The client (\<open>client.cpp\<close>): \<open>server\<close> gives what the socket does with a request, a failure to
  send or to receive being \<open>None\<close>.
\<close>

definition client_get_block :: "(byte list \<Rightarrow> byte list option) \<Rightarrow> u64 \<Rightarrow> block option" where
  "client_get_block server height =
    (case server (put_u64 height) of
       None \<Rightarrow> None
     | Some resp \<Rightarrow> (case from_buffer (get_option get_block_fmt) resp of None \<Rightarrow> None | Some blk \<Rightarrow> blk))"

section \<open>The archive after a set of deliveries\<close>

text \<open>
  \<open>D\<close> is the set of the heights delivered so far, \<open>n\<close> the height of the archive: the blocks up to
  \<open>n\<close> are in the database, the other delivered ones are deferred.
\<close>

definition archiver_at :: "'db leveldb \<Rightarrow> block list \<Rightarrow> 'db archiver \<Rightarrow> nat set \<Rightarrow> nat \<Rightarrow> bool" where
  "archiver_at L chain s D n \<longleftrightarrow> ar_best_height s = word_of_nat n \<and> {1..n} \<subseteq> D \<and> D \<subseteq> {1..length chain} \<and>
     db_get L (ar_db s) bestblock_key = Some (height_key (word_of_nat n)) \<and>
     (\<forall>h < 2 ^ 64. db_get L (ar_db s) (height_key (word_of_nat h)) = (if 1 \<le> h \<and> h \<le> n then Some (put_block (chain ! (h - 1))) else None)) \<and>
     (\<forall>h < 2 ^ 64. map_of (ar_deferred s) (word_of_nat h) = (if h \<in> D \<and> n < h then Some (chain ! (h - 1)) else None))"

lemma height_key_inject [simp]: "height_key a = height_key b \<longleftrightarrow> a = b"
  by (simp add: height_key_def word_unat_eq_iff)

lemma height_key_not_best [simp]: "height_key h \<noteq> bestblock_key" "bestblock_key \<noteq> height_key h"
proof -
  have "is_dec (hd (dec_string (unat h)))"
    using dec_string_digits dec_string_not_Nil hd_in_set by blast
  then have "dec_string (unat h) \<noteq> ''bestblock''"
    by (auto simp: is_dec_def)
  then show "height_key h \<noteq> bestblock_key" "bestblock_key \<noteq> height_key h"
    by (metis height_key_def bestblock_key_def string_bytes_inject)+
qed

lemma read_height_key [simp]: "read_height (height_key h) = Some h"
  using unat_lt2p [of h] by (simp add: read_height_def height_key_def stoul_dec_string)

lemma archiver_at_le: "archiver_at L chain s D n \<Longrightarrow> n \<le> length chain"
  unfolding archiver_at_def by (cases n) (use atLeastAtMost_iff le_numeral_extra(4) in \<open>fastforce+\<close>)

lemma reread_height_at: "archiver_at L chain s D n \<Longrightarrow> reread_height L s = Some s"
  by (simp add: archiver_at_def reread_height_def)

lemma height_eq: "a < 2 ^ 64 \<Longrightarrow> b < 2 ^ 64 \<Longrightarrow> (word_of_nat a :: u64) = word_of_nat b \<longleftrightarrow> a = b"
  by (metis unat_height)

lemma map_of_filter_key: "map_of (filter (\<lambda>e. fst e \<noteq> k) m) x = (if x = k then None else map_of m x)"
  by (induction m) auto

lemma store_block_at:
  assumes L: "leveldb_ok L" and c: "chain_ok chain" and s: "archiver_at L chain s D n" and n: "n < length chain"
  shows "archiver_at L chain (store_block L s (chain ! n)) (insert (Suc n) D) (Suc n)"
proof -
  have b: "Suc n < 2 ^ 64" "b_height (chain ! n) = word_of_nat (Suc n)"
    using c n by (auto simp: chain_ok_def)
  have "{1..Suc n} \<subseteq> insert (Suc n) D"
    using s by (auto simp: archiver_at_def le_Suc_eq)
  moreover have "db_get L (ar_db (store_block L s (chain ! n))) (height_key (word_of_nat h)) =
      (if 1 \<le> h \<and> h \<le> Suc n then Some (put_block (chain ! (h - 1))) else None)" if "h < 2 ^ 64" for h
    using L s b that height_eq [OF b(1) that]
    by (auto simp: store_block_def leveldb_ok_def archiver_at_def height_eq le_Suc_eq simp del: of_nat_Suc)
  moreover have "map_of (ar_deferred (store_block L s (chain ! n))) (word_of_nat h) =
      (if h \<in> insert (Suc n) D \<and> Suc n < h then Some (chain ! (h - 1)) else None)" if "h < 2 ^ 64" for h
    using s b that height_eq [OF that b(1)]
    by (auto simp: store_block_def archiver_at_def map_of_filter_key simp del: of_nat_Suc)
  ultimately show ?thesis
    using L s n b by (auto simp: archiver_at_def store_block_def leveldb_ok_def add.commute)
qed

lemma archive_block_next:
  assumes L: "leveldb_ok L" and c: "chain_ok chain"
  shows "archiver_at L chain s D n \<Longrightarrow> n < length chain \<Longrightarrow>
    \<exists>s' msgs n'. archive_block L s (chain ! n) = Some (s', msgs) \<and> archiver_at L chain s' (insert (Suc n) D) n' \<and>
      Suc n' \<notin> insert (Suc n) D"
proof (induction "length chain - n" arbitrary: n s D)
  case (Suc m)
  let ?s = "store_block L s (chain ! n)"
  have b: "Suc (Suc n) < 2 ^ 64" "b_height (chain ! n) = word_of_nat (Suc n)"
    using c Suc.prems(2) by (auto simp: chain_ok_def)
  have best: "ar_best_height s = word_of_nat n"
    using Suc.prems(1) by (simp add: archiver_at_def)
  have le: "\<not> b_height (chain ! n) \<le> ar_best_height s" "b_height (chain ! n) = ar_best_height s + 1"
    using b best unat_height [of n] unat_height [of "Suc n"] by (simp_all add: word_le_nat_alt add.commute)
  have s: "archiver_at L chain ?s (insert (Suc n) D) (Suc n)"
    by (rule store_block_at [OF L c Suc.prems])
  have nxt: "map_of (ar_deferred s) (b_height (chain ! n) + 1) = (if Suc (Suc n) \<in> D then Some (chain ! Suc n) else None)"
    using Suc.prems(1) b by (auto simp: archiver_at_def add.commute dest!: spec [of _ "Suc (Suc n)"])
  have eq: "archive_block L s (chain ! n) =
      (case map_of (ar_deferred s) (b_height (chain ! n) + 1) of
         None \<Rightarrow> Some (?s, [Req_prune (ar_best_height ?s)])
       | Some next_blk \<Rightarrow> do { (s'', msgs') \<leftarrow> archive_block L ?s next_blk; Some (s'', [Req_prune (ar_best_height ?s)] @ msgs') })"
    using le by (subst archive_block.simps) (simp add: reread_height_at [OF Suc.prems(1)] Let_def)
  show ?case
  proof (cases "Suc (Suc n) \<in> D")
    case False
    then show ?thesis
      using s eq nxt by auto
  next
    case True
    then have "Suc n < length chain" "insert (Suc (Suc n)) (insert (Suc n) D) = insert (Suc n) D"
      using Suc.prems(1) by (auto simp: archiver_at_def)
    then show ?thesis
      using Suc.hyps(1) [OF _ s] Suc.hyps(2) eq nxt True by fastforce
  qed
qed simp

lemma archive_block_any:
  assumes L: "leveldb_ok L" and c: "chain_ok chain" and s: "archiver_at L chain s D n" "Suc n \<notin> D" and i: "i < length chain"
  shows "\<exists>s' msgs n'. archive_block L s (chain ! i) = Some (s', msgs) \<and> archiver_at L chain s' (insert (Suc i) D) n' \<and>
      Suc n' \<notin> insert (Suc i) D"
proof (cases "i = n")
  case True
  then show ?thesis
    using archive_block_next [OF L c s(1)] i by simp
next
  case False
  have b: "Suc i < 2 ^ 64" "b_height (chain ! i) = word_of_nat (Suc i)"
    using c i by (auto simp: chain_ok_def)
  have best: "ar_best_height s = word_of_nat n" "Suc n < 2 ^ 64"
    using s(1) archiver_at_le [OF s(1)] c by (simp_all add: archiver_at_def chain_ok_def)
  have le: "b_height (chain ! i) \<le> ar_best_height s \<longleftrightarrow> Suc i \<le> n"
    using b best unat_height [of n] unat_height [of "Suc i"] by (simp add: word_le_nat_alt del: of_nat_Suc)
  have ne: "b_height (chain ! i) \<noteq> ar_best_height s + 1"
    using False height_eq [OF b(1) best(2)] b(2) best(1) by (simp add: add.commute)
  show ?thesis
  proof (cases "Suc i \<le> n")
    case True
    then have "Suc i \<in> D"
      using s(1) by (auto simp: archiver_at_def)
    then show ?thesis
      using True le s by (subst archive_block.simps) (auto simp: reread_height_at [OF s(1)] insert_absorb)
  next
    case early: False
    let ?s = "s\<lparr>ar_deferred := emplace (b_height (chain ! i)) (chain ! i) (ar_deferred s)\<rparr>"
    have "map_of (ar_deferred ?s) (word_of_nat h) = (if h \<in> insert (Suc i) D \<and> n < h then Some (chain ! (h - 1)) else None)"
      if "h < 2 ^ 64" for h
      using s(1) that early height_eq [OF that b(1)]
      by (auto simp: map_of_emplace archiver_at_def b(2) simp del: of_nat_Suc)
    then have "archiver_at L chain ?s (insert (Suc i) D) n"
      using s(1) i by (auto simp: archiver_at_def)
    moreover have "\<exists>msgs. archive_block L s (chain ! i) = Some (?s, msgs)"
      using early le ne by (subst archive_block.simps) (simp add: reread_height_at [OF s(1)])
    ultimately show ?thesis
      using s(2) False by auto
  qed
qed

fun archive_all :: "'db leveldb \<Rightarrow> 'db archiver \<Rightarrow> block list \<Rightarrow> 'db archiver option" where
  "archive_all L s [] = Some s"
| "archive_all L s (blk # blks) = do { (s', _) \<leftarrow> archive_block L s blk; archive_all L s' blks }"

definition delivered :: "block list \<Rightarrow> block list \<Rightarrow> nat set" where
  "delivered chain blks = {h. 1 \<le> h \<and> h \<le> length chain \<and> chain ! (h - 1) \<in> set blks}"

lemma chain_distinct: "chain_ok chain \<Longrightarrow> i < length chain \<Longrightarrow> j < length chain \<Longrightarrow> chain ! i = chain ! j \<longleftrightarrow> i = j"
proof -
  assume a: "chain_ok chain" "i < length chain" "j < length chain"
  then have "(word_of_nat (Suc i) :: u64) = word_of_nat (Suc j)" if "chain ! i = chain ! j"
    using that unfolding chain_ok_def by metis
  moreover have "Suc i < 2 ^ 64" "Suc j < 2 ^ 64"
    using a by (auto simp: chain_ok_def)
  ultimately show ?thesis
    using height_eq [of "Suc i" "Suc j"] by auto
qed

lemma delivered_Cons:
  assumes "chain_ok chain" "i < length chain"
  shows "delivered chain (chain ! i # blks) = insert (Suc i) (delivered chain blks)"
proof -
  have "chain ! (h - 1) = chain ! i \<longleftrightarrow> h = Suc i" if "1 \<le> h" "h \<le> length chain" for h
    using chain_distinct [OF assms(1) _ assms(2), of "h - 1"] that by auto
  then show ?thesis
    using assms(2) by (auto simp: delivered_def)
qed

lemma archive_all_at:
  assumes L: "leveldb_ok L" and c: "chain_ok chain"
  shows "archiver_at L chain s D n \<Longrightarrow> Suc n \<notin> D \<Longrightarrow> set blks \<subseteq> set chain \<Longrightarrow>
    \<exists>s' n'. archive_all L s blks = Some s' \<and> archiver_at L chain s' (delivered chain blks \<union> D) n' \<and>
      Suc n' \<notin> delivered chain blks \<union> D"
proof (induction blks arbitrary: s D n)
  case Nil
  then show ?case
    by (auto simp: delivered_def)
next
  case (Cons blk blks)
  obtain i where i: "i < length chain" "blk = chain ! i"
    using Cons.prems(3) by (auto simp: in_set_conv_nth)
  obtain s1 msgs n1 where s1: "archive_block L s blk = Some (s1, msgs)" "archiver_at L chain s1 (insert (Suc i) D) n1"
      "Suc n1 \<notin> insert (Suc i) D"
    using archive_block_any [OF L c Cons.prems(1,2) i(1)] i(2) by blast
  then show ?case
    using Cons.IH [OF s1(2,3)] Cons.prems(3) by (simp add: i(2) delivered_Cons [OF c i(1)])
qed

lemma delivered_prefix:
  assumes "h \<le> length chain"
  shows "{1..h} \<subseteq> delivered chain blks \<longleftrightarrow> (\<forall>i < h. chain ! i \<in> set blks)"
proof
  assume sub: "{1..h} \<subseteq> delivered chain blks"
  show "\<forall>i < h. chain ! i \<in> set blks"
  proof (intro allI impI)
    fix i
    assume "i < h"
    then have "Suc i \<in> delivered chain blks"
      using sub by auto
    then show "chain ! i \<in> set blks"
      by (simp add: delivered_def)
  qed
qed (use assms in \<open>auto simp: delivered_def\<close>)

text \<open>A new archiver.\<close>

lemma init_best_block_at:
  assumes "leveldb_ok L" "\<forall>k. db_get L (ar_db s) k = None" "ar_deferred s = []"
  shows "\<exists>s'. init_best_block L s = Some s' \<and> archiver_at L chain s' {} 0"
  using assms by (simp add: init_best_block_def archiver_at_def leveldb_ok_def)

text \<open>What the archive answers is the blocks up to its height, also after a restart.\<close>

lemma get_block_at:
  assumes "archiver_at L chain s D n" "\<forall>blk \<in> set chain. wf_block blk" "h < 2 ^ 64"
  shows "get_block L s (word_of_nat h) = Some (if 1 \<le> h \<and> h \<le> n then Some (chain ! (h - 1)) else None)"
proof (cases "1 \<le> h \<and> h \<le> n")
  case True
  then have "h - 1 < length chain"
    using archiver_at_le [OF assms(1)] by linarith
  then have "wf_block (chain ! (h - 1))"
    using assms(2) nth_mem by blast
  then show ?thesis
    using assms(1,3) True block_fmt.from_buffer_put [of "chain ! (h - 1)" "[]"] by (simp add: get_block_def archiver_at_def)
next
  case False
  then have "db_get L (ar_db s) (height_key (word_of_nat h)) = None"
    using assms(1,3) unfolding archiver_at_def by auto
  then show ?thesis
    using False by (auto simp: get_block_def)
qed

lemma restart_at:
  "archiver_at L chain s D n \<Longrightarrow> init_best_block L (s\<lparr>ar_best_height := 0, ar_deferred := []\<rparr>) = Some (s\<lparr>ar_deferred := []\<rparr>)"
  by (simp add: init_best_block_def archiver_at_def)

text \<open>The height of the archive is the last of the heights delivered without a gap.\<close>

lemma archived_iff:
  assumes "archiver_at L chain s D n" "Suc n \<notin> D"
  shows "h \<le> n \<longleftrightarrow> {1..h} \<subseteq> D"
proof
  assume "{1..h} \<subseteq> D"
  then show "h \<le> n"
    using assms(2) subsetD [of "{1..h}" D "Suc n"] by (cases "h \<le> n") auto
qed (use assms(1) in \<open>auto simp: archiver_at_def\<close>)

section \<open>Properties\<close>

text \<open>The reply of a server over a connection that delivers it.\<close>

definition archiver_reply :: "'db leveldb \<Rightarrow> 'db archiver \<Rightarrow> byte list \<Rightarrow> byte list option" where
  "archiver_reply L s pkt = Option.bind (archiver_server_handler L s pkt) id"

lemma archiver_reply_deferred: "archiver_reply L (s\<lparr>ar_deferred := m\<rparr>) = archiver_reply L s"
  by (rule ext) (simp add: archiver_reply_def archiver_server_handler_def get_block_def split: option.splits)

lemma client_get_block_at:
  assumes "archiver_at L chain s D n" "\<forall>blk \<in> set chain. wf_block blk" "h < 2 ^ 64"
  shows "client_get_block (archiver_reply L s) (word_of_nat h) = (if 1 \<le> h \<and> h \<le> n then Some (chain ! (h - 1)) else None)"
proof -
  let ?r = "if 1 \<le> h \<and> h \<le> n then Some (chain ! (h - 1)) else None"
  have "\<forall>y. ?r = Some y \<longrightarrow> wf_block y"
    using assms(2) archiver_at_le [OF assms(1)] by auto
  then have "from_buffer (get_option get_block_fmt) (put_option put_block ?r) = Some ?r"
    using codec.from_buffer_put [OF codec_option [OF block_fmt.codec_axioms], of ?r "[]"] by simp
  moreover have "archiver_reply L s (put_u64 (word_of_nat h)) = Some (put_option put_block ?r)"
    using u64.from_buffer_put [OF TrueI, of "word_of_nat h" "[]"] get_block_at [OF assms]
    by (simp add: archiver_reply_def archiver_server_handler_def)
  ultimately show ?thesis
    by (simp add: client_get_block_def)
qed

text \<open>C32: The archiver stores the same chain whatever the order in which blocks arrive. Started on an
  empty database and given any sequence of blocks of a chain, out of order and with repetitions,
  it never fails; a client that asks for height \<open>h\<close> gets the block of that height if all blocks up
  to \<open>h\<close> have arrived, and nothing otherwise; and an archiver restarted from the database
  answers in the same way.\<close>

theorem archiver_order_independent:
  assumes L: "leveldb_ok L" and c: "chain_ok chain" and wf: "\<forall>blk \<in> set chain. wf_block blk"
    and s: "\<forall>k. db_get L (ar_db s) k = None" "ar_deferred s = []" "init_best_block L s = Some s0"
    and blks: "set blks \<subseteq> set chain"
  shows "\<exists>s1. archive_all L s0 blks = Some s1 \<and>
    (\<forall>h. 1 \<le> h \<and> h \<le> length chain \<longrightarrow>
      client_get_block (archiver_reply L s1) (word_of_nat h) =
        (if \<forall>i < h. chain ! i \<in> set blks then Some (chain ! (h - 1)) else None) \<and>
      (\<exists>s2. init_best_block L (s1\<lparr>ar_best_height := 0, ar_deferred := []\<rparr>) = Some s2 \<and> ar_best_height s2 = ar_best_height s1 \<and>
        client_get_block (archiver_reply L s2) (word_of_nat h) = client_get_block (archiver_reply L s1) (word_of_nat h)))"
proof -
  have at0: "archiver_at L chain s0 {} 0"
    using init_best_block_at [OF L s(1,2), of chain] s(3) by simp
  obtain s1 n where s1: "archive_all L s0 blks = Some s1" "archiver_at L chain s1 (delivered chain blks) n"
      "Suc n \<notin> delivered chain blks"
    using archive_all_at [OF L c at0 _ blks] by auto
  have "client_get_block (archiver_reply L s1) (word_of_nat h) =
        (if \<forall>i < h. chain ! i \<in> set blks then Some (chain ! (h - 1)) else None) \<and>
      (\<exists>s2. init_best_block L (s1\<lparr>ar_best_height := 0, ar_deferred := []\<rparr>) = Some s2 \<and> ar_best_height s2 = ar_best_height s1 \<and>
        client_get_block (archiver_reply L s2) (word_of_nat h) = client_get_block (archiver_reply L s1) (word_of_nat h))"
    if h: "1 \<le> h" "h \<le> length chain" for h
  proof -
    have "h < 2 ^ 64"
      using h(2) c by (simp add: chain_ok_def)
    then show ?thesis
      using delivered_prefix [OF h(2), of blks] client_get_block_at [OF s1(2) wf] archived_iff [OF s1(2,3), of h] restart_at [OF s1(2)] h(1)
      by (simp add: archiver_reply_deferred)
  qed
  then show ?thesis
    using s1(1) by blast
qed

definition sample_archiver :: "(byte list \<Rightarrow> byte list option) archiver" where
  "sample_archiver = \<lparr>ar_db = (\<lambda>_. None), ar_best_height = 0, ar_deferred = [], ar_max_samples = 0, ar_samples = 0,
     ar_sample_collection_active = True, ar_running = True\<rparr>"

theorem archiver_order_independent_witness:
  "\<exists>s0 s1. init_best_block map_leveldb sample_archiver = Some s0 \<and>
     archive_all map_leveldb s0 [sample_chain ! 2, sample_chain ! 0, sample_chain ! 2] = Some s1 \<and>
     client_get_block (archiver_reply map_leveldb s1) 1 = Some (sample_chain ! 0) \<and>
     client_get_block (archiver_reply map_leveldb s1) 3 = None"
proof -
  obtain s0 where s0: "init_best_block map_leveldb sample_archiver = Some s0"
    by (simp add: init_best_block_def map_leveldb_def sample_archiver_def)
  let ?blks = "[sample_chain ! 2, sample_chain ! 0, sample_chain ! 2]"
  have wf: "\<forall>blk \<in> set sample_chain. wf_block blk"
    by (simp add: sample_chain_def wf_block_def wf_vector_def sample_tx_def wf_compact_tx_def wf_map_def)
  have ch: "set ?blks \<subseteq> set sample_chain"
    by (simp add: sample_chain_def)
  have new: "\<forall>k. db_get map_leveldb (ar_db sample_archiver) k = None" "ar_deferred sample_archiver = []"
    by (simp_all add: map_leveldb_def sample_archiver_def)
  obtain s1 where s1: "archive_all map_leveldb s0 ?blks = Some s1"
      "\<forall>h. 1 \<le> h \<and> h \<le> length sample_chain \<longrightarrow> client_get_block (archiver_reply map_leveldb s1) (word_of_nat h) =
        (if \<forall>i < h. sample_chain ! i \<in> set ?blks then Some (sample_chain ! (h - 1)) else None)"
    using archiver_order_independent [OF map_leveldb_ok sample_chain_ok wf new s0 ch] by metis
  have "\<not> (\<forall>i < 3. sample_chain ! i \<in> set ?blks)"
    by (auto simp: sample_chain_def intro!: exI [of _ 1])
  then show ?thesis
    using s0 s1(1) s1(2) [rule_format, of 1] s1(2) [rule_format, of 3] by (auto simp: sample_chain_def)
qed

end
