(* ===== verification/Watchtower.thy ===== *)
theory Watchtower
  imports Uhs_Shard Atomizer_Messages
begin

text \<open>
  The watchtower (\<open>uhs/atomizer/watchtower\<close>) remembers the last blocks and the last errors and
  tells clients what became of their transactions. Unordered maps are maps; \<open>insert\<close> keeps an
  entry that is already there.
\<close>

section \<open>Block cache\<close>

type_synonym block_cache_result = "u64 \<times> hash_t"

record block_cache =
  m_k_blks :: nat
  m_blks :: "block list"
  m_best_blk_height :: u64
  m_unspent_ids :: "hash_t \<Rightarrow> block_cache_result option"
  m_spent_ids :: "hash_t \<Rightarrow> block_cache_result option"

definition block_cache_init :: "nat \<Rightarrow> block_cache" where
  "block_cache_init k = \<lparr>m_k_blks = k, m_blks = [], m_best_blk_height = 0, m_unspent_ids = (\<lambda>_. None), m_spent_ids = (\<lambda>_. None)\<rparr>"

definition map_insert :: "'k \<Rightarrow> 'v \<Rightarrow> ('k \<Rightarrow> 'v option) \<Rightarrow> 'k \<Rightarrow> 'v option" where
  "map_insert k v m = (if m k = None then m(k := Some v) else m)"

definition map_remove :: "'k \<Rightarrow> ('k \<Rightarrow> 'v option) \<Rightarrow> 'k \<Rightarrow> 'v option" where
  "map_remove k m = m(k := None)"

text \<open>Forgetting a transaction of the oldest block and recording one of a new block.\<close>

definition evict_tx :: "block_cache \<Rightarrow> compact_tx \<Rightarrow> block_cache" where
  "evict_tx c tx = c\<lparr>m_spent_ids := foldl (\<lambda>m x. map_remove x m) (m_spent_ids c) (c_inputs tx),
                     m_unspent_ids := foldl (\<lambda>m x. map_remove x m) (m_unspent_ids c) (m_uhs_outputs tx)\<rparr>"

definition index_tx :: "u64 \<Rightarrow> block_cache \<Rightarrow> compact_tx \<Rightarrow> block_cache" where
  "index_tx h c tx =
    (let unspent = foldl (\<lambda>m x. map_remove x m) (m_unspent_ids c) (c_inputs tx)
     in c\<lparr>m_spent_ids := foldl (\<lambda>m x. map_insert x (h, m_id tx) m) (m_spent_ids c) (c_inputs tx),
          m_unspent_ids := foldl (\<lambda>m x. map_insert x (h, m_id tx) m) unspent (m_uhs_outputs tx)\<rparr>)"

definition push_block :: "block_cache \<Rightarrow> block \<Rightarrow> block_cache" where
  "push_block c blk =
    (let c1 = (if m_k_blks c \<noteq> 0 \<and> length (m_blks c) = m_k_blks c
               then (foldl evict_tx c (b_transactions (hd (m_blks c))))\<lparr>m_blks := tl (m_blks c)\<rparr> else c);
         c2 = foldl (index_tx (b_height blk)) (c1\<lparr>m_blks := m_blks c1 @ [blk]\<rparr>) (b_transactions blk)
     in c2\<lparr>m_best_blk_height := max (m_best_blk_height c2) (b_height blk)\<rparr>)"

definition bc_check_unspent :: "block_cache \<Rightarrow> hash_t \<Rightarrow> block_cache_result option" where
  "bc_check_unspent c uhs_id = m_unspent_ids c uhs_id"

definition bc_check_spent :: "block_cache \<Rightarrow> hash_t \<Rightarrow> block_cache_result option" where
  "bc_check_spent c uhs_id = m_spent_ids c uhs_id"

section \<open>Error cache\<close>

record error_cache =
  m_k_errs :: nat
  m_errs :: "wt_error list"
  m_uhs_errs :: "hash_t \<Rightarrow> wt_error option"
  m_tx_id_errs :: "hash_t \<Rightarrow> wt_error option"

definition error_cache_init :: "nat \<Rightarrow> error_cache" where
  "error_cache_init k = \<lparr>m_k_errs = k, m_errs = [], m_uhs_errs = (\<lambda>_. None), m_tx_id_errs = (\<lambda>_. None)\<rparr>"

text \<open>The identifiers an error names.\<close>

definition error_uhs_ids :: "tx_error_info \<Rightarrow> hash_t list" where
  "error_uhs_ids info = (case info of Error_inputs_dne ids \<Rightarrow> ids | Error_inputs_spent ids \<Rightarrow> ids | _ \<Rightarrow> [])"

definition push_error :: "error_cache \<Rightarrow> wt_error \<Rightarrow> error_cache" where
  "push_error c err =
    (let c1 = (if m_k_errs c \<noteq> 0 \<and> length (m_errs c) = m_k_errs c
               then let old = hd (m_errs c) in
                 c\<lparr>m_tx_id_errs := map_remove (e_tx_id old) (m_tx_id_errs c),
                   m_uhs_errs := foldl (\<lambda>m x. map_remove x m) (m_uhs_errs c) (error_uhs_ids (e_info old)),
                   m_errs := tl (m_errs c)\<rparr>
               else c)
     in c1\<lparr>m_errs := m_errs c1 @ [err], m_tx_id_errs := map_insert (e_tx_id err) err (m_tx_id_errs c1),
           m_uhs_errs := foldl (\<lambda>m x. map_insert x err m) (m_uhs_errs c1) (error_uhs_ids (e_info err))\<rparr>)"

definition push_errors :: "error_cache \<Rightarrow> wt_error list \<Rightarrow> error_cache" where
  "push_errors c errs = foldl push_error c errs"

definition ec_check_tx_id :: "error_cache \<Rightarrow> hash_t \<Rightarrow> wt_error option" where
  "ec_check_tx_id c txid = m_tx_id_errs c txid"

definition ec_check_uhs_id :: "error_cache \<Rightarrow> hash_t \<Rightarrow> wt_error option" where
  "ec_check_uhs_id c uhs_id = m_uhs_errs c uhs_id"

section \<open>Watchtower\<close>

record watchtower =
  m_bc :: block_cache
  m_ec :: error_cache

definition watchtower_init :: "nat \<Rightarrow> nat \<Rightarrow> watchtower" where
  "watchtower_init block_cache_size error_cache_size =
    \<lparr>m_bc = block_cache_init block_cache_size, m_ec = error_cache_init error_cache_size\<rparr>"

definition add_block :: "watchtower \<Rightarrow> block \<Rightarrow> watchtower" where
  "add_block w blk = w\<lparr>m_bc := push_block (m_bc w) blk\<rparr>"

text \<open>An error about a transaction that a block of the cache contains is dropped.\<close>

definition repeated_tx_filter :: "block_cache \<Rightarrow> wt_error \<Rightarrow> bool" where
  "repeated_tx_filter bc err =
    list_ex (\<lambda>uhs. map_option snd (bc_check_spent bc uhs) = Some (e_tx_id err) \<or> map_option snd (bc_check_unspent bc uhs) = Some (e_tx_id err))
      (error_uhs_ids (e_info err))"

definition add_errors :: "watchtower \<Rightarrow> wt_error list \<Rightarrow> watchtower" where
  "add_errors w errs = w\<lparr>m_ec := push_errors (m_ec w) (filter (\<lambda>err. \<not> repeated_tx_filter (m_bc w) err) errs)\<rparr>"

datatype search_status =
  No_history | Unspent | Spent | Tx_rejected | Invalid_input | Internal_error | Status_other u32

record status_update_state =
  st_status :: search_status
  st_block_height :: u64
  st_uhs_id :: hash_t

text \<open>The states of one identifier: an error, and what the block cache knows.\<close>

definition uhs_id_statuses :: "watchtower \<Rightarrow> hash_t \<Rightarrow> bool \<Rightarrow> bool \<Rightarrow> u64 \<Rightarrow> hash_t \<Rightarrow> status_update_state list" where
  "uhs_id_statuses w txid internal_err tx_err best_height uhs_id =
    (let state = (\<lambda>s h. \<lparr>st_status = s, st_block_height = h, st_uhs_id = uhs_id\<rparr>);
         err = (if internal_err then [state Internal_error best_height]
                else if tx_err then [state (if ec_check_uhs_id (m_ec w) uhs_id \<noteq> None then Invalid_input else Tx_rejected) best_height]
                else []);
         found = (case bc_check_spent (m_bc w) uhs_id of
                    Some (height, s_tx_id) \<Rightarrow> if s_tx_id = txid then [state Spent height] else []
                  | None \<Rightarrow>
                      (case bc_check_unspent (m_bc w) uhs_id of
                         Some (height, us_tx_id) \<Rightarrow> if us_tx_id = txid then [state Unspent height] else []
                       | None \<Rightarrow> []))
     in if err @ found = [] then [state No_history best_height] else err @ found)"

definition check_uhs_id_statuses ::
  "watchtower \<Rightarrow> hash_t list \<Rightarrow> hash_t \<Rightarrow> bool \<Rightarrow> bool \<Rightarrow> u64 \<Rightarrow> status_update_state list" where
  "check_uhs_id_statuses w uhs_ids txid internal_err tx_err best_height =
    concat (map (uhs_id_statuses w txid internal_err tx_err best_height) uhs_ids)"

definition handle_status_update_request ::
  "watchtower \<Rightarrow> (hash_t \<times> hash_t list) list \<Rightarrow> (hash_t \<times> status_update_state list) list" where
  "handle_status_update_request w req =
    foldl (\<lambda>chks (txid, uhs_ids).
        let tx_err = ec_check_tx_id (m_ec w) txid;
            internal_err = (case tx_err of Some e \<Rightarrow> e_info e = Error_sync \<or> e_info e = Error_stxo_range | None \<Rightarrow> False)
        in emplace txid (check_uhs_id_statuses w uhs_ids txid internal_err (tx_err \<noteq> None) (m_best_blk_height (m_bc w))) chks)
      [] req"

definition handle_best_block_height_request :: "watchtower \<Rightarrow> u64" where
  "handle_best_block_height_request w = m_best_blk_height (m_bc w)"

section \<open>Messages\<close>

definition status_code :: "search_status \<Rightarrow> u32" where
  "status_code s = (case s of No_history \<Rightarrow> 0 | Unspent \<Rightarrow> 1 | Spent \<Rightarrow> 2 | Tx_rejected \<Rightarrow> 3 | Invalid_input \<Rightarrow> 4
     | Internal_error \<Rightarrow> 5 | Status_other w \<Rightarrow> w)"

definition status_cast :: "u32 \<Rightarrow> search_status" where
  "status_cast w = (if w = 0 then No_history else if w = 1 then Unspent else if w = 2 then Spent else if w = 3 then Tx_rejected
     else if w = 4 then Invalid_input else if w = 5 then Internal_error else Status_other w)"

definition put_status_state :: "status_update_state putter" where
  "put_status_state s = put_u32 (status_code (st_status s)) @ put_u64 (st_block_height s) @ put_array (st_uhs_id s)"

definition get_status_state :: "status_update_state getter" where
  "get_status_state bs = do {
     (w, r) \<leftarrow> get_u32 bs;
     (h, r) \<leftarrow> get_u64 r;
     (x, r) \<leftarrow> get_array hash_size r;
     Some (\<lparr>st_status = status_cast w, st_block_height = h, st_uhs_id = x\<rparr>, r) }"

definition sizeof_status_state :: nat where "sizeof_status_state = 48"

datatype wt_request = Status_update_request "(hash_t \<times> hash_t list) list" | Best_block_height_request
datatype wt_response = Status_request_check_success "(hash_t \<times> status_update_state list) list" | Best_block_height_response u64

definition put_wt_request :: "wt_request putter" where
  "put_wt_request req =
    (case req of
       Status_update_request m \<Rightarrow> put_u8 0 @ put_map put_array put_hashes m
     | Best_block_height_request \<Rightarrow> put_u8 1)"

text \<open>\<open>None\<close> is a failed read, or the end of the process: the reader of a variant asserts that the index has an alternative.\<close>

definition get_wt_request :: "wt_request getter" where
  "get_wt_request bs = do {
     (idx, r) \<leftarrow> get_u8 bs;
     if idx = 0 then do { (m, r) \<leftarrow> get_map (get_array hash_size) get_hashes r; Some (Status_update_request m, r) }
     else if idx = 1 then Some (Best_block_height_request, r)
     else None }"

definition put_wt_response :: "wt_response putter" where
  "put_wt_response resp =
    (case resp of
       Status_request_check_success m \<Rightarrow> put_u8 0 @ put_map put_array (put_vector put_status_state) m
     | Best_block_height_response h \<Rightarrow> put_u8 1 @ put_u64 h)"

definition get_wt_response :: "wt_response getter" where
  "get_wt_response bs = do {
     (idx, r) \<leftarrow> get_u8 bs;
     if idx = 0 then do {
       (m, r) \<leftarrow> get_map (get_array hash_size) (get_vector sizeof_status_state get_status_state) r;
       Some (Status_request_check_success m, r) }
     else if idx = 1 then do { (h, r) \<leftarrow> get_u64 r; Some (Best_block_height_response h, r) }
     else None }"

definition wf_status_state :: "status_update_state \<Rightarrow> bool" where
  "wf_status_state s \<longleftrightarrow> is_hash (st_uhs_id s) \<and> (\<forall>w. st_status s \<noteq> Status_other w)"

definition wf_wt_request :: "wt_request \<Rightarrow> bool" where
  "wf_wt_request req = (case req of Status_update_request m \<Rightarrow> wf_map (is_array hash_size) (wf_vector (is_array hash_size)) m | _ \<Rightarrow> True)"

definition wf_wt_response :: "wt_response \<Rightarrow> bool" where
  "wf_wt_response resp = (case resp of Status_request_check_success m \<Rightarrow> wf_map (is_array hash_size) (wf_vector wf_status_state) m | _ \<Rightarrow> True)"

lemma status_cast_code: "\<forall>w. s \<noteq> Status_other w \<Longrightarrow> status_cast (status_code s) = s"
  by (cases s) (simp_all add: status_cast_def status_code_def)

interpretation status_state_fmt: codec put_status_state get_status_state wf_status_state
proof (standard, goal_cases)
  case (1 x r)
  then show ?case
    by (simp add: put_status_state_def get_status_state_def wf_status_state_def u32.get_put u64.get_put hash.get_put status_cast_code)
next
  case (2 bs x r e)
  then show ?case
    by (auto simp: get_status_state_def bind_Some_pair u32.get_append u64.get_append hash.get_append)
qed

lemmas uhs_ids_codec = codec_map [OF hash.codec_axioms hashes_fmt.codec_axioms]

lemma states_codec: "codec (put_map put_array (put_vector put_status_state))
    (get_map (get_array hash_size) (get_vector sizeof_status_state get_status_state)) (wf_map (is_array hash_size) (wf_vector wf_status_state))"
  by (rule codec_map [OF hash.codec_axioms codec_vector [OF status_state_fmt.codec_axioms]])
     (simp_all add: sizeof_status_state_def sizeof_defs)

interpretation wt_request_fmt: codec put_wt_request get_wt_request wf_wt_request
proof (standard, goal_cases)
  case (1 x r)
  then show ?case
    by (cases x) (simp_all add: put_wt_request_def get_wt_request_def wf_wt_request_def u8.get_put codec.get_put [OF uhs_ids_codec])
next
  case (2 bs x r e)
  then obtain i r1 where i: "get_u8 bs = Some (i, r1)"
    by (auto simp: get_wt_request_def bind_Some_pair)
  show ?case
    using 2 unfolding get_wt_request_def i u8.get_append [OF i]
    by (auto simp: bind_Some_pair codec.get_append [OF uhs_ids_codec] split: if_splits)
qed

interpretation wt_response_fmt: codec put_wt_response get_wt_response wf_wt_response
proof (standard, goal_cases)
  case (1 x r)
  then show ?case
    by (cases x) (simp_all add: put_wt_response_def get_wt_response_def wf_wt_response_def u8.get_put u64.get_put
        codec.get_put [OF states_codec])
next
  case (2 bs x r e)
  then obtain i r1 where i: "get_u8 bs = Some (i, r1)"
    by (auto simp: get_wt_response_def bind_Some_pair)
  show ?case
    using 2 unfolding get_wt_response_def i u8.get_append [OF i]
    by (auto simp: bind_Some_pair u64.get_append codec.get_append [OF states_codec] split: if_splits)
qed

section \<open>Handlers of the controller\<close>

record wt_controller =
  wc_watchtower :: watchtower
  wc_last_blk_height :: u64

definition wc_add :: "wt_controller \<Rightarrow> block \<Rightarrow> wt_controller" where
  "wc_add c blk = c\<lparr>wc_last_blk_height := b_height blk, wc_watchtower := add_block (wc_watchtower c) blk\<rparr>"

text \<open>
  The missed blocks are requested from the archiver, whose answer to the request number \<open>time\<close>
  \<open>archive\<close> gives, until the received block is the next one. \<open>fuel\<close> bounds the number of requests.
\<close>

fun wt_catch_up ::
  "nat \<Rightarrow> (u64 \<Rightarrow> nat \<Rightarrow> block option) \<Rightarrow> nat \<Rightarrow> wt_controller \<Rightarrow> u64 \<Rightarrow> (wt_controller \<times> nat) option" where
  "wt_catch_up 0 archive time c height = None"
| "wt_catch_up (Suc fuel) archive time c height =
    (if height = wc_last_blk_height c + 1 then Some (c, time)
     else case archive (wc_last_blk_height c + 1) time of
            None \<Rightarrow> wt_catch_up fuel archive (Suc time) c height
          | Some blk \<Rightarrow> wt_catch_up fuel archive (Suc time) (wc_add c blk) height)"

definition wt_atomizer_handler ::
  "nat \<Rightarrow> (u64 \<Rightarrow> nat \<Rightarrow> block option) \<Rightarrow> nat \<Rightarrow> wt_controller \<Rightarrow> byte list \<Rightarrow> wt_controller option" where
  "wt_atomizer_handler fuel archive time c pkt =
    (case from_buffer get_block_fmt pkt of
       None \<Rightarrow> Some c
     | Some blk \<Rightarrow> do { (c', _) \<leftarrow> wt_catch_up fuel archive time c (b_height blk); Some (wc_add c' blk) })"

definition internal_server_handler :: "wt_controller \<Rightarrow> byte list \<Rightarrow> wt_controller" where
  "internal_server_handler c pkt =
    (case from_buffer (get_vector sizeof_wt_error get_wt_error) pkt of
       None \<Rightarrow> c
     | Some errs \<Rightarrow> c\<lparr>wc_watchtower := add_errors (wc_watchtower c) errs\<rparr>)"

section \<open>What the block cache knows\<close>

text \<open>
  A history in which hashes are used once: no two transactions have an input or an output in
  common, and no transaction spends an output of a later one or of its own.
\<close>

definition used_once :: "compact_tx list \<Rightarrow> bool" where
  "used_once ts \<longleftrightarrow> (\<forall>t \<in> set ts. set (c_inputs t) \<inter> set (m_uhs_outputs t) = {}) \<and>
     sorted_wrt (\<lambda>t u. set (c_inputs t) \<inter> set (c_inputs u) = {} \<and> set (m_uhs_outputs t) \<inter> set (m_uhs_outputs u) = {} \<and>
       set (c_inputs t) \<inter> set (m_uhs_outputs u) = {}) ts"

text \<open>The transactions of some blocks with their heights.\<close>

definition entries :: "block list \<Rightarrow> (u64 \<times> compact_tx) list" where
  "entries blks = concat (map (\<lambda>b. map (Pair (b_height b)) (b_transactions b)) blks)"

lemma entries_snoc: "entries (blks @ [b]) = entries blks @ map (Pair (b_height b)) (b_transactions b)"
  by (simp add: entries_def)

lemma snd_entries: "map snd (entries blks) = concat (map b_transactions blks)"
  by (induction blks) (simp_all add: entries_def comp_def)

text \<open>The indices hold exactly what the given transactions spend, and create without spending.\<close>

definition cache_indexes :: "block_cache \<Rightarrow> (u64 \<times> compact_tx) list \<Rightarrow> bool" where
  "cache_indexes c es \<longleftrightarrow>
     (\<forall>x h i. m_spent_ids c x = Some (h, i) \<longleftrightarrow> (\<exists>t. (h, t) \<in> set es \<and> x \<in> set (c_inputs t) \<and> i = m_id t)) \<and>
     (\<forall>x h i. m_unspent_ids c x = Some (h, i) \<longleftrightarrow>
        (\<exists>t. (h, t) \<in> set es \<and> x \<in> set (m_uhs_outputs t) \<and> i = m_id t) \<and> (\<forall>e \<in> set es. x \<notin> set (c_inputs (snd e))))"

lemma spent_None:
  assumes "cache_indexes c es" "\<forall>e \<in> set es. x \<notin> set (c_inputs (snd e))"
  shows "m_spent_ids c x = None"
proof (cases "m_spent_ids c x")
  case (Some p)
  then show ?thesis
    using assms unfolding cache_indexes_def by (cases p) fastforce
qed

lemma unspent_None:
  assumes "cache_indexes c es" "\<forall>e \<in> set es. x \<notin> set (m_uhs_outputs (snd e))"
  shows "m_unspent_ids c x = None"
proof (cases "m_unspent_ids c x")
  case (Some p)
  then show ?thesis
    using assms unfolding cache_indexes_def by (cases p) fastforce
qed

lemma foldl_remove: "foldl (\<lambda>m x. map_remove x m) m xs y = (if y \<in> set xs then None else m y)"
  by (induction xs arbitrary: m) (auto simp: map_remove_def)

lemma foldl_insert: "foldl (\<lambda>m x. map_insert x v m) m xs y = (if y \<in> set xs \<and> m y = None then Some v else m y)"
  by (induction xs arbitrary: m) (auto simp: map_insert_def)

lemma evict_tx_indexes:
  assumes c: "cache_indexes c ((h, t) # es)" and u: "used_once (t # map snd es)"
  shows "cache_indexes (evict_tx c t) es"
proof -
  have d: "set (c_inputs t) \<inter> set (c_inputs (snd e)) = {}" "set (m_uhs_outputs t) \<inter> set (m_uhs_outputs (snd e)) = {}"
    "set (c_inputs t) \<inter> set (m_uhs_outputs (snd e)) = {}" if "e \<in> set es" for e
    using u that by (auto simp: used_once_def)
  have "m_spent_ids (evict_tx c t) x = Some (k, i) \<longleftrightarrow> (\<exists>v. (k, v) \<in> set es \<and> x \<in> set (c_inputs v) \<and> i = m_id v)" for x k i
  proof (cases "x \<in> set (c_inputs t)")
    case True
    then have "\<not> (\<exists>v. (k, v) \<in> set es \<and> x \<in> set (c_inputs v))"
      using d(1) by fastforce
    then show ?thesis
      using True by (auto simp: evict_tx_def foldl_remove)
  next
    case False
    then show ?thesis
      using c by (auto simp: evict_tx_def foldl_remove cache_indexes_def)
  qed
  moreover have "m_unspent_ids (evict_tx c t) x = Some (k, i) \<longleftrightarrow>
      (\<exists>v. (k, v) \<in> set es \<and> x \<in> set (m_uhs_outputs v) \<and> i = m_id v) \<and> (\<forall>e \<in> set es. x \<notin> set (c_inputs (snd e)))" for x k i
  proof (cases "x \<in> set (m_uhs_outputs t)")
    case True
    then have "\<not> (\<exists>v. (k, v) \<in> set es \<and> x \<in> set (m_uhs_outputs v))"
      using d(2) by fastforce
    then show ?thesis
      using True by (auto simp: evict_tx_def foldl_remove)
  next
    case False
    moreover have "x \<notin> set (c_inputs t)" if "(k, v) \<in> set es" "x \<in> set (m_uhs_outputs v)" for v
      using d(3) [OF that(1)] that(2) by auto
    ultimately show ?thesis
      using c by (auto simp: evict_tx_def foldl_remove cache_indexes_def)
  qed
  ultimately show ?thesis
    by (simp add: cache_indexes_def)
qed

lemma index_tx_indexes:
  assumes c: "cache_indexes c es" and u: "used_once (map snd es @ [t])"
  shows "cache_indexes (index_tx h c t) (es @ [(h, t)])"
proof -
  have d: "set (c_inputs (snd e)) \<inter> set (c_inputs t) = {}" "set (m_uhs_outputs (snd e)) \<inter> set (m_uhs_outputs t) = {}"
    "set (c_inputs (snd e)) \<inter> set (m_uhs_outputs t) = {}" if "e \<in> set es" for e
    using u that by (auto simp: used_once_def sorted_wrt_append)
  have own: "set (c_inputs t) \<inter> set (m_uhs_outputs t) = {}"
    using u by (simp add: used_once_def)
  have sp: "m_spent_ids c x = None" if "x \<in> set (c_inputs t)" for x
    using d(1) that by (intro spent_None [OF c]) blast
  have un: "m_unspent_ids c x = None" if "x \<in> set (m_uhs_outputs t)" for x
    using d(2) that by (intro unspent_None [OF c]) blast
  have "m_spent_ids (index_tx h c t) x = Some (k, i) \<longleftrightarrow>
      (\<exists>v. (k, v) \<in> set (es @ [(h, t)]) \<and> x \<in> set (c_inputs v) \<and> i = m_id v)" for x k i
  proof (cases "x \<in> set (c_inputs t)")
    case True
    have "\<not> (\<exists>v. (k, v) \<in> set es \<and> x \<in> set (c_inputs v))"
      using d(1) True by fastforce
    then show ?thesis
      using True sp [OF True] by (auto simp: index_tx_def foldl_insert Let_def)
  next
    case False
    then show ?thesis
      using c by (auto simp: index_tx_def foldl_insert Let_def cache_indexes_def)
  qed
  moreover have "m_unspent_ids (index_tx h c t) x = Some (k, i) \<longleftrightarrow>
      (\<exists>v. (k, v) \<in> set (es @ [(h, t)]) \<and> x \<in> set (m_uhs_outputs v) \<and> i = m_id v) \<and>
      (\<forall>e \<in> set (es @ [(h, t)]). x \<notin> set (c_inputs (snd e)))" for x k i
  proof (cases "x \<in> set (m_uhs_outputs t)")
    case True
    have "\<not> (\<exists>v. (k, v) \<in> set es \<and> x \<in> set (m_uhs_outputs v))" "\<forall>e \<in> set es. x \<notin> set (c_inputs (snd e))"
      using d(2,3) True by fastforce+
    then show ?thesis
      using True own un [OF True] by (auto simp: index_tx_def foldl_insert foldl_remove Let_def)
  next
    case False
    then show ?thesis
      using c by (auto simp: index_tx_def foldl_insert foldl_remove Let_def cache_indexes_def)
  qed
  ultimately show ?thesis
    by (simp add: cache_indexes_def)
qed

lemma used_once_append: "used_once (ts @ us) \<Longrightarrow> used_once ts \<and> used_once us"
  by (auto simp: used_once_def sorted_wrt_append)

lemma used_once_Cons: "used_once (t # ts) \<Longrightarrow> used_once ts"
  by (auto simp: used_once_def)

lemma evict_all_indexes:
  "cache_indexes c (map (Pair h) ts @ es) \<Longrightarrow> used_once (ts @ map snd es) \<Longrightarrow> cache_indexes (foldl evict_tx c ts) es"
proof (induction ts arbitrary: c)
  case (Cons t ts)
  then show ?case
    using evict_tx_indexes [of c h t "map (Pair h) ts @ es"] used_once_Cons by (simp add: comp_def)
qed simp

lemma index_all_indexes:
  "cache_indexes c es \<Longrightarrow> used_once (map snd es @ ts) \<Longrightarrow> cache_indexes (foldl (index_tx h) c ts) (es @ map (Pair h) ts)"
proof (induction ts arbitrary: c es)
  case (Cons t ts)
  have "used_once (map snd es @ [t])"
    using Cons.prems(2) used_once_append [of "map snd es @ [t]" ts] by simp
  then show ?case
    using Cons.IH [of "index_tx h c t" "es @ [(h, t)]"] index_tx_indexes Cons.prems by simp
qed simp

lemma evict_all_same:
  "m_k_blks (foldl evict_tx c ts) = m_k_blks c" "m_blks (foldl evict_tx c ts) = m_blks c"
  "m_best_blk_height (foldl evict_tx c ts) = m_best_blk_height c"
  by (induction ts arbitrary: c) (simp_all add: evict_tx_def)

lemma index_all_same:
  "m_k_blks (foldl (index_tx h) c ts) = m_k_blks c" "m_blks (foldl (index_tx h) c ts) = m_blks c"
  "m_best_blk_height (foldl (index_tx h) c ts) = m_best_blk_height c"
  by (induction ts arbitrary: c) (simp_all add: index_tx_def Let_def)

lemma cache_indexes_blks [simp]: "cache_indexes (c\<lparr>m_blks := b\<rparr>) es = cache_indexes c es"
  "cache_indexes (c\<lparr>m_best_blk_height := h\<rparr>) es = cache_indexes c es"
  by (simp_all add: cache_indexes_def)

lemma push_block_indexes:
  assumes c: "cache_indexes c (entries (m_blks c))" and u: "used_once (concat (map b_transactions (m_blks c)) @ b_transactions blk)"
  shows "cache_indexes (push_block c blk) (entries (m_blks (push_block c blk)))"
    and "m_blks (push_block c blk) = (if m_k_blks c \<noteq> 0 \<and> length (m_blks c) = m_k_blks c then tl (m_blks c) else m_blks c) @ [blk]"
    and "m_k_blks (push_block c blk) = m_k_blks c" "m_best_blk_height (push_block c blk) = max (m_best_blk_height c) (b_height blk)"
proof -
  let ?full = "m_k_blks c \<noteq> 0 \<and> length (m_blks c) = m_k_blks c"
  let ?c = "if ?full then (foldl evict_tx c (b_transactions (hd (m_blks c))))\<lparr>m_blks := tl (m_blks c)\<rparr> else c"
  show blks: "m_blks (push_block c blk) = (if ?full then tl (m_blks c) else m_blks c) @ [blk]"
    and "m_k_blks (push_block c blk) = m_k_blks c" "m_best_blk_height (push_block c blk) = max (m_best_blk_height c) (b_height blk)"
    by (auto simp: push_block_def Let_def evict_all_same index_all_same)
  have "cache_indexes ?c (entries (m_blks ?c)) \<and> used_once (concat (map b_transactions (m_blks ?c)) @ b_transactions blk)"
  proof (cases ?full)
    case True
    then obtain b bs where b: "m_blks c = b # bs"
      by (cases "m_blks c") auto
    have "cache_indexes c (map (Pair (b_height b)) (b_transactions b) @ entries bs)"
      using c by (simp add: b entries_def)
    moreover have "used_once (b_transactions b @ map snd (entries bs))"
      using conjunct1 [OF used_once_append [OF u]] by (simp add: b snd_entries)
    ultimately have "cache_indexes (foldl evict_tx c (b_transactions b)) (entries bs)"
      by (rule evict_all_indexes)
    then show ?thesis
      using True u used_once_append [of "b_transactions b"] by (simp add: b)
  qed (use c u in auto)
  then show "cache_indexes (push_block c blk) (entries (m_blks (push_block c blk)))"
    using index_all_indexes [of "?c\<lparr>m_blks := m_blks ?c @ [blk]\<rparr>" "entries (m_blks ?c)" "b_transactions blk" "b_height blk"]
    unfolding blks by (auto simp: push_block_def Let_def snd_entries entries_snoc)
qed

definition push_all :: "nat \<Rightarrow> block list \<Rightarrow> block_cache" where
  "push_all k blks = foldl push_block (block_cache_init k) blks"

definition last_blocks :: "nat \<Rightarrow> block list \<Rightarrow> block list" where
  "last_blocks k blks = (if k = 0 then blks else drop (length blks - k) blks)"

lemma last_blocks_sub: "\<exists>pre. blks = pre @ last_blocks k blks"
  by (metis append_Nil append_take_drop_id last_blocks_def)

lemma push_all_indexes:
  "used_once (concat (map b_transactions blks)) \<Longrightarrow>
     m_k_blks (push_all k blks) = k \<and> m_blks (push_all k blks) = last_blocks k blks \<and>
     cache_indexes (push_all k blks) (entries (last_blocks k blks)) \<and>
     m_best_blk_height (push_all k blks) = foldl max 0 (map b_height blks)"
proof (induction blks rule: rev_induct)
  case Nil
  then show ?case
    by (simp add: push_all_def block_cache_init_def last_blocks_def cache_indexes_def entries_def)
next
  case (snoc blk blks)
  let ?c = "push_all k blks"
  obtain pre where pre: "blks = pre @ last_blocks k blks"
    using last_blocks_sub by blast
  have u: "used_once (concat (map b_transactions blks))"
    using snoc.prems used_once_append [of "concat (map b_transactions blks)"] by simp
  have IH: "m_k_blks ?c = k" "m_blks ?c = last_blocks k blks" "cache_indexes ?c (entries (m_blks ?c))"
      "m_best_blk_height ?c = foldl max 0 (map b_height blks)"
    using snoc.IH [OF u] by simp_all
  have "used_once (concat (map b_transactions (last_blocks k blks)) @ b_transactions blk)"
  proof -
    have "used_once (concat (map b_transactions pre) @ concat (map b_transactions (last_blocks k blks)) @ b_transactions blk)"
      using snoc.prems by (subst (asm) pre) simp
    then show ?thesis
      using used_once_append by blast
  qed
  note pb = push_block_indexes [OF IH(3), of blk, unfolded IH(2), OF this]
  have "(if k \<noteq> 0 \<and> length (last_blocks k blks) = k then tl (last_blocks k blks) else last_blocks k blks) @ [blk] =
      last_blocks k (blks @ [blk])"
    by (auto simp: last_blocks_def Suc_diff_le tl_drop drop_Suc)
  then show ?case
    using pb IH by (simp add: push_all_def)
qed

section \<open>Following the chain\<close>

text \<open>A controller that has seen the first \<open>h\<close> blocks of a chain.\<close>

definition wc_at :: "nat \<Rightarrow> block list \<Rightarrow> wt_controller \<Rightarrow> nat \<Rightarrow> bool" where
  "wc_at k chain c h \<longleftrightarrow> m_bc (wc_watchtower c) = push_all k (take h chain) \<and> wc_last_blk_height c = word_of_nat h"

lemma wc_add_at:
  assumes "chain_ok chain" "wc_at k chain c h" "h < length chain"
  shows "wc_at k chain (wc_add c (chain ! h)) (Suc h)" "m_ec (wc_watchtower (wc_add c (chain ! h))) = m_ec (wc_watchtower c)"
  using assms by (simp_all add: wc_at_def wc_add_def add_block_def push_all_def take_Suc_conv_app_nth chain_ok_def)

lemma wt_catch_up_at:
  assumes c: "chain_ok chain" "tip \<le> length chain" and a: "archive_ok archive chain tip avail"
    and s: "wc_at k chain s h" "Suc h \<le> tip" and fuel: "tip - h + (all_available tip avail - t) \<le> fuel"
  shows "\<exists>s' t'. wt_catch_up fuel archive t s (word_of_nat tip) = Some (s', t') \<and> wc_at k chain s' (tip - 1) \<and>
    m_ec (wc_watchtower s') = m_ec (wc_watchtower s)"
  using s fuel
proof (induction fuel arbitrary: s h t)
  case (Suc fuel)
  have bound: "tip < 2 ^ 64" "Suc h < 2 ^ 64"
    using c Suc.prems(2) by (auto simp: chain_ok_def)
  have last: "wc_last_blk_height s + 1 = word_of_nat (Suc h)"
    using Suc.prems(1) by (simp add: wc_at_def add.commute)
  have eq: "(word_of_nat tip :: u64) = word_of_nat (Suc h) \<longleftrightarrow> tip = Suc h"
    using bound by (metis unat_height)
  show ?case
  proof (cases "tip = Suc h")
    case True
    then show ?thesis
      using Suc.prems(1) last by simp
  next
    case False
    then have less: "Suc h < tip"
      using Suc.prems(2) by simp
    from archive_answers [OF a less, of t] show ?thesis
    proof (elim disjE conjE)
      assume ar: "archive (word_of_nat (Suc h)) t = None" and early: "t < all_available tip avail"
      have "tip - h + (all_available tip avail - Suc t) \<le> fuel"
        using Suc.prems(3) early by simp
      from Suc.IH [OF Suc.prems(1,2) this] show ?thesis
        using ar False eq last by (simp del: of_nat_Suc)
    next
      assume ar: "archive (word_of_nat (Suc h)) t = Some (chain ! h)"
      have h: "h < length chain" "Suc (Suc h) \<le> tip" "tip - Suc h + (all_available tip avail - Suc t) \<le> fuel"
        using c(2) Suc.prems(2,3) False by simp_all
      note add = wc_add_at [OF c(1) Suc.prems(1) h(1)]
      from Suc.IH [OF add(1) h(2,3)] show ?thesis
        using ar False eq last add(2) by (simp del: of_nat_Suc)
    qed
  qed
qed simp

section \<open>Properties\<close>

text \<open>C35: The watchtower follows the chain. It has recorded the first \<open>h\<close> blocks and receives the
  packet of a later block of the chain. The archiver is assumed to answer a request with the block of the chain or not at all, and to have each
  earlier block from some time on, a different time for each block. Then the handler returns after a number of requests that is bounded by the number
  of missing blocks and the time until the last of them is available, and the block cache is the one that results from recording all
  blocks of the chain up to the received one, in order; the errors are kept.\<close>

theorem watchtower_follows_chain:
  assumes "chain_ok chain" "tip \<le> length chain" "archive_ok archive chain tip avail" "wc_at k chain c h" "h < tip"
    and "wf_block (chain ! (tip - 1))" "tip - h + (all_available tip avail - t) \<le> fuel"
  shows "\<exists>c'. wt_atomizer_handler fuel archive t c (put_block (chain ! (tip - 1))) = Some c' \<and> wc_at k chain c' tip \<and>
    m_ec (wc_watchtower c') = m_ec (wc_watchtower c)"
proof -
  have tip: "Suc (tip - 1) = tip" "tip - 1 < length chain"
    using assms(2,5) by simp_all
  have h: "b_height (chain ! (tip - 1)) = word_of_nat tip"
    using assms(1) tip unfolding chain_ok_def by metis
  obtain c1 t1 where c1: "wt_catch_up fuel archive t c (word_of_nat tip) = Some (c1, t1)" "wc_at k chain c1 (tip - 1)"
      "m_ec (wc_watchtower c1) = m_ec (wc_watchtower c)"
    using wt_catch_up_at [OF assms(1-4) _ assms(7)] assms(5) by auto
  then show ?thesis
    using wc_add_at [OF assms(1) c1(2) tip(2)] tip(1) h block_fmt.from_buffer_put [OF assms(6), of "[]"]
    by (simp add: wt_atomizer_handler_def)
qed

lemma wc_at_sample: "wc_at 2 sample_chain \<lparr>wc_watchtower = watchtower_init 2 5, wc_last_blk_height = 0\<rparr> 0"
  by (simp add: wc_at_def watchtower_init_def push_all_def)

theorem watchtower_follows_chain_witness:
  "\<exists>c. wt_atomizer_handler 7 slow_archive 0 \<lparr>wc_watchtower = watchtower_init 2 5, wc_last_blk_height = 0\<rparr> (put_block (sample_chain ! 2)) = Some c \<and>
     m_bc (wc_watchtower c) = push_all 2 sample_chain"
proof -
  have wf: "wf_block (sample_chain ! 2)"
    by (simp add: sample_chain_def wf_block_def wf_vector_def sample_tx_def wf_compact_tx_def wf_map_def)
  have "take 3 sample_chain = sample_chain"
    by (simp add: sample_chain_def)
  then show ?thesis
    using watchtower_follows_chain [OF sample_chain_ok _ slow_archive_ok(1) wc_at_sample, where fuel = 7 and t = 0] wf
    by (auto simp: slow_archive_ok(2) sample_chain_def [THEN arg_cong [of _ _ length]] wc_at_def)
qed

text \<open>C33: A client learns exactly what the remembered blocks say about its transaction. If the block
  cache has recorded a history in which hashes are used once, and there is no error for the
  transaction, then the reply gives one state per requested identifier: spent at height \<open>h\<close> exactly if the
  transaction, in one of the remembered blocks, of height \<open>h\<close>, spends it; unspent at height \<open>h\<close> exactly
  if the transaction creates it in such a block and no remembered transaction spends it; and
  no history otherwise.\<close>

theorem status_update_exact:
  assumes u: "used_once (concat (map b_transactions blks))" and w: "m_bc w = push_all k blks" "ec_check_tx_id (m_ec w) i = None"
  shows "\<exists>f. handle_status_update_request w [(i, ids)] = [(i, map f ids)] \<and> (\<forall>x. st_uhs_id (f x) = x \<and>
    (\<forall>h. st_status (f x) = Spent \<and> st_block_height (f x) = h \<longleftrightarrow>
       (\<exists>t. (h, t) \<in> set (entries (last_blocks k blks)) \<and> m_id t = i \<and> x \<in> set (c_inputs t))) \<and>
    (\<forall>h. st_status (f x) = Unspent \<and> st_block_height (f x) = h \<longleftrightarrow>
       (\<exists>t. (h, t) \<in> set (entries (last_blocks k blks)) \<and> m_id t = i \<and> x \<in> set (m_uhs_outputs t)) \<and>
       (\<forall>e \<in> set (entries (last_blocks k blks)). x \<notin> set (c_inputs (snd e)))) \<and>
    st_status (f x) \<in> {Spent, Unspent, No_history})"
proof -
  let ?es = "entries (last_blocks k blks)"
  have idx: "cache_indexes (m_bc w) ?es"
    using push_all_indexes [OF u, of k] w(1) by simp
  then have sp: "m_spent_ids (m_bc w) x = Some (h, j) \<longleftrightarrow> (\<exists>t. (h, t) \<in> set ?es \<and> m_id t = j \<and> x \<in> set (c_inputs t))"
    and un: "m_unspent_ids (m_bc w) x = Some (h, j) \<longleftrightarrow>
      (\<exists>t. (h, t) \<in> set ?es \<and> m_id t = j \<and> x \<in> set (m_uhs_outputs t)) \<and> (\<forall>e \<in> set ?es. x \<notin> set (c_inputs (snd e)))" for x h j
    by (auto simp: cache_indexes_def)
  define f where "f = (\<lambda>x. hd (uhs_id_statuses w i False False (m_best_blk_height (m_bc w)) x))"
  have one: "uhs_id_statuses w i False False (m_best_blk_height (m_bc w)) x = [f x]" for x
    by (auto simp: f_def uhs_id_statuses_def Let_def split: option.splits if_splits)
  have "concat (map (uhs_id_statuses w i False False (m_best_blk_height (m_bc w))) ids) = map f ids"
    by (induction ids) (simp_all add: one)
  then have "handle_status_update_request w [(i, ids)] = [(i, map f ids)]"
    using w(2) by (simp add: handle_status_update_request_def check_uhs_id_statuses_def emplace_def)
  moreover have f: "st_uhs_id (f x) = x \<and>
      (\<forall>h. st_status (f x) = Spent \<and> st_block_height (f x) = h \<longleftrightarrow> m_spent_ids (m_bc w) x = Some (h, i)) \<and>
      (\<forall>h. st_status (f x) = Unspent \<and> st_block_height (f x) = h \<longleftrightarrow>
         m_spent_ids (m_bc w) x = None \<and> m_unspent_ids (m_bc w) x = Some (h, i)) \<and> st_status (f x) \<in> {Spent, Unspent, No_history}" for x
    by (auto simp: f_def uhs_id_statuses_def bc_check_spent_def bc_check_unspent_def Let_def split: option.splits)
  moreover have "m_spent_ids (m_bc w) x = None \<and> m_unspent_ids (m_bc w) x = Some (h, i) \<longleftrightarrow> m_unspent_ids (m_bc w) x = Some (h, i)" for x h
    using un spent_None [OF idx] by blast
  ultimately have "handle_status_update_request w [(i, ids)] = [(i, map f ids)] \<and> (\<forall>x. st_uhs_id (f x) = x \<and>
      (\<forall>h. st_status (f x) = Spent \<and> st_block_height (f x) = h \<longleftrightarrow> m_spent_ids (m_bc w) x = Some (h, i)) \<and>
      (\<forall>h. st_status (f x) = Unspent \<and> st_block_height (f x) = h \<longleftrightarrow> m_unspent_ids (m_bc w) x = Some (h, i)) \<and>
      st_status (f x) \<in> {Spent, Unspent, No_history})"
    by simp
  then show ?thesis
    unfolding sp un by (intro exI [of _ f])
qed

lemma sample_used_once: "used_once (concat (map b_transactions sample_chain))"
  by (simp add: used_once_def sample_chain_def sample_tx_def)

theorem status_update_exact_witness:
  "\<exists>s r. handle_status_update_request \<lparr>m_bc = push_all 2 sample_chain, m_ec = error_cache_init 5\<rparr>
       [(sample_hash 2, [sample_hash 6, sample_hash 7])] = [(sample_hash 2, [s, r])] \<and>
     st_status s = Spent \<and> st_block_height s = 3 \<and> st_status r = Unspent \<and> st_block_height r = 3"
proof -
  let ?w = "\<lparr>m_bc = push_all 2 sample_chain, m_ec = error_cache_init 5\<rparr>"
  have es: "entries (last_blocks 2 sample_chain) = [(2, sample_tx 1 [5] [6]), (3, sample_tx 2 [6] [7])]"
    by (simp add: last_blocks_def sample_chain_def entries_def)
  obtain f where f: "handle_status_update_request ?w [(sample_hash 2, [sample_hash 6, sample_hash 7])] =
        [(sample_hash 2, map f [sample_hash 6, sample_hash 7])]"
      "\<And>x h. st_status (f x) = Spent \<and> st_block_height (f x) = h \<longleftrightarrow>
         (\<exists>t. (h, t) \<in> set (entries (last_blocks 2 sample_chain)) \<and> m_id t = sample_hash 2 \<and> x \<in> set (c_inputs t))"
      "\<And>x h. st_status (f x) = Unspent \<and> st_block_height (f x) = h \<longleftrightarrow>
         (\<exists>t. (h, t) \<in> set (entries (last_blocks 2 sample_chain)) \<and> m_id t = sample_hash 2 \<and> x \<in> set (m_uhs_outputs t)) \<and>
         (\<forall>e \<in> set (entries (last_blocks 2 sample_chain)). x \<notin> set (c_inputs (snd e)))"
    using status_update_exact [OF sample_used_once, of ?w 2 "sample_hash 2" "[sample_hash 6, sample_hash 7]"]
    by (auto simp: ec_check_tx_id_def error_cache_init_def)
  have "st_status (f (sample_hash 6)) = Spent \<and> st_block_height (f (sample_hash 6)) = 3"
    unfolding f(2) es by (intro exI [of _ "sample_tx 2 [6] [7]"]) (simp add: sample_tx_def)
  moreover have "st_status (f (sample_hash 7)) = Unspent \<and> st_block_height (f (sample_hash 7)) = 3"
    unfolding f(3) es by (auto simp: sample_tx_def)
  ultimately show ?thesis
    using f(1) by simp
qed

text \<open>A transaction that is first reported with an error and then settled has two states. An error
  that arrives after the block is dropped, one that arrived before stays, so that a spent
  identifier is reported as rejected and as spent.\<close>

theorem settled_after_error_two_states:
  assumes "repeated_tx_filter (m_bc w) err = False" "e_tx_id err = m_id t" "x \<in> set (c_inputs t)"
    and "m_k_errs (m_ec w) = 0" "used_once (concat (map b_transactions (blks @ [blk])))" "m_bc w = push_all 0 blks"
    and "t \<in> set (b_transactions blk)" "ec_check_tx_id (m_ec w) (m_id t) = None"
  shows "\<exists>s r. uhs_id_statuses (add_block (add_errors w [err]) blk) (m_id t) False True h x = [s, r] \<and>
    st_status s \<in> {Invalid_input, Tx_rejected} \<and> st_status r = Spent \<and>
    ec_check_tx_id (m_ec (add_block (add_errors w [err]) blk)) (m_id t) = Some err"
proof -
  let ?w = "add_block (add_errors w [err]) blk"
  have bc: "m_bc ?w = push_all 0 (blks @ [blk])"
    using assms(6) by (simp add: add_block_def add_errors_def push_all_def)
  have "(b_height blk, t) \<in> set (entries (last_blocks 0 (blks @ [blk])))"
    using assms(7) by (simp add: last_blocks_def entries_def)
  then have "bc_check_spent (m_bc ?w) x = Some (b_height blk, m_id t)"
    using push_all_indexes [OF assms(5), of 0] assms(3) unfolding bc bc_check_spent_def cache_indexes_def by blast
  moreover have "ec_check_tx_id (m_ec ?w) (m_id t) = Some err"
    using assms(1,2,4,8)
    by (simp add: add_block_def add_errors_def push_errors_def push_error_def ec_check_tx_id_def map_insert_def Let_def)
  ultimately show ?thesis
    by (simp add: uhs_id_statuses_def Let_def)
qed

theorem settled_after_error_two_states_witness:
  "\<exists>s r. uhs_id_statuses (add_block (add_errors (watchtower_init 0 0) [\<lparr>e_tx_id = sample_hash 1, e_info = Error_inputs_dne [sample_hash 5]\<rparr>])
       (sample_chain ! 1)) (sample_hash 1) False True 0 (sample_hash 5) = [s, r] \<and>
     st_status s \<in> {Invalid_input, Tx_rejected} \<and> st_status r = Spent"
proof -
  let ?e = "\<lparr>e_tx_id = sample_hash 1, e_info = Error_inputs_dne [sample_hash 5]\<rparr>" and ?w = "watchtower_init 0 0"
  have "repeated_tx_filter (m_bc ?w) ?e = False" "m_k_errs (m_ec ?w) = 0" "m_bc ?w = push_all 0 []"
      "ec_check_tx_id (m_ec ?w) (sample_hash 1) = None"
    by (simp_all add: watchtower_init_def block_cache_init_def error_cache_init_def repeated_tx_filter_def error_uhs_ids_def
        bc_check_spent_def bc_check_unspent_def push_all_def ec_check_tx_id_def)
  moreover have "used_once (concat (map b_transactions ([] @ [sample_chain ! 1])))"
      "sample_tx 1 [5] [6] \<in> set (b_transactions (sample_chain ! 1))" "sample_hash 5 \<in> set (c_inputs (sample_tx 1 [5] [6]))"
      "m_id (sample_tx 1 [5] [6]) = sample_hash 1"
    by (simp_all add: used_once_def sample_chain_def sample_tx_def)
  ultimately show ?thesis
    using settled_after_error_two_states [of ?w ?e "sample_tx 1 [5] [6]" "sample_hash 5" "[]" "sample_chain ! 1" 0] by auto
qed

text \<open>The error cache forgets an error that it still holds. When a second error for the same
  transaction arrives, the index keeps the first; evicting the first removes the entry, and the
  second, although it is among the remembered errors, is no longer found.\<close>

theorem error_cache_forgets:
  assumes "e_tx_id e1 = e_tx_id e2" "e_tx_id e3 \<noteq> e_tx_id e2"
  shows "e2 \<in> set (m_errs (push_errors (error_cache_init 2) [e1, e2, e3])) \<and>
    ec_check_tx_id (push_errors (error_cache_init 2) [e1, e2, e3]) (e_tx_id e2) = None"
  using assms by (simp add: push_errors_def push_error_def error_cache_init_def ec_check_tx_id_def map_insert_def map_remove_def Let_def)

theorem error_cache_forgets_witness:
  "ec_check_tx_id (push_errors (error_cache_init 2) [\<lparr>e_tx_id = sample_hash 1, e_info = Error_sync\<rparr>,
     \<lparr>e_tx_id = sample_hash 1, e_info = Error_incomplete\<rparr>, \<lparr>e_tx_id = sample_hash 2, e_info = Error_sync\<rparr>]) (sample_hash 1) = None"
  using error_cache_forgets [of "\<lparr>e_tx_id = sample_hash 1, e_info = Error_sync\<rparr>"
      "\<lparr>e_tx_id = sample_hash 1, e_info = Error_incomplete\<rparr>" "\<lparr>e_tx_id = sample_hash 2, e_info = Error_sync\<rparr>"] by simp

text \<open>The reply is built entry by entry.\<close>

definition tx_states :: "watchtower \<Rightarrow> hash_t \<times> hash_t list \<Rightarrow> status_update_state list" where
  "tx_states w e =
    (let tx_err = ec_check_tx_id (m_ec w) (fst e);
         internal_err = (case tx_err of Some x \<Rightarrow> e_info x = Error_sync \<or> e_info x = Error_stxo_range | None \<Rightarrow> False)
     in check_uhs_id_statuses w (snd e) (fst e) internal_err (tx_err \<noteq> None) (m_best_blk_height (m_bc w)))"

lemma foldl_emplace_map:
  "distinct (map fst m) \<Longrightarrow> fst ` set acc \<inter> fst ` set m = {} \<Longrightarrow>
     foldl (\<lambda>acc e. emplace (fst e) (f e) acc) acc m = acc @ map (\<lambda>e. (fst e, f e)) m"
  by (induction m arbitrary: acc) (auto simp: emplace_def image_Un)

lemma handle_status_update_request_eq:
  assumes "distinct (map fst m)"
  shows "handle_status_update_request w m = map (\<lambda>e. (fst e, tx_states w e)) m"
proof -
  have "handle_status_update_request w m = foldl (\<lambda>acc e. emplace (fst e) (tx_states w e) acc) [] m"
    by (simp add: handle_status_update_request_def tx_states_def case_prod_unfold Let_def)
  then show ?thesis
    using foldl_emplace_map [OF assms, of "[]"] by simp
qed

lemma uhs_id_statuses_shape:
  assumes "s \<in> set (uhs_id_statuses w i e1 e2 b x)"
  shows "st_uhs_id s = x \<and> (\<forall>u. st_status s \<noteq> Status_other u)"
  using assms by (auto simp: uhs_id_statuses_def Let_def split: if_splits option.splits)

lemma uhs_id_statuses_length: "1 \<le> length (uhs_id_statuses w i e1 e2 b x) \<and> length (uhs_id_statuses w i e1 e2 b x) \<le> 2"
  by (auto simp: uhs_id_statuses_def Let_def split: option.splits)

lemma tx_states_length: "length (snd e) \<le> length (tx_states w e) \<and> length (tx_states w e) \<le> 2 * length (snd e)"
proof -
  have "length ids \<le> length (concat (map f ids)) \<and> length (concat (map f ids)) \<le> 2 * length ids"
    if "\<And>x. 1 \<le> length (f x) \<and> length (f x) \<le> 2" for f :: "hash_t \<Rightarrow> status_update_state list" and ids
  proof (induction ids)
    case (Cons a ids)
    then show ?case
      using that [of a] by simp
  qed simp
  then show ?thesis
    using uhs_id_statuses_length by (simp add: tx_states_def check_uhs_id_statuses_def Let_def)
qed

text \<open>Every well-formed request for the states of transactions gets a reply that the client reads
  back unchanged. It has the requested transactions as keys, in the same order, and for every
  requested identifier one or two states; a truncated reply is not accepted.\<close>

theorem watchtower_reply_readable:
  assumes m: "wf_wt_request (Status_update_request m)" "\<forall>(i, ids) \<in> set m. 2 * length ids < 2 ^ 64"
  shows "from_buffer get_wt_request (put_wt_request (Status_update_request m)) = Some (Status_update_request m) \<and>
    (let resp = Status_request_check_success (handle_status_update_request w m) in
       from_buffer get_wt_response (put_wt_response resp) = Some resp \<and>
       (\<forall>k < length (put_wt_response resp). get_wt_response (take k (put_wt_response resp)) = None)) \<and>
    map fst (handle_status_update_request w m) = map fst m \<and>
    (\<forall>n < length m. length (snd (m ! n)) \<le> length (snd (handle_status_update_request w m ! n)) \<and>
       length (snd (handle_status_update_request w m ! n)) \<le> 2 * length (snd (m ! n)))"
proof -
  have wf: "wf_map (is_array hash_size) (wf_vector (is_array hash_size)) m"
    using m(1) by (simp add: wf_wt_request_def)
  then have eq: "handle_status_update_request w m = map (\<lambda>e. (fst e, tx_states w e)) m"
    by (intro handle_status_update_request_eq) (simp add: wf_map_def)
  have "wf_vector wf_status_state (tx_states w e)" if e: "e \<in> set m" for e
  proof -
    have ids: "wf_vector (is_array hash_size) (snd e)" "2 * length (snd e) < 2 ^ 64"
      using wf m(2) e by (auto simp: wf_map_def)
    have "wf_status_state s" if "s \<in> set (tx_states w e)" for s
      using that ids(1) uhs_id_statuses_shape
      by (fastforce simp: tx_states_def check_uhs_id_statuses_def Let_def wf_status_state_def wf_vector_def)
    then show ?thesis
      using tx_states_length [of e w] ids(2) by (simp add: wf_vector_def)
  qed
  then have "wf_wt_response (Status_request_check_success (handle_status_update_request w m))"
    using wf unfolding eq by (auto simp: wf_wt_response_def wf_map_def comp_def)
  then show ?thesis
    using wt_request_fmt.from_buffer_put [OF m(1), of "[]"] wt_response_fmt.from_buffer_put [of _ "[]"]
      wt_response_fmt.truncated_rejected tx_states_length
    by (auto simp: Let_def eq comp_def)
qed

theorem watchtower_reply_readable_witness:
  "from_buffer get_wt_response (put_wt_response (Status_request_check_success
       (handle_status_update_request (watchtower_init 2 5) [(sample_hash 1, [sample_hash 5])]))) =
     Some (Status_request_check_success (handle_status_update_request (watchtower_init 2 5) [(sample_hash 1, [sample_hash 5])]))"
  using watchtower_reply_readable [of "[(sample_hash 1, [sample_hash 5])]" "watchtower_init 2 5"]
  by (simp add: wf_wt_request_def wf_map_def wf_vector_def Let_def)

end
