(* ===== verification/Distributed_Tx.thy ===== *)
theory Distributed_Tx
  imports Locking_Shard
begin

text \<open>
  The two-phase commit of one batch by a coordinator
  (\<open>uhs/twophase/coordinator/distributed_tx.cpp\<close>) over the list of its locking shards. The
  asynchronous calls of one phase go to different shards and all of them are started before
  the first result is looked at, so a phase is the list of the calls. The callbacks that
  replicate the phase among the coordinators are functions on a state of their own, which
  \<open>execute\<close> threads through the phases. \<open>None\<close> is the end of a process by a \<open>fatal\<close> log call or
  a failed assertion, in the coordinator, in a callback or in a shard.
\<close>

section \<open>State\<close>

datatype dtx_state = Dtx_start | Dtx_prepare | Dtx_commit | Dtx_discard | Dtx_done | Dtx_failed

record distributed_tx =
  m_dtx_id :: hash_t
  d_txs :: "compact_tx list list"
  m_full_txs :: "compact_tx list"
  m_tx_idxs :: "nat list list"
  m_state :: dtx_state
  m_complete_txs :: "bool list"

text \<open>The callbacks; \<open>None\<close> is one that is not set.\<close>

record 'w dtx_callbacks =
  prepare_cb :: "('w \<Rightarrow> hash_t \<Rightarrow> compact_tx list \<Rightarrow> (bool \<times> 'w) option) option"
  commit_cb :: "('w \<Rightarrow> hash_t \<Rightarrow> bool list \<Rightarrow> nat list list \<Rightarrow> (bool \<times> 'w) option) option"
  discard_cb :: "('w \<Rightarrow> hash_t \<Rightarrow> (bool \<times> 'w) option) option"
  done_cb :: "('w \<Rightarrow> hash_t \<Rightarrow> (bool \<times> 'w) option) option"

definition no_callbacks :: "'w dtx_callbacks" where
  "no_callbacks = \<lparr>prepare_cb = None, commit_cb = None, discard_cb = None, done_cb = None\<rparr>"

text \<open>The guard \<open>if(m_cb) { auto res = m_cb(..); if(!res) .. }\<close> that opens every phase.\<close>

definition call_prepare_cb :: "'w dtx_callbacks \<Rightarrow> 'w \<Rightarrow> distributed_tx \<Rightarrow> (bool \<times> 'w) option" where
  "call_prepare_cb cb w d =
    (case prepare_cb cb of None \<Rightarrow> Some (True, w) | Some f \<Rightarrow> f w (m_dtx_id d) (m_full_txs d))"

definition call_commit_cb :: "'w dtx_callbacks \<Rightarrow> 'w \<Rightarrow> bool list \<Rightarrow> distributed_tx \<Rightarrow> (bool \<times> 'w) option" where
  "call_commit_cb cb w complete_txs d =
    (case commit_cb cb of None \<Rightarrow> Some (True, w) | Some f \<Rightarrow> f w (m_dtx_id d) complete_txs (m_tx_idxs d))"

definition call_discard_cb :: "'w dtx_callbacks \<Rightarrow> 'w \<Rightarrow> distributed_tx \<Rightarrow> (bool \<times> 'w) option" where
  "call_discard_cb cb w d = (case discard_cb cb of None \<Rightarrow> Some (True, w) | Some f \<Rightarrow> f w (m_dtx_id d))"

definition call_done_cb :: "'w dtx_callbacks \<Rightarrow> 'w \<Rightarrow> distributed_tx \<Rightarrow> (bool \<times> 'w) option" where
  "call_done_cb cb w d = (case done_cb cb of None \<Rightarrow> Some (True, w) | Some f \<Rightarrow> f w (m_dtx_id d))"

text \<open>The constructor. It asserts that there are shards, which the configuration check of the coordinator ensures.\<close>

definition distributed_tx_init :: "hash_t \<Rightarrow> locking_shard list \<Rightarrow> distributed_tx" where
  "distributed_tx_init dtx_id shards =
    \<lparr>m_dtx_id = dtx_id, d_txs = replicate (length shards) [], m_full_txs = [],
     m_tx_idxs = replicate (length shards) [], m_state = Dtx_start, m_complete_txs = []\<rparr>"

lemma call_cb_simps [simp]:
  "call_prepare_cb no_callbacks w D = Some (True, w)" "call_commit_cb no_callbacks w c D = Some (True, w)"
  "call_discard_cb no_callbacks w D = Some (True, w)" "call_done_cb no_callbacks w D = Some (True, w)"
  by (simp_all add: no_callbacks_def call_prepare_cb_def call_commit_cb_def call_discard_cb_def call_done_cb_def)

section \<open>Building a batch\<close>

definition active :: "locking_shard \<Rightarrow> compact_tx \<Rightarrow> bool" where
  "active shard tx \<longleftrightarrow> in_shard shard (m_id tx) \<or> list_ex (in_shard shard) (c_inputs tx) \<or>
     list_ex (in_shard shard) (m_uhs_outputs tx)"

definition add_tx :: "locking_shard list \<Rightarrow> distributed_tx \<Rightarrow> compact_tx \<Rightarrow> distributed_tx" where
  "add_tx shards d tx =
    d\<lparr>d_txs := map2 (\<lambda>shard txs. if active shard tx then txs @ [tx] else txs) shards (d_txs d),
      m_tx_idxs := map2 (\<lambda>shard idxs. if active shard tx then idxs @ [length (m_full_txs d)] else idxs)
                     shards (m_tx_idxs d),
      m_full_txs := m_full_txs d @ [tx]\<rparr>"

section \<open>Phases\<close>

fun lock_shards ::
  "secp256k1 \<Rightarrow> hash_t \<Rightarrow> locking_shard list \<Rightarrow> compact_tx list list \<Rightarrow> nat list list
     \<Rightarrow> ((bool list option \<times> nat list) list \<times> locking_shard list) option" where
  "lock_shards S dtx_id (s # ss) (txs # tss) (idxs # ixs) = do {
     (rs, ss') \<leftarrow> lock_shards S dtx_id ss tss ixs;
     if idxs = [] then Some (rs, s # ss')
     else do {
       (r, s') \<leftarrow> lock_outputs S s txs dtx_id;
       Some ((r, idxs) # rs, s' # ss') } }"
| "lock_shards S dtx_id ss _ _ = Some ([], ss)"

text \<open>Merging the answers of the shards: \<open>ret[m_tx_idxs[..][i]] = false\<close> for every false answer.\<close>

fun clear_flags :: "bool list \<Rightarrow> bool list \<Rightarrow> nat list \<Rightarrow> bool list" where
  "clear_flags ret (b # bs) (i # is) = clear_flags (if b then ret else ret[i := False]) bs is"
| "clear_flags ret _ _ = ret"

fun gather :: "bool list \<Rightarrow> (bool list option \<times> nat list) list \<Rightarrow> bool list option option" where
  "gather ret [] = Some (Some ret)"
| "gather ret ((r, idxs) # rest) =
    (case r of
       None \<Rightarrow> Some None
     | Some res \<Rightarrow> if length res \<noteq> length idxs then None else gather (clear_flags ret res idxs) rest)"

definition prepare ::
  "secp256k1 \<Rightarrow> 'w dtx_callbacks \<Rightarrow> 'w \<Rightarrow> distributed_tx \<Rightarrow> locking_shard list
     \<Rightarrow> (bool list option \<times> 'w \<times> distributed_tx \<times> locking_shard list) option" where
  "prepare S cb w d ss = do {
     (ok, w') \<leftarrow> call_prepare_cb cb w d;
     if \<not> ok then Some (None, w', d\<lparr>m_state := Dtx_failed\<rparr>, ss)
     else do {
       (rs, ss') \<leftarrow> lock_shards S (m_dtx_id d) ss (d_txs d) (m_tx_idxs d);
       r \<leftarrow> gather (replicate (length (m_full_txs d)) True) rs;
       let d' = d\<lparr>d_txs := map2 (\<lambda>txs idxs. if idxs = [] then txs else []) (d_txs d) (m_tx_idxs d)\<rparr>;
       case r of
         None \<Rightarrow> Some (None, w', d'\<lparr>m_state := Dtx_failed\<rparr>, ss')
       | Some ret \<Rightarrow> Some (Some ret, w', d'\<lparr>m_state := Dtx_commit\<rparr>, ss') } }"

fun apply_shards ::
  "hash_t \<Rightarrow> bool list \<Rightarrow> locking_shard list \<Rightarrow> nat list list \<Rightarrow> (bool list \<times> locking_shard list) option" where
  "apply_shards dtx_id complete_txs (s # ss) (idxs # ixs) = do {
     (rs, ss') \<leftarrow> apply_shards dtx_id complete_txs ss ixs;
     if idxs = [] then Some (rs, s # ss')
     else do {
       (r, s') \<leftarrow> apply_outputs s (map (\<lambda>j. complete_txs ! j) idxs) dtx_id;
       Some (r # rs, s' # ss') } }"
| "apply_shards dtx_id complete_txs ss _ = Some ([], ss)"

definition commit ::
  "'w dtx_callbacks \<Rightarrow> 'w \<Rightarrow> bool list \<Rightarrow> distributed_tx \<Rightarrow> locking_shard list
     \<Rightarrow> (bool \<times> 'w \<times> distributed_tx \<times> locking_shard list) option" where
  "commit cb w complete_txs d ss = do {
     (ok, w') \<leftarrow> call_commit_cb cb w complete_txs d;
     if \<not> ok then Some (False, w', d\<lparr>m_state := Dtx_failed\<rparr>, ss)
     else do {
       (rs, ss') \<leftarrow> apply_shards (m_dtx_id d) complete_txs ss (m_tx_idxs d);
       if list_all id rs then Some (True, w', d\<lparr>m_state := Dtx_discard\<rparr>, ss')
       else Some (False, w', d\<lparr>m_state := Dtx_failed\<rparr>, ss') } }"

fun discard_shards :: "hash_t \<Rightarrow> locking_shard list \<Rightarrow> nat list list \<Rightarrow> bool list \<times> locking_shard list" where
  "discard_shards dtx_id (s # ss) (idxs # ixs) =
    (let (rs, ss') = discard_shards dtx_id ss ixs in
     if idxs = [] then (rs, s # ss')
     else let (r, s') = discard_dtx s dtx_id in (r # rs, s' # ss'))"
| "discard_shards dtx_id ss _ = ([], ss)"

definition discard ::
  "'w dtx_callbacks \<Rightarrow> 'w \<Rightarrow> distributed_tx \<Rightarrow> locking_shard list
     \<Rightarrow> (bool \<times> 'w \<times> distributed_tx \<times> locking_shard list) option" where
  "discard cb w d ss = do {
     (ok, w') \<leftarrow> call_discard_cb cb w d;
     if \<not> ok then Some (False, w', d\<lparr>m_state := Dtx_failed\<rparr>, ss)
     else let (rs, ss') = discard_shards (m_dtx_id d) ss (m_tx_idxs d) in
       if \<not> list_all id rs then Some (False, w', d\<lparr>m_state := Dtx_failed\<rparr>, ss')
       else do {
         (ok', w'') \<leftarrow> call_done_cb cb w' d;
         if \<not> ok' then Some (False, w'', d\<lparr>m_state := Dtx_failed\<rparr>, ss')
         else Some (True, w'', d\<lparr>m_state := Dtx_done\<rparr>, ss') } }"

text \<open>The three conditional statements of \<open>execute\<close>, each with its early return.\<close>

definition execute_prepare ::
  "secp256k1 \<Rightarrow> 'w dtx_callbacks \<Rightarrow> 'w \<Rightarrow> distributed_tx \<Rightarrow> locking_shard list
     \<Rightarrow> (bool \<times> 'w \<times> distributed_tx \<times> locking_shard list) option" where
  "execute_prepare S cb w d ss =
    (if m_state d = Dtx_prepare \<or> m_state d = Dtx_start
     then do {
       (res, w1, d1, ss1) \<leftarrow> prepare S cb w d ss;
       case res of
         None \<Rightarrow> Some (False, w1, d1, ss1)
       | Some c \<Rightarrow> if length c \<noteq> length (m_full_txs d1) then None
                   else Some (True, w1, d1\<lparr>m_complete_txs := c\<rparr>, ss1) }
     else Some (True, w, d, ss))"

definition execute_commit ::
  "'w dtx_callbacks \<Rightarrow> 'w \<Rightarrow> distributed_tx \<Rightarrow> locking_shard list
     \<Rightarrow> (bool \<times> 'w \<times> distributed_tx \<times> locking_shard list) option" where
  "execute_commit cb w d ss =
    (if m_state d = Dtx_commit then commit cb w (m_complete_txs d) d ss else Some (True, w, d, ss))"

definition execute_discard ::
  "'w dtx_callbacks \<Rightarrow> 'w \<Rightarrow> distributed_tx \<Rightarrow> locking_shard list
     \<Rightarrow> (bool \<times> 'w \<times> distributed_tx \<times> locking_shard list) option" where
  "execute_discard cb w d ss =
    (if m_state d = Dtx_discard then discard cb w d ss else Some (True, w, d, ss))"

definition execute ::
  "secp256k1 \<Rightarrow> 'w dtx_callbacks \<Rightarrow> 'w \<Rightarrow> distributed_tx \<Rightarrow> locking_shard list
     \<Rightarrow> (bool list option \<times> 'w \<times> distributed_tx \<times> locking_shard list) option" where
  "execute S cb w d ss = do {
     (ok1, w1, d1, ss1) \<leftarrow> execute_prepare S cb w d ss;
     if \<not> ok1 then Some (None, w1, d1, ss1)
     else do {
       (ok2, w2, d2, ss2) \<leftarrow> execute_commit cb w1 d1 ss1;
       if \<not> ok2 then Some (None, w2, d2, ss2)
       else do {
         (ok3, w3, d3, ss3) \<leftarrow> execute_discard cb w2 d2 ss2;
         if \<not> ok3 then Some (None, w3, d3, ss3) else Some (Some (m_complete_txs d3), w3, d3, ss3) } } }"

section \<open>Recovery\<close>

definition recover_prepare ::
  "locking_shard list \<Rightarrow> distributed_tx \<Rightarrow> compact_tx list \<Rightarrow> distributed_tx" where
  "recover_prepare shards d txs = foldl (add_tx shards) (d\<lparr>m_state := Dtx_prepare\<rparr>) txs"

definition recover_commit :: "distributed_tx \<Rightarrow> bool list \<Rightarrow> nat list list \<Rightarrow> distributed_tx" where
  "recover_commit d complete_txs tx_idxs =
    d\<lparr>m_state := Dtx_commit, m_tx_idxs := tx_idxs, m_complete_txs := complete_txs\<rparr>"

definition recover_discard :: "distributed_tx \<Rightarrow> distributed_tx" where
  "recover_discard d = d\<lparr>m_state := Dtx_discard\<rparr>"

definition dtx_size :: "distributed_tx \<Rightarrow> nat" where
  "dtx_size d = max (length (m_full_txs d)) (length (m_complete_txs d))"

section \<open>Routing\<close>

text \<open>
  Every shard gets, in order, the transactions that touch its range, and its index vector
  points to them in the whole batch.
\<close>

definition routed :: "locking_shard list \<Rightarrow> distributed_tx \<Rightarrow> bool" where
  "routed ss d \<longleftrightarrow>
     d_txs d = map (\<lambda>s. filter (active s) (m_full_txs d)) ss \<and>
     m_tx_idxs d = map (\<lambda>s. filter (\<lambda>k. active s (m_full_txs d ! k)) [0..<length (m_full_txs d)]) ss"

lemma filter_as_indices: "filter P xs = map ((!) xs) (filter (\<lambda>k. P (xs ! k)) [0..<length xs])"
proof (induction xs rule: rev_induct)
  case (snoc x xs)
  have "filter (\<lambda>k. P ((xs @ [x]) ! k)) [0..<length xs] = filter (\<lambda>k. P (xs ! k)) [0..<length xs]"
    by (rule filter_cong) (auto simp: nth_append)
  moreover have "map ((!) (xs @ [x])) (filter (\<lambda>k. P (xs ! k)) [0..<length xs]) =
      map ((!) xs) (filter (\<lambda>k. P (xs ! k)) [0..<length xs])"
    by (rule map_cong) (auto simp: nth_append)
  ultimately show ?case
    using snoc by simp
qed simp

lemma routed_init: "routed ss (distributed_tx_init i ss)"
  by (simp add: routed_def distributed_tx_init_def map_replicate_const)

lemma map2_map: "map2 f xs (map g xs) = map (\<lambda>x. f x (g x)) xs"
  by (induction xs) auto

lemma routed_add_tx:
  assumes "routed ss d"
  shows "routed ss (add_tx ss d tx)"
proof -
  have "filter (\<lambda>k. active s ((m_full_txs d @ [tx]) ! k)) [0..<length (m_full_txs d)] =
      filter (\<lambda>k. active s (m_full_txs d ! k)) [0..<length (m_full_txs d)]" for s
    by (rule filter_cong) (auto simp: nth_append)
  then show ?thesis
    using assms by (auto simp: routed_def add_tx_def map2_map)
qed

lemma routed_add_txs:
  "routed ss d \<Longrightarrow> routed ss (foldl (add_tx ss) d txs) \<and>
     m_full_txs (foldl (add_tx ss) d txs) = m_full_txs d @ txs \<and>
     m_dtx_id (foldl (add_tx ss) d txs) = m_dtx_id d \<and>
     m_state (foldl (add_tx ss) d txs) = m_state d"
proof (induction txs arbitrary: d)
  case (Cons t txs)
  then show ?case
    using Cons.IH [OF routed_add_tx [OF Cons.prems, of t]] by (simp add: add_tx_def)
qed simp

lemma routed_txs: "routed ss d \<Longrightarrow> i < length ss \<Longrightarrow> d_txs d ! i = map ((!) (m_full_txs d)) (m_tx_idxs d ! i)"
  using filter_as_indices [of "active (ss ! i)" "m_full_txs d"] by (simp add: routed_def)

section \<open>Merging the answers\<close>

lemma length_clear_flags [simp]: "length (clear_flags ret bs is) = length ret"
  by (induction ret bs "is" rule: clear_flags.induct) auto

lemma clear_flags_nth:
  "length bs = length is \<Longrightarrow> k < length ret \<Longrightarrow>
     clear_flags ret bs is ! k \<longleftrightarrow> ret ! k \<and> (\<forall>j < length is. is ! j = k \<longrightarrow> bs ! j)"
proof (induction ret bs "is" rule: clear_flags.induct)
  case (1 ret b bs i "is")
  then show ?case
    by (cases "i = k") (auto simp: All_less_Suc2)
qed auto

lemma gather_Some:
  assumes "\<forall>(r, idxs) \<in> set rs. \<exists>res. r = Some res \<and> length res = length idxs"
  shows "\<exists>ret'. gather ret rs = Some (Some ret') \<and> length ret' = length ret \<and>
    (\<forall>k < length ret. ret' ! k \<longleftrightarrow> ret ! k \<and>
       (\<forall>(r, idxs) \<in> set rs. \<forall>j < length idxs. idxs ! j = k \<longrightarrow> the r ! j))"
  using assms
proof (induction rs arbitrary: ret)
  case (Cons x rs)
  obtain res idxs where x: "x = (Some res, idxs)" "length res = length idxs"
    using Cons.prems by (cases x) auto
  then show ?case
    using Cons.IH [of "clear_flags ret res idxs"] Cons.prems by (auto simp: clear_flags_nth)
qed simp

section \<open>The calls of a phase\<close>

lemma lock_shards_eq:
  assumes "length tss = length ss" "length ixs = length ss"
    and "\<And>i. i < length ss \<Longrightarrow> ixs ! i \<noteq> [] \<Longrightarrow> lock_outputs S (ss ! i) (tss ! i) d = Some (R i, F i)"
    and "\<And>i. i < length ss \<Longrightarrow> ixs ! i = [] \<Longrightarrow> F i = ss ! i"
  shows "lock_shards S d ss tss ixs =
    Some (map (\<lambda>i. (R i, ixs ! i)) (filter (\<lambda>i. ixs ! i \<noteq> []) [0..<length ss]), map F [0..<length ss])"
  using assms
proof (induction S d ss tss ixs arbitrary: R F rule: lock_shards.induct)
  case (1 S d s ss ts tss idxs ixs)
  have upt: "[0..<length (s # ss)] = 0 # map Suc [0..<length ss]"
    by (simp add: upt_conv_Cons map_Suc_upt del: upt_Suc)
  have "lock_shards S d ss tss ixs =
      Some (map (\<lambda>i. (R (Suc i), ixs ! i)) (filter (\<lambda>i. ixs ! i \<noteq> []) [0..<length ss]),
            map (\<lambda>i. F (Suc i)) [0..<length ss])"
    using 1(2,3) 1(4) [of "Suc i" for i] 1(5) [of "Suc i" for i] by (intro 1(1)) auto
  then show ?case
    using 1(4) [of 0] 1(5) [of 0] unfolding upt by (auto simp: filter_map comp_def)
qed auto

lemma apply_shards_eq:
  assumes "length ixs = length ss"
    and "\<And>i. i < length ss \<Longrightarrow> ixs ! i \<noteq> [] \<Longrightarrow>
      apply_outputs (ss ! i) (map (\<lambda>j. c ! j) (ixs ! i)) d = Some (True, F i)"
    and "\<And>i. i < length ss \<Longrightarrow> ixs ! i = [] \<Longrightarrow> F i = ss ! i"
  shows "\<exists>rs. apply_shards d c ss ixs = Some (rs, map F [0..<length ss]) \<and> list_all id rs"
  using assms
proof (induction d c ss ixs arbitrary: F rule: apply_shards.induct)
  case (1 d c s ss idxs ixs)
  have upt: "[0..<length (s # ss)] = 0 # map Suc [0..<length ss]"
    by (simp add: upt_conv_Cons map_Suc_upt del: upt_Suc)
  have "\<exists>rs. apply_shards d c ss ixs = Some (rs, map (\<lambda>i. F (Suc i)) [0..<length ss]) \<and> list_all id rs"
    using 1(2) 1(3) [of "Suc i" for i] 1(4) [of "Suc i" for i] by (intro 1(1)) auto
  then show ?case
    using 1(3) [of 0] 1(4) [of 0] unfolding upt by (auto simp: comp_def list_all_iff)
qed auto

lemma discard_shards_eq:
  assumes "length ixs = length ss" "\<And>s. s \<in> set ss \<Longrightarrow> m_running s"
  shows "\<exists>rs. discard_shards d ss ixs =
      (rs, map2 (\<lambda>s ix. if ix = [] then s else s\<lparr>m_applied_dtxs := m_applied_dtxs s - {d}\<rparr>) ss ixs) \<and>
    list_all id rs"
  using assms
  by (induction d ss ixs rule: discard_shards.induct) (auto simp: discard_dtx_def)

section \<open>A batch on one shard\<close>

text \<open>
  The transactions of a batch do not conflict with each other: no transaction lists an input
  twice, no two spend the same input, and none spends what another creates.
\<close>

definition batch_ok :: "compact_tx list \<Rightarrow> bool" where
  "batch_ok ts \<longleftrightarrow> (\<forall>t \<in> set ts. distinct (c_inputs t)) \<and>
     sorted_wrt (\<lambda>t u. set (c_inputs t) \<inter> set (c_inputs u) = {}) ts \<and>
     (\<forall>t \<in> set ts. \<forall>u \<in> set ts. set (m_uhs_outputs t) \<inter> set (c_inputs u) = {})"

text \<open>The shard runs, does not know the batch yet, and other batches hold none of its hashes.\<close>

definition ready :: "locking_shard \<Rightarrow> hash_t \<Rightarrow> compact_tx list \<Rightarrow> bool" where
  "ready s d ts \<longleftrightarrow> shard_inv s \<and> m_running s \<and> m_prepared_dtxs s d = None \<and>
     (\<forall>t \<in> set ts. (set (c_inputs t) \<union> set (m_uhs_outputs t)) \<inter> m_locked s = {})"

lemma batch_ok_filter: "batch_ok ts \<Longrightarrow> batch_ok (filter P ts)"
  by (auto simp: batch_ok_def sorted_wrt_filter)

lemma ready_filter: "ready s d ts \<Longrightarrow> ready s d (filter P ts)"
  by (auto simp: ready_def)

lemma batch_ok_disjoint:
  assumes "batch_ok ts" "i < length ts" "j < length ts" "i \<noteq> j"
  shows "set (c_inputs (ts ! i)) \<inter> set (c_inputs (ts ! j)) = {}"
proof -
  have sw: "sorted_wrt (\<lambda>t u. set (c_inputs t) \<inter> set (c_inputs u) = {}) ts"
    using assms(1) by (simp add: batch_ok_def)
  show ?thesis
  proof (cases "i < j")
    case True
    then show ?thesis
      using sorted_wrt_nth_less [OF sw True assms(3)] by simp
  next
    case False
    then show ?thesis
      using sorted_wrt_nth_less [OF sw, of j i] assms by (simp add: Int_commute)
  qed
qed

lemma claims_subset: "claims s ret ts i \<subseteq> {h. i < length ts \<and> h \<in> set (c_inputs (ts ! i))}"
  by (auto simp: claims_def shard_hashes_def)

text \<open>What a shard answers to the lock of a ready batch.\<close>

definition grants :: "secp256k1 \<Rightarrow> locking_shard \<Rightarrow> compact_tx \<Rightarrow> bool" where
  "grants S s t \<longleftrightarrow>
     check_attestations S t (m_sentinel_public_keys s) (m_attestation_threshold s) \<and>
     shard_ins s t \<subseteq> m_uhs s"

lemma lock_ready:
  assumes "ready s d ts" "batch_ok ts"
  obtains s1 where "lock_outputs S s ts d = Some (Some (map (grants S s) ts), s1)"
    "m_prepared_dtxs s1 d = Some \<lparr>m_txs = ts, m_results = map (grants S s) ts\<rparr>" "m_running s1"
    "m_output_range s1 = m_output_range s" "shard_inv s1" "ledger s1 = ledger s"
    "m_locked s1 = m_locked s \<union> (\<Union>i. claims s (map (grants S s) ts) ts i)"
proof -
  obtain ret0 s0 where "lock_txs S s ts = Some (ret0, s0)"
    using lock_txs_total assms(2) unfolding batch_ok_def by metis
  then obtain res s1 where lock: "lock_outputs S s ts d = Some (res, s1)"
    using assms(1) by (simp add: lock_outputs_def ready_def)
  have run: "m_running s" "m_prepared_dtxs s d = None" and inv: "shard_inv s"
    using assms(1) by (auto simp: ready_def)
  obtain ret where ret: "res = Some ret" "length ret = length ts"
    "s1 = (move_locked (\<Union>i. claims s ret ts i) s)
       \<lparr>m_prepared_dtxs := (m_prepared_dtxs s)(d \<mapsto> \<lparr>m_txs = ts, m_results = ret\<rparr>)\<rparr>"
    "lock_txs S s ts = Some (ret, move_locked (\<Union>i. claims s ret ts i) s)"
    by (rule lock_outputs_new [OF run lock])
  have "ret ! i = grants S s (ts ! i)" if i: "i < length ts" for i
  proof -
    have "shard_ins s (ts ! i) \<inter> claims s ret ts j = {}" if "j < i" for j
      using batch_ok_disjoint [OF assms(2), of i j] claims_subset [of s ret ts j] that i
      by (auto simp: shard_hashes_def)
    then show ?thesis
      unfolding lock_txs_results [OF ret(4) i] grants_def by blast
  qed
  then have "ret = map (grants S s) ts"
    using ret(2) by (intro nth_equalityI) auto
  then show thesis
    using lock ret shard_inv_lock_outputs [OF inv lock] run by (intro that [of s1]) auto
qed

lemma apply_ready:
  assumes "ready s d ts" "batch_ok ts"
    and s1: "m_prepared_dtxs s1 d = Some \<lparr>m_txs = ts, m_results = rs\<rparr>" "m_running s1"
      "m_output_range s1 = m_output_range s" "shard_inv s1"
      "m_locked s1 = m_locked s \<union> (\<Union>i. claims s rs ts i)"
    and fl: "length fl = length ts" "\<And>j. j < length ts \<Longrightarrow> fl ! j \<Longrightarrow> rs ! j"
  obtains s2 where "apply_outputs s1 fl d = Some (True, s2)" "shard_inv s2" "m_running s2"
    "m_output_range s2 = m_output_range s"
    "ledger s2 = (ledger s1 - {h. in_shard s h \<and> (\<exists>j < length ts. fl ! j \<and> h \<in> set (c_inputs (ts ! j)))})
       \<union> {h. in_shard s h \<and> (\<exists>j < length ts. fl ! j \<and> h \<in> set (m_uhs_outputs (ts ! j)))}"
proof -
  let ?p = "\<lparr>m_txs = ts, m_results = rs\<rparr>"
  have sh: "shard_hashes s1 = shard_hashes s" "in_shard s1 = in_shard s"
    using s1(3) by (simp_all add: shard_hashes_def in_shard_def fun_eq_iff)
  have free: "\<And>t. t \<in> set ts \<Longrightarrow> (set (c_inputs t) \<union> set (m_uhs_outputs t)) \<inter> m_locked s = {}"
    using assms(1) by (auto simp: ready_def)
  have "shard_ins s1 (ts ! i) \<inter> m_locked s1 = {}" if "i < length ts" "\<not> rs ! i" for i
  proof -
    have "shard_ins s (ts ! i) \<inter> claims s rs ts j = {}" for j
      using batch_ok_disjoint [OF assms(2), of i j] claims_subset [of s rs ts j] that
      by (cases "i = j") (auto simp: shard_hashes_def claims_def)
    moreover have "shard_ins s (ts ! i) \<inter> m_locked s = {}"
      using free [of "ts ! i"] that(1) by (auto simp: shard_hashes_def)
    ultimately show ?thesis
      unfolding s1(5) sh by blast
  qed
  moreover have "shard_outs s1 (ts ! i) \<inter> m_locked s1 = {}" if "i < length ts" for i
  proof -
    have "shard_outs s (ts ! i) \<inter> claims s rs ts j = {}" for j
    proof -
      have "j < length ts \<Longrightarrow> set (m_uhs_outputs (ts ! i)) \<inter> set (c_inputs (ts ! j)) = {}"
        using assms(2) that by (simp add: batch_ok_def)
      then show ?thesis
        using claims_subset [of s rs ts j] by (auto simp: shard_hashes_def)
    qed
    moreover have "shard_outs s (ts ! i) \<inter> m_locked s = {}"
      using free [of "ts ! i"] that by (auto simp: shard_hashes_def)
    ultimately show ?thesis
      unfolding s1(5) sh by blast
  qed
  ultimately have can: "can_apply s1 fl d ?p"
    using s1(1,2) fl by (simp add: can_apply_def)
  obtain s2 where s2: "apply_outputs s1 fl d = Some (True, s2)" "m_output_range s2 = m_output_range s1"
    "m_running s2"
    by (rule apply_outputs_effect [OF s1(4) can])
  have "(\<Union>i. consumed s1 fl ts i) = {h. in_shard s h \<and> (\<exists>j < length ts. fl ! j \<and> h \<in> set (c_inputs (ts ! j)))}"
    "(\<Union>i. created s1 fl ts i) = {h. in_shard s h \<and> (\<exists>j < length ts. fl ! j \<and> h \<in> set (m_uhs_outputs (ts ! j)))}"
    by (auto simp: consumed_def created_def shard_hashes_def sh split: if_splits)
  then show thesis
    using s2 s1(3) shard_inv_apply_outputs [OF s1(4) can s2(1)] ledger_apply_outputs [OF s1(4) can s2(1)]
    by (intro that [of s2]) auto
qed

section \<open>A batch on all shards\<close>

text \<open>
  The ranges of the shards partition the hashes, the shards are configured alike, each holds
  only hashes of its range, and all are ready for the batch.
\<close>

definition shards_ready :: "locking_shard list \<Rightarrow> pubkey_t set \<Rightarrow> nat \<Rightarrow> hash_t \<Rightarrow> compact_tx list \<Rightarrow> bool" where
  "shards_ready ss keys n d ts \<longleftrightarrow>
     (\<forall>h. \<exists>i < length ss. in_shard (ss ! i) h \<and> (\<forall>j < length ss. in_shard (ss ! j) h \<longrightarrow> j = i)) \<and>
     (\<forall>s \<in> set ss. ready s d ts \<and> m_sentinel_public_keys s = keys \<and> m_attestation_threshold s = n \<and>
        (\<forall>h. check_unspent s h \<longrightarrow> in_shard s h))"

text \<open>A transaction can be completed: it is attested and every input is in the UHS of a shard.\<close>

definition completable :: "secp256k1 \<Rightarrow> locking_shard list \<Rightarrow> pubkey_t set \<Rightarrow> nat \<Rightarrow> compact_tx \<Rightarrow> bool" where
  "completable S ss keys n t \<longleftrightarrow>
     check_attestations S t keys n \<and> (\<forall>h \<in> set (c_inputs t). \<exists>s \<in> set ss. h \<in> m_uhs s)"

lemma completable_grants:
  assumes "shards_ready ss keys n d ts"
  shows "completable S ss keys n t \<longleftrightarrow> (\<forall>i < length ss. active (ss ! i) t \<longrightarrow> grants S (ss ! i) t)"
proof
  assume c: "completable S ss keys n t"
  show "\<forall>i < length ss. active (ss ! i) t \<longrightarrow> grants S (ss ! i) t"
  proof (intro allI impI)
    fix i assume i: "i < length ss" "active (ss ! i) t"
    have "h \<in> m_uhs (ss ! i)" if h: "h \<in> shard_ins (ss ! i) t" for h
    proof -
      obtain s where "s \<in> set ss" "h \<in> m_uhs s"
        using c h by (auto simp: completable_def shard_hashes_def)
      then obtain j where j: "j < length ss" "h \<in> m_uhs (ss ! j)"
        by (auto simp: in_set_conv_nth)
      then have "in_shard (ss ! j) h"
        using assms by (auto simp: shards_ready_def check_unspent_def)
      then have "j = i"
        using assms h i(1) j(1) unfolding shards_ready_def shard_hashes_def by blast
      then show ?thesis using j by simp
    qed
    then show "grants S (ss ! i) t"
      using c assms i(1) by (auto simp: grants_def completable_def shards_ready_def)
  qed
next
  assume g: "\<forall>i < length ss. active (ss ! i) t \<longrightarrow> grants S (ss ! i) t"
  obtain i where "i < length ss" "in_shard (ss ! i) (m_id t)"
    using assms unfolding shards_ready_def by blast
  then have "check_attestations S t keys n"
    using g assms by (auto simp: active_def grants_def shards_ready_def)
  moreover have "\<exists>s \<in> set ss. h \<in> m_uhs s" if h: "h \<in> set (c_inputs t)" for h
  proof -
    obtain j where j: "j < length ss" "in_shard (ss ! j) h"
      using assms unfolding shards_ready_def by blast
    then have "active (ss ! j) t"
      using h by (auto simp: active_def list_ex_iff)
    then have "h \<in> m_uhs (ss ! j)"
      using g j h by (auto simp: grants_def shard_hashes_def)
    then show ?thesis using j(1) by force
  qed
  ultimately show "completable S ss keys n t"
    by (simp add: completable_def)
qed

text \<open>The states of the shards after the lock phase.\<close>

definition after_lock :: "secp256k1 \<Rightarrow> hash_t \<Rightarrow> compact_tx list \<Rightarrow> locking_shard \<Rightarrow> locking_shard" where
  "after_lock S d ts s = (if filter (active s) ts = [] then s
     else snd (the (lock_outputs S s (filter (active s) ts) d)))"

lemma after_lock_facts:
  assumes "ready s d ts" "batch_ok ts" "filter (active s) ts \<noteq> []"
  shows "lock_outputs S s (filter (active s) ts) d =
      Some (Some (map (grants S s) (filter (active s) ts)), after_lock S d ts s)"
    and "m_prepared_dtxs (after_lock S d ts s) d =
      Some \<lparr>m_txs = filter (active s) ts, m_results = map (grants S s) (filter (active s) ts)\<rparr>"
    and "m_running (after_lock S d ts s)" "m_output_range (after_lock S d ts s) = m_output_range s"
    and "shard_inv (after_lock S d ts s)" "ledger (after_lock S d ts s) = ledger s"
    and "m_locked (after_lock S d ts s) =
      m_locked s \<union> (\<Union>i. claims s (map (grants S s) (filter (active s) ts)) (filter (active s) ts) i)"
proof -
  obtain s1 where s1: "lock_outputs S s (filter (active s) ts) d =
      Some (Some (map (grants S s) (filter (active s) ts)), s1)"
    "m_prepared_dtxs s1 d = Some \<lparr>m_txs = filter (active s) ts, m_results = map (grants S s) (filter (active s) ts)\<rparr>"
    "m_running s1" "m_output_range s1 = m_output_range s" "shard_inv s1" "ledger s1 = ledger s"
    "m_locked s1 = m_locked s \<union> (\<Union>i. claims s (map (grants S s) (filter (active s) ts)) (filter (active s) ts) i)"
    by (rule lock_ready [OF ready_filter [OF assms(1)] batch_ok_filter [OF assms(2)]])
  have eq: "after_lock S d ts s = s1"
    using s1(1) assms(3) by (simp add: after_lock_def)
  show "lock_outputs S s (filter (active s) ts) d =
      Some (Some (map (grants S s) (filter (active s) ts)), after_lock S d ts s)"
    "m_prepared_dtxs (after_lock S d ts s) d =
      Some \<lparr>m_txs = filter (active s) ts, m_results = map (grants S s) (filter (active s) ts)\<rparr>"
    "m_running (after_lock S d ts s)" "m_output_range (after_lock S d ts s) = m_output_range s"
    "shard_inv (after_lock S d ts s)" "ledger (after_lock S d ts s) = ledger s"
    "m_locked (after_lock S d ts s) =
      m_locked s \<union> (\<Union>i. claims s (map (grants S s) (filter (active s) ts)) (filter (active s) ts) i)"
    unfolding eq by (rule s1)+
qed

abbreviation shard_idxs :: "compact_tx list \<Rightarrow> locking_shard \<Rightarrow> nat list" where
  "shard_idxs ts s \<equiv> filter (\<lambda>k. active s (ts ! k)) [0..<length ts]"

lemma shard_idxs_Nil: "shard_idxs ts s = [] \<longleftrightarrow> filter (active s) ts = []"
  by (subst (2) filter_as_indices) simp

lemma shard_txs_nth:
  "j < length (shard_idxs ts s) \<Longrightarrow> filter (active s) ts ! j = ts ! (shard_idxs ts s ! j)"
  by (subst filter_as_indices) simp

lemma length_shard_idxs [simp]: "length (shard_idxs ts s) = length (filter (active s) ts)"
  by (subst (2) filter_as_indices) simp

lemma ex_shard_idxs:
  "(\<exists>j < length (shard_idxs ts s). P (shard_idxs ts s ! j)) \<longleftrightarrow>
     (\<exists>k < length ts. active s (ts ! k) \<and> P k)"
proof -
  have "(\<exists>j < length (shard_idxs ts s). P (shard_idxs ts s ! j)) \<longleftrightarrow> (\<exists>k \<in> set (shard_idxs ts s). P k)"
    by (metis in_set_conv_nth)
  then show ?thesis
    by auto
qed

lemma answers_iff:
  assumes "k < length ts"
  shows "(shard_idxs ts s \<noteq> [] \<longrightarrow> (\<forall>j < length (shard_idxs ts s). shard_idxs ts s ! j = k \<longrightarrow>
      P (filter (active s) ts ! j))) \<longleftrightarrow> (active s (ts ! k) \<longrightarrow> P (ts ! k))"
proof -
  have "(\<forall>j < length (shard_idxs ts s). shard_idxs ts s ! j = k \<longrightarrow> P (filter (active s) ts ! j)) \<longleftrightarrow>
      \<not> (\<exists>j < length (shard_idxs ts s). shard_idxs ts s ! j = k \<and> \<not> P (ts ! k))"
    using shard_txs_nth [where s = s and ts = ts] by metis
  also have "\<dots> \<longleftrightarrow> (active s (ts ! k) \<longrightarrow> P (ts ! k))"
    unfolding ex_shard_idxs [where P = "\<lambda>x. x = k \<and> \<not> P (ts ! k)"] using assms by blast
  finally show ?thesis
    by (metis less_nat_zero_code list.size(3))
qed

lemma prepare_ready:
  assumes sr: "shards_ready ss keys n d ts" and "batch_ok ts" "call_prepare_cb cb w D = Some (True, w')"
    and D: "routed ss D" "m_full_txs D = ts" "m_dtx_id D = d"
  shows "prepare S cb w D ss = Some (Some (map (completable S ss keys n) ts), w',
    D\<lparr>d_txs := map2 (\<lambda>txs idxs. if idxs = [] then txs else []) (d_txs D) (m_tx_idxs D), m_state := Dtx_commit\<rparr>,
    map (after_lock S d ts) ss)"
proof -
  have rdy: "ready (ss ! i) d ts" if "i < length ss" for i
    using sr that by (simp add: shards_ready_def)
  have txs: "d_txs D = map (\<lambda>s. filter (active s) ts) ss" "m_tx_idxs D = map (shard_idxs ts) ss"
    using D by (simp_all add: routed_def)
  let ?R = "\<lambda>i. Some (map (grants S (ss ! i)) (filter (active (ss ! i)) ts))"
  let ?rs = "map (\<lambda>i. (?R i, map (shard_idxs ts) ss ! i)) (filter (\<lambda>i. map (shard_idxs ts) ss ! i \<noteq> []) [0..<length ss])"
  have "lock_shards S d ss (d_txs D) (m_tx_idxs D) =
      Some (?rs, map (\<lambda>i. after_lock S d ts (ss ! i)) [0..<length ss])"
    unfolding txs
  proof (rule lock_shards_eq)
    fix i assume i: "i < length ss"
    show "lock_outputs S (ss ! i) (map (\<lambda>s. filter (active s) ts) ss ! i) d = Some (?R i, after_lock S d ts (ss ! i))"
      if "map (shard_idxs ts) ss ! i \<noteq> []"
      using after_lock_facts(1) [OF rdy [OF i] assms(2), of S] that i by (simp add: shard_idxs_Nil)
    show "after_lock S d ts (ss ! i) = ss ! i" if "map (shard_idxs ts) ss ! i = []"
      using that i by (simp add: shard_idxs_Nil after_lock_def)
  qed simp_all
  moreover have "map (\<lambda>i. after_lock S d ts (ss ! i)) [0..<length ss] = map (after_lock S d ts) ss"
    by (rule nth_equalityI) auto
  moreover obtain ret where ret: "gather (replicate (length ts) True) ?rs = Some (Some ret)"
    "length ret = length ts" "\<And>k. k < length ts \<Longrightarrow> ret ! k \<longleftrightarrow>
       (\<forall>(r, idxs) \<in> set ?rs. \<forall>j < length idxs. idxs ! j = k \<longrightarrow> the r ! j)"
    using gather_Some [of ?rs "replicate (length ts) True"] by fastforce
  moreover have "ret = map (completable S ss keys n) ts"
  proof (rule nth_equalityI)
    fix k assume "k < length ret"
    then have k: "k < length ts" using ret(2) by simp
    have "ret ! k \<longleftrightarrow> (\<forall>i < length ss. shard_idxs ts (ss ! i) \<noteq> [] \<longrightarrow>
        (\<forall>j < length (shard_idxs ts (ss ! i)). shard_idxs ts (ss ! i) ! j = k \<longrightarrow>
           grants S (ss ! i) (filter (active (ss ! i)) ts ! j)))"
      unfolding ret(3) [OF k] by (simp add: ball_simps) (auto)
    also have "\<dots> \<longleftrightarrow> (\<forall>i < length ss. active (ss ! i) (ts ! k) \<longrightarrow> grants S (ss ! i) (ts ! k))"
      unfolding answers_iff [OF k] ..
    finally show "ret ! k = map (completable S ss keys n) ts ! k"
      using completable_grants [OF sr] k by simp
  qed (simp add: ret(2))
  ultimately show ?thesis
    using assms(3) D by (simp add: prepare_def)
qed

text \<open>The commit phase on one shard: its part of the completed transactions is applied.\<close>

definition settled :: "locking_shard \<Rightarrow> bool list \<Rightarrow> compact_tx list \<Rightarrow> hash_t set" where
  "settled s c ts = (ledger s - {h. in_shard s h \<and> (\<exists>k < length ts. c ! k \<and> h \<in> set (c_inputs (ts ! k)))})
     \<union> {h. in_shard s h \<and> (\<exists>k < length ts. c ! k \<and> h \<in> set (m_uhs_outputs (ts ! k)))}"

lemma shard_part:
  assumes "\<And>t h. h \<in> f t \<Longrightarrow> in_shard s h \<Longrightarrow> active s t"
  shows "{h. in_shard s h \<and> (\<exists>j < length (filter (active s) ts). map ((!) c) (shard_idxs ts s) ! j \<and>
        h \<in> f (filter (active s) ts ! j))} =
     {h. in_shard s h \<and> (\<exists>k < length ts. c ! k \<and> h \<in> f (ts ! k))}"
proof -
  have "(\<exists>j < length (filter (active s) ts). map ((!) c) (shard_idxs ts s) ! j \<and> h \<in> f (filter (active s) ts ! j))
      \<longleftrightarrow> (\<exists>j < length (shard_idxs ts s). c ! (shard_idxs ts s ! j) \<and> h \<in> f (ts ! (shard_idxs ts s ! j)))" for h
    by (intro ex_cong1) (auto simp: shard_txs_nth)
  then show ?thesis
    using ex_shard_idxs [where s = s and ts = ts and P = "\<lambda>k. c ! k \<and> _ \<in> f (ts ! k)"] assms by blast
qed

lemma active_input: "h \<in> set (c_inputs t) \<Longrightarrow> in_shard s h \<Longrightarrow> active s t"
  by (auto simp: active_def list_ex_iff)

lemma active_output: "h \<in> set (m_uhs_outputs t) \<Longrightarrow> in_shard s h \<Longrightarrow> active s t"
  by (auto simp: active_def list_ex_iff)

lemma commit_shard:
  assumes "ready s d ts" "batch_ok ts"
    and c: "length c = length ts" "\<And>k. k < length ts \<Longrightarrow> c ! k \<Longrightarrow> active s (ts ! k) \<Longrightarrow> grants S s (ts ! k)"
  shows "\<exists>s2. (if shard_idxs ts s = [] then s2 = after_lock S d ts s
      else apply_outputs (after_lock S d ts s) (map ((!) c) (shard_idxs ts s)) d = Some (True, s2)) \<and>
    shard_inv s2 \<and> m_running s2 \<and> m_output_range s2 = m_output_range s \<and> ledger s2 = settled s c ts"
proof (cases "filter (active s) ts = []")
  case True
  then have "settled s c ts = ledger s"
    using nth_mem [of _ ts] by (fastforce simp: settled_def filter_empty_conv dest: active_input active_output)
  then show ?thesis
    using True assms(1) by (simp add: shard_idxs_Nil after_lock_def ready_def)
next
  case False
  note al = after_lock_facts [OF assms(1,2) False, of S]
  let ?fl = "map ((!) c) (shard_idxs ts s)"
  have fl: "map (grants S s) (filter (active s) ts) ! j" if "j < length (filter (active s) ts)" "?fl ! j" for j
  proof -
    have j: "j < length (shard_idxs ts s)"
      using that(1) by simp
    then have "shard_idxs ts s ! j \<in> set (shard_idxs ts s)"
      by (rule nth_mem)
    then show ?thesis
      using c(2) [of "shard_idxs ts s ! j"] that shard_txs_nth [OF j] j by simp
  qed
  have len: "length ?fl = length (filter (active s) ts)"
    by simp
  obtain s2 where s2: "apply_outputs (after_lock S d ts s) ?fl d = Some (True, s2)" "shard_inv s2" "m_running s2"
    "m_output_range s2 = m_output_range s"
    "ledger s2 = (ledger (after_lock S d ts s) - {h. in_shard s h \<and> (\<exists>j < length (filter (active s) ts). ?fl ! j \<and>
        h \<in> set (c_inputs (filter (active s) ts ! j)))})
       \<union> {h. in_shard s h \<and> (\<exists>j < length (filter (active s) ts). ?fl ! j \<and>
        h \<in> set (m_uhs_outputs (filter (active s) ts ! j)))}"
    by (rule apply_ready [OF ready_filter [OF assms(1)] batch_ok_filter [OF assms(2)] al(2,3,4,5,7) len fl])
  have "ledger s2 = settled s c ts"
    unfolding s2(5) al(6) settled_def
    by (subst (1 2) shard_part) (auto dest: active_input active_output)
  with s2 show ?thesis
    using False by (intro exI [of _ s2]) (simp add: shard_idxs_Nil)
qed

text \<open>After the commit phase every shard has settled its part of the batch.\<close>

definition shards_settled ::
  "locking_shard list \<Rightarrow> bool list \<Rightarrow> compact_tx list \<Rightarrow> locking_shard list \<Rightarrow> bool" where
  "shards_settled ss c ts ss' \<longleftrightarrow> length ss' = length ss \<and> (\<forall>i < length ss.
     shard_inv (ss' ! i) \<and> m_running (ss' ! i) \<and> m_output_range (ss' ! i) = m_output_range (ss ! i) \<and>
     ledger (ss' ! i) = settled (ss ! i) c ts)"

lemma apply_shards_ready:
  assumes sr: "shards_ready ss keys n d ts" and "batch_ok ts"
    and c: "c = map (completable S ss keys n) ts"
  shows "\<exists>rs ss'. apply_shards d c (map (after_lock S d ts) ss) (map (shard_idxs ts) ss) = Some (rs, ss') \<and>
    list_all id rs \<and> shards_settled ss c ts ss'"
proof -
  let ?P = "\<lambda>i s2. (if shard_idxs ts (ss ! i) = [] then s2 = after_lock S d ts (ss ! i)
      else apply_outputs (after_lock S d ts (ss ! i)) (map ((!) c) (shard_idxs ts (ss ! i))) d = Some (True, s2)) \<and>
    shard_inv s2 \<and> m_running s2 \<and> m_output_range s2 = m_output_range (ss ! i) \<and> ledger s2 = settled (ss ! i) c ts"
  have "\<exists>s2. ?P i s2" if i: "i < length ss" for i
  proof (rule commit_shard)
    show "ready (ss ! i) d ts"
      using sr i by (simp add: shards_ready_def)
    show "grants S (ss ! i) (ts ! k)" if "k < length ts" "c ! k" "active (ss ! i) (ts ! k)" for k
      using completable_grants [OF sr, of S "ts ! k"] that i by (simp add: c)
  qed (use assms(2) c in simp_all)
  then obtain F where F: "\<And>i. i < length ss \<Longrightarrow> ?P i (F i)"
    by metis
  have "\<exists>rs. apply_shards d c (map (after_lock S d ts) ss) (map (shard_idxs ts) ss) =
      Some (rs, map F [0..<length (map (after_lock S d ts) ss)]) \<and> list_all id rs"
    by (rule apply_shards_eq) (use F in \<open>auto split: if_splits\<close>)
  moreover have "shards_settled ss c ts (map F [0..<length ss])"
    using F by (simp add: shards_settled_def)
  ultimately show ?thesis by auto
qed

lemma shard_inv_applied: "shard_inv (s\<lparr>m_applied_dtxs := X\<rparr>) = shard_inv s"
proof -
  have "claims (s\<lparr>m_applied_dtxs := X\<rparr>) = claims s"
    by (simp add: claims_def shard_hashes_def in_shard_def fun_eq_iff)
  then have "holds (s\<lparr>m_applied_dtxs := X\<rparr>) = holds s"
    by (simp add: holds_def fun_eq_iff)
  then show ?thesis
    by (simp add: shard_inv_def)
qed

lemma ledger_applied: "ledger (s\<lparr>m_applied_dtxs := X\<rparr>) = ledger s"
  by (simp add: ledger_def)

lemma discard_ready:
  assumes "shards_settled ss c ts ss'" "call_discard_cb cb w D = Some (True, w')"
    "call_done_cb cb w' D = Some (True, w'')" "length (m_tx_idxs D) = length ss"
  shows "\<exists>ss''. discard cb w D ss' = Some (True, w'', D\<lparr>m_state := Dtx_done\<rparr>, ss'') \<and> shards_settled ss c ts ss''"
proof -
  let ?f = "\<lambda>s ix. if ix = [] then s else s\<lparr>m_applied_dtxs := m_applied_dtxs s - {m_dtx_id D}\<rparr>"
  have len: "length ss' = length ss" "length (m_tx_idxs D) = length ss'"
    using assms by (auto simp: shards_settled_def)
  have "m_running s" if "s \<in> set ss'" for s
    using assms(1) that len(1) by (auto simp: shards_settled_def in_set_conv_nth)
  then obtain rs where "discard_shards (m_dtx_id D) ss' (m_tx_idxs D) = (rs, map2 ?f ss' (m_tx_idxs D))" "list_all id rs"
    using discard_shards_eq [OF len(2)] by blast
  then have "discard cb w D ss' = Some (True, w'', D\<lparr>m_state := Dtx_done\<rparr>, map2 ?f ss' (m_tx_idxs D))"
    using assms(2,3) by (simp add: discard_def)
  moreover have "shards_settled ss c ts (map2 ?f ss' (m_tx_idxs D))"
    using assms(1) len by (simp add: shards_settled_def shard_inv_applied ledger_applied)
  ultimately show ?thesis by blast
qed

lemma settled_union:
  assumes sr: "shards_ready ss keys n d ts" and st: "shards_settled ss c ts ss'" and c: "length c = length ts"
  shows "(\<exists>s \<in> set ss'. check_unspent s h) \<longleftrightarrow>
    (\<exists>s \<in> set ss. check_unspent s h) \<and> \<not> (\<exists>k < length ts. c ! k \<and> h \<in> set (c_inputs (ts ! k))) \<or>
    (\<exists>k < length ts. c ! k \<and> h \<in> set (m_uhs_outputs (ts ! k)))"
proof -
  obtain i where i: "i < length ss" "in_shard (ss ! i) h"
    and uniq: "\<And>j. j < length ss \<Longrightarrow> in_shard (ss ! j) h \<Longrightarrow> j = i"
    using sr unfolding shards_ready_def by blast
  have hold: "h \<in> ledger (ss ! j) \<Longrightarrow> in_shard (ss ! j) h" if "j < length ss" for j
    using sr that by (auto simp: shards_ready_def check_unspent_ledger)
  have len: "length ss' = length ss"
    using st by (simp add: shards_settled_def)
  have "(\<exists>s \<in> set ss'. check_unspent s h) \<longleftrightarrow> (\<exists>j < length ss. h \<in> settled (ss ! j) c ts)"
    using st unfolding shards_settled_def check_unspent_ledger by (metis in_set_conv_nth)
  also have "\<dots> \<longleftrightarrow> h \<in> settled (ss ! i) c ts"
    using i(1) uniq hold unfolding settled_def by blast
  finally have "(\<exists>s \<in> set ss'. check_unspent s h) \<longleftrightarrow> h \<in> settled (ss ! i) c ts" .
  moreover have "(\<exists>s \<in> set ss. check_unspent s h) \<longleftrightarrow> h \<in> ledger (ss ! i)"
    unfolding check_unspent_ledger using i(1) uniq hold by (metis in_set_conv_nth)
  ultimately show ?thesis
    using i(2) unfolding settled_def by blast
qed

section \<open>Resuming an interrupted phase\<close>

text \<open>Some shards have executed their call of the phase already and some have not.\<close>

definition between :: "locking_shard list \<Rightarrow> locking_shard list \<Rightarrow> locking_shard list \<Rightarrow> bool" where
  "between ss ss' zs \<longleftrightarrow> list_all2 (\<lambda>z (s, s'). z = s \<or> z = s') zs (zip ss ss') \<and> length ss = length ss'"

lemma between_Cons:
  "between (s # ss) (s' # ss') zs \<longleftrightarrow> (\<exists>z zs'. zs = z # zs' \<and> (z = s \<or> z = s') \<and> between ss ss' zs')"
  by (auto simp: between_def list_all2_Cons2)

lemma between_Nil: "between [] ss' zs \<longleftrightarrow> ss' = [] \<and> zs = []"
  by (auto simp: between_def)

lemma between_same: "between ss ss zs \<Longrightarrow> zs = ss"
  by (induction ss arbitrary: zs) (auto simp: between_Cons between_Nil)

lemma between_refl: "length ss' = length ss \<Longrightarrow> between ss ss' ss"
  by (simp add: between_def list_all2_conv_all_nth)

lemma lock_shards_resume:
  "lock_shards S d ss tss ixs = Some (rs, ss') \<Longrightarrow> (\<forall>r \<in> set rs. fst r \<noteq> None) \<Longrightarrow> between ss ss' zs
     \<Longrightarrow> lock_shards S d zs tss ixs = Some (rs, ss')"
proof (induction S d ss tss ixs arbitrary: rs ss' zs rule: lock_shards.induct)
  case (1 S d s ss txs tss idxs ixs)
  obtain rs1 ss1 where l: "lock_shards S d ss tss ixs = Some (rs1, ss1)"
    using 1(2) by (auto split: bind_splits)
  show ?case
  proof (cases "idxs = []")
    case True
    then show ?thesis
      using 1(2-4) l 1(1) [OF l] by (auto simp: between_Cons)
  next
    case False
    then obtain r s1 where r: "lock_outputs S s txs d = Some (r, s1)" "rs = (r, idxs) # rs1" "ss' = s1 # ss1"
      using 1(2) l by (auto split: bind_splits)
    then obtain ret where "r = Some ret"
      using 1(3) by auto
    then have "lock_outputs S s1 txs d = Some (r, s1)"
      using lock_outputs_prepared [of S s txs d ret s1] r(1) by (auto simp: lock_outputs_def [of S s1])
    then show ?thesis
      using 1(3,4) 1(1) [OF l] r False by (auto simp: between_Cons)
  qed
qed (auto dest: between_same)

lemma apply_shards_resume:
  "apply_shards d c ss ixs = Some (rs, ss') \<Longrightarrow> list_all id rs \<Longrightarrow> between ss ss' zs
     \<Longrightarrow> apply_shards d c zs ixs = Some (rs, ss')"
proof (induction d c ss ixs arbitrary: rs ss' zs rule: apply_shards.induct)
  case (1 d c s ss idxs ixs)
  obtain rs1 ss1 where l: "apply_shards d c ss ixs = Some (rs1, ss1)"
    using 1(2) by (auto split: bind_splits)
  show ?case
  proof (cases "idxs = []")
    case True
    then show ?thesis
      using 1(2-4) l 1(1) [OF l] by (auto simp: between_Cons)
  next
    case False
    then obtain r s1 where r: "apply_outputs s (map (\<lambda>j. c ! j) idxs) d = Some (r, s1)" "rs = r # rs1" "ss' = s1 # ss1"
      using 1(2) l by (auto split: bind_splits)
    then have "r"
      using 1(3) by auto
    then have "apply_outputs s1 (map (\<lambda>j. c ! j) idxs) d = Some (r, s1)"
      using apply_outputs_applied [of s _ d s1] r(1) by (auto simp: apply_outputs_def [of s1])
    then show ?thesis
      using 1(3,4) 1(1) [OF l] r False by (auto simp: between_Cons)
  qed
qed (auto dest: between_same)

lemma gather_answers: "gather ret rs = Some (Some ret') \<Longrightarrow> \<forall>r \<in> set rs. fst r \<noteq> None"
  by (induction ret rs rule: gather.induct) (auto split: option.splits if_splits)

lemma add_txs_state: "foldl (add_tx ss) (d\<lparr>m_state := st\<rparr>) ts = (foldl (add_tx ss) d ts)\<lparr>m_state := st\<rparr>"
proof (induction ts arbitrary: d)
  case (Cons t ts)
  have "add_tx ss (d\<lparr>m_state := st\<rparr>) t = (add_tx ss d t)\<lparr>m_state := st\<rparr>"
    by (cases d) (simp add: add_tx_def split_beta)
  then show ?case
    by (simp add: Cons)
qed simp

lemma lock_outputs_range:
  assumes "lock_outputs S s txs d = Some (Some ret, s')"
  shows "m_output_range s' = m_output_range s"
proof (cases "m_prepared_dtxs s d")
  case None
  moreover have "m_running s"
    using assms by (auto simp: lock_outputs_def split: if_splits)
  ultimately show ?thesis
    using lock_outputs_new [OF _ None assms] by force
next
  case (Some p)
  then show ?thesis
    using assms by (auto simp: lock_outputs_def split: if_splits)
qed

lemma lock_shards_ranges:
  "lock_shards S d ss tss ixs = Some (rs, ss') \<Longrightarrow> (\<forall>r \<in> set rs. fst r \<noteq> None) \<Longrightarrow>
     map m_output_range ss' = map m_output_range ss"
proof (induction S d ss tss ixs arbitrary: rs ss' rule: lock_shards.induct)
  case (1 S d s ss txs tss idxs ixs)
  then show ?case
    using lock_outputs_range [of S s txs d] by (auto split: bind_splits if_splits)
qed auto

lemma between_ranges:
  "between ss ss' zs \<Longrightarrow> map m_output_range ss' = map m_output_range ss \<Longrightarrow>
     map m_output_range zs = map m_output_range ss"
  by (induction ss arbitrary: ss' zs) (auto simp: between_Cons between_Nil Cons_eq_map_conv)

text \<open>The routing of a batch depends on the ranges of the shards only.\<close>

lemma active_range: "m_output_range z = m_output_range s \<Longrightarrow> active z tx = active s tx"
  by (simp add: active_def in_shard_def cong: list_ex_cong)

lemma map2_ranges:
  assumes "map m_output_range zs = map m_output_range ss" "\<And>z s x. m_output_range z = m_output_range s \<Longrightarrow> f z x = f s x"
  shows "map2 f zs xs = map2 f ss xs"
  using assms(1)
proof (induction zs arbitrary: ss xs)
  case (Cons z zs)
  then obtain s ss' where ss: "ss = s # ss'" "m_output_range z = m_output_range s" "map m_output_range zs = map m_output_range ss'"
    by auto
  show ?case
    by (cases xs) (simp_all add: ss(1) assms(2) [OF ss(2)] Cons.IH [OF ss(3)])
qed simp

lemma map2_active:
  assumes "map m_output_range zs = map m_output_range ss"
  shows "map2 (\<lambda>s x. if active s tx then f x else x) zs xs = map2 (\<lambda>s x. if active s tx then f x else x) ss xs"
  by (rule map2_ranges [OF assms]) (drule active_range [of _ _ tx], simp)

lemma add_txs_ranges:
  assumes "map m_output_range zs = map m_output_range ss"
  shows "foldl (add_tx zs) d ts = foldl (add_tx ss) d ts"
proof -
  have "add_tx zs d tx = add_tx ss d tx" for d tx
    unfolding add_tx_def map2_active [OF assms, of tx "\<lambda>x. x @ [_]"] ..
  then show ?thesis
    by (simp cong: foldl_cong)
qed

section \<open>Batches taken up by any coordinator\<close>

text \<open>The shards after every lock and after every apply of the batch.\<close>

definition locked_shards :: "secp256k1 \<Rightarrow> locking_shard list \<Rightarrow> hash_t \<Rightarrow> compact_tx list \<Rightarrow> locking_shard list" where
  "locked_shards S ss d ts = map (after_lock S d ts) ss"

definition applied_shards ::
  "secp256k1 \<Rightarrow> locking_shard list \<Rightarrow> hash_t \<Rightarrow> compact_tx list \<Rightarrow> bool list \<Rightarrow> locking_shard list" where
  "applied_shards S ss d ts c = snd (the (apply_shards d c (locked_shards S ss d ts) (map (shard_idxs ts) ss)))"

lemma prepare_Some:
  "prepare S cb w D ss = Some (Some c, w', D1, ss1) \<longleftrightarrow> (\<exists>rs. call_prepare_cb cb w D = Some (True, w') \<and>
     lock_shards S (m_dtx_id D) ss (d_txs D) (m_tx_idxs D) = Some (rs, ss1) \<and>
     gather (replicate (length (m_full_txs D)) True) rs = Some (Some c) \<and>
     D1 = D\<lparr>d_txs := map2 (\<lambda>txs idxs. if idxs = [] then txs else []) (d_txs D) (m_tx_idxs D), m_state := Dtx_commit\<rparr>)"
  by (auto simp: prepare_def Let_def split: bind_splits if_splits option.splits)

lemma commit_Some:
  "commit cb w c D ss = Some (True, w', D1, ss1) \<longleftrightarrow> (\<exists>rs. call_commit_cb cb w c D = Some (True, w') \<and>
     apply_shards (m_dtx_id D) c ss (m_tx_idxs D) = Some (rs, ss1) \<and> list_all id rs \<and>
     D1 = D\<lparr>m_state := Dtx_discard\<rparr>)"
  by (auto simp: commit_def split: bind_splits if_splits)

lemma prepare_resume:
  assumes "prepare S cb w D ss = Some (Some c, w', D1, ss1)" "between ss ss1 zs"
  shows "prepare S cb w D zs = Some (Some c, w', D1, ss1)"
  using assms lock_shards_resume gather_answers unfolding prepare_Some by blast

lemma prepare_ranges:
  assumes "prepare S cb w D ss = Some (Some c, w', D1, ss1)" "between ss ss1 zs"
  shows "map m_output_range zs = map m_output_range ss"
  using assms lock_shards_ranges gather_answers between_ranges unfolding prepare_Some by blast

lemma commit_resume:
  assumes "commit cb w c D ss = Some (True, w', D1, ss1)" "between ss ss1 zs"
  shows "commit cb w c D zs = Some (True, w', D1, ss1)"
  using assms apply_shards_resume unfolding commit_Some by blast

lemma recovered_batch:
  assumes "map m_output_range zs = map m_output_range ss"
  shows "recover_prepare zs (distributed_tx_init d zs) ts =
    (foldl (add_tx ss) (distributed_tx_init d ss) ts)\<lparr>m_state := Dtx_prepare\<rparr>"
proof -
  have "length zs = length ss"
    using map_eq_imp_length_eq [OF assms] .
  then show ?thesis
    by (simp add: recover_prepare_def add_txs_ranges [OF assms] distributed_tx_init_def flip: add_txs_state)
qed

text \<open>
  From the commit phase on, a batch is finished whichever shards have already applied it.
\<close>

lemma execute_from_commit:
  assumes sr: "shards_ready ss keys n d ts" and "batch_ok ts" and c: "c = map (completable S ss keys n) ts"
    and D: "m_tx_idxs D = map (shard_idxs ts) ss" "m_dtx_id D = d" "m_state D = Dtx_commit" "m_complete_txs D = c"
    and cb: "call_commit_cb cb w c D = Some (True, w1)" "call_discard_cb cb w1 D = Some (True, w2)"
      "call_done_cb cb w2 D = Some (True, w3)"
    and zs: "between (locked_shards S ss d ts) (applied_shards S ss d ts c) zs"
  shows "\<exists>ss'. execute_commit cb w D zs = Some (True, w1, D\<lparr>m_state := Dtx_discard\<rparr>, applied_shards S ss d ts c) \<and>
    execute S cb w D zs = Some (Some c, w3, D\<lparr>m_state := Dtx_done\<rparr>, ss') \<and> shards_settled ss c ts ss'"
proof -
  obtain rs ss1 where a: "apply_shards d c (locked_shards S ss d ts) (map (shard_idxs ts) ss) = Some (rs, ss1)"
    "list_all id rs" "shards_settled ss c ts ss1"
    using apply_shards_ready [OF sr assms(2) c] unfolding locked_shards_def by blast
  have eq: "applied_shards S ss d ts c = ss1"
    by (simp add: applied_shards_def a(1))
  have "commit cb w c D (locked_shards S ss d ts) = Some (True, w1, D\<lparr>m_state := Dtx_discard\<rparr>, ss1)"
    unfolding commit_Some using a cb(1) D by auto
  from commit_resume [OF this zs [unfolded eq]]
  have 1: "execute_commit cb w D zs = Some (True, w1, D\<lparr>m_state := Dtx_discard\<rparr>, ss1)"
    by (simp add: execute_commit_def D)
  let ?D = "D\<lparr>m_state := Dtx_discard\<rparr>"
  have "call_discard_cb cb w1 ?D = Some (True, w2)" "call_done_cb cb w2 ?D = Some (True, w3)"
    using cb by (simp_all add: call_discard_cb_def call_done_cb_def split: option.splits)
  then obtain ss2 where s2: "discard cb w1 ?D ss1 = Some (True, w3, ?D\<lparr>m_state := Dtx_done\<rparr>, ss2)"
    "shards_settled ss c ts ss2"
    using discard_ready [OF a(3), of cb w1 ?D w2 w3] D(1) by auto
  then show ?thesis
    using 1 D by (simp add: execute_def execute_prepare_def execute_discard_def eq)
qed

text \<open>
  From the prepare phase on, a batch is finished whichever shards have already locked it.
\<close>

lemma execute_from_prepare:
  assumes sr: "shards_ready ss keys n d ts" and "batch_ok ts" and c: "c = map (completable S ss keys n) ts"
    and D: "routed ss D" "m_full_txs D = ts" "m_dtx_id D = d" "m_state D = Dtx_start \<or> m_state D = Dtx_prepare"
    and cb: "call_prepare_cb cb w D = Some (True, w0)" "call_commit_cb cb w0 c D = Some (True, w1)"
      "call_discard_cb cb w1 D = Some (True, w2)" "call_done_cb cb w2 D = Some (True, w3)"
    and zs: "between ss (locked_shards S ss d ts) zs"
  shows "\<exists>dt ss'. execute S cb w D zs = Some (Some c, w3, dt, ss') \<and> m_state dt = Dtx_done \<and> shards_settled ss c ts ss'"
proof -
  define D1 where "D1 = D\<lparr>d_txs := map2 (\<lambda>txs idxs. if idxs = [] then txs else []) (d_txs D) (m_tx_idxs D),
    m_state := Dtx_commit\<rparr>"
  have "prepare S cb w D ss = Some (Some c, w0, D1, locked_shards S ss d ts)"
    unfolding D1_def c locked_shards_def by (rule prepare_ready [OF sr assms(2) cb(1) D(1-3)])
  from prepare_resume [OF this zs]
  have 1: "execute_prepare S cb w D zs = Some (True, w0, D1\<lparr>m_complete_txs := c\<rparr>, locked_shards S ss d ts)"
    using D(2,4) by (auto simp: execute_prepare_def c D1_def)
  let ?D = "D1\<lparr>m_complete_txs := c\<rparr>"
  have D': "m_tx_idxs ?D = map (shard_idxs ts) ss" "m_dtx_id ?D = d" "m_state ?D = Dtx_commit" "m_complete_txs ?D = c"
    using D by (simp_all add: D1_def routed_def)
  have cb': "call_commit_cb cb w0 c ?D = Some (True, w1)" "call_discard_cb cb w1 ?D = Some (True, w2)"
      "call_done_cb cb w2 ?D = Some (True, w3)"
    using cb by (simp_all add: call_commit_cb_def call_discard_cb_def call_done_cb_def D1_def split: option.splits)
  have "between (locked_shards S ss d ts) (applied_shards S ss d ts c) (locked_shards S ss d ts)"
    using apply_shards_ready [OF sr assms(2) c]
    by (intro between_refl) (auto simp: applied_shards_def locked_shards_def shards_settled_def)
  from execute_from_commit [OF sr assms(2) c D' cb' this]
  obtain ss' where "execute S cb w0 ?D (locked_shards S ss d ts) = Some (Some c, w3, ?D\<lparr>m_state := Dtx_done\<rparr>, ss')"
    "shards_settled ss c ts ss'"
    by blast
  then have "execute S cb w D zs = Some (Some c, w3, ?D\<lparr>m_state := Dtx_done\<rparr>, ss') \<and> shards_settled ss c ts ss'"
    using 1 by (simp add: execute_def execute_prepare_def [of S cb w0] D1_def)
  then show ?thesis
    by (intro exI [of _ "?D\<lparr>m_state := Dtx_done\<rparr>"] exI [of _ ss']) simp
qed

text \<open>Shards whose invariants, ranges and unspent outputs are those of before.\<close>

definition shards_kept :: "locking_shard list \<Rightarrow> locking_shard list \<Rightarrow> bool" where
  "shards_kept ss ss' \<longleftrightarrow> length ss' = length ss \<and> (\<forall>i < length ss. shard_inv (ss' ! i) \<and>
     m_output_range (ss' ! i) = m_output_range (ss ! i) \<and> ledger (ss' ! i) = ledger (ss ! i))"

lemma kept_union: "shards_kept ss ss' \<Longrightarrow> (\<exists>s \<in> set ss'. check_unspent s h) \<longleftrightarrow> (\<exists>s \<in> set ss. check_unspent s h)"
  unfolding shards_kept_def check_unspent_ledger by (metis in_set_conv_nth)

lemma shards_kept_ready: "shards_ready ss keys n d ts \<Longrightarrow> shards_kept ss ss"
  by (simp add: shards_kept_def shards_ready_def ready_def)

lemma shards_kept_locked:
  assumes "shards_ready ss keys n d ts" "batch_ok ts"
  shows "shards_kept ss (locked_shards S ss d ts)"
proof -
  have "shard_inv (after_lock S d ts s) \<and> m_output_range (after_lock S d ts s) = m_output_range s \<and> ledger (after_lock S d ts s) = ledger s"
    if "s \<in> set ss" for s
  proof -
    have "ready s d ts"
      using assms(1) that by (simp add: shards_ready_def)
    then show ?thesis
      using after_lock_facts(4-6) [of s d ts S] assms(2) by (cases "filter (active s) ts = []") (auto simp: after_lock_def ready_def)
  qed
  then show ?thesis
    by (simp add: shards_kept_def locked_shards_def)
qed

text \<open>The callbacks see only parts of the batch that no phase changes.\<close>

lemma call_cb_cong:
  "m_dtx_id D' = m_dtx_id D \<Longrightarrow> m_tx_idxs D' = m_tx_idxs D \<Longrightarrow> call_commit_cb cb w c D' = call_commit_cb cb w c D"
  "m_dtx_id D' = m_dtx_id D \<Longrightarrow> call_discard_cb cb w D' = call_discard_cb cb w D"
  "m_dtx_id D' = m_dtx_id D \<Longrightarrow> call_done_cb cb w D' = call_done_cb cb w D"
  by (simp_all add: call_commit_cb_def call_discard_cb_def call_done_cb_def split: option.split)

text \<open>The discard phase with any answers of its callbacks.\<close>

lemma discard_any:
  assumes "shards_settled ss c ts ss'" "call_discard_cb cb w D = Some (ok2, w2)" "call_done_cb cb w2 D = Some (ok3, w3)"
    "length (m_tx_idxs D) = length ss"
  shows "\<exists>ss''. discard cb w D ss' = Some (ok2 \<and> ok3, if ok2 then w3 else w2,
      D\<lparr>m_state := if ok2 \<and> ok3 then Dtx_done else Dtx_failed\<rparr>, ss'') \<and> shards_settled ss c ts ss''"
proof (cases ok2)
  case False
  then show ?thesis
    using assms(1,2) by (simp add: discard_def)
next
  case True
  then have "\<exists>ss''. discard (cb\<lparr>done_cb := None\<rparr>) w D ss' = Some (True, w2, D\<lparr>m_state := Dtx_done\<rparr>, ss'') \<and> shards_settled ss c ts ss''"
    using assms(2) by (intro discard_ready [OF assms(1) _ _ assms(4)]) (simp_all add: call_discard_cb_def call_done_cb_def)
  then obtain rs ss'' where "discard_shards (m_dtx_id D) ss' (m_tx_idxs D) = (rs, ss'')" "list_all id rs" "shards_settled ss c ts ss''"
    using assms(2) True by (auto simp: discard_def call_discard_cb_def split: bind_splits prod.splits if_splits)
  then show ?thesis
    using assms(2,3) True by (simp add: discard_def)
qed

lemma execute_any_callbacks:
  assumes sr: "shards_ready ss keys n d ts" and bok: "batch_ok ts" and c: "c = map (completable S ss keys n) ts"
    and D: "routed ss D" "m_full_txs D = ts" "m_dtx_id D = d" "m_state D = Dtx_start"
    and cb: "call_prepare_cb cb w D = Some (ok0, w0)" "call_commit_cb cb w0 c D = Some (ok1, w1)"
      "call_discard_cb cb w1 D = Some (ok2, w2)" "call_done_cb cb w2 D = Some (ok3, w3)"
  shows "\<exists>dt ss'. execute S cb w D ss = Some (if ok0 \<and> ok1 \<and> ok2 \<and> ok3 then Some c else None,
      if \<not> ok0 then w0 else if \<not> ok1 then w1 else if \<not> ok2 then w2 else w3, dt, ss') \<and>
    m_state dt = (if ok0 \<and> ok1 \<and> ok2 \<and> ok3 then Dtx_done else Dtx_failed) \<and>
    (if ok0 \<and> ok1 then shards_settled ss c ts ss' else shards_kept ss ss')"
proof (cases ok0)
  case False
  then show ?thesis
    using cb(1) D(4) shards_kept_ready [OF sr] by (simp add: execute_def execute_prepare_def prepare_def)
next
  case ok0: True
  define D1 where "D1 = D\<lparr>d_txs := map2 (\<lambda>txs idxs. if idxs = [] then txs else []) (d_txs D) (m_tx_idxs D),
    m_state := Dtx_commit, m_complete_txs := c\<rparr>"
  have "prepare S cb w D ss = Some (Some c, w0, D1\<lparr>m_complete_txs := m_complete_txs D\<rparr>, locked_shards S ss d ts)"
    using prepare_ready [OF sr bok _ D(1-3), of cb w w0 S] cb(1) ok0 unfolding D1_def c locked_shards_def by simp
  then have 1: "execute_prepare S cb w D ss = Some (True, w0, D1, locked_shards S ss d ts)"
    using D(2,4) by (simp add: execute_prepare_def c D1_def)
  have D1: "m_dtx_id D1 = d" "m_tx_idxs D1 = map (shard_idxs ts) ss" "m_state D1 = Dtx_commit" "m_complete_txs D1 = c"
    using D by (simp_all add: D1_def routed_def)
  have call: "call_commit_cb cb w0 c D1 = Some (ok1, w1)"
    using cb(2) call_cb_cong(1) [of D1 D cb] D D1 by (simp add: routed_def)
  show ?thesis
  proof (cases ok1)
    case False
    then show ?thesis
      using 1 call D1 ok0 shards_kept_locked [OF sr bok, of S] by (simp add: execute_def execute_commit_def commit_def)
  next
    case ok1: True
    obtain rs ss1 where a: "apply_shards d c (locked_shards S ss d ts) (map (shard_idxs ts) ss) = Some (rs, ss1)"
      "list_all id rs" "shards_settled ss c ts ss1"
      using apply_shards_ready [OF sr bok c] unfolding locked_shards_def by blast
    let ?D2 = "D1\<lparr>m_state := Dtx_discard\<rparr>"
    have 2: "execute_commit cb w0 D1 (locked_shards S ss d ts) = Some (True, w1, ?D2, ss1)"
      using call D1 ok1 a by (simp add: execute_commit_def commit_def)
    have "call_discard_cb cb w1 ?D2 = Some (ok2, w2)" "call_done_cb cb w2 ?D2 = Some (ok3, w3)"
      using cb(3,4) call_cb_cong(2,3) [of ?D2 D cb] D D1 by simp_all
    then obtain ss2 where "discard cb w1 ?D2 ss1 = Some (ok2 \<and> ok3, if ok2 then w3 else w2,
        ?D2\<lparr>m_state := if ok2 \<and> ok3 then Dtx_done else Dtx_failed\<rparr>, ss2)" "shards_settled ss c ts ss2"
      using discard_any [OF a(3), of cb w1 ?D2] D1(2) by auto
    then show ?thesis
      using 1 2 D1 ok0 ok1 by (auto simp: execute_def execute_discard_def)
  qed
qed

text \<open>
  A concrete example: two shards that split the hashes by their first bit, and a batch of two
  transactions, one from the first shard to the second and one whose input does not exist.
\<close>

definition sample_shards :: "locking_shard list" where
  "sample_shards = [(locking_shard_init (0, 127) 10 {} 0)\<lparr>m_uhs := {sample_hash 5}\<rparr>, locking_shard_init (128, 255) 10 {} 0]"

definition sample_batch :: "compact_tx list" where
  "sample_batch = [sample_tx 1 [5] [200], sample_tx 2 [6] [7]]"

lemma sample_ready: "shards_ready sample_shards {} 0 (sample_hash 9) sample_batch" "batch_ok sample_batch"
proof -
  obtain s1 s2 where ss: "sample_shards = [s1, s2]"
    and s1: "s1 = (locking_shard_init (0, 127) 10 {} 0)\<lparr>m_uhs := {sample_hash 5}\<rparr>"
    and s2: "s2 = locking_shard_init (128, 255) 10 {} 0"
    by (simp add: sample_shards_def)
  have in1: "in_shard s1 h \<longleftrightarrow> hd h \<le> 127" and in2: "in_shard s2 h \<longleftrightarrow> 128 \<le> hd h" for h
    using unat_lt2p [of "hd h"]
    by (simp_all add: s1 s2 in_shard_def hash_in_shard_range_def locking_shard_init_def word_le_nat_alt)
  have split: "hd h \<le> 127 \<longleftrightarrow> \<not> 128 \<le> hd h" for h :: hash_t
    by (simp add: word_le_nat_alt) arith
  have cover: "\<exists>i < length [s1, s2]. in_shard ([s1, s2] ! i) h \<and>
      (\<forall>j < length [s1, s2]. in_shard ([s1, s2] ! j) h \<longrightarrow> j = i)" for h
    using split [of h] by (cases "128 \<le> hd h") (auto simp: in1 in2 All_less_Suc2 Ex_less_Suc2)
  have "shard_inv s1" "shard_inv s2"
    unfolding s1 s2
    by (rule shard_inv_fresh [OF shard_inv_init], simp add: locking_shard_init_def) (rule shard_inv_init)
  then have "ready s1 (sample_hash 9) sample_batch" "ready s2 (sample_hash 9) sample_batch"
    by (simp_all add: ready_def s1 s2 locking_shard_init_def)
  then show "shards_ready sample_shards {} 0 (sample_hash 9) sample_batch"
    unfolding shards_ready_def ss using cover
    by (auto simp: check_unspent_def in1 in2) (simp_all add: s1 s2 locking_shard_init_def word_le_nat_alt)
  show "batch_ok sample_batch"
    by (simp add: batch_ok_def sample_batch_def sample_tx_def)
qed

lemma sample_completable: "map (completable toy_secp sample_shards {} 0) sample_batch = [True, False]"
  by (simp add: completable_def check_attestations_def sample_batch_def sample_tx_def sample_shards_def locking_shard_init_def)

section \<open>Properties\<close>

text \<open>C2: A batch is executed atomically over all shards, whichever of its callbacks fail. The hypotheses are: the ranges of the shards
  cover every hash once, all shards run, are configured alike, do not know the batch and hold only hashes of their ranges, none of the inputs and outputs
  of the batch is locked by another batch (\<open>shards_ready\<close>); no transaction of the batch lists an input twice, no two share an input and none spends
  an output of the batch (\<open>batch_ok\<close>; \<open>abort_releases_lock_of_other_tx\<close> shows that this is needed); and each callback returns true or false
  rather than ending the process. Then building the batch with \<open>add_tx\<close> and executing it returns. If all
  callbacks return true, it returns flags, the batch is done and flag \<open>k\<close> is set if and only if transaction \<open>k\<close> is attested and all its
  inputs are in the UHS of some shard; otherwise it returns nothing, the batch has failed, and the callbacks after the first false one are not called.
  If the callbacks of the prepare and of the commit phase returned true, the set of unspent outputs over all shards
  loses exactly the inputs and gains exactly the outputs of the transactions that can be completed, whichever shards they lie on; otherwise it does
  not change. Every shard keeps its invariant and its range.\<close>

theorem distributed_tx_atomic:
  fixes ss :: "locking_shard list" and ts :: "compact_tx list" and d :: hash_t and S :: secp256k1
    and keys :: "pubkey_t set" and n :: nat
  defines "D \<equiv> foldl (add_tx ss) (distributed_tx_init d ss) ts" and "c \<equiv> map (completable S ss keys n) ts"
  assumes "shards_ready ss keys n d ts" "batch_ok ts"
    and "call_prepare_cb cb w D = Some (ok0, w0)" "call_commit_cb cb w0 c D = Some (ok1, w1)"
    and "call_discard_cb cb w1 D = Some (ok2, w2)" "call_done_cb cb w2 D = Some (ok3, w3)"
  shows "\<exists>dt ss'. execute S cb w D ss = Some (if ok0 \<and> ok1 \<and> ok2 \<and> ok3 then Some c else None,
      if \<not> ok0 then w0 else if \<not> ok1 then w1 else if \<not> ok2 then w2 else w3, dt, ss') \<and>
    m_state dt = (if ok0 \<and> ok1 \<and> ok2 \<and> ok3 then Dtx_done else Dtx_failed) \<and>
    map m_output_range ss' = map m_output_range ss \<and> (\<forall>s \<in> set ss'. shard_inv s) \<and>
    (\<forall>h. (\<exists>s \<in> set ss'. check_unspent s h) \<longleftrightarrow>
       (if ok0 \<and> ok1 then (\<exists>s \<in> set ss. check_unspent s h) \<and> \<not> (\<exists>k < length ts. c ! k \<and> h \<in> set (c_inputs (ts ! k))) \<or>
          (\<exists>k < length ts. c ! k \<and> h \<in> set (m_uhs_outputs (ts ! k)))
        else (\<exists>s \<in> set ss. check_unspent s h)))"
proof -
  have D: "routed ss D" "m_full_txs D = ts" "m_dtx_id D = d" "m_state D = Dtx_start"
    using routed_add_txs [OF routed_init, of ss d ts] by (simp_all add: D_def distributed_tx_init_def)
  have c: "c = map (completable S ss keys n) ts" and len: "length c = length ts"
    by (simp_all add: c_def)
  obtain dt ss' where x: "execute S cb w D ss = Some (if ok0 \<and> ok1 \<and> ok2 \<and> ok3 then Some c else None,
      if \<not> ok0 then w0 else if \<not> ok1 then w1 else if \<not> ok2 then w2 else w3, dt, ss')"
      "m_state dt = (if ok0 \<and> ok1 \<and> ok2 \<and> ok3 then Dtx_done else Dtx_failed)"
      and st: "if ok0 \<and> ok1 then shards_settled ss c ts ss' else shards_kept ss ss'"
    using execute_any_callbacks [OF assms(3,4) c D assms(5-8)] by blast
  have "map m_output_range ss' = map m_output_range ss \<and> (\<forall>s \<in> set ss'. shard_inv s)"
    using st by (auto simp: shards_settled_def shards_kept_def list_eq_iff_nth_eq in_set_conv_nth split: if_splits)
  moreover have "(\<exists>s \<in> set ss'. check_unspent s h) \<longleftrightarrow>
      (if ok0 \<and> ok1 then (\<exists>s \<in> set ss. check_unspent s h) \<and> \<not> (\<exists>k < length ts. c ! k \<and> h \<in> set (c_inputs (ts ! k))) \<or>
          (\<exists>k < length ts. c ! k \<and> h \<in> set (m_uhs_outputs (ts ! k)))
        else (\<exists>s \<in> set ss. check_unspent s h))" for h
    using st settled_union [OF assms(3) _ len, of ss' h] kept_union [of ss ss' h] by (auto split: if_splits)
  ultimately show ?thesis
    using x by blast
qed

theorem distributed_tx_atomic_witness:
  "\<exists>dt ss'. execute toy_secp no_callbacks ()
      (foldl (add_tx sample_shards) (distributed_tx_init (sample_hash 9) sample_shards) sample_batch) sample_shards =
      Some (Some [True, False], (), dt, ss') \<and>
    (\<exists>s \<in> set ss'. check_unspent s (sample_hash 200)) \<and> \<not> (\<exists>s \<in> set ss'. check_unspent s (sample_hash 5))"
proof -
  let ?c = "map (completable toy_secp sample_shards {} 0) sample_batch"
  obtain dt ss' where r: "execute toy_secp no_callbacks ()
      (foldl (add_tx sample_shards) (distributed_tx_init (sample_hash 9) sample_shards) sample_batch) sample_shards =
      Some (Some ?c, (), dt, ss')"
    and u: "\<And>h. (\<exists>s \<in> set ss'. check_unspent s h) \<longleftrightarrow> (\<exists>s \<in> set sample_shards. check_unspent s h) \<and>
       \<not> (\<exists>k < length sample_batch. ?c ! k \<and> h \<in> set (c_inputs (sample_batch ! k))) \<or>
       (\<exists>k < length sample_batch. ?c ! k \<and> h \<in> set (m_uhs_outputs (sample_batch ! k)))"
    using distributed_tx_atomic [OF sample_ready, of no_callbacks "()" True "()" toy_secp True "()" True "()" True "()"] by auto
  have "\<exists>s \<in> set ss'. check_unspent s (sample_hash 200)" "\<not> (\<exists>s \<in> set ss'. check_unspent s (sample_hash 5))"
    unfolding u sample_completable by (simp_all add: sample_batch_def Ex_less_Suc2 sample_tx_def)
  then show ?thesis
    using r unfolding sample_completable by blast
qed

text \<open>C37: Another coordinator can take over a batch in the middle of a phase. If the prepare phase
  of a batch returned \<open>c\<close>, then whichever shards had already executed their lock, rebuilding
  the batch with \<open>recover_prepare\<close> and preparing it again returns the same \<open>c\<close> and brings every
  shard to the same state. If the commit phase with the flags \<open>c\<close> succeeded, then whichever
  shards had already applied the batch, \<open>recover_commit\<close> with the replicated flags and indices
  and committing again succeeds and brings every shard to the same state.\<close>

theorem interrupted_phases_resume:
  assumes "D = foldl (add_tx ss) (distributed_tx_init d ss) ts"
  shows "(prepare S cb w D ss = Some (Some c, w1, D1, ss1) \<and> between ss ss1 zs \<longrightarrow>
      (\<exists>D'. prepare S cb w (recover_prepare zs (distributed_tx_init d zs) ts) zs = Some (Some c, w1, D', ss1) \<and>
         m_state D' = Dtx_commit)) \<and>
    (commit cb w c D1 ss1 = Some (True, w1, D2, ss2) \<and> between ss1 ss2 zs \<longrightarrow>
      (\<exists>D'. commit cb w c (recover_commit (distributed_tx_init (m_dtx_id D1) zs) c (m_tx_idxs D1)) zs =
         Some (True, w1, D', ss2) \<and> m_state D' = Dtx_discard))"
proof (intro conjI impI; elim conjE)
  assume p: "prepare S cb w D ss = Some (Some c, w1, D1, ss1)" and bt: "between ss ss1 zs"
  have "recover_prepare zs (distributed_tx_init d zs) ts = D\<lparr>m_state := Dtx_prepare\<rparr>"
    unfolding assms by (rule recovered_batch [OF prepare_ranges [OF p bt]])
  then show "\<exists>D'. prepare S cb w (recover_prepare zs (distributed_tx_init d zs) ts) zs = Some (Some c, w1, D', ss1) \<and>
      m_state D' = Dtx_commit"
    using prepare_resume [OF p bt] unfolding prepare_Some by (auto simp: call_prepare_cb_def split: option.splits)
next
  assume c: "commit cb w c D1 ss1 = Some (True, w1, D2, ss2)" and bt: "between ss1 ss2 zs"
  show "\<exists>D'. commit cb w c (recover_commit (distributed_tx_init (m_dtx_id D1) zs) c (m_tx_idxs D1)) zs =
      Some (True, w1, D', ss2) \<and> m_state D' = Dtx_discard"
    using commit_resume [OF c bt] unfolding commit_Some
    by (auto simp: recover_commit_def distributed_tx_init_def call_commit_cb_def split: option.splits)
qed

theorem interrupted_phases_resume_witness:
  "let s = (locking_shard_init (0, 255) 10 {} 0)\<lparr>m_uhs := {sample_hash 5}\<rparr>;
       ts = [sample_tx 1 [5] [6]];
       s1 = snd (the (lock_outputs toy_secp s ts (sample_hash 9)))
   in \<exists>D'. prepare toy_secp no_callbacks () (recover_prepare [s1] (distributed_tx_init (sample_hash 9) [s1]) ts) [s1] =
      Some (Some [True], (), D', [s1])"
proof -
  define s where "s = (locking_shard_init (0, 255) 10 {} 0)\<lparr>m_uhs := {sample_hash 5}\<rparr>"
  let ?t = "sample_tx 1 [5] [6]"
  let ?D = "foldl (add_tx [s]) (distributed_tx_init (sample_hash 9) [s]) [?t]"
  have range: "in_shard s h" for h
    by (simp add: in_shard_def s_def locking_shard_init_def)
  have fresh: "m_running s" "m_prepared_dtxs s = (\<lambda>x. None)"
    by (simp_all add: s_def locking_shard_init_def)
  have "lock_txs toy_secp s [?t] = Some ([True], move_locked {sample_hash 5} s)"
    by (simp add: check_and_lock_tx_eq lockable_def range sample_tx_def check_attestations_def)
       (simp add: s_def locking_shard_init_def)
  then obtain s1 where s1: "lock_outputs toy_secp s [?t] (sample_hash 9) = Some (Some [True], s1)"
    using fresh by (simp add: lock_outputs_def del: lock_txs.simps)
  moreover have "active s ?t"
    by (simp add: active_def range)
  ultimately obtain D1 where "prepare toy_secp no_callbacks () ?D [s] = Some (Some [True], (), D1, [s1])"
    by (simp add: prepare_def add_tx_def distributed_tx_init_def)
  moreover have "between [s] [s1] [s1]"
    by (simp add: between_def)
  ultimately have "\<exists>D'. prepare toy_secp no_callbacks () (recover_prepare [s1] (distributed_tx_init (sample_hash 9) [s1]) [?t]) [s1] =
      Some (Some [True], (), D', [s1]) \<and> m_state D' = Dtx_commit"
    by (intro interrupted_phases_resume [THEN conjunct1, OF refl, THEN mp] conjI)
  then show ?thesis
    unfolding Let_def s_def [symmetric] s1 by auto
qed

end
