(* ===== verification/Coordinator_SM.thy ===== *)
theory Coordinator_SM
  imports Distributed_Tx Raft_SM
begin

text \<open>
  The replicated state machine of a coordinator cluster
  (\<open>uhs/twophase/coordinator/state_machine.cpp\<close>) and its wire formats (\<open>format.cpp\<close>,
  \<open>controller.hpp\<close>). The machine tracks the phase of every unfinished batch. It keeps the
  payload of a command as bytes: \<open>copy\<close> is \<open>nuraft::buffer::copy\<close>, given the bytes of the buffer
  and its read position. \<open>None\<close> is the end of the process: a \<open>fatal\<close> log call, a failed
  assertion, or the exception of \<open>std::optional::value\<close> or \<open>std::get\<close>.
\<close>

section \<open>Commands\<close>

text \<open>\<open>Command_other\<close> stands for the values of the underlying \<open>uint8_t\<close> without a name.\<close>

datatype command =
  Command_prepare | Command_commit | Command_discard | Command_done | Command_get | Command_other byte

fun command_byte :: "command \<Rightarrow> byte" where
  "command_byte Command_prepare = 0"
| "command_byte Command_commit = 1"
| "command_byte Command_discard = 2"
| "command_byte Command_done = 3"
| "command_byte Command_get = 4"
| "command_byte (Command_other b) = b"

definition command_cast :: "byte \<Rightarrow> command" where
  "command_cast b =
    (if b = 0 then Command_prepare else if b = 1 then Command_commit else if b = 2 then Command_discard
     else if b = 3 then Command_done else if b = 4 then Command_get else Command_other b)"

record sm_command_header =
  m_comm :: command
  h_dtx_id :: "hash_t option"

type_synonym prepare_tx = "compact_tx list"
type_synonym commit_tx = "bool list \<times> nat list list"

datatype sm_data = Prepare_data prepare_tx | Commit_data commit_tx

record sm_command =
  m_header :: sm_command_header
  m_data :: "sm_data option"

definition put_header :: "sm_command_header putter" where
  "put_header c = put_u8 (command_byte (m_comm c)) @ put_option put_array (h_dtx_id c)"

text \<open>
  Reading a header that is too short leaves the fields that were not reached at their defaults.
  The bytes that remain are only used when the identifier was read.
\<close>

definition get_header :: "byte list \<Rightarrow> sm_command_header \<times> byte list" where
  "get_header bs =
    (case get_u8 bs of
       None \<Rightarrow> (\<lparr>m_comm = Command_prepare, h_dtx_id = None\<rparr>, [])
     | Some (b, r) \<Rightarrow>
         (case get_option (get_array hash_size) r of
            None \<Rightarrow> (\<lparr>m_comm = command_cast b, h_dtx_id = None\<rparr>, [])
          | Some (i, r') \<Rightarrow> (\<lparr>m_comm = command_cast b, h_dtx_id = i\<rparr>, r')))"

text \<open>Indices are \<open>uint64_t\<close> on the wire.\<close>

definition put_idx :: "nat putter" where
  "put_idx n = put_u64 (word_of_nat n)"

definition get_idx :: "nat getter" where
  "get_idx bs = do { (w, r) \<leftarrow> get_u64 bs; Some (unat w, r) }"

definition put_prepare_tx :: "prepare_tx putter" where
  "put_prepare_tx = put_vector put_compact_tx"

definition get_prepare_tx :: "prepare_tx getter" where
  "get_prepare_tx = get_vector sizeof_compact_tx get_compact_tx"

definition put_commit_tx :: "commit_tx putter" where
  "put_commit_tx = put_pair (put_vector put_bool) (put_vector (put_vector put_idx))"

definition get_commit_tx :: "commit_tx getter" where
  "get_commit_tx = get_pair (get_vector 1 get_bool) (get_vector sizeof_vector (get_vector 8 get_idx))"

definition put_sm_command :: "sm_command \<Rightarrow> byte list option" where
  "put_sm_command c =
    (case m_comm (m_header c) of
       Command_prepare \<Rightarrow>
         (case m_data c of Some (Prepare_data txs) \<Rightarrow> Some (put_header (m_header c) @ put_prepare_tx txs) | _ \<Rightarrow> None)
     | Command_commit \<Rightarrow>
         (case m_data c of Some (Commit_data x) \<Rightarrow> Some (put_header (m_header c) @ put_commit_tx x) | _ \<Rightarrow> None)
     | _ \<Rightarrow> Some (put_header (m_header c)))"

section \<open>State\<close>

text \<open>
  The state holds the payloads as bytes in the state machine and as values in the controller
  that reads it back. The unordered containers are lists in the order of their iteration.
\<close>

record ('p, 'c) coordinator_state =
  m_prepare_txs :: "(hash_t \<times> 'p) list"
  m_commit_txs :: "(hash_t \<times> 'c) list"
  m_discard_txs :: "hash_t list"

type_synonym raw_state = "(byte list, byte list) coordinator_state"
type_synonym typed_state = "(prepare_tx, commit_tx) coordinator_state"

record coordinator_sm =
  csm_state :: raw_state
  csm_last_committed_idx :: u64

definition coordinator_sm_init :: coordinator_sm where
  "coordinator_sm_init =
    \<lparr>csm_state = \<lparr>m_prepare_txs = [], m_commit_txs = [], m_discard_txs = []\<rparr>, csm_last_committed_idx = 0\<rparr>"

definition put_state :: "raw_state putter" where
  "put_state s = put_map put_array (\<lambda>b. b) (m_prepare_txs s) @ put_map put_array (\<lambda>b. b) (m_commit_txs s)
     @ put_set put_array (m_discard_txs s)"

definition get_state :: "typed_state getter" where
  "get_state bs = do {
     (p, r) \<leftarrow> get_map (get_array hash_size) get_prepare_tx bs;
     (c, r) \<leftarrow> get_map (get_array hash_size) get_commit_tx r;
     (d, r) \<leftarrow> get_unordered_set (get_array hash_size) r;
     Some (\<lparr>m_prepare_txs = p, m_commit_txs = c, m_discard_txs = d\<rparr>, r) }"

definition map_erase :: "'k \<Rightarrow> ('k \<times> 'v) list \<Rightarrow> ('k \<times> 'v) list" where
  "map_erase k m = filter (\<lambda>(x, _). x \<noteq> k) m"

section \<open>Executing commands\<close>

definition sm_prepare :: "raw_state \<Rightarrow> hash_t \<Rightarrow> byte list \<Rightarrow> raw_state option" where
  "sm_prepare s d payload =
    (if d \<in> fst ` set (m_prepare_txs s) then None
     else Some (s\<lparr>m_prepare_txs := emplace d payload (m_prepare_txs s)\<rparr>))"

definition sm_commit :: "raw_state \<Rightarrow> hash_t \<Rightarrow> byte list \<Rightarrow> raw_state option" where
  "sm_commit s d payload =
    (if d \<notin> fst ` set (m_prepare_txs s) then None
     else Some (s\<lparr>m_prepare_txs := map_erase d (m_prepare_txs s),
                  m_commit_txs := emplace d payload (m_commit_txs s)\<rparr>))"

definition sm_discard :: "raw_state \<Rightarrow> hash_t \<Rightarrow> raw_state option" where
  "sm_discard s d =
    (if d \<notin> fst ` set (m_commit_txs s) then None
     else Some (s\<lparr>m_commit_txs := map_erase d (m_commit_txs s),
                  m_discard_txs := insert_item d (m_discard_txs s)\<rparr>))"

definition sm_done :: "raw_state \<Rightarrow> hash_t \<Rightarrow> raw_state option" where
  "sm_done s d =
    (if d \<notin> set (m_discard_txs s) then None
     else Some (s\<lparr>m_discard_txs := filter (\<lambda>x. x \<noteq> d) (m_discard_txs s)\<rparr>))"

definition coordinator_commit ::
  "(byte list \<Rightarrow> nat \<Rightarrow> byte list) \<Rightarrow> coordinator_sm \<Rightarrow> u64 \<Rightarrow> byte list
     \<Rightarrow> (byte list option \<times> coordinator_sm) option" where
  "coordinator_commit copy sm log_idx data =
    (if log_idx \<noteq> csm_last_committed_idx sm + 1 then None
     else let (comm, r) = get_header data;
              payload = copy data (length data - length r);
              upd = map_option (\<lambda>s. (None, sm\<lparr>csm_last_committed_idx := log_idx, csm_state := s\<rparr>))
       in case m_comm comm of
            Command_prepare \<Rightarrow> do { d \<leftarrow> h_dtx_id comm; upd (sm_prepare (csm_state sm) d payload) }
          | Command_commit \<Rightarrow> do { d \<leftarrow> h_dtx_id comm; upd (sm_commit (csm_state sm) d payload) }
          | Command_discard \<Rightarrow> do { d \<leftarrow> h_dtx_id comm; upd (sm_discard (csm_state sm) d) }
          | Command_done \<Rightarrow> do { d \<leftarrow> h_dtx_id comm; upd (sm_done (csm_state sm) d) }
          | Command_get \<Rightarrow> Some (Some (put_state (csm_state sm)), sm\<lparr>csm_last_committed_idx := log_idx\<rparr>)
          | Command_other _ \<Rightarrow> Some (None, sm\<lparr>csm_last_committed_idx := log_idx\<rparr>))"

definition coordinator_commit_config :: "coordinator_sm \<Rightarrow> u64 \<Rightarrow> coordinator_sm option" where
  "coordinator_commit_config sm log_idx =
    (if log_idx \<noteq> csm_last_committed_idx sm + 1 then None
     else Some (sm\<lparr>csm_last_committed_idx := log_idx\<rparr>))"

interpretation coordinator_raft:
  raft_state_machine "coordinator_commit copy" coordinator_commit_config csm_last_committed_idx for copy
  by unfold_locales
     (auto simp: coordinator_commit_def coordinator_commit_config_def Let_def
       split: if_splits prod.splits command.splits bind_splits)

section \<open>The formats are read back\<close>

definition wf_commit_tx :: "commit_tx \<Rightarrow> bool" where
  "wf_commit_tx x \<longleftrightarrow> wf_vector (\<lambda>_. True) (fst x) \<and> wf_vector (wf_vector (\<lambda>i. i < 2 ^ 64)) (snd x)"

interpretation idx: codec put_idx get_idx "\<lambda>i. i < 2 ^ 64"
proof (standard, goal_cases)
  case (1 x r)
  then show ?case
    by (simp add: put_idx_def get_idx_def u64.get_put unsigned_of_nat take_bit_nat_eq_self)
next
  case (2 bs x r e)
  then obtain w where "get_u64 bs = Some (w, r)" "x = unat w"
    by (auto simp: get_idx_def bind_Some_pair)
  then show ?case
    by (simp add: get_idx_def u64.get_append)
qed

interpretation prepare_tx_fmt: codec put_prepare_tx get_prepare_tx "wf_vector wf_compact_tx"
  unfolding put_prepare_tx_def get_prepare_tx_def
  by (rule codec_vector [OF compact_tx_fmt.codec_axioms]) (simp_all add: sizeof_defs)

interpretation commit_tx_fmt: codec put_commit_tx get_commit_tx wf_commit_tx
  unfolding put_commit_tx_def get_commit_tx_def wf_commit_tx_def
  by (intro codec_pair codec_vector bool.codec_axioms idx.codec_axioms) (simp_all add: sizeof_defs)

definition wf_header :: "sm_command_header \<Rightarrow> bool" where
  "wf_header h \<longleftrightarrow> (\<forall>b. m_comm h \<noteq> Command_other b) \<and> (\<forall>d. h_dtx_id h = Some d \<longrightarrow> is_hash d)"

lemma command_cast_byte: "(\<forall>b. c \<noteq> Command_other b) \<Longrightarrow> command_cast (command_byte c) = c"
  by (cases c) (auto simp: command_cast_def)

lemma get_header_put:
  assumes "wf_header h"
  shows "get_header (put_header h @ r) = (h, r)"
proof -
  have "get_option (get_array hash_size) (put_option put_array (h_dtx_id h) @ r) = Some (h_dtx_id h, r)"
    by (rule codec.get_put [OF codec_option [OF hash.codec_axioms]]) (use assms in \<open>simp add: wf_header_def\<close>)
  then show ?thesis
    using assms u8.get_put [OF TrueI, of "command_byte (m_comm h)" "put_option put_array (h_dtx_id h) @ r"]
    by (simp add: get_header_def put_header_def command_cast_byte wf_header_def)
qed

section \<open>The phases of the batches\<close>

text \<open>The state machine over values instead of bytes.\<close>

definition phase_step :: "typed_state \<Rightarrow> sm_command \<Rightarrow> typed_state option" where
  "phase_step t c =
    (case (m_comm (m_header c), h_dtx_id (m_header c), m_data c) of
       (Command_prepare, Some d, Some (Prepare_data p)) \<Rightarrow>
         if d \<in> fst ` set (m_prepare_txs t) then None
         else Some (t\<lparr>m_prepare_txs := m_prepare_txs t @ [(d, p)]\<rparr>)
     | (Command_commit, Some d, Some (Commit_data x)) \<Rightarrow>
         if d \<notin> fst ` set (m_prepare_txs t) then None
         else Some (t\<lparr>m_prepare_txs := map_erase d (m_prepare_txs t), m_commit_txs := emplace d x (m_commit_txs t)\<rparr>)
     | (Command_discard, Some d, _) \<Rightarrow>
         if d \<notin> fst ` set (m_commit_txs t) then None
         else Some (t\<lparr>m_commit_txs := map_erase d (m_commit_txs t), m_discard_txs := insert_item d (m_discard_txs t)\<rparr>)
     | (Command_done, Some d, _) \<Rightarrow>
         if d \<notin> set (m_discard_txs t) then None
         else Some (t\<lparr>m_discard_txs := filter (\<lambda>x. x \<noteq> d) (m_discard_txs t)\<rparr>)
     | (Command_get, _, _) \<Rightarrow> Some t
     | _ \<Rightarrow> None)"

definition encode_state :: "typed_state \<Rightarrow> raw_state" where
  "encode_state t = \<lparr>m_prepare_txs = map (apsnd put_prepare_tx) (m_prepare_txs t),
     m_commit_txs = map (apsnd put_commit_tx) (m_commit_txs t), m_discard_txs = m_discard_txs t\<rparr>"

definition wf_state :: "typed_state \<Rightarrow> bool" where
  "wf_state t \<longleftrightarrow> wf_map is_hash (wf_vector wf_compact_tx) (m_prepare_txs t) \<and>
     wf_map is_hash wf_commit_tx (m_commit_txs t) \<and> wf_set is_hash (m_discard_txs t)"

lemma put_map_encoded: "put_map p (\<lambda>b. b) (map (apsnd q) m) = put_map p q m"
  by (simp add: put_map_def put_pair_def [abs_def] comp_def)

lemma get_state_encoded:
  assumes "wf_state t"
  shows "get_state (put_state (encode_state t)) = Some (t, [])"
proof -
  note hash = hash.codec_axioms
  have 1: "get_map (get_array hash_size) get_prepare_tx (put_map put_array put_prepare_tx (m_prepare_txs t) @ r) =
      Some (m_prepare_txs t, r)" for r
    by (rule codec.get_put [OF codec_map [OF hash prepare_tx_fmt.codec_axioms]]) (use assms in \<open>simp add: wf_state_def\<close>)
  have 2: "get_map (get_array hash_size) get_commit_tx (put_map put_array put_commit_tx (m_commit_txs t) @ r) =
      Some (m_commit_txs t, r)" for r
    by (rule codec.get_put [OF codec_map [OF hash commit_tx_fmt.codec_axioms]]) (use assms in \<open>simp add: wf_state_def\<close>)
  have 3: "get_unordered_set (get_array hash_size) (put_set put_array (m_discard_txs t)) = Some (m_discard_txs t, [])"
    by (rule codec.get_put_nil [OF codec_unordered_set [OF hash]]) (use assms in \<open>simp add: wf_state_def\<close>)
  show ?thesis
    by (simp add: get_state_def put_state_def encode_state_def put_map_encoded 1 2 3)
qed

lemma encoded_keys [simp]: "fst ` set (map (apsnd f) m) = fst ` set m"
  by force

lemma map_erase_encoded: "map_erase d (map (apsnd f) m) = map (apsnd f) (map_erase d m)"
  by (induction m) (auto simp: map_erase_def)

lemma emplace_encoded: "emplace d (f x) (map (apsnd f) m) = map (apsnd f) (emplace d x m)"
  unfolding emplace_def encoded_keys by simp

text \<open>The commit of a command that is read completely.\<close>

lemma coordinator_commit_put:
  assumes "\<forall>data pos. copy data pos = drop pos data" "wf_header h"
  shows "coordinator_commit copy sm (csm_last_committed_idx sm + 1) (put_header h @ pl) =
    (let upd = map_option (\<lambda>s. (None, sm\<lparr>csm_last_committed_idx := csm_last_committed_idx sm + 1, csm_state := s\<rparr>))
     in case m_comm h of
          Command_prepare \<Rightarrow> do { d \<leftarrow> h_dtx_id h; upd (sm_prepare (csm_state sm) d pl) }
        | Command_commit \<Rightarrow> do { d \<leftarrow> h_dtx_id h; upd (sm_commit (csm_state sm) d pl) }
        | Command_discard \<Rightarrow> do { d \<leftarrow> h_dtx_id h; upd (sm_discard (csm_state sm) d) }
        | Command_done \<Rightarrow> do { d \<leftarrow> h_dtx_id h; upd (sm_done (csm_state sm) d) }
        | Command_get \<Rightarrow> Some (Some (put_state (csm_state sm)), sm\<lparr>csm_last_committed_idx := csm_last_committed_idx sm + 1\<rparr>)
        | Command_other _ \<Rightarrow> Some (None, sm\<lparr>csm_last_committed_idx := csm_last_committed_idx sm + 1\<rparr>))"
proof -
  have "copy (put_header h @ pl) (length (put_header h @ pl) - length pl) = pl"
    using assms(1) by simp
  then show ?thesis
    by (simp only: coordinator_commit_def get_header_put [OF assms(2)] Let_def prod.case simp_thms if_False)
qed

lemma encode_prepare:
  "sm_prepare (encode_state t) d (put_prepare_tx p) =
    (if d \<in> fst ` set (m_prepare_txs t) then None
     else Some (encode_state (t\<lparr>m_prepare_txs := m_prepare_txs t @ [(d, p)]\<rparr>)))"
  unfolding sm_prepare_def by (simp add: encode_state_def emplace_def image_image)

lemma encode_commit:
  "sm_commit (encode_state t) d (put_commit_tx x) =
    (if d \<notin> fst ` set (m_prepare_txs t) then None
     else Some (encode_state (t\<lparr>m_prepare_txs := map_erase d (m_prepare_txs t), m_commit_txs := emplace d x (m_commit_txs t)\<rparr>)))"
  unfolding sm_commit_def by (simp add: encode_state_def map_erase_encoded emplace_encoded image_image)

lemma encode_discard:
  "sm_discard (encode_state t) d =
    (if d \<notin> fst ` set (m_commit_txs t) then None
     else Some (encode_state (t\<lparr>m_commit_txs := map_erase d (m_commit_txs t), m_discard_txs := insert_item d (m_discard_txs t)\<rparr>)))"
  unfolding sm_discard_def by (simp add: encode_state_def map_erase_encoded image_image)

lemma encode_done:
  "sm_done (encode_state t) d =
    (if d \<notin> set (m_discard_txs t) then None
     else Some (encode_state (t\<lparr>m_discard_txs := filter (\<lambda>x. x \<noteq> d) (m_discard_txs t)\<rparr>)))"
  by (simp add: sm_done_def encode_state_def)

lemmas encode_simps = encode_prepare encode_commit encode_discard encode_done

text \<open>
  The two machines in lock step: the commands that end the process are the same, and otherwise
  the states stay related.
\<close>

lemma coordinator_commit_refines:
  assumes copy: "\<forall>data pos. copy data pos = drop pos data" and st: "csm_state sm = encode_state t"
    and wf: "wf_header (m_header c)" and bs: "put_sm_command c = Some bs"
  shows "map_option (\<lambda>(_, sm'). (csm_state sm', csm_last_committed_idx sm'))
      (coordinator_commit copy sm (csm_last_committed_idx sm + 1) bs) =
    map_option (\<lambda>t'. (encode_state t', csm_last_committed_idx sm + 1)) (phase_step t c)"
proof -
  obtain pl where pl: "bs = put_header (m_header c) @ pl"
    using bs by (auto simp: put_sm_command_def split: command.splits option.splits sm_data.splits)
  show ?thesis
    using bs wf unfolding pl coordinator_commit_put [OF copy wf]
    by (simp add: put_sm_command_def phase_step_def st Let_def encode_simps wf_header_def option.map_comp comp_def
        split: command.splits option.splits sm_data.splits if_splits)
       (metis encode_prepare, metis encode_commit)
qed

lemma coordinator_get_reply:
  assumes copy: "\<forall>data pos. copy data pos = drop pos data" and st: "csm_state sm = encode_state t" "wf_state t"
    and c: "wf_header (m_header c)" "m_comm (m_header c) = Command_get" and bs: "put_sm_command c = Some bs"
  shows "\<exists>reply sm'. coordinator_commit copy sm (csm_last_committed_idx sm + 1) bs = Some (Some reply, sm') \<and>
    get_state reply = Some (t, [])"
proof -
  have "bs = put_header (m_header c) @ []"
    using bs c(2) by (simp add: put_sm_command_def)
  then show ?thesis
    using coordinator_commit_put [OF copy c(1), of sm "[]"] get_state_encoded [OF st(2)] c(2) st(1)
    by (simp add: Let_def)
qed

section \<open>One phase per batch\<close>

definition one_phase :: "typed_state \<Rightarrow> bool" where
  "one_phase t \<longleftrightarrow> distinct (map fst (m_prepare_txs t)) \<and> distinct (map fst (m_commit_txs t)) \<and> distinct (m_discard_txs t) \<and>
     fst ` set (m_prepare_txs t) \<inter> fst ` set (m_commit_txs t) = {} \<and>
     fst ` set (m_prepare_txs t) \<inter> set (m_discard_txs t) = {} \<and>
     fst ` set (m_commit_txs t) \<inter> set (m_discard_txs t) = {}"

text \<open>
  The identifiers of new batches are random: a batch is not begun under the identifier of an
  unfinished one.
\<close>

definition fresh_prepare :: "typed_state \<Rightarrow> sm_command \<Rightarrow> bool" where
  "fresh_prepare t c \<longleftrightarrow> (m_comm (m_header c) = Command_prepare \<longrightarrow>
     (\<forall>d. h_dtx_id (m_header c) = Some d \<longrightarrow> d \<notin> fst ` set (m_commit_txs t) \<union> set (m_discard_txs t)))"

lemma map_erase_keys: "fst ` set (map_erase d m) = fst ` set m - {d}"
  by (force simp: map_erase_def)

lemma distinct_map_erase: "distinct (map fst m) \<Longrightarrow> distinct (map fst (map_erase d m))"
  unfolding map_erase_def by (rule distinct_map_filter)

lemma emplace_keys: "fst ` set (emplace d x m) = insert d (fst ` set m)"
  by (auto simp: emplace_def)

lemma distinct_emplace: "distinct (map fst m) \<Longrightarrow> distinct (map fst (emplace d x m))"
  by (auto simp: emplace_def)

lemma phase_step_one_phase:
  assumes "one_phase t" "fresh_prepare t c" "phase_step t c = Some t'"
  shows "one_phase t'"
proof -
  have ins: "set (insert_item d l) = insert d (set l)" "distinct l \<Longrightarrow> distinct (insert_item d l)" for d and l :: "hash_t list"
    by (auto simp: insert_item_def)
  note defs = one_phase_def map_erase_keys distinct_map_erase emplace_keys distinct_emplace ins
  show ?thesis
  proof (cases "m_comm (m_header c)")
    case Command_prepare
    then obtain d p where "t' = t\<lparr>m_prepare_txs := m_prepare_txs t @ [(d, p)]\<rparr>" "d \<notin> fst ` set (m_prepare_txs t)"
      "d \<notin> fst ` set (m_commit_txs t)" "d \<notin> set (m_discard_txs t)"
      using assms(2,3) by (auto simp: phase_step_def fresh_prepare_def split: option.splits sm_data.splits if_splits)
    then show ?thesis
      using assms(1) by (simp add: one_phase_def)
  next
    case Command_commit
    then obtain d x where "t' = t\<lparr>m_prepare_txs := map_erase d (m_prepare_txs t), m_commit_txs := emplace d x (m_commit_txs t)\<rparr>"
      "d \<in> fst ` set (m_prepare_txs t)"
      using assms(3) by (auto simp: phase_step_def split: option.splits sm_data.splits if_splits)
    then show ?thesis
      using assms(1) by (auto simp: defs)
  next
    case Command_discard
    then obtain d where "t' = t\<lparr>m_commit_txs := map_erase d (m_commit_txs t), m_discard_txs := insert_item d (m_discard_txs t)\<rparr>"
      "d \<in> fst ` set (m_commit_txs t)"
      using assms(3) by (auto simp: phase_step_def split: option.splits if_splits)
    then show ?thesis
      using assms(1) by (auto simp: defs)
  next
    case Command_done
    then obtain d where "t' = t\<lparr>m_discard_txs := filter (\<lambda>x. x \<noteq> d) (m_discard_txs t)\<rparr>"
      using assms(3) by (auto simp: phase_step_def split: option.splits if_splits)
    then show ?thesis
      using assms(1) unfolding one_phase_def by (simp add: disjoint_iff)
  qed (use assms in \<open>auto simp: phase_step_def\<close>)
qed

text \<open>The states of the machine after any log of well-formed commands.\<close>

inductive sm_reach :: "(byte list \<Rightarrow> nat \<Rightarrow> byte list) \<Rightarrow> coordinator_sm \<Rightarrow> typed_state \<Rightarrow> bool" for copy where
  init: "sm_reach copy coordinator_sm_init \<lparr>m_prepare_txs = [], m_commit_txs = [], m_discard_txs = []\<rparr>"
| command: "sm_reach copy sm t \<Longrightarrow> put_sm_command c = Some bs \<Longrightarrow> wf_header (m_header c) \<Longrightarrow> fresh_prepare t c \<Longrightarrow>
    coordinator_commit copy sm idx bs = Some (r, sm') \<Longrightarrow> phase_step t c = Some t' \<Longrightarrow> sm_reach copy sm' t'"
| config: "sm_reach copy sm t \<Longrightarrow> coordinator_commit_config sm idx = Some sm' \<Longrightarrow> sm_reach copy sm' t"

lemma sm_reach_invariant:
  assumes copy: "\<forall>data pos. copy data pos = drop pos data" and "sm_reach copy sm t"
  shows "csm_state sm = encode_state t \<and> one_phase t"
  using assms(2)
proof (induction rule: sm_reach.induct)
  case init
  then show ?case
    by (simp add: coordinator_sm_init_def encode_state_def one_phase_def)
next
  case (command sm t c bs idx r sm' t')
  have "idx = csm_last_committed_idx sm + 1"
    using coordinator_raft.commit_index [OF command(5)] by simp
  then show ?case
    using coordinator_commit_refines [OF copy _ command(3,2), of sm t] command phase_step_one_phase [of t c t'] by auto
next
  case (config sm t idx sm')
  then show ?case
    by (auto simp: coordinator_commit_config_def split: if_splits)
qed

section \<open>Properties\<close>



text \<open>The state machine itself does not enforce this. A prepare command for a batch that is in
  the commit phase is accepted, and the batch is in two phases afterwards.\<close>

theorem coordinator_prepare_of_committing:
  assumes "\<forall>data pos. copy data pos = drop pos data" "is_hash d"
    and "d \<in> fst ` set (m_commit_txs (csm_state sm))" "d \<notin> fst ` set (m_prepare_txs (csm_state sm))"
  shows "\<exists>sm'. coordinator_commit copy sm (csm_last_committed_idx sm + 1)
      (put_header \<lparr>m_comm = Command_prepare, h_dtx_id = Some d\<rparr> @ pl) = Some (None, sm') \<and>
    d \<in> fst ` set (m_prepare_txs (csm_state sm')) \<and> d \<in> fst ` set (m_commit_txs (csm_state sm'))"
proof -
  have wf: "wf_header \<lparr>m_comm = Command_prepare, h_dtx_id = Some d\<rparr>"
    using assms(2) by (simp add: wf_header_def)
  show ?thesis
    using coordinator_commit_put [OF assms(1) wf, of sm pl] assms(3,4) by (simp add: sm_prepare_def emplace_def)
qed

theorem coordinator_prepare_of_committing_witness:
  "let sm = \<lparr>csm_state = \<lparr>m_prepare_txs = [], m_commit_txs = [(sample_hash 9, [])], m_discard_txs = []\<rparr>, csm_last_committed_idx = 4\<rparr>
   in \<exists>sm'. coordinator_commit (\<lambda>data pos. drop pos data) sm 5
        (put_header \<lparr>m_comm = Command_prepare, h_dtx_id = Some (sample_hash 9)\<rparr>) = Some (None, sm') \<and>
      sample_hash 9 \<in> fst ` set (m_prepare_txs (csm_state sm')) \<and> sample_hash 9 \<in> fst ` set (m_commit_txs (csm_state sm'))"
  using coordinator_prepare_of_committing [of "\<lambda>data pos. drop pos data" "sample_hash 9"
      "\<lparr>csm_state = \<lparr>m_prepare_txs = [], m_commit_txs = [(sample_hash 9, [])], m_discard_txs = []\<rparr>, csm_last_committed_idx = 4\<rparr>" "[]"]
  by simp

end
