(* ===== verification/Coordinator.thy ===== *)
theory Coordinator
  imports Coordinator_SM
begin

text \<open>
  The controller of a coordinator node (\<open>uhs/twophase/coordinator/controller.cpp\<close>): the callbacks
  that replicate the phases of a batch, recovery by a new leader, the building of batches from
  the transactions of the sentinels, and the reaction to the changes of leadership. What Raft
  does with a replicated command is an argument, one outcome per call; an exhausted list
  stands for a node that is not the leader. The batches that recovery and the batch executor
  run on threads of their own are executed one after the other.
\<close>

section \<open>Replication\<close>

text \<open>
  A command is executed and acknowledged, executed without an acknowledgement (the result code
  is not \<open>OK\<close>), or lost.
\<close>

datatype raft_outcome = Raft_acked | Raft_unacked | Raft_lost

record coord_world =
  cw_sm :: coordinator_sm
  cw_raft :: "raft_outcome list"

definition replicate_sync ::
  "(byte list \<Rightarrow> nat \<Rightarrow> byte list) \<Rightarrow> coord_world \<Rightarrow> byte list \<Rightarrow> (byte list option option \<times> coord_world) option" where
  "replicate_sync copy w new_log =
    (case cw_raft w of
       [] \<Rightarrow> Some (None, w)
     | outcome # rest \<Rightarrow>
         if outcome = Raft_lost then Some (None, w\<lparr>cw_raft := rest\<rparr>)
         else do {
           (r, sm) \<leftarrow> coordinator_commit copy (cw_sm w) (csm_last_committed_idx (cw_sm w) + 1) new_log;
           Some (if outcome = Raft_acked then Some r else None, \<lparr>cw_sm = sm, cw_raft = rest\<rparr>) })"

definition replicate_sm_command ::
  "(byte list \<Rightarrow> nat \<Rightarrow> byte list) \<Rightarrow> coord_world \<Rightarrow> sm_command \<Rightarrow> (byte list option option \<times> coord_world) option" where
  "replicate_sm_command copy w c = do { buf \<leftarrow> put_sm_command c; replicate_sync copy w buf }"

section \<open>Callbacks\<close>

definition sm_prepare_cb ::
  "(byte list \<Rightarrow> nat \<Rightarrow> byte list) \<Rightarrow> coord_world \<Rightarrow> hash_t \<Rightarrow> compact_tx list \<Rightarrow> (bool \<times> coord_world) option" where
  "sm_prepare_cb copy w dtx_id txs =
    map_option (\<lambda>(r, w'). (r \<noteq> None, w')) (replicate_sm_command copy w
      \<lparr>m_header = \<lparr>m_comm = Command_prepare, h_dtx_id = Some dtx_id\<rparr>, m_data = Some (Prepare_data txs)\<rparr>)"

definition sm_commit_cb ::
  "(byte list \<Rightarrow> nat \<Rightarrow> byte list) \<Rightarrow> coord_world \<Rightarrow> hash_t \<Rightarrow> bool list \<Rightarrow> nat list list \<Rightarrow> (bool \<times> coord_world) option" where
  "sm_commit_cb copy w dtx_id complete_txs tx_idxs =
    map_option (\<lambda>(r, w'). (r \<noteq> None, w')) (replicate_sm_command copy w
      \<lparr>m_header = \<lparr>m_comm = Command_commit, h_dtx_id = Some dtx_id\<rparr>,
       m_data = Some (Commit_data (complete_txs, tx_idxs))\<rparr>)"

definition sm_discard_cb ::
  "(byte list \<Rightarrow> nat \<Rightarrow> byte list) \<Rightarrow> coord_world \<Rightarrow> hash_t \<Rightarrow> (bool \<times> coord_world) option" where
  "sm_discard_cb copy w dtx_id =
    map_option (\<lambda>(r, w'). (r \<noteq> None, w')) (replicate_sm_command copy w
      \<lparr>m_header = \<lparr>m_comm = Command_discard, h_dtx_id = Some dtx_id\<rparr>, m_data = None\<rparr>)"

definition sm_done_cb ::
  "(byte list \<Rightarrow> nat \<Rightarrow> byte list) \<Rightarrow> coord_world \<Rightarrow> hash_t \<Rightarrow> (bool \<times> coord_world) option" where
  "sm_done_cb copy w dtx_id =
    map_option (\<lambda>(r, w'). (r \<noteq> None, w')) (replicate_sm_command copy w
      \<lparr>m_header = \<lparr>m_comm = Command_done, h_dtx_id = Some dtx_id\<rparr>, m_data = None\<rparr>)"

definition batch_set_cbs ::
  "(byte list \<Rightarrow> nat \<Rightarrow> byte list) \<Rightarrow> distributed_tx \<Rightarrow> coord_world dtx_callbacks" where
  "batch_set_cbs copy c =
    \<lparr>prepare_cb = (if m_state c \<noteq> Dtx_prepare then Some (sm_prepare_cb copy) else None),
     commit_cb = (if m_state c \<noteq> Dtx_commit then Some (sm_commit_cb copy) else None),
     discard_cb = (if m_state c \<noteq> Dtx_discard then Some (sm_discard_cb copy) else None),
     done_cb = (if m_state c \<noteq> Dtx_done then Some (sm_done_cb copy) else None)\<rparr>"

section \<open>Recovery\<close>

definition recovered_dtxs :: "typed_state \<Rightarrow> locking_shard list \<Rightarrow> distributed_tx list" where
  "recovered_dtxs state shards =
    map (\<lambda>prep. recover_prepare shards (distributed_tx_init (fst prep) shards) (snd prep)) (m_prepare_txs state) @
    map (\<lambda>com. recover_commit (distributed_tx_init (fst com) shards) (fst (snd com)) (snd (snd com))) (m_commit_txs state) @
    map (\<lambda>dis. recover_discard (distributed_tx_init dis shards)) (m_discard_txs state)"

fun recover_all ::
  "secp256k1 \<Rightarrow> (byte list \<Rightarrow> nat \<Rightarrow> byte list) \<Rightarrow> coord_world \<Rightarrow> locking_shard list \<Rightarrow> distributed_tx list
     \<Rightarrow> (bool \<times> coord_world \<times> locking_shard list) option" where
  "recover_all S copy w ss [] = Some (True, w, ss)"
| "recover_all S copy w ss (c # cs) = do {
     (exec_res, w1, _, ss1) \<leftarrow> execute S (batch_set_cbs copy c) w c ss;
     (success, w2, ss2) \<leftarrow> recover_all S copy w1 ss1 cs;
     Some (exec_res \<noteq> None \<and> success, w2, ss2) }"

text \<open>
  The state that the state machine returns is read without a check of the reader. A reply that
  cannot be read completely leaves an unspecified part of the state; here it is \<open>None\<close>.
\<close>

definition recovery_func ::
  "secp256k1 \<Rightarrow> (byte list \<Rightarrow> nat \<Rightarrow> byte list) \<Rightarrow> coord_world \<Rightarrow> locking_shard list
     \<Rightarrow> (bool \<times> coord_world \<times> locking_shard list) option" where
  "recovery_func S copy w ss = do {
     (r, w1) \<leftarrow> replicate_sm_command copy w
        \<lparr>m_header = \<lparr>m_comm = Command_get, h_dtx_id = None\<rparr>, m_data = None\<rparr>;
     case r of
       None \<Rightarrow> Some (False, w1, ss)
     | Some None \<Rightarrow> Some (False, w1, ss)
     | Some (Some res) \<Rightarrow> do {
         (state, _) \<leftarrow> get_state res;
         recover_all S copy w1 ss (recovered_dtxs state ss) } }"

section \<open>Building and executing batches\<close>

text \<open>
  The volatile state of a leader. A callback of a client is an identifier; \<open>m_current_txs\<close> maps the
  identifier of a transaction to its callback and its index in the batch. \<open>None\<close> is a wait on the
  condition variable that does not return in this state.
\<close>

record 'cb batch_state =
  b_running :: bool
  m_current_batch :: distributed_tx
  m_current_txs :: "(hash_t \<times> 'cb \<times> nat) list"
  m_batch_size :: nat

definition execute_transaction ::
  "secp256k1 \<Rightarrow> bool \<Rightarrow> pubkey_t set \<Rightarrow> nat \<Rightarrow> locking_shard list \<Rightarrow> 'cb batch_state \<Rightarrow> compact_tx \<Rightarrow> 'cb
     \<Rightarrow> (bool \<times> 'cb batch_state) option" where
  "execute_transaction S is_leader keys threshold shards b tx result_callback =
    (if \<not> is_leader then Some (False, b)
     else if \<not> check_attestations S tx keys threshold then Some (False, b)
     else if \<not> (length (m_current_txs b) < m_batch_size b \<or> \<not> b_running b) then None
     else if \<not> b_running b then Some (False, b)
     else if m_id tx \<in> fst ` set (m_current_txs b) then Some (False, b)
     else let idx = length (m_full_txs (m_current_batch b)) in
       Some (True, b\<lparr>m_current_batch := add_tx shards (m_current_batch b) tx,
                     m_current_txs := emplace (m_id tx) (result_callback, idx) (m_current_txs b)\<rparr>))"

text \<open>
  One turn of \<open>batch_executor_func\<close>: the swap of the current batch for a new one with a random
  identifier, and the execution of the old one with the answers to the clients. The first
  component is false when the loop ends.
\<close>

definition executor_swap ::
  "hash_t \<Rightarrow> locking_shard list \<Rightarrow> 'cb batch_state
     \<Rightarrow> (bool \<times> distributed_tx \<times> (hash_t \<times> 'cb \<times> nat) list \<times> 'cb batch_state) option" where
  "executor_swap random_hash shards b =
    (if m_current_txs b = [] \<and> b_running b then None
     else if \<not> b_running b then Some (False, m_current_batch b, m_current_txs b, b)
     else Some (True, m_current_batch b, m_current_txs b,
       b\<lparr>m_current_batch := distributed_tx_init random_hash shards, m_current_txs := []\<rparr>))"

definition executor_answers :: "bool list option \<Rightarrow> (hash_t \<times> 'cb \<times> nat) list \<Rightarrow> ('cb \<times> bool option) list" where
  "executor_answers res txs =
    map (\<lambda>(tx_id, cb_func, batch_idx). (cb_func, map_option (\<lambda>r. r ! batch_idx) res)) txs"

text \<open>The callbacks were set when the batch was new (\<open>start\<close>, \<open>batch_executor_func\<close>): it is still in that state.\<close>

definition executor_run ::
  "secp256k1 \<Rightarrow> (byte list \<Rightarrow> nat \<Rightarrow> byte list) \<Rightarrow> coord_world \<Rightarrow> locking_shard list \<Rightarrow> distributed_tx \<Rightarrow> (hash_t \<times> 'cb \<times> nat) list
     \<Rightarrow> (('cb \<times> bool option) list \<times> coord_world \<times> locking_shard list) option" where
  "executor_run S copy w ss batch txs = do {
     (res, w', _, ss') \<leftarrow> execute S (batch_set_cbs copy batch) w batch ss;
     Some (executor_answers res txs, w', ss') }"

text \<open>
  One pass of \<open>schedule_exec\<close> over the threads, given by their in-use flags: the first free thread
  is taken. \<open>None\<close> yields and tries again.
\<close>

definition schedule_exec :: "bool list \<Rightarrow> (nat \<times> bool list) option" where
  "schedule_exec threads =
    (case filter (\<lambda>i. \<not> threads ! i) [0..<length threads] of
       [] \<Rightarrow> None
     | i # _ \<Rightarrow> Some (i, threads[i := True]))"

section \<open>Changes of leadership\<close>

record leader_flags =
  m_start_flag :: bool
  m_stop_flag :: bool
  m_quit :: bool

datatype raft_event = BecomeLeader | BecomeFollower | Other_event

definition raft_callback :: "leader_flags \<Rightarrow> raft_event \<Rightarrow> leader_flags" where
  "raft_callback f type =
    (case type of
       BecomeLeader \<Rightarrow> f\<lparr>m_start_flag := True, m_stop_flag := False\<rparr>
     | BecomeFollower \<Rightarrow> f\<lparr>m_start_flag := False, m_stop_flag := True\<rparr>
     | Other_event \<Rightarrow> f)"

definition quit :: "leader_flags \<Rightarrow> leader_flags" where
  "quit f = f\<lparr>m_quit := True\<rparr>"

datatype leader_action = Call_stop | Call_start | Leave_loop

text \<open>One turn of \<open>start_stop_func\<close>: it waits, fails its assertion, or makes calls.\<close>

datatype turn = Turn_waits | Turn_asserts | Turn_calls "leader_action list" leader_flags

definition start_stop_turn :: "leader_flags \<Rightarrow> turn" where
  "start_stop_turn f =
    (if \<not> (m_start_flag f \<or> m_quit f \<or> m_stop_flag f) then Turn_waits
     else if m_quit f then Turn_calls [Call_stop, Leave_loop] f
     else if m_start_flag f = m_stop_flag f then Turn_asserts
     else let f' = f\<lparr>m_start_flag := False, m_stop_flag := False\<rparr> in
       if m_stop_flag f then Turn_calls [Call_stop] f' else Turn_calls [Call_stop, Call_start] f')"

text \<open>
  \<open>start\<close> repeats the recovery until it succeeds or the node is not the leader; \<open>leaders\<close> are the
  successive answers of \<open>is_leader\<close>, false when exhausted. A fresh batch follows if the node is
  still the leader.
\<close>

fun recovery_loop ::
  "secp256k1 \<Rightarrow> (byte list \<Rightarrow> nat \<Rightarrow> byte list) \<Rightarrow> coord_world \<Rightarrow> locking_shard list \<Rightarrow> bool list
     \<Rightarrow> (coord_world \<times> locking_shard list \<times> bool list) option" where
  "recovery_loop S copy w ss leaders = do {
     (res, w1, ss1) \<leftarrow> recovery_func S copy w ss;
     if res then Some (w1, ss1, leaders)
     else case leaders of
            [] \<Rightarrow> Some (w1, ss1, [])
          | l # ls \<Rightarrow> if l then recovery_loop S copy w1 ss1 ls else Some (w1, ss1, ls) }"

definition start ::
  "secp256k1 \<Rightarrow> (byte list \<Rightarrow> nat \<Rightarrow> byte list) \<Rightarrow> hash_t \<Rightarrow> coord_world \<Rightarrow> locking_shard list \<Rightarrow> bool list
     \<Rightarrow> 'cb batch_state \<Rightarrow> (coord_world \<times> locking_shard list \<times> 'cb batch_state) option" where
  "start S copy random_hash w shards leaders b = do {
     let b1 = b\<lparr>b_running := True\<rparr>;
     (w1, ss1, ls) \<leftarrow> recovery_loop S copy w shards leaders;
     case ls of
       True # _ \<Rightarrow> Some (w1, ss1, b1\<lparr>m_current_batch := distributed_tx_init random_hash shards, m_current_txs := []\<rparr>)
     | _ \<Rightarrow> Some (w1, ss1, b1) }"

definition coordinator_stop :: "'cb batch_state \<Rightarrow> 'cb batch_state" where
  "coordinator_stop b = b\<lparr>b_running := False\<rparr>"

section \<open>What a replication can do\<close>

abbreviation copies :: "(byte list \<Rightarrow> nat \<Rightarrow> byte list) \<Rightarrow> bool" where
  "copies copy \<equiv> \<forall>data pos. copy data pos = drop pos data"

text \<open>The phases of the batches as a node sees them.\<close>

definition in_phase :: "coord_world \<Rightarrow> typed_state \<Rightarrow> bool" where
  "in_phase w t \<longleftrightarrow> csm_state (cw_sm w) = encode_state t"

text \<open>
  A command the state machine accepts is executed or not; it is executed whenever the caller
  gets a reply.
\<close>

lemma replicate_cases:
  assumes copy: "copies copy" and t: "in_phase w t" "phase_step t c = Some t'"
    and wf: "wf_header (m_header c)" "put_sm_command c = Some bs"
  obtains r w' where "replicate_sm_command copy w c = Some (r, w')"
    "in_phase w' t' \<or> in_phase w' t \<and> r = None"
    "\<And>os. cw_raft w = Raft_acked # os \<Longrightarrow> in_phase w' t' \<and> r \<noteq> None \<and> cw_raft w' = os"
proof -
  obtain r sm' where sm: "coordinator_commit copy (cw_sm w) (csm_last_committed_idx (cw_sm w) + 1) bs = Some (r, sm')"
    "csm_state sm' = encode_state t'"
    using coordinator_commit_refines [OF copy _ wf, of "cw_sm w" t] t unfolding in_phase_def by auto
  show thesis
  proof (cases "cw_raft w")
    case Nil
    then show ?thesis
      using t wf(2) by (intro that [of None w]) (simp_all add: replicate_sm_command_def replicate_sync_def)
  next
    case (Cons x rest)
    then show ?thesis
      using t wf(2) sm
      by (intro that [of "if x = Raft_acked then Some r else None"
            "if x = Raft_lost then w\<lparr>cw_raft := rest\<rparr> else \<lparr>cw_sm = sm', cw_raft = rest\<rparr>"])
         (auto simp: replicate_sm_command_def replicate_sync_def in_phase_def)
  qed
qed

definition no_batch :: typed_state where
  "no_batch = \<lparr>m_prepare_txs = [], m_commit_txs = [], m_discard_txs = []\<rparr>"

definition preparing :: "hash_t \<Rightarrow> prepare_tx \<Rightarrow> typed_state" where
  "preparing d ts = \<lparr>m_prepare_txs = [(d, ts)], m_commit_txs = [], m_discard_txs = []\<rparr>"

definition committing :: "hash_t \<Rightarrow> commit_tx \<Rightarrow> typed_state" where
  "committing d x = \<lparr>m_prepare_txs = [], m_commit_txs = [(d, x)], m_discard_txs = []\<rparr>"

definition discarding :: "hash_t \<Rightarrow> typed_state" where
  "discarding d = \<lparr>m_prepare_txs = [], m_commit_txs = [], m_discard_txs = [d]\<rparr>"

lemmas phase_defs = no_batch_def preparing_def committing_def discarding_def

lemma phase_steps:
  "phase_step no_batch \<lparr>m_header = \<lparr>m_comm = Command_prepare, h_dtx_id = Some d\<rparr>, m_data = Some (Prepare_data ts)\<rparr> =
     Some (preparing d ts)"
  "phase_step (preparing d ts) \<lparr>m_header = \<lparr>m_comm = Command_commit, h_dtx_id = Some d\<rparr>, m_data = Some (Commit_data x)\<rparr> =
     Some (committing d x)"
  "phase_step (committing d x) \<lparr>m_header = \<lparr>m_comm = Command_discard, h_dtx_id = Some d\<rparr>, m_data = None\<rparr> =
     Some (discarding d)"
  "phase_step (discarding d) \<lparr>m_header = \<lparr>m_comm = Command_done, h_dtx_id = Some d\<rparr>, m_data = None\<rparr> =
     Some no_batch"
  "phase_step t \<lparr>m_header = \<lparr>m_comm = Command_get, h_dtx_id = None\<rparr>, m_data = None\<rparr> = Some t"
  by (simp_all add: phase_step_def phase_defs map_erase_def emplace_def insert_item_def split: prod.split)

text \<open>The four callbacks, each from the phase before its own.\<close>

definition cb_moves :: "coord_world \<Rightarrow> (bool \<times> coord_world) option \<Rightarrow> typed_state \<Rightarrow> typed_state \<Rightarrow> bool" where
  "cb_moves w res t t' \<longleftrightarrow> (\<exists>ok w'. res = Some (ok, w') \<and> (in_phase w' t' \<or> in_phase w' t \<and> \<not> ok) \<and>
     (\<forall>os. cw_raft w = Raft_acked # os \<longrightarrow> in_phase w' t' \<and> ok \<and> cw_raft w' = os))"

lemma callbacks_move:
  assumes copy: "copies copy" and d: "is_hash d"
  shows "in_phase w no_batch \<Longrightarrow> cb_moves w (sm_prepare_cb copy w d ts) no_batch (preparing d ts)"
    and "in_phase w (preparing d ts) \<Longrightarrow> cb_moves w (sm_commit_cb copy w d c ix) (preparing d ts) (committing d (c, ix))"
    and "in_phase w (committing d x) \<Longrightarrow> cb_moves w (sm_discard_cb copy w d) (committing d x) (discarding d)"
    and "in_phase w (discarding d) \<Longrightarrow> cb_moves w (sm_done_cb copy w d) (discarding d) no_batch"
proof -
  have moves: "cb_moves w (map_option (\<lambda>(r, w'). (r \<noteq> None, w')) (replicate_sm_command copy w c)) t t'"
    if "in_phase w t" "phase_step t c = Some t'" "wf_header (m_header c)" "put_sm_command c = Some bs" for t t' c bs
    by (rule replicate_cases [OF copy that]) (auto simp: cb_moves_def)
  have wf: "wf_header \<lparr>m_comm = c, h_dtx_id = Some d\<rparr>" if "\<And>b. c \<noteq> Command_other b" for c
    using d that by (simp add: wf_header_def)
  show "in_phase w no_batch \<Longrightarrow> cb_moves w (sm_prepare_cb copy w d ts) no_batch (preparing d ts)"
    unfolding sm_prepare_cb_def by (erule moves [OF _ phase_steps(1)]) (simp_all add: wf put_sm_command_def)
  show "in_phase w (preparing d ts) \<Longrightarrow> cb_moves w (sm_commit_cb copy w d c ix) (preparing d ts) (committing d (c, ix))"
    unfolding sm_commit_cb_def by (erule moves [OF _ phase_steps(2)]) (simp_all add: wf put_sm_command_def)
  show "in_phase w (committing d x) \<Longrightarrow> cb_moves w (sm_discard_cb copy w d) (committing d x) (discarding d)"
    unfolding sm_discard_cb_def by (erule moves [OF _ phase_steps(3)]) (simp_all add: wf put_sm_command_def)
  show "in_phase w (discarding d) \<Longrightarrow> cb_moves w (sm_done_cb copy w d) (discarding d) no_batch"
    unfolding sm_done_cb_def by (erule moves [OF _ phase_steps(4)]) (simp_all add: wf put_sm_command_def)
qed

section \<open>What a failed leader leaves behind\<close>

text \<open>
  The phase of a batch in the replicated state and the progress of its shards: not begun, in the
  prepare phase with some shards locked, in the commit phase with some shards applied, in the
  discard phase, or finished.
\<close>

definition batch_config ::
  "secp256k1 \<Rightarrow> locking_shard list \<Rightarrow> hash_t \<Rightarrow> compact_tx list \<Rightarrow> bool list \<Rightarrow> coord_world \<Rightarrow> locking_shard list \<Rightarrow> bool" where
  "batch_config S ss d ts c w zs \<longleftrightarrow>
     in_phase w no_batch \<and> zs = ss \<or>
     in_phase w (preparing d ts) \<and> between ss (locked_shards S ss d ts) zs \<or>
     in_phase w (committing d (c, map (shard_idxs ts) ss)) \<and>
       between (locked_shards S ss d ts) (applied_shards S ss d ts c) zs \<or>
     in_phase w (discarding d) \<and> shards_settled ss c ts zs \<or>
     in_phase w no_batch \<and> shards_settled ss c ts zs"

lemma between_refl2: "length ss' = length ss \<Longrightarrow> between ss ss' ss'"
  by (simp add: between_def list_all2_conv_all_nth)

lemma applied_shards_settled:
  assumes "shards_ready ss keys n d ts" "batch_ok ts" "c = map (completable S ss keys n) ts"
  shows "shards_settled ss c ts (applied_shards S ss d ts c)" "length (applied_shards S ss d ts c) = length ss"
    and "\<exists>rs. apply_shards d c (locked_shards S ss d ts) (map (shard_idxs ts) ss) =
      Some (rs, applied_shards S ss d ts c) \<and> list_all id rs"
  using apply_shards_ready [OF assms] by (auto simp: applied_shards_def locked_shards_def shards_settled_def)

lemma length_locked_shards [simp]: "length (locked_shards S ss d ts) = length ss"
  by (simp add: locked_shards_def)

text \<open>The last phase of a leader: the shards have applied the batch.\<close>

lemma discard_leaves_config:
  assumes copy: "copies copy" and d: "is_hash d" and w: "in_phase w (committing d (c, map (shard_idxs ts) ss))"
    and st: "shards_settled ss c ts zs" and zs: "between (locked_shards S ss d ts) (applied_shards S ss d ts c) zs"
    and D: "m_dtx_id D = d" "m_tx_idxs D = map (shard_idxs ts) ss"
    and cb: "discard_cb cb = Some (sm_discard_cb copy)" "done_cb cb = Some (sm_done_cb copy)"
  shows "\<exists>ok w' dt zs'. discard cb w D zs = Some (ok, w', dt, zs') \<and> batch_config S ss d ts c w' zs' \<and>
    (ok \<longrightarrow> in_phase w' no_batch \<and> shards_settled ss c ts zs' \<and> dt = D\<lparr>m_state := Dtx_done\<rparr>)"
proof -
  obtain ok w1 where 1: "sm_discard_cb copy w d = Some (ok, w1)"
    and m: "in_phase w1 (discarding d) \<or> in_phase w1 (committing d (c, map (shard_idxs ts) ss)) \<and> \<not> ok"
    using callbacks_move(3) [OF copy d w] unfolding cb_moves_def by blast
  have call: "call_discard_cb cb w D = Some (ok, w1)"
    by (simp add: call_discard_cb_def cb D 1)
  show ?thesis
  proof (cases ok)
    case False
    then show ?thesis
      using call m st zs by (auto simp: discard_def batch_config_def)
  next
    case True
    then have w1: "in_phase w1 (discarding d)"
      using m by simp
    obtain ok' w2 where 2: "sm_done_cb copy w1 d = Some (ok', w2)"
      and m': "in_phase w2 no_batch \<or> in_phase w2 (discarding d) \<and> \<not> ok'"
      using callbacks_move(4) [OF copy d w1] unfolding cb_moves_def by blast
    have "\<exists>zs'. discard (cb\<lparr>done_cb := None\<rparr>) w D zs = Some (True, w1, D\<lparr>m_state := Dtx_done\<rparr>, zs') \<and> shards_settled ss c ts zs'"
      by (rule discard_ready [OF st]) (use call True D in \<open>simp_all add: call_discard_cb_def call_done_cb_def\<close>)
    then obtain zs' rs where "discard_shards (m_dtx_id D) zs (m_tx_idxs D) = (rs, zs')" "list_all id rs" "shards_settled ss c ts zs'"
      using call True
      by (auto simp: discard_def call_discard_cb_def split: bind_splits prod.splits if_splits)
    then show ?thesis
      using call True m' 2 by (auto simp: discard_def call_done_cb_def cb D batch_config_def)
  qed
qed

lemma commit_leaves_config:
  assumes copy: "copies copy" and d: "is_hash d" and w: "in_phase w (preparing d ts)"
    and rdy: "shards_ready ss keys n d ts" "batch_ok ts" "c = map (completable S ss keys n) ts"
    and D: "m_dtx_id D = d" "m_tx_idxs D = map (shard_idxs ts) ss"
    and cb: "commit_cb cb = Some (sm_commit_cb copy)"
  shows "\<exists>ok w' dt zs. commit cb w c D (locked_shards S ss d ts) = Some (ok, w', dt, zs) \<and>
    (\<not> ok \<longrightarrow> batch_config S ss d ts c w' zs) \<and>
    (ok \<longrightarrow> in_phase w' (committing d (c, map (shard_idxs ts) ss)) \<and> zs = applied_shards S ss d ts c \<and>
       dt = D\<lparr>m_state := Dtx_discard\<rparr>)"
proof -
  obtain ok w1 where 1: "sm_commit_cb copy w d c (map (shard_idxs ts) ss) = Some (ok, w1)"
    and m: "in_phase w1 (committing d (c, map (shard_idxs ts) ss)) \<or> in_phase w1 (preparing d ts) \<and> \<not> ok"
    using callbacks_move(2) [OF copy d w] unfolding cb_moves_def by blast
  have call: "call_commit_cb cb w c D = Some (ok, w1)"
    by (simp add: call_commit_cb_def cb D 1)
  note ap = applied_shards_settled [OF rdy]
  show ?thesis
  proof (cases ok)
    case False
    have "between ss (locked_shards S ss d ts) (locked_shards S ss d ts)"
      "between (locked_shards S ss d ts) (applied_shards S ss d ts c) (locked_shards S ss d ts)"
      by (simp_all add: between_refl between_refl2 ap(2))
    then show ?thesis
      using call m False by (auto simp: commit_def batch_config_def)
  next
    case True
    then show ?thesis
      using call m ap(3) D by (auto simp: commit_def)
  qed
qed

text \<open>The rest of \<open>execute\<close> after the prepare phase.\<close>

lemma execute_after_prepare:
  assumes copy: "copies copy" and d: "is_hash d" and w: "in_phase w (preparing d ts)"
    and rdy: "shards_ready ss keys n d ts" "batch_ok ts" "c = map (completable S ss keys n) ts"
    and D: "m_dtx_id D = d" "m_tx_idxs D = map (shard_idxs ts) ss" "m_state D = Dtx_commit" "m_complete_txs D = c"
    and cb: "commit_cb cb = Some (sm_commit_cb copy)" "discard_cb cb = Some (sm_discard_cb copy)"
      "done_cb cb = Some (sm_done_cb copy)"
  shows "\<exists>r w' dt zs. execute S cb w D (locked_shards S ss d ts) = Some (r, w', dt, zs) \<and>
    batch_config S ss d ts c w' zs \<and>
    (r \<noteq> None \<longrightarrow> r = Some c \<and> in_phase w' no_batch \<and> shards_settled ss c ts zs)"
proof -
  obtain ok w1 D1 zs where 1: "commit cb w c D (locked_shards S ss d ts) = Some (ok, w1, D1, zs)"
    "\<not> ok \<Longrightarrow> batch_config S ss d ts c w1 zs"
    and m: "ok \<Longrightarrow> in_phase w1 (committing d (c, map (shard_idxs ts) ss))" "ok \<Longrightarrow> zs = applied_shards S ss d ts c"
      "ok \<Longrightarrow> D1 = D\<lparr>m_state := Dtx_discard\<rparr>"
    using commit_leaves_config [OF copy d w rdy D(1,2) cb(1)] by blast
  show ?thesis
  proof (cases ok)
    case False
    then show ?thesis
      using 1 D by (simp add: execute_def execute_prepare_def execute_commit_def)
  next
    case True
    have "between (locked_shards S ss d ts) (applied_shards S ss d ts c) zs"
      using m(2) [OF True] by (simp add: between_refl2 applied_shards_settled(2) [OF rdy])
    then obtain ok' w2 dt zs' where "discard cb w1 D1 zs = Some (ok', w2, dt, zs')" "batch_config S ss d ts c w2 zs'"
      "ok' \<longrightarrow> in_phase w2 no_batch \<and> shards_settled ss c ts zs' \<and> dt = D1\<lparr>m_state := Dtx_done\<rparr>"
      using discard_leaves_config [OF copy d m(1) [OF True], of zs S D1 cb] applied_shards_settled(1) [OF rdy]
        m(2,3) [OF True] D cb by auto
    then show ?thesis
      using 1 True m(3) D by (auto simp: execute_def execute_prepare_def execute_commit_def execute_discard_def)
  qed
qed

lemma execute_leaves_config:
  fixes ss :: "locking_shard list" and ts :: "compact_tx list" and d :: hash_t
  defines "D \<equiv> foldl (add_tx ss) (distributed_tx_init d ss) ts"
  assumes copy: "copies copy" and d: "is_hash d" and w: "in_phase w no_batch"
    and rdy: "shards_ready ss keys n d ts" "batch_ok ts" "c = map (completable S ss keys n) ts"
  shows "\<exists>r w' dt zs. execute S (batch_set_cbs copy D) w D ss = Some (r, w', dt, zs) \<and>
    batch_config S ss d ts c w' zs \<and>
    (r \<noteq> None \<longrightarrow> r = Some c \<and> in_phase w' no_batch \<and> shards_settled ss c ts zs)"
proof -
  have D: "routed ss D" "m_full_txs D = ts" "m_dtx_id D = d" "m_state D = Dtx_start"
    using routed_add_txs [OF routed_init, of ss d ts] by (simp_all add: D_def distributed_tx_init_def)
  have idxs: "m_tx_idxs D = map (shard_idxs ts) ss"
    using D(1,2) by (simp add: routed_def)
  let ?cb = "batch_set_cbs copy D"
  have cb: "prepare_cb ?cb = Some (sm_prepare_cb copy)" "commit_cb ?cb = Some (sm_commit_cb copy)"
    "discard_cb ?cb = Some (sm_discard_cb copy)" "done_cb ?cb = Some (sm_done_cb copy)"
    by (simp_all add: batch_set_cbs_def D(4))
  obtain ok w1 where 1: "sm_prepare_cb copy w d ts = Some (ok, w1)"
    and m: "in_phase w1 (preparing d ts) \<or> in_phase w1 no_batch \<and> \<not> ok"
    using callbacks_move(1) [OF copy d w] unfolding cb_moves_def by blast
  have call: "call_prepare_cb ?cb w D = Some (ok, w1)"
    by (simp add: call_prepare_cb_def cb D 1)
  show ?thesis
  proof (cases ok)
    case False
    have "between ss (locked_shards S ss d ts) ss"
      by (simp add: between_refl)
    then show ?thesis
      using False call m D(4) by (auto simp: execute_def execute_prepare_def prepare_def batch_config_def)
  next
    case True
    then have w1: "in_phase w1 (preparing d ts)" and call: "call_prepare_cb ?cb w D = Some (True, w1)"
      using m call by simp_all
    obtain D1 where p: "prepare S ?cb w D ss = Some (Some c, w1, D1, locked_shards S ss d ts)"
      and D1: "m_dtx_id D1 = d" "m_tx_idxs D1 = map (shard_idxs ts) ss" "m_state D1 = Dtx_commit" "m_full_txs D1 = ts"
      using prepare_ready [OF rdy(1,2) call D(1-3), of S] D idxs unfolding locked_shards_def rdy(3) by auto
    have "length c = length (m_full_txs D1)"
      by (simp add: D1 rdy(3))
    then have "execute S ?cb w D ss = execute S ?cb w1 (D1\<lparr>m_complete_txs := c\<rparr>) (locked_shards S ss d ts)"
      using p D1 D(4) by (simp add: execute_def execute_prepare_def)
    then show ?thesis
      using execute_after_prepare [OF copy d w1 rdy _ _ _ _ cb(2-4), of "D1\<lparr>m_complete_txs := c\<rparr>"] D1 by simp
  qed
qed

section \<open>Recovery by the next leader\<close>

lemma recovery_reads_state:
  assumes copy: "copies copy" and w: "in_phase w t" "wf_state t" "cw_raft w = Raft_acked # os"
  obtains w1 where "recovery_func S copy w zs = recover_all S copy w1 zs (recovered_dtxs t zs)" "in_phase w1 t" "cw_raft w1 = os"
proof -
  let ?c = "\<lparr>m_header = \<lparr>m_comm = Command_get, h_dtx_id = None\<rparr>, m_data = None\<rparr> :: sm_command"
  have wf: "wf_header (m_header ?c)" and bs: "put_sm_command ?c = Some (put_header (m_header ?c))"
    by (simp_all add: wf_header_def put_sm_command_def)
  obtain reply sm' where sm: "coordinator_commit copy (cw_sm w) (csm_last_committed_idx (cw_sm w) + 1) (put_header (m_header ?c)) =
      Some (Some reply, sm')" "get_state reply = Some (t, [])"
    using coordinator_get_reply [OF copy _ w(2) wf _ bs, of "cw_sm w"] w(1) by (auto simp: in_phase_def)
  have "csm_state sm' = encode_state t"
    using coordinator_commit_refines [OF copy _ wf bs, of "cw_sm w" t] w(1) sm(1) by (simp add: phase_steps in_phase_def)
  then show thesis
    using that [of "\<lparr>cw_sm = sm', cw_raft = os\<rparr>"] sm w(3) bs
    by (simp add: recovery_func_def replicate_sm_command_def replicate_sync_def in_phase_def)
qed

lemma acked_moves:
  assumes "cb_moves w res t t'" "cw_raft w = Raft_acked # os"
  obtains w' where "res = Some (True, w')" "in_phase w' t'" "cw_raft w' = os"
  using assms unfolding cb_moves_def by blast

lemma wf_phases:
  assumes "is_hash d" "wf_vector wf_compact_tx ts" "length ss < 2 ^ 64" "length c = length ts"
  shows "wf_state no_batch" "wf_state (preparing d ts)" "wf_state (committing d (c, map (shard_idxs ts) ss))"
    "wf_state (discarding d)"
proof -
  have "length (filter P ts) < 2 ^ 64" for P
    using le_less_trans [OF length_filter_le [of P ts]] assms(2) by (auto simp: wf_vector_def)
  moreover have "length ts < 2 ^ 64"
    using assms(2) by (simp add: wf_vector_def)
  ultimately have "wf_commit_tx (c, map (shard_idxs ts) ss)"
    using assms(3,4) by (auto simp: wf_commit_tx_def wf_vector_def)
  then show "wf_state no_batch" "wf_state (preparing d ts)" "wf_state (committing d (c, map (shard_idxs ts) ss))"
    "wf_state (discarding d)"
    using assms(1,2) by (auto simp: wf_state_def phase_defs wf_map_def wf_set_def)
qed

lemma locked_ranges:
  assumes "shards_ready ss keys n d ts" "batch_ok ts"
  shows "map m_output_range (locked_shards S ss d ts) = map m_output_range ss"
proof -
  have "m_output_range (after_lock S d ts s) = m_output_range s" if "s \<in> set ss" for s
    using after_lock_facts(4) [of s d ts S] assms that by (cases "filter (active s) ts = []") (auto simp: shards_ready_def after_lock_def)
  then show ?thesis
    by (simp add: locked_shards_def)
qed

lemma recover_preparing:
  assumes copy: "copies copy" and d: "is_hash d"
    and rdy: "shards_ready ss keys n d ts" "batch_ok ts" "c = map (completable S ss keys n) ts"
    and w: "in_phase w (preparing d ts)" "cw_raft w = replicate 3 Raft_acked"
    and zs: "between ss (locked_shards S ss d ts) zs"
  shows "\<exists>w' zs'. recover_all S copy w zs (recovered_dtxs (preparing d ts) zs) = Some (True, w', zs') \<and>
    in_phase w' no_batch \<and> shards_settled ss c ts zs'"
proof -
  define D where "D = (foldl (add_tx ss) (distributed_tx_init d ss) ts)\<lparr>m_state := Dtx_prepare\<rparr>"
  have rec: "recovered_dtxs (preparing d ts) zs = [D]"
    unfolding D_def using recovered_batch [OF between_ranges [OF zs locked_ranges [OF rdy(1,2)]]]
    by (simp add: recovered_dtxs_def preparing_def)
  have D: "routed ss D" "m_full_txs D = ts" "m_dtx_id D = d" "m_state D = Dtx_start \<or> m_state D = Dtx_prepare"
    using routed_add_txs [OF routed_init, of ss d ts] by (simp_all add: D_def distributed_tx_init_def routed_def)
  have idxs: "m_tx_idxs D = map (shard_idxs ts) ss"
    using D(1,2) by (simp add: routed_def)
  let ?cb = "batch_set_cbs copy D"
  have cb: "prepare_cb ?cb = None" "commit_cb ?cb = Some (sm_commit_cb copy)"
    "discard_cb ?cb = Some (sm_discard_cb copy)" "done_cb ?cb = Some (sm_done_cb copy)"
    by (simp_all add: batch_set_cbs_def D_def)
  have os: "cw_raft w = Raft_acked # replicate 2 Raft_acked"
    by (simp add: w(2) numeral_eq_Suc)
  obtain w1 where 1: "sm_commit_cb copy w d c (map (shard_idxs ts) ss) = Some (True, w1)"
    "in_phase w1 (committing d (c, map (shard_idxs ts) ss))" "cw_raft w1 = replicate 2 Raft_acked"
    by (rule acked_moves [OF callbacks_move(2) [OF copy d w(1)] os])
  have os: "cw_raft w1 = Raft_acked # [Raft_acked]"
    by (simp add: 1(3) numeral_eq_Suc)
  obtain w2 where 2: "sm_discard_cb copy w1 d = Some (True, w2)" "in_phase w2 (discarding d)" "cw_raft w2 = [Raft_acked]"
    by (rule acked_moves [OF callbacks_move(3) [OF copy d 1(2)] os])
  obtain w3 where 3: "sm_done_cb copy w2 d = Some (True, w3)" "in_phase w3 no_batch"
    by (rule acked_moves [OF callbacks_move(4) [OF copy d 2(2)] 2(3)])
  have calls: "call_prepare_cb ?cb w D = Some (True, w)" "call_commit_cb ?cb w c D = Some (True, w1)"
    "call_discard_cb ?cb w1 D = Some (True, w2)" "call_done_cb ?cb w2 D = Some (True, w3)"
    by (simp_all add: call_prepare_cb_def call_commit_cb_def call_discard_cb_def call_done_cb_def cb D idxs 1(1) 2(1) 3(1))
  show ?thesis
    using execute_from_prepare [OF rdy D calls zs] 3(2) by (auto simp: rec)
qed

lemma recover_committing:
  assumes copy: "copies copy" and d: "is_hash d"
    and rdy: "shards_ready ss keys n d ts" "batch_ok ts" "c = map (completable S ss keys n) ts"
    and w: "in_phase w (committing d (c, map (shard_idxs ts) ss))" "cw_raft w = Raft_acked # Raft_acked # os"
    and zs: "between (locked_shards S ss d ts) (applied_shards S ss d ts c) zs"
  shows "\<exists>w' zs'. recover_all S copy w zs (recovered_dtxs (committing d (c, map (shard_idxs ts) ss)) zs) = Some (True, w', zs') \<and>
    in_phase w' no_batch \<and> shards_settled ss c ts zs'"
proof -
  define D where "D = recover_commit (distributed_tx_init d zs) c (map (shard_idxs ts) ss)"
  have rec: "recovered_dtxs (committing d (c, map (shard_idxs ts) ss)) zs = [D]"
    by (simp add: recovered_dtxs_def committing_def D_def)
  have D: "m_tx_idxs D = map (shard_idxs ts) ss" "m_dtx_id D = d" "m_state D = Dtx_commit" "m_complete_txs D = c"
    by (simp_all add: D_def recover_commit_def distributed_tx_init_def)
  let ?cb = "batch_set_cbs copy D"
  have cb: "commit_cb ?cb = None" "discard_cb ?cb = Some (sm_discard_cb copy)" "done_cb ?cb = Some (sm_done_cb copy)"
    by (simp_all add: batch_set_cbs_def D)
  obtain w2 where 2: "sm_discard_cb copy w d = Some (True, w2)" "in_phase w2 (discarding d)" "cw_raft w2 = Raft_acked # os"
    by (rule acked_moves [OF callbacks_move(3) [OF copy d w(1)] w(2)])
  obtain w3 where 3: "sm_done_cb copy w2 d = Some (True, w3)" "in_phase w3 no_batch"
    by (rule acked_moves [OF callbacks_move(4) [OF copy d 2(2)] 2(3)])
  have calls: "call_commit_cb ?cb w c D = Some (True, w)"
    "call_discard_cb ?cb w D = Some (True, w2)" "call_done_cb ?cb w2 D = Some (True, w3)"
    by (simp_all add: call_commit_cb_def call_discard_cb_def call_done_cb_def cb D 2(1) 3(1))
  show ?thesis
    using execute_from_commit [OF rdy D calls zs] 3(2) by (auto simp: rec)
qed

lemma discard_shards_empty: "discard_shards d ss (replicate (length ss) []) = ([], ss)"
  by (induction ss) auto

text \<open>A batch recovered in the discard phase has no indices, so no shard is contacted.\<close>

lemma recover_discarding:
  assumes copy: "copies copy" and d: "is_hash d" and w: "in_phase w (discarding d)" "cw_raft w = Raft_acked # os"
  shows "\<exists>w'. recover_all S copy w zs (recovered_dtxs (discarding d) zs) = Some (True, w', zs) \<and> in_phase w' no_batch"
proof -
  define D where "D = recover_discard (distributed_tx_init d zs)"
  have rec: "recovered_dtxs (discarding d) zs = [D]"
    by (simp add: recovered_dtxs_def discarding_def D_def)
  have D: "m_tx_idxs D = replicate (length zs) []" "m_dtx_id D = d" "m_state D = Dtx_discard"
    by (simp_all add: D_def recover_discard_def distributed_tx_init_def)
  let ?cb = "batch_set_cbs copy D"
  have cb: "discard_cb ?cb = None" "done_cb ?cb = Some (sm_done_cb copy)"
    by (simp_all add: batch_set_cbs_def D)
  obtain w3 where 3: "sm_done_cb copy w d = Some (True, w3)" "in_phase w3 no_batch"
    by (rule acked_moves [OF callbacks_move(4) [OF copy d w(1)] w(2)])
  have "execute S ?cb w D zs = Some (Some (m_complete_txs D), w3, D\<lparr>m_state := Dtx_done\<rparr>, zs)"
    by (simp add: execute_def execute_prepare_def execute_commit_def execute_discard_def discard_def
        call_discard_cb_def call_done_cb_def cb D 3(1) discard_shards_empty)
  then show ?thesis
    using 3(2) by (auto simp: rec)
qed

lemma recovery_completes:
  assumes copy: "copies copy" and d: "is_hash d" and ts: "wf_vector wf_compact_tx ts" "length ss < 2 ^ 64"
    and rdy: "shards_ready ss keys n d ts" "batch_ok ts" "c = map (completable S ss keys n) ts"
    and w: "batch_config S ss d ts c w zs" "cw_raft w = replicate 4 Raft_acked"
  shows "\<exists>w' zs'. recovery_func S copy w zs = Some (True, w', zs') \<and> in_phase w' no_batch \<and>
    (zs' = ss \<and> in_phase w no_batch \<and> zs = ss \<or> shards_settled ss c ts zs')"
proof -
  have os: "cw_raft w = Raft_acked # replicate 3 Raft_acked"
    by (simp add: w(2) numeral_eq_Suc)
  have os2: "replicate 3 Raft_acked = [Raft_acked, Raft_acked, Raft_acked]"
    by (simp add: numeral_eq_Suc)
  have wf: "wf_state no_batch" "wf_state (preparing d ts)" "wf_state (committing d (c, map (shard_idxs ts) ss))"
    "wf_state (discarding d)"
    using wf_phases [OF d ts, of c] rdy(3) by simp_all
  have none: "recover_all S copy w' zs (recovered_dtxs no_batch zs) = Some (True, w', zs)" for w'
    by (simp add: recovered_dtxs_def no_batch_def)
  from w(1) show ?thesis
    unfolding batch_config_def
  proof (elim disjE conjE)
    assume p: "in_phase w no_batch" "zs = ss"
    show ?thesis
      by (rule recovery_reads_state [OF copy p(1) wf(1) os, of S zs]) (use none p in auto)
  next
    assume p: "in_phase w (preparing d ts)" "between ss (locked_shards S ss d ts) zs"
    show ?thesis
      by (rule recovery_reads_state [OF copy p(1) wf(2) os, of S zs]) (use recover_preparing [OF copy d rdy _ _ p(2)] in fastforce)
  next
    assume p: "in_phase w (committing d (c, map (shard_idxs ts) ss))"
      "between (locked_shards S ss d ts) (applied_shards S ss d ts c) zs"
    show ?thesis
      by (rule recovery_reads_state [OF copy p(1) wf(3) os, of S zs]) (use recover_committing [OF copy d rdy _ _ p(2)] os2 in fastforce)
  next
    assume p: "in_phase w (discarding d)" "shards_settled ss c ts zs"
    show ?thesis
      by (rule recovery_reads_state [OF copy p(1) wf(4) os, of S zs]) (use recover_discarding [OF copy d] p(2) os2 in fastforce)
  next
    assume p: "in_phase w no_batch" "shards_settled ss c ts zs"
    show ?thesis
      by (rule recovery_reads_state [OF copy p(1) wf(1) os, of S zs]) (use none p in auto)
  qed
qed

text \<open>A leader whose four commands are acknowledged finishes its batch.\<close>

lemma acked_execution:
  fixes ss :: "locking_shard list" and ts :: "compact_tx list" and d :: hash_t
  defines "D \<equiv> foldl (add_tx ss) (distributed_tx_init d ss) ts"
  assumes copy: "copies copy" and d: "is_hash d" and w: "in_phase w no_batch"
    and rdy: "shards_ready ss keys n d ts" "batch_ok ts" "c = map (completable S ss keys n) ts"
    and acked: "take 4 (cw_raft w) = replicate 4 Raft_acked"
  shows "\<exists>w' dt zs. execute S (batch_set_cbs copy D) w D ss = Some (Some c, w', dt, zs)"
proof -
  have D: "routed ss D" "m_full_txs D = ts" "m_dtx_id D = d" "m_state D = Dtx_start \<or> m_state D = Dtx_prepare" "m_state D = Dtx_start"
    using routed_add_txs [OF routed_init, of ss d ts] by (simp_all add: D_def distributed_tx_init_def)
  have idxs: "m_tx_idxs D = map (shard_idxs ts) ss"
    using D(1,2) by (simp add: routed_def)
  let ?cb = "batch_set_cbs copy D"
  have cb: "prepare_cb ?cb = Some (sm_prepare_cb copy)" "commit_cb ?cb = Some (sm_commit_cb copy)"
    "discard_cb ?cb = Some (sm_discard_cb copy)" "done_cb ?cb = Some (sm_done_cb copy)"
    by (simp_all add: batch_set_cbs_def D(5))
  have "cw_raft w = replicate 4 Raft_acked @ drop 4 (cw_raft w)"
    by (metis acked append_take_drop_id)
  then obtain os where os: "cw_raft w = Raft_acked # Raft_acked # Raft_acked # Raft_acked # os"
    by (simp add: numeral_eq_Suc)
  obtain w0 where 0: "sm_prepare_cb copy w d ts = Some (True, w0)" "in_phase w0 (preparing d ts)" "cw_raft w0 = Raft_acked # Raft_acked # Raft_acked # os"
    by (rule acked_moves [OF callbacks_move(1) [OF copy d w] os])
  obtain w1 where 1: "sm_commit_cb copy w0 d c (map (shard_idxs ts) ss) = Some (True, w1)"
    "in_phase w1 (committing d (c, map (shard_idxs ts) ss))" "cw_raft w1 = Raft_acked # Raft_acked # os"
    by (rule acked_moves [OF callbacks_move(2) [OF copy d 0(2)] 0(3)])
  obtain w2 where 2: "sm_discard_cb copy w1 d = Some (True, w2)" "in_phase w2 (discarding d)" "cw_raft w2 = Raft_acked # os"
    by (rule acked_moves [OF callbacks_move(3) [OF copy d 1(2)] 1(3)])
  obtain w3 where 3: "sm_done_cb copy w2 d = Some (True, w3)"
    by (rule acked_moves [OF callbacks_move(4) [OF copy d 2(2)] 2(3)])
  have calls: "call_prepare_cb ?cb w D = Some (True, w0)" "call_commit_cb ?cb w0 c D = Some (True, w1)"
    "call_discard_cb ?cb w1 D = Some (True, w2)" "call_done_cb ?cb w2 D = Some (True, w3)"
    by (simp_all add: call_prepare_cb_def call_commit_cb_def call_discard_cb_def call_done_cb_def cb D(2,3) idxs 0(1) 1(1) 2(1) 3(1))
  have "between ss (locked_shards S ss d ts) ss"
    by (simp add: between_refl)
  then show ?thesis
    using execute_from_prepare [OF rdy D(1-4) calls] by blast
qed

section \<open>Recovery attempts that fail\<close>

text \<open>Whatever the log does, an attempt ends at once or recovers the batches of the current phase.\<close>

lemma recovery_any:
  assumes copy: "copies copy" and w: "in_phase w t" "wf_state t"
  obtains w1 where "recovery_func S copy w zs = Some (False, w1, zs)" "in_phase w1 t"
    | w1 where "recovery_func S copy w zs = recover_all S copy w1 zs (recovered_dtxs t zs)" "in_phase w1 t"
proof (cases "\<exists>os. cw_raft w = Raft_acked # os")
  case True
  then show ?thesis
    using recovery_reads_state [OF copy w, of _ S zs] that(2) by blast
next
  case False
  let ?c = "\<lparr>m_header = \<lparr>m_comm = Command_get, h_dtx_id = None\<rparr>, m_data = None\<rparr> :: sm_command"
  have wf: "wf_header (m_header ?c)" and bs: "put_sm_command ?c = Some (put_header (m_header ?c))"
    by (simp_all add: wf_header_def put_sm_command_def)
  obtain r sm' where sm: "coordinator_commit copy (cw_sm w) (csm_last_committed_idx (cw_sm w) + 1) (put_header (m_header ?c)) = Some (r, sm')"
    "csm_state sm' = encode_state t"
    using coordinator_commit_refines [OF copy _ wf bs, of "cw_sm w" t] w(1) by (auto simp: phase_steps in_phase_def)
  have "\<exists>w1. recovery_func S copy w zs = Some (False, w1, zs) \<and> in_phase w1 t"
    using False w(1) sm bs
    by (cases "cw_raft w") (auto simp: recovery_func_def replicate_sm_command_def replicate_sync_def in_phase_def)
  then show ?thesis
    using that(1) by blast
qed

text \<open>A batch taken up in each phase, whatever the log does meanwhile.\<close>

lemma recovers_preparing:
  assumes copy: "copies copy" and d: "is_hash d"
    and rdy: "shards_ready ss keys n d ts" "batch_ok ts" "c = map (completable S ss keys n) ts"
    and w: "in_phase w (preparing d ts)" and zs: "between ss (locked_shards S ss d ts) zs"
  shows "\<exists>ok w' zs'. recover_all S copy w zs (recovered_dtxs (preparing d ts) zs) = Some (ok, w', zs') \<and>
    batch_config S ss d ts c w' zs'"
proof -
  define D where "D = (foldl (add_tx ss) (distributed_tx_init d ss) ts)\<lparr>m_state := Dtx_prepare\<rparr>"
  have rec: "recovered_dtxs (preparing d ts) zs = [D]"
    unfolding D_def using recovered_batch [OF between_ranges [OF zs locked_ranges [OF rdy(1,2)]]]
    by (simp add: recovered_dtxs_def preparing_def)
  have D: "routed ss D" "m_full_txs D = ts" "m_dtx_id D = d" "m_state D = Dtx_prepare"
    using routed_add_txs [OF routed_init, of ss d ts] by (simp_all add: D_def distributed_tx_init_def routed_def)
  let ?cb = "batch_set_cbs copy D"
  have cb: "prepare_cb ?cb = None" "commit_cb ?cb = Some (sm_commit_cb copy)"
    "discard_cb ?cb = Some (sm_discard_cb copy)" "done_cb ?cb = Some (sm_done_cb copy)"
    by (simp_all add: batch_set_cbs_def D(4))
  obtain D1 where "prepare S ?cb w D ss = Some (Some c, w, D1, locked_shards S ss d ts)"
    and D1: "m_dtx_id D1 = d" "m_tx_idxs D1 = map (shard_idxs ts) ss" "m_state D1 = Dtx_commit" "m_full_txs D1 = ts"
    using prepare_ready [OF rdy(1,2) _ D(1-3), of ?cb w w S] D unfolding locked_shards_def rdy(3)
    by (auto simp: call_prepare_cb_def cb(1) routed_def)
  from prepare_resume [OF this(1) zs]
  have "execute S ?cb w D zs = execute S ?cb w (D1\<lparr>m_complete_txs := c\<rparr>) (locked_shards S ss d ts)"
    using D1 D(4) by (simp add: execute_def execute_prepare_def rdy(3))
  then show ?thesis
    using execute_after_prepare [OF copy d w rdy _ _ _ _ cb(2-4), of "D1\<lparr>m_complete_txs := c\<rparr>"] D1 by (auto simp: rec)
qed

lemma recovers_committing:
  assumes copy: "copies copy" and d: "is_hash d"
    and rdy: "shards_ready ss keys n d ts" "batch_ok ts" "c = map (completable S ss keys n) ts"
    and w: "in_phase w (committing d (c, map (shard_idxs ts) ss))"
    and zs: "between (locked_shards S ss d ts) (applied_shards S ss d ts c) zs"
  shows "\<exists>ok w' zs'. recover_all S copy w zs (recovered_dtxs (committing d (c, map (shard_idxs ts) ss)) zs) = Some (ok, w', zs') \<and>
    batch_config S ss d ts c w' zs'"
proof -
  define D where "D = recover_commit (distributed_tx_init d zs) c (map (shard_idxs ts) ss)"
  have rec: "recovered_dtxs (committing d (c, map (shard_idxs ts) ss)) zs = [D]"
    by (simp add: recovered_dtxs_def committing_def D_def)
  have D: "m_tx_idxs D = map (shard_idxs ts) ss" "m_dtx_id D = d" "m_state D = Dtx_commit" "m_complete_txs D = c"
    by (simp_all add: D_def recover_commit_def distributed_tx_init_def)
  let ?cb = "batch_set_cbs copy D" and ?D = "D\<lparr>m_state := Dtx_discard\<rparr>"
  have cb: "commit_cb ?cb = None" "discard_cb ?cb = Some (sm_discard_cb copy)" "done_cb ?cb = Some (sm_done_cb copy)"
    by (simp_all add: batch_set_cbs_def D)
  note ap = applied_shards_settled [OF rdy]
  have "commit ?cb w c D (locked_shards S ss d ts) = Some (True, w, ?D, applied_shards S ss d ts c)"
    using ap(3) by (auto simp: commit_Some call_commit_cb_def cb(1) D)
  from commit_resume [OF this zs] have 1: "execute_commit ?cb w D zs = Some (True, w, ?D, applied_shards S ss d ts c)"
    by (simp add: execute_commit_def D)
  have "between (locked_shards S ss d ts) (applied_shards S ss d ts c) (applied_shards S ss d ts c)"
    by (simp add: between_refl2 ap(2))
  then obtain ok w2 dt zs' where "discard ?cb w ?D (applied_shards S ss d ts c) = Some (ok, w2, dt, zs')" "batch_config S ss d ts c w2 zs'"
    using discard_leaves_config [OF copy d w ap(1), of S ?D ?cb] D cb by auto
  then have "\<exists>r dt'. execute S ?cb w D zs = Some (r, w2, dt', zs')"
    using 1 D by (cases ok) (auto simp: execute_def execute_prepare_def execute_discard_def)
  then show ?thesis
    using \<open>batch_config S ss d ts c w2 zs'\<close> by (auto simp: rec)
qed

lemma recovers_discarding:
  assumes copy: "copies copy" and d: "is_hash d" and w: "in_phase w (discarding d)"
  shows "\<exists>ok w'. recover_all S copy w zs (recovered_dtxs (discarding d) zs) = Some (ok, w', zs) \<and>
    (in_phase w' no_batch \<or> in_phase w' (discarding d))"
proof -
  define D where "D = recover_discard (distributed_tx_init d zs)"
  have rec: "recovered_dtxs (discarding d) zs = [D]"
    by (simp add: recovered_dtxs_def discarding_def D_def)
  have D: "m_tx_idxs D = replicate (length zs) []" "m_dtx_id D = d" "m_state D = Dtx_discard"
    by (simp_all add: D_def recover_discard_def distributed_tx_init_def)
  let ?cb = "batch_set_cbs copy D"
  have cb: "discard_cb ?cb = None" "done_cb ?cb = Some (sm_done_cb copy)"
    by (simp_all add: batch_set_cbs_def D)
  obtain ok w1 where 1: "sm_done_cb copy w d = Some (ok, w1)" "in_phase w1 no_batch \<or> in_phase w1 (discarding d)"
    using callbacks_move(4) [OF copy d w] unfolding cb_moves_def by blast
  have "\<exists>r dt. execute S ?cb w D zs = Some (r, w1, dt, zs)"
    by (cases ok) (simp_all add: execute_def execute_prepare_def execute_commit_def execute_discard_def discard_def
        call_discard_cb_def call_done_cb_def cb D 1(1) discard_shards_empty)
  then show ?thesis
    using 1(2) by (auto simp: rec)
qed

text \<open>No attempt ends the process or leaves the batch in a state that recovery cannot take up; a finished batch stays finished.\<close>

lemma recovery_keeps_config:
  assumes copy: "copies copy" and d: "is_hash d" and ts: "wf_vector wf_compact_tx ts" "length ss < 2 ^ 64"
    and rdy: "shards_ready ss keys n d ts" "batch_ok ts" "c = map (completable S ss keys n) ts"
    and w: "batch_config S ss d ts c w zs"
  shows "\<exists>ok w' zs'. recovery_func S copy w zs = Some (ok, w', zs') \<and> batch_config S ss d ts c w' zs' \<and>
    (in_phase w no_batch \<longrightarrow> in_phase w' no_batch \<and> zs' = zs)"
proof -
  have wf: "wf_state no_batch" "wf_state (preparing d ts)" "wf_state (committing d (c, map (shard_idxs ts) ss))"
    "wf_state (discarding d)"
    using wf_phases [OF d ts, of c] rdy(3) by simp_all
  have none: "recover_all S copy w' zs (recovered_dtxs no_batch zs) = Some (True, w', zs)" for w'
    by (simp add: recovered_dtxs_def no_batch_def)
  have other: "\<not> in_phase w no_batch" if "in_phase w t" "t = preparing d ts \<or> t = committing d (c, map (shard_idxs ts) ss) \<or> t = discarding d" for t
    using that by (auto simp: in_phase_def encode_state_def phase_defs)
  from w consider "in_phase w no_batch" "zs = ss \<or> shards_settled ss c ts zs"
    | "in_phase w (preparing d ts)" "between ss (locked_shards S ss d ts) zs"
    | "in_phase w (committing d (c, map (shard_idxs ts) ss))" "between (locked_shards S ss d ts) (applied_shards S ss d ts c) zs"
    | "in_phase w (discarding d)" "shards_settled ss c ts zs"
    unfolding batch_config_def by blast
  then show ?thesis
  proof cases
    case 1
    show ?thesis
      by (rule recovery_any [OF copy 1(1) wf(1), of S zs]) (use 1 none in \<open>auto simp: batch_config_def\<close>)
  next
    case 2
    show ?thesis
      by (rule recovery_any [OF copy 2(1) wf(2), of S zs])
         (use 2 other recovers_preparing [OF copy d rdy _ 2(2)] in \<open>fastforce simp: batch_config_def\<close>)+
  next
    case 3
    show ?thesis
      by (rule recovery_any [OF copy 3(1) wf(3), of S zs])
         (use 3 other recovers_committing [OF copy d rdy _ 3(2)] in \<open>fastforce simp: batch_config_def\<close>)+
  next
    case 4
    show ?thesis
      by (rule recovery_any [OF copy 4(1) wf(4), of S zs])
         (use 4 other recovers_discarding [OF copy d, of _ S zs] in \<open>fastforce simp: batch_config_def\<close>)+
  qed
qed

text \<open>A sequence of attempts, by the same or by different leaders, each with what its log does.\<close>

fun recovery_attempts ::
  "secp256k1 \<Rightarrow> (byte list \<Rightarrow> nat \<Rightarrow> byte list) \<Rightarrow> coord_world \<Rightarrow> locking_shard list \<Rightarrow> raft_outcome list list
     \<Rightarrow> (coord_world \<times> locking_shard list) option" where
  "recovery_attempts S copy w ss [] = Some (w, ss)"
| "recovery_attempts S copy w ss (os # oss) = do {
     (_, w1, ss1) \<leftarrow> recovery_func S copy (w\<lparr>cw_raft := os\<rparr>) ss;
     recovery_attempts S copy w1 ss1 oss }"

lemma batch_config_raft [simp]: "batch_config S ss d ts c (w\<lparr>cw_raft := os\<rparr>) zs = batch_config S ss d ts c w zs"
  by (simp add: batch_config_def in_phase_def)

lemma in_phase_raft [simp]: "in_phase (w\<lparr>cw_raft := os\<rparr>) t = in_phase w t"
  by (simp add: in_phase_def)

lemma attempts_keep_config:
  assumes "copies copy" "is_hash d" "wf_vector wf_compact_tx ts" "length ss < 2 ^ 64"
    and "shards_ready ss keys n d ts" "batch_ok ts" "c = map (completable S ss keys n) ts"
    and "batch_config S ss d ts c w zs"
  shows "\<exists>w' zs'. recovery_attempts S copy w zs oss = Some (w', zs') \<and> batch_config S ss d ts c w' zs' \<and>
    (in_phase w no_batch \<longrightarrow> in_phase w' no_batch \<and> zs' = zs)"
  using assms(8)
proof (induction oss arbitrary: w zs)
  case (Cons os oss)
  then obtain ok w1 zs1 where 1: "recovery_func S copy (w\<lparr>cw_raft := os\<rparr>) zs = Some (ok, w1, zs1)" "batch_config S ss d ts c w1 zs1"
    "in_phase w no_batch \<longrightarrow> in_phase w1 no_batch \<and> zs1 = zs"
    using recovery_keeps_config [OF assms(1-7), of "w\<lparr>cw_raft := os\<rparr>" zs] by auto
  then show ?case
    using Cons.IH [OF 1(2)] by auto
qed simp

section \<open>Batches and their clients\<close>

text \<open>The transactions of a sequence of requests that get into the current batch.\<close>

fun submit_all ::
  "secp256k1 \<Rightarrow> pubkey_t set \<Rightarrow> nat \<Rightarrow> locking_shard list \<Rightarrow> 'cb batch_state \<Rightarrow> (compact_tx \<times> 'cb) list
     \<Rightarrow> (compact_tx \<times> 'cb) list \<times> 'cb batch_state" where
  "submit_all S keys n ss b [] = ([], b)"
| "submit_all S keys n ss b ((tx, f) # reqs) =
    (case execute_transaction S True keys n ss b tx f of
       Some (True, b') \<Rightarrow> let (acc, b'') = submit_all S keys n ss b' reqs in ((tx, f) # acc, b'')
     | _ \<Rightarrow> submit_all S keys n ss b reqs)"

text \<open>The batch holds the accepted transactions in order, each with its index.\<close>

definition batch_holds :: "hash_t \<Rightarrow> locking_shard list \<Rightarrow> 'cb batch_state \<Rightarrow> (compact_tx \<times> 'cb) list \<Rightarrow> bool" where
  "batch_holds d ss b acc \<longleftrightarrow>
     m_current_batch b = foldl (add_tx ss) (distributed_tx_init d ss) (map fst acc) \<and>
     m_current_txs b = map (\<lambda>i. (m_id (fst (acc ! i)), snd (acc ! i), i)) [0..<length acc] \<and>
     distinct (map (m_id \<circ> fst) acc) \<and> length acc \<le> m_batch_size b"

lemma batch_holds_keys: "batch_holds d ss b acc \<Longrightarrow> fst ` set (m_current_txs b) = set (map (m_id \<circ> fst) acc)"
proof -
  assume "batch_holds d ss b acc"
  then have "map fst (m_current_txs b) = map (m_id \<circ> fst) acc"
    by (auto simp: batch_holds_def intro: nth_equalityI)
  then show ?thesis
    by (metis set_map)
qed

lemma batch_holds_step:
  assumes "batch_holds d ss b acc" "execute_transaction S l keys n ss b tx f = Some (True, b')"
  shows "batch_holds d ss b' (acc @ [(tx, f)])" "m_batch_size b' = m_batch_size b"
proof -
  have new: "m_id tx \<notin> fst ` set (m_current_txs b)" and room: "length (m_current_txs b) < m_batch_size b"
    and b': "b' = b\<lparr>m_current_batch := add_tx ss (m_current_batch b) tx,
       m_current_txs := emplace (m_id tx) (f, length (m_full_txs (m_current_batch b))) (m_current_txs b)\<rparr>"
    using assms(2) by (auto simp: execute_transaction_def Let_def split: if_splits)
  have full: "m_full_txs (m_current_batch b) = map fst acc"
    using assms(1) routed_add_txs [OF routed_init, of ss d "map fst acc"]
    by (simp add: batch_holds_def distributed_tx_init_def)
  have "map (\<lambda>i. (m_id (fst ((acc @ [(tx, f)]) ! i)), snd ((acc @ [(tx, f)]) ! i), i)) [0..<length acc] =
      map (\<lambda>i. (m_id (fst (acc ! i)), snd (acc ! i), i)) [0..<length acc]"
    by (rule map_cong) (auto simp: nth_append)
  then show "batch_holds d ss b' (acc @ [(tx, f)])"
    using assms(1) new room full batch_holds_keys [OF assms(1)]
    by (simp add: b' batch_holds_def emplace_def)
  show "m_batch_size b' = m_batch_size b"
    by (simp add: b')
qed

lemma submit_all_holds:
  assumes "batch_holds d ss b acc" "submit_all S keys n ss b reqs = (acc', b')"
  shows "batch_holds d ss b' (acc @ acc') \<and> m_batch_size b' = m_batch_size b"
  using assms
proof (induction reqs arbitrary: b acc acc')
  case (Cons req reqs)
  obtain tx f where req: "req = (tx, f)"
    by fastforce
  show ?case
  proof (cases "\<exists>b1. execute_transaction S True keys n ss b tx f = Some (True, b1)")
    case True
    then obtain b1 where b1: "execute_transaction S True keys n ss b tx f = Some (True, b1)"
      by blast
    obtain acc1 b2 where s: "submit_all S keys n ss b1 reqs = (acc1, b2)"
      by fastforce
    show ?thesis
      using Cons.IH [of b1 "acc @ [(tx, f)]"] batch_holds_step [OF Cons.prems(1) b1] Cons.prems(2) b1 s
      by (auto simp: req)
  next
    case False
    then have "submit_all S keys n ss b (req # reqs) = submit_all S keys n ss b reqs"
      by (auto simp: req split: option.split bool.split)
    then have "submit_all S keys n ss b reqs = (acc', b')"
      using Cons.prems(2) by simp
    then show ?thesis
      by (rule Cons.IH [OF Cons.prems(1)])
  qed
qed simp

text \<open>The outputs that are unspent on some shard.\<close>

definition unspent_in :: "locking_shard list \<Rightarrow> hash_t set" where
  "unspent_in ss = {h. \<exists>s \<in> set ss. check_unspent s h}"

definition after_batch :: "hash_t set \<Rightarrow> compact_tx list \<Rightarrow> bool list \<Rightarrow> hash_t set" where
  "after_batch U ts c = (U - {h. \<exists>k < length ts. c ! k \<and> h \<in> set (c_inputs (ts ! k))})
     \<union> {h. \<exists>k < length ts. c ! k \<and> h \<in> set (m_uhs_outputs (ts ! k))}"

lemma settled_after_batch:
  "shards_ready ss keys n d ts \<Longrightarrow> shards_settled ss c ts zs \<Longrightarrow> length c = length ts \<Longrightarrow>
     unspent_in zs = after_batch (unspent_in ss) ts c"
  using settled_union [of ss keys n d ts c zs] unfolding unspent_in_def after_batch_def by blast

section \<open>The start/stop thread\<close>

text \<open>The last event since the previous turn and the flags, after any history.\<close>

inductive leader_reach :: "raft_event option \<Rightarrow> leader_flags \<Rightarrow> bool" where
  init: "leader_reach None \<lparr>m_start_flag = False, m_stop_flag = False, m_quit = False\<rparr>"
| event: "leader_reach e f \<Longrightarrow> e' \<noteq> Other_event \<Longrightarrow> leader_reach (Some e') (raft_callback f e')"
| other: "leader_reach e f \<Longrightarrow> leader_reach e (raft_callback f Other_event)"
| quits: "leader_reach e f \<Longrightarrow> leader_reach e (quit f)"
| turns: "leader_reach e f \<Longrightarrow> start_stop_turn f = Turn_calls as f' \<Longrightarrow> \<not> m_quit f \<Longrightarrow> leader_reach None f'"

lemma leader_reach_flags:
  "leader_reach e f \<Longrightarrow> (m_start_flag f \<longleftrightarrow> e = Some BecomeLeader) \<and> (m_stop_flag f \<longleftrightarrow> e = Some BecomeFollower) \<and>
     e \<noteq> Some Other_event"
proof (induction rule: leader_reach.induct)
  case (event e f e')
  then show ?case
    by (cases e') (auto simp: raft_callback_def)
qed (auto simp: raft_callback_def quit_def start_stop_turn_def Let_def split: if_splits)

section \<open>Properties\<close>

text \<open>C3: A batch survives the failure of its leader and of any number of its successors. The hypotheses are those of the atomic execution
  (\<open>shards_ready\<close>: the ranges cover every hash once, all shards run and do not know the batch, no input or output of it is locked by another
  batch; \<open>batch_ok\<close>: no two transactions share an input, none lists one twice or spends an output of the batch), a batch that can be encoded, and
  no other unfinished batch in the replicated state; the calls to the shards return. Each command that the first leader replicates while it executes the
  batch may be lost, executed without an acknowledgement, or acknowledged; the execution returns. Then any number of
  recovery attempts follow, each with any such outcomes of its own commands; every one returns. When finally an attempt is made whose
  commands are acknowledged, it succeeds, no batch is left in the replicated state, and the set of unspent outputs over all shards is either the
  one before the batch or the one after the whole batch; it is the latter whenever the first leader has reported results.\<close>

theorem coordinator_failover:
  fixes ss :: "locking_shard list" and ts :: "compact_tx list" and d :: hash_t and S :: secp256k1
    and keys :: "pubkey_t set" and n :: nat
  defines "D \<equiv> foldl (add_tx ss) (distributed_tx_init d ss) ts" and "c \<equiv> map (completable S ss keys n) ts"
  assumes "copies copy" "is_hash d" "wf_vector wf_compact_tx ts" "length ss < 2 ^ 64"
    and "shards_ready ss keys n d ts" "batch_ok ts"
    and "csm_state (cw_sm w) = encode_state no_batch"
  shows "\<exists>r w1 dt zs1 w2 zs2 w3 zs3. execute S (batch_set_cbs copy D) w D ss = Some (r, w1, dt, zs1) \<and>
    recovery_attempts S copy w1 zs1 oss = Some (w2, zs2) \<and>
    recovery_func S copy (w2\<lparr>cw_raft := replicate 4 Raft_acked\<rparr>) zs2 = Some (True, w3, zs3) \<and>
    csm_state (cw_sm w3) = encode_state no_batch \<and>
    (r = None \<and> unspent_in zs3 = unspent_in ss \<or> unspent_in zs3 = after_batch (unspent_in ss) ts c) \<and>
    (r \<noteq> None \<longrightarrow> r = Some c)"
proof -
  have c: "c = map (completable S ss keys n) ts" and len: "length c = length ts"
    by (simp_all add: c_def)
  obtain r w1 dt zs1 where x: "execute S (batch_set_cbs copy D) w D ss = Some (r, w1, dt, zs1)"
    "batch_config S ss d ts c w1 zs1" and r: "r \<noteq> None \<longrightarrow> r = Some c \<and> in_phase w1 no_batch \<and> shards_settled ss c ts zs1"
    using execute_leaves_config [OF assms(3,4) _ assms(7,8) c] assms(9) unfolding D_def in_phase_def by blast
  obtain w2 zs2 where a: "recovery_attempts S copy w1 zs1 oss = Some (w2, zs2)" "batch_config S ss d ts c w2 zs2"
    "in_phase w1 no_batch \<longrightarrow> in_phase w2 no_batch \<and> zs2 = zs1"
    using attempts_keep_config [OF assms(3-8) c x(2)] by blast
  let ?w = "w2\<lparr>cw_raft := replicate 4 Raft_acked\<rparr>"
  obtain w3 zs3 where rec: "recovery_func S copy ?w zs2 = Some (True, w3, zs3)" "in_phase w3 no_batch"
    "zs3 = ss \<and> zs2 = ss \<or> shards_settled ss c ts zs3"
    using recovery_completes [OF assms(3-8) c, of ?w zs2] a(2) by auto
  have "r = None \<and> unspent_in zs3 = unspent_in ss \<or> unspent_in zs3 = after_batch (unspent_in ss) ts c"
    using rec(3) r a(3) settled_after_batch [OF assms(7) _ len] by blast
  then show ?thesis
    using x(1) a(1) rec r unfolding in_phase_def by blast
qed

theorem coordinator_failover_witness:
  "let cbs = batch_set_cbs (\<lambda>data pos. drop pos data);
       D = foldl (add_tx sample_shards) (distributed_tx_init (sample_hash 9) sample_shards) sample_batch;
       w = \<lparr>cw_sm = coordinator_sm_init, cw_raft = [Raft_acked, Raft_unacked]\<rparr>
   in \<exists>r w1 dt zs1 w2 zs2 w3 zs3. execute toy_secp (cbs D) w D sample_shards = Some (r, w1, dt, zs1) \<and>
     recovery_attempts toy_secp (\<lambda>data pos. drop pos data) w1 zs1 [[Raft_acked, Raft_unacked], [Raft_lost]] = Some (w2, zs2) \<and>
     recovery_func toy_secp (\<lambda>data pos. drop pos data) (w2\<lparr>cw_raft := replicate 4 Raft_acked\<rparr>) zs2 = Some (True, w3, zs3) \<and>
     (r = None \<and> unspent_in zs3 = unspent_in sample_shards \<or>
      unspent_in zs3 = after_batch (unspent_in sample_shards) sample_batch [True, False])"
proof -
  have wf: "wf_vector wf_compact_tx sample_batch"
    by (simp add: wf_vector_def sample_batch_def sample_tx_def wf_compact_tx_def wf_map_def)
  have init: "csm_state (cw_sm \<lparr>cw_sm = coordinator_sm_init, cw_raft = [Raft_acked, Raft_unacked]\<rparr>) = encode_state no_batch"
    by (simp add: coordinator_sm_init_def encode_state_def no_batch_def)
  have len: "length sample_shards < 2 ^ 64"
    by (simp add: sample_shards_def)
  show ?thesis
    using coordinator_failover [OF _ _ wf len sample_ready init, of "\<lambda>data pos. drop pos data" toy_secp "[[Raft_acked, Raft_unacked], [Raft_lost]]"]
    unfolding Let_def sample_completable by auto
qed

text \<open>C38: Every client is told the fate of its own transaction, once. A running leader builds a batch from any sequence of requests; the
  accepted ones have different identifiers and are at most \<open>m_batch_size\<close>. Executing the batch with the callbacks of the controller,
  whatever happens to the replicated commands, calls the callback of each accepted request exactly once: either all with the
  result of their own transactions, true if and only if it was attested and all its inputs were unspent, and then the shards have settled the whole
  batch; or all without a result. Results are given whenever the four commands are acknowledged. The hypotheses on the accepted
  batch are those of the atomic execution (\<open>shards_ready\<close>: the ranges cover every hash once, all shards run and do not know the batch, no
  input or output of it is locked by another batch; \<open>batch_ok\<close>: no two transactions share an input, none lists one twice or spends
  an output of the batch), and the replicated state has no unfinished batch.\<close>

theorem batch_answers_clients:
  fixes reqs acc :: "(compact_tx \<times> 'cb) list"
  assumes b: "b_running b" "m_current_batch b = distributed_tx_init d ss" "m_current_txs b = []"
    and sub: "submit_all S keys n ss b reqs = (acc, b')"
    and rdy: "shards_ready ss keys n d (map fst acc)" "batch_ok (map fst acc)"
    and log: "copies copy" "is_hash d" "csm_state (cw_sm w) = encode_state no_batch"
  shows "distinct (map (m_id \<circ> fst) acc) \<and> length acc \<le> m_batch_size b \<and>
    (\<exists>told w' ss'. executor_run S copy w ss (m_current_batch b') (m_current_txs b') =
         Some (map (\<lambda>(tx, f). (f, if told then Some (completable S ss keys n tx) else None)) acc, w', ss') \<and>
       (told \<longrightarrow> unspent_in ss' = after_batch (unspent_in ss) (map fst acc) (map (completable S ss keys n \<circ> fst) acc)) \<and>
       (take 4 (cw_raft w) = replicate 4 Raft_acked \<longrightarrow> told))"
proof -
  have "batch_holds d ss b []"
    using b by (simp add: batch_holds_def)
  then have h: "batch_holds d ss b' acc" "m_batch_size b' = m_batch_size b"
    using submit_all_holds [OF _ sub, of d "[]"] by simp_all
  let ?D = "foldl (add_tx ss) (distributed_tx_init d ss) (map fst acc)" and ?c = "map (completable S ss keys n) (map fst acc)"
  have phase: "in_phase w no_batch"
    using log(3) by (simp add: in_phase_def)
  obtain r w' dt ss' where x: "execute S (batch_set_cbs copy ?D) w ?D ss = Some (r, w', dt, ss')"
    and r: "r \<noteq> None \<longrightarrow> r = Some ?c \<and> shards_settled ss ?c (map fst acc) ss'"
    using execute_leaves_config [OF log(1,2) phase rdy refl] by blast
  have told: "take 4 (cw_raft w) = replicate 4 Raft_acked \<longrightarrow> r \<noteq> None"
    using acked_execution [OF log(1,2) phase rdy refl, of S] x by auto
  have "executor_answers r (m_current_txs b') =
      map (\<lambda>(tx, f). (f, if r \<noteq> None then Some (completable S ss keys n tx) else None)) acc"
    using h(1) r by (intro nth_equalityI) (auto simp: executor_answers_def batch_holds_def split: prod.splits)
  moreover have "r \<noteq> None \<longrightarrow> unspent_in ss' = after_batch (unspent_in ss) (map fst acc) (map (completable S ss keys n \<circ> fst) acc)"
    using r settled_after_batch [OF rdy(1)] by (auto simp: comp_def)
  moreover have "m_current_batch b' = ?D"
    using h(1) by (simp add: batch_holds_def)
  ultimately have "executor_run S copy w ss (m_current_batch b') (m_current_txs b') =
         Some (map (\<lambda>(tx, f). (f, if r \<noteq> None then Some (completable S ss keys n tx) else None)) acc, w', ss') \<and>
       (r \<noteq> None \<longrightarrow> unspent_in ss' = after_batch (unspent_in ss) (map fst acc) (map (completable S ss keys n \<circ> fst) acc)) \<and>
       (take 4 (cw_raft w) = replicate 4 Raft_acked \<longrightarrow> r \<noteq> None)"
    using x told by (simp add: executor_run_def)
  then show ?thesis
    using h by (auto simp: batch_holds_def)
qed

theorem batch_answers_clients_witness:
  "let b = \<lparr>b_running = True, m_current_batch = distributed_tx_init (sample_hash 9) sample_shards,
         m_current_txs = [], m_batch_size = 2\<rparr>;
       reqs = [(sample_tx 1 [5] [200], ''a''), (sample_tx 1 [5] [200], ''b''), (sample_tx 2 [6] [7], ''c''), (sample_tx 3 [8] [], ''d'')];
       b' = snd (submit_all toy_secp {} 0 sample_shards b reqs);
       w = \<lparr>cw_sm = coordinator_sm_init, cw_raft = replicate 4 Raft_acked\<rparr>
   in \<exists>w' ss'. executor_run toy_secp (\<lambda>data pos. drop pos data) w sample_shards (m_current_batch b') (m_current_txs b') =
     Some ([(''a'', Some True), (''c'', Some False)], w', ss')"
proof -
  define b :: "string batch_state" where "b = \<lparr>b_running = True, m_current_batch = distributed_tx_init (sample_hash 9) sample_shards,
         m_current_txs = [], m_batch_size = 2\<rparr>"
  define reqs where "reqs = [(sample_tx 1 [5] [200], ''a''), (sample_tx 1 [5] [200], ''b''),
    (sample_tx 2 [6] [7], ''c''), (sample_tx 3 [8] [], ''d'')]"
  define w where "w = \<lparr>cw_sm = coordinator_sm_init, cw_raft = replicate 4 Raft_acked\<rparr>"
  obtain b' where sub: "submit_all toy_secp {} 0 sample_shards b reqs =
      ([(sample_tx 1 [5] [200], ''a''), (sample_tx 2 [6] [7], ''c'')], b')"
    by (simp add: b_def reqs_def execute_transaction_def check_attestations_def sample_tx_def emplace_def Let_def)
  have batch: "map fst [(sample_tx 1 [5] [200], ''a''), (sample_tx 2 [6] [7], ''c'')] = sample_batch"
    by (simp add: sample_batch_def)
  have w: "csm_state (cw_sm w) = encode_state no_batch" "take 4 (cw_raft w) = replicate 4 Raft_acked"
    by (simp_all add: w_def coordinator_sm_init_def encode_state_def no_batch_def)
  have "\<exists>w' ss'. executor_run toy_secp (\<lambda>data pos. drop pos data) w sample_shards (m_current_batch b') (m_current_txs b') =
       Some (map (\<lambda>(tx, f). (f, Some (completable toy_secp sample_shards {} 0 tx)))
         [(sample_tx 1 [5] [200], ''a''), (sample_tx 2 [6] [7], ''c'')], w', ss')"
    using batch_answers_clients [OF _ _ _ sub, of "sample_hash 9" "\<lambda>data pos. drop pos data" w] sample_ready w
    unfolding batch by (fastforce simp: b_def)
  then show ?thesis
    using sample_completable unfolding b_def [symmetric] reqs_def [symmetric] w_def [symmetric] Let_def sub by (simp add: sample_batch_def)
qed

text \<open>The start/stop thread never fails its assertion and follows the latest change of
  leadership. After any sequence of Raft events, turns of the thread and a possible request to
  quit, the next turn leaves the loop after stopping the node if a quit was requested;
  otherwise it waits if there was no event since the previous turn, stops the node if the
  last event made it a follower, and stops and restarts it if the last event made it the
  leader.\<close>

theorem leadership_followed:
  assumes "leader_reach e f"
  shows "start_stop_turn f =
    (if m_quit f then Turn_calls [Call_stop, Leave_loop] f
     else case e of
            None \<Rightarrow> Turn_waits
          | Some BecomeLeader \<Rightarrow> Turn_calls [Call_stop, Call_start] (f\<lparr>m_start_flag := False\<rparr>)
          | Some _ \<Rightarrow> Turn_calls [Call_stop] (f\<lparr>m_stop_flag := False\<rparr>))"
  using leader_reach_flags [OF assms]
  by (cases f) (auto simp: start_stop_turn_def Let_def split: option.splits raft_event.splits)

theorem leadership_followed_witness:
  "let f = raft_callback (raft_callback \<lparr>m_start_flag = False, m_stop_flag = False, m_quit = False\<rparr> BecomeFollower) BecomeLeader
   in start_stop_turn f = Turn_calls [Call_stop, Call_start] (f\<lparr>m_start_flag := False\<rparr>)"
proof -
  have "leader_reach (Some BecomeLeader) (raft_callback (raft_callback
      \<lparr>m_start_flag = False, m_stop_flag = False, m_quit = False\<rparr> BecomeFollower) BecomeLeader)"
    by (rule leader_reach.event [OF leader_reach.event [OF leader_reach.init]]) simp_all
  from leadership_followed [OF this] show ?thesis
    by (simp add: Let_def raft_callback_def)
qed

end
