(* ===== verification/Sentinel.thy ===== *)
theory Sentinel
  imports Coordinator Atomizer_Messages Uhs_Shard
begin

text \<open>
  The sentinels of both architectures (\<open>uhs/atomizer/sentinel\<close> and \<open>uhs/twophase/sentinel_2pc\<close>)
  check transactions, sign them, gather the signatures of other sentinels, and pass them on to the shards
  or to a coordinator. The other sentinels are a list of clients; a client answers a
  request with \<open>None\<close> when it could not be sent. The random choices are a list of draws, and a result
  that is still awaited when the draws are used up is \<open>None\<close>.
\<close>

section \<open>Definitions\<close>

datatype tx_status = Pending | Static_invalid | State_invalid | Confirmed

definition tx_status_to_string :: "tx_status \<Rightarrow> string" where
  "tx_status_to_string s =
    (case s of State_invalid \<Rightarrow> ''Contextually invalid'' | Confirmed \<Rightarrow> ''Confirmed'' | Pending \<Rightarrow> ''Pending''
     | Static_invalid \<Rightarrow> ''Statically invalid'')"

record execute_response =
  r_tx_status :: tx_status
  r_tx_error :: "tx_error option"

type_synonym sentinel_client = "full_tx \<Rightarrow> sentinel_attestation option option"

text \<open>The reply to a request for validation; the outer \<open>None\<close> is a failed assertion on the key.\<close>

definition validate_transaction :: "secp256k1 \<Rightarrow> privkey_t \<Rightarrow> full_tx \<Rightarrow> sentinel_attestation option option" where
  "validate_transaction S privkey tx =
    (case check_tx S tx of
       Some _ \<Rightarrow> Some None
     | None \<Rightarrow> map_option Some (compact_tx_sign S (compact_tx_of tx) privkey))"

definition insert_attestation :: "sentinel_attestation \<Rightarrow> compact_tx \<Rightarrow> compact_tx" where
  "insert_attestation att ctx = ctx\<lparr>m_attestations := emplace (fst att) (snd att) (m_attestations ctx)\<rparr>"

text \<open>
  What gathering ends with: a transaction with enough attestations, or the refusal of another
  sentinel.
\<close>

datatype gathered = Gathered compact_tx | Remote_invalid

fun gather_attestations ::
  "nat \<Rightarrow> sentinel_client list \<Rightarrow> nat list \<Rightarrow> full_tx \<Rightarrow> compact_tx \<Rightarrow> nat set \<Rightarrow> gathered option" where
  "gather_attestations threshold clients [] tx ctx requested =
    (if length (m_attestations ctx) < threshold then None else Some (Gathered ctx))"
| "gather_attestations threshold clients (sentinel_id # draws) tx ctx requested =
    (if length (m_attestations ctx) < threshold then
       if sentinel_id \<in> requested then gather_attestations threshold clients draws tx ctx requested
       else if \<not> sentinel_id < length clients then None
       else case (clients ! sentinel_id) tx of
              None \<Rightarrow> gather_attestations threshold clients draws tx ctx requested
            | Some None \<Rightarrow> Some Remote_invalid
            | Some (Some att) \<Rightarrow>
                gather_attestations threshold clients draws tx (insert_attestation att ctx) (insert sentinel_id requested)
     else Some (Gathered ctx))"

subsection \<open>Atomizer\<close>

text \<open>The response does not wait for the attestations.\<close>

definition sentinel_response :: "secp256k1 \<Rightarrow> full_tx \<Rightarrow> execute_response" where
  "sentinel_response S tx =
    (let res = check_tx S tx in \<lparr>r_tx_status = (if res \<noteq> None then Static_invalid else Pending), r_tx_error = res\<rparr>)"

definition send_transaction ::
  "secp256k1 \<Rightarrow> privkey_t \<Rightarrow> nat \<Rightarrow> sentinel_client list \<Rightarrow> nat list \<Rightarrow> full_tx \<Rightarrow> gathered option" where
  "send_transaction S privkey threshold clients draws tx = do {
     let ctx = compact_tx_of tx;
     attestation \<leftarrow> compact_tx_sign S ctx privkey;
     gather_attestations threshold clients draws tx (insert_attestation attestation ctx) {} }"

text \<open>
  Sending the transaction to shards: \<open>shards\<close> gives range and connection of each. The inner loop
  runs over the inputs \<open>j\<close> and compares the input of index \<open>i\<close>, the number of the outer turn;
  \<open>None\<close> is an index outside the vector. The result lists the shards it was sent to.
\<close>

fun mark_inputs :: "shard_range \<Rightarrow> hash_t list \<Rightarrow> nat \<Rightarrow> nat list \<Rightarrow> nat set \<Rightarrow> bool \<Rightarrow> (nat set \<times> bool) option" where
  "mark_inputs rng inps i [] sent should_send = Some (sent, should_send)"
| "mark_inputs rng inps i (j # js) sent should_send =
    (if j \<in> sent then mark_inputs rng inps i js sent should_send
     else if \<not> i < length inps then None
     else if \<not> hash_in_shard_range rng (inps ! i) then mark_inputs rng inps i js sent should_send
     else mark_inputs rng inps i js (insert j sent) True)"

fun send_turns ::
  "(shard_range \<times> bool) list \<Rightarrow> hash_t list \<Rightarrow> nat \<Rightarrow> nat list \<Rightarrow> nat set \<Rightarrow> nat list option" where
  "send_turns shards inps offset [] sent = Some []"
| "send_turns shards inps offset (i # is) sent =
    (let idx = (i + offset) mod length shards in
     if card sent = length inps then Some []
     else if \<not> snd (shards ! idx) then send_turns shards inps offset is sent
     else do {
       (sent', should_send) \<leftarrow> mark_inputs (fst (shards ! idx)) inps i [0..<length inps] sent False;
       rest \<leftarrow> send_turns shards inps offset is sent';
       Some (if should_send then idx # rest else rest) })"

definition send_compact_tx :: "(shard_range \<times> bool) list \<Rightarrow> nat \<Rightarrow> compact_tx \<Rightarrow> nat list option" where
  "send_compact_tx shards offset ctx = send_turns shards (c_inputs ctx) offset [0..<length shards] {}"

subsection \<open>Two-phase commit\<close>

definition result_handler :: "bool option \<Rightarrow> execute_response option" where
  "result_handler res = map_option (\<lambda>b. \<lparr>r_tx_status = (if b then Confirmed else State_invalid), r_tx_error = None\<rparr>) res"

text \<open>The coordinator's answers to successive requests; a request that was not accepted is repeated.\<close>

fun send_to_coordinator :: "(compact_tx \<Rightarrow> bool option option) list \<Rightarrow> compact_tx \<Rightarrow> bool option option" where
  "send_to_coordinator [] ctx = None"
| "send_to_coordinator (c # cs) ctx = (case c ctx of None \<Rightarrow> send_to_coordinator cs ctx | Some res \<Rightarrow> Some res)"

definition execute_transaction_2pc ::
  "secp256k1 \<Rightarrow> privkey_t \<Rightarrow> nat \<Rightarrow> sentinel_client list \<Rightarrow> nat list \<Rightarrow> (compact_tx \<Rightarrow> bool option option) list
     \<Rightarrow> full_tx \<Rightarrow> execute_response option option" where
  "execute_transaction_2pc S privkey threshold clients draws coordinator tx =
    (case check_tx S tx of
       Some e \<Rightarrow> Some (Some \<lparr>r_tx_status = Static_invalid, r_tx_error = Some e\<rparr>)
     | None \<Rightarrow> do {
         let ctx = compact_tx_of tx;
         ctx' \<leftarrow> (if threshold > 0 then map_option (\<lambda>att. insert_attestation att ctx) (compact_tx_sign S ctx privkey) else Some ctx);
         g \<leftarrow> gather_attestations threshold clients draws tx ctx' {};
         case g of
           Remote_invalid \<Rightarrow> Some None
         | Gathered c \<Rightarrow> map_option result_handler (send_to_coordinator coordinator c) })"

section \<open>Gathering\<close>

text \<open>
  Honest sentinels: client \<open>d\<close> answers every request as a sentinel with the key \<open>ks ! d\<close> does; the
  public keys are known, and different from each other and from the own one.
\<close>

definition honest_clients :: "secp256k1 \<Rightarrow> privkey_t \<Rightarrow> privkey_t list \<Rightarrow> pubkey_t set \<Rightarrow> sentinel_client list \<Rightarrow> bool" where
  "honest_clients S k ks keys clients \<longleftrightarrow> length clients = length ks \<and>
     (\<forall>d < length ks. \<forall>tx. validate_transaction S (ks ! d) tx \<noteq> None \<and> (clients ! d) tx = validate_transaction S (ks ! d) tx) \<and>
     (\<forall>sk \<in> set (k # ks). \<exists>pk \<in> keys. pubkey_from_privkey S sk = Some pk) \<and>
     distinct (map (pubkey_from_privkey S) (k # ks))"

definition attested :: "secp256k1 \<Rightarrow> pubkey_t set \<Rightarrow> full_tx \<Rightarrow> compact_tx \<Rightarrow> bool" where
  "attested S keys tx ctx \<longleftrightarrow> ctx\<lparr>m_attestations := []\<rparr> = compact_tx_of tx \<and> distinct (map fst (m_attestations ctx)) \<and>
     (\<forall>att \<in> set (m_attestations ctx). fst att \<in> keys \<and> is_pubkey (fst att) \<and> is_sig (snd att) \<and> compact_tx_verify S ctx att)"

lemma attested_wf:
  assumes ctx: "attested S keys tx ctx" and size: "length (m_inputs tx) < 2 ^ 64" "length (m_outputs tx) < 2 ^ 64"
    "finite keys" "card keys < 2 ^ 64"
  shows "wf_compact_tx ctx"
proof -
  have f: "m_id ctx = m_id (compact_tx_of tx)" "c_inputs ctx = c_inputs (compact_tx_of tx)"
      "m_uhs_outputs ctx = m_uhs_outputs (compact_tx_of tx)"
    using ctx by (auto simp: attested_def dest: arg_cong [of _ _ m_id] arg_cong [of _ _ c_inputs] arg_cong [of _ _ m_uhs_outputs])
  have "length (m_attestations ctx) = card (fst ` set (m_attestations ctx))"
    using ctx distinct_card [of "map fst (m_attestations ctx)"] by (simp add: attested_def)
  also have "\<dots> \<le> card keys"
    using ctx size(3) by (intro card_mono) (auto simp: attested_def)
  finally have "length (m_attestations ctx) < 2 ^ 64"
    using size(4) by simp
  then show ?thesis
    using ctx size(1,2) unfolding wf_compact_tx_def f
    by (auto simp: compact_tx_of_def Let_def wf_vector_def wf_map_def attested_def tx_id_def input_hash_def uhs_id_from_output_def)
qed

lemma insert_attestation_attested:
  assumes S: "schnorr_correct S" and ctx: "attested S keys tx ctx" and sign: "compact_tx_sign S (compact_tx_of tx) k = Some att"
    and key: "fst att \<in> keys"
  shows "attested S keys tx (insert_attestation att ctx)"
proof -
  have base: "ctx\<lparr>m_attestations := []\<rparr> = compact_tx_of tx"
    using ctx by (simp add: attested_def)
  have "compact_tx_verify S (ctx\<lparr>m_attestations := []\<rparr>) att"
    unfolding base by (rule compact_tx_sign_verify(1) [OF S sign])
  then have "compact_tx_verify S ctx att"
    by simp
  then show ?thesis
    using ctx key compact_tx_sign_verify(2,3) [OF S sign] by (auto simp: attested_def insert_attestation_def emplace_def)
qed

lemma sign_key: "compact_tx_sign S ctx k = Some att \<Longrightarrow> pubkey_from_privkey S k = Some (fst att)"
  by (auto simp: compact_tx_sign_def bind_eq_Some_conv)

lemma honest_answer:
  assumes h: "honest_clients S k ks keys clients" and d: "d < length ks" and v: "check_tx S tx = None"
  shows "\<exists>att. compact_tx_sign S (compact_tx_of tx) (ks ! d) = Some att \<and> (clients ! d) tx = Some (Some att) \<and> fst att \<in> keys \<and>
    pubkey_from_privkey S (ks ! d) = Some (fst att)"
proof -
  have c: "validate_transaction S (ks ! d) tx \<noteq> None" "(clients ! d) tx = validate_transaction S (ks ! d) tx"
    using h d unfolding honest_clients_def by blast+
  then obtain att where att: "compact_tx_sign S (compact_tx_of tx) (ks ! d) = Some att" "(clients ! d) tx = Some (Some att)"
    using v by (auto simp: validate_transaction_def)
  have "ks ! d \<in> set (k # ks)"
    using d by simp
  then obtain pk where "pk \<in> keys" "pubkey_from_privkey S (ks ! d) = Some pk"
    using h unfolding honest_clients_def by blast
  then show ?thesis
    using att sign_key [OF att(1)] by auto
qed

lemma honest_distinct:
  assumes "honest_clients S k ks keys clients" "d < length ks"
  shows "pubkey_from_privkey S (ks ! d) \<noteq> pubkey_from_privkey S k"
    and "e < length ks \<Longrightarrow> e \<noteq> d \<Longrightarrow> pubkey_from_privkey S (ks ! d) \<noteq> pubkey_from_privkey S (ks ! e)"
proof -
  have d: "pubkey_from_privkey S k \<notin> set (map (pubkey_from_privkey S) ks)" "distinct (map (pubkey_from_privkey S) ks)"
    using assms(1) by (simp_all add: honest_clients_def)
  show "pubkey_from_privkey S (ks ! d) \<noteq> pubkey_from_privkey S k"
    using d(1) assms(2) by (metis length_map nth_map nth_mem)
  show "e < length ks \<Longrightarrow> e \<noteq> d \<Longrightarrow> pubkey_from_privkey S (ks ! d) \<noteq> pubkey_from_privkey S (ks ! e)"
    using d(2) assms(2) nth_eq_iff_index_eq [OF d(2), of d e] by simp
qed

text \<open>
  With enough different draws the gathering ends with a transaction that has enough
  attestations, all of them valid.
\<close>

lemma gather_attestations_complete:
  assumes S: "schnorr_correct S" and h: "honest_clients S k ks keys clients" and v: "check_tx S tx = None"
  shows "attested S keys tx ctx \<Longrightarrow>
    Some ` fst ` set (m_attestations ctx) = insert (pubkey_from_privkey S k) ((\<lambda>d. pubkey_from_privkey S (ks ! d)) ` requested) \<Longrightarrow>
    requested \<subseteq> {..<length ks} \<Longrightarrow> set draws \<subseteq> {..<length ks} \<Longrightarrow>
    threshold \<le> length (m_attestations ctx) + card (set draws - requested) \<Longrightarrow>
    \<exists>c. gather_attestations threshold clients draws tx ctx requested = Some (Gathered c) \<and> attested S keys tx c \<and>
      threshold \<le> length (m_attestations c)"
proof (induction draws arbitrary: ctx requested)
  case (Cons d draws)
  show ?case
  proof (cases "length (m_attestations ctx) < threshold")
    case more: True
    show ?thesis
    proof (cases "d \<in> requested")
      case True
      have "set (d # draws) - requested = set draws - requested"
        using True by auto
      then show ?thesis
        using Cons.IH [OF Cons.prems(1-3)] Cons.prems(4,5) True more by simp
    next
      case False
      have d: "d < length ks" "d < length clients"
        using Cons.prems(4) h by (auto simp: honest_clients_def)
      obtain att where att: "compact_tx_sign S (compact_tx_of tx) (ks ! d) = Some att" "(clients ! d) tx = Some (Some att)"
          "fst att \<in> keys" "pubkey_from_privkey S (ks ! d) = Some (fst att)"
        using honest_answer [OF h d(1) v] by blast
      have "Some (fst att) \<notin> Some ` fst ` set (m_attestations ctx)"
        unfolding Cons.prems(2) att(4) [symmetric] using honest_distinct [OF h d(1)] Cons.prems(3) False by fastforce
      then have new: "fst att \<notin> fst ` set (m_attestations ctx)"
        by blast
      have len: "length (m_attestations (insert_attestation att ctx)) = Suc (length (m_attestations ctx))"
        and keys: "fst ` set (m_attestations (insert_attestation att ctx)) = insert (fst att) (fst ` set (m_attestations ctx))"
        using new by (auto simp: insert_attestation_def emplace_def)
      have "set (d # draws) - requested = insert d (set draws - insert d requested)"
        using False by auto
      then have "threshold \<le> length (m_attestations (insert_attestation att ctx)) + card (set draws - insert d requested)"
        using Cons.prems(5) by (simp add: len)
      moreover have "Some ` fst ` set (m_attestations (insert_attestation att ctx)) =
          insert (pubkey_from_privkey S k) ((\<lambda>d. pubkey_from_privkey S (ks ! d)) ` insert d requested)"
        unfolding keys image_insert Cons.prems(2) att(4) by auto
      ultimately show ?thesis
        using Cons.IH [OF insert_attestation_attested [OF S Cons.prems(1) att(1,3)], of "insert d requested"]
          Cons.prems(3,4) d more False att(2) by simp
    qed
  qed (use Cons.prems(1) in \<open>simp add: not_less\<close>)
qed (auto simp: not_less)

text \<open>Fewer than \<open>threshold\<close> sentinels can never gather enough attestations.\<close>

lemma gather_attestations_starves:
  assumes "length (m_attestations ctx) + card ({..<length clients} - requested) < threshold" "finite requested"
  shows "gather_attestations threshold clients draws tx ctx requested \<noteq> Some (Gathered c)"
  using assms
proof (induction draws arbitrary: ctx requested)
  case (Cons d draws)
  have more: "length (m_attestations ctx) < threshold"
    using Cons.prems(1) by simp
  show ?case
  proof (cases "d \<in> requested \<or> \<not> d < length clients \<or> (clients ! d) tx = None \<or> (clients ! d) tx = Some None")
    case True
    then show ?thesis
      using Cons.IH [OF Cons.prems] more by auto
  next
    case False
    then obtain att where att: "(clients ! d) tx = Some (Some att)" "d \<notin> requested" "d < length clients"
      by auto
    have "length (m_attestations (insert_attestation att ctx)) \<le> Suc (length (m_attestations ctx))"
      by (simp add: insert_attestation_def emplace_def)
    moreover have "card ({..<length clients} - requested) = Suc (card ({..<length clients} - insert d requested))"
      using att(2,3) by (metis Diff_iff Diff_insert card_Suc_Diff1 finite_Diff finite_lessThan lessThan_iff)
    ultimately show ?thesis
      using Cons.IH [of "insert_attestation att ctx" "insert d requested"] Cons.prems more att by simp
  qed
qed simp

text \<open>Gathering starts with the own attestation.\<close>

lemma gather_from_own:
  assumes S: "schnorr_correct S" and h: "honest_clients S k ks keys clients" and v: "check_tx S tx = None"
    and draws: "set draws \<subseteq> {..<length ks}" "threshold \<le> Suc (card (set draws))"
  shows "\<exists>att ctx. compact_tx_sign S (compact_tx_of tx) k = Some att \<and>
    gather_attestations threshold clients draws tx (insert_attestation att (compact_tx_of tx)) {} = Some (Gathered ctx) \<and>
    attested S keys tx ctx \<and> threshold \<le> length (m_attestations ctx)"
proof -
  obtain pk where pk: "pk \<in> keys" "pubkey_from_privkey S k = Some pk"
    using h by (auto simp: honest_clients_def)
  define att where "att = (pk, schnorrsig_sign S (compact_tx_hash (compact_tx_of tx)) k)"
  have sign: "compact_tx_sign S (compact_tx_of tx) k = Some att"
    using pk(2) by (simp add: compact_tx_sign_def att_def)
  have base: "attested S keys tx (compact_tx_of tx)"
    by (simp add: attested_def compact_tx_of_def Let_def)
  have pk': "fst att = pk"
    by (simp add: att_def)
  note first = insert_attestation_attested [OF S base sign, unfolded pk', OF pk(1)]
  have "m_attestations (insert_attestation att (compact_tx_of tx)) = [att]"
    by (simp add: insert_attestation_def compact_tx_of_def Let_def emplace_def)
  then show ?thesis
    using gather_attestations_complete [OF S h v first, of "{}" draws threshold] draws pk sign by (auto simp: pk')
qed

section \<open>Properties\<close>

text \<open>C28: What a sentinel passes on is accepted by the rest of the system. If the transaction is valid
  and the other sentinels are honest and have different keys, then enough draws of different
  sentinels end the gathering with the compact form of that transaction, its attestations pass
  \<open>check_attestations\<close>, and a shard that receives its serialization does not drop it.\<close>

theorem sentinel_attests:
  assumes S: "schnorr_correct S" and h: "honest_clients S k ks keys clients" and v: "tx_valid S tx"
    and draws: "set draws \<subseteq> {..<length ks}" "threshold \<le> Suc (card (set draws))"
    and size: "length (m_inputs tx) < 2 ^ 64" "length (m_outputs tx) < 2 ^ 64" "finite keys" "card keys < 2 ^ 64"
  shows "\<exists>ctx. send_transaction S k threshold clients draws tx = Some (Gathered ctx) \<and>
    ctx\<lparr>m_attestations := []\<rparr> = compact_tx_of tx \<and> check_attestations S ctx keys threshold \<and>
    sentinel_response S tx = \<lparr>r_tx_status = Pending, r_tx_error = None\<rparr> \<and>
    (\<forall>L s. request_consumer L S keys threshold (s :: 'db uhs_shard) (put_compact_tx ctx) \<noteq> [])"
proof -
  have chk: "check_tx S tx = None"
    using v check_tx_None by blast
  obtain att ctx where ctx: "compact_tx_sign S (compact_tx_of tx) k = Some att"
      "gather_attestations threshold clients draws tx (insert_attestation att (compact_tx_of tx)) {} = Some (Gathered ctx)"
      "attested S keys tx ctx" "threshold \<le> length (m_attestations ctx)"
    using gather_from_own [OF S h chk draws] by blast
  have att_ok: "check_attestations S ctx keys threshold"
    using ctx(3,4) by (auto simp: check_attestations_iff attested_def)
  have "from_buffer get_compact_tx (put_compact_tx ctx) = Some ctx"
    using compact_tx_fmt.from_buffer_put [OF attested_wf [OF ctx(3) size], of "[]"] by simp
  then have "request_consumer L S keys threshold (s :: 'db uhs_shard) (put_compact_tx ctx) \<noteq> []" for L s
    using att_ok by (simp add: request_consumer_def split: sum.split)
  then show ?thesis
    using ctx chk att_ok by (auto simp: send_transaction_def sentinel_response_def attested_def)
qed

text \<open>A transaction that moves a coin of value 7.\<close>

definition sample_key :: "byte \<Rightarrow> privkey_t" where
  "sample_key b = replicate 32 b"

definition sample_full_tx :: full_tx where
  "sample_full_tx =
    \<lparr>m_inputs = [\<lparr>m_prevout = \<lparr>m_tx_id = sample_hash 1, m_index = 0\<rparr>,
                  m_prevout_data = \<lparr>m_witness_program_commitment = get_p2pk_witness_commitment (sample_key 3), m_value = 7\<rparr>\<rparr>],
     m_outputs = [\<lparr>m_witness_program_commitment = sample_hash 2, m_value = 7\<rparr>],
     m_witness = [p2pk # sample_key 3 @ replicate 64 0]\<rparr>"

lemma sample_full_tx_valid: "tx_valid toy_secp sample_full_tx"
  by (simp add: tx_valid_def sample_full_tx_def p2pk_spend_ok_def toy_secp_def sample_key_def size_defs)

definition sample_clients :: "sentinel_client list" where
  "sample_clients = map (validate_transaction toy_secp) [sample_key 1, sample_key 2]"

lemma sample_honest:
  "honest_clients toy_secp (sample_key 0) [sample_key 1, sample_key 2] {sample_key 0, sample_key 1, sample_key 2} sample_clients"
  by (auto simp: honest_clients_def sample_clients_def All_less_Suc2 numeral_2_eq_2 less_Suc_eq validate_transaction_def
      compact_tx_sign_def pubkey_from_privkey_def toy_secp_def sample_key_def split: option.splits)

theorem sentinel_attests_witness:
  "\<exists>ctx. send_transaction toy_secp (sample_key 0) 3 sample_clients [1, 1, 0] sample_full_tx = Some (Gathered ctx) \<and>
     check_attestations toy_secp ctx {sample_key 0, sample_key 1, sample_key 2} 3 \<and>
     request_consumer map_leveldb toy_secp {sample_key 0, sample_key 1, sample_key 2} 3 sample_uhs_shard (put_compact_tx ctx) \<noteq> []"
proof -
  have c: "card {sample_key 0, sample_key 1, sample_key 2} < 2 ^ 64"
    by (rule le_less_trans [OF card_insert_le_m1 [of 3]]) (auto intro: card_2_iff [THEN iffD2] simp: card_insert_if)
  show ?thesis
    using sentinel_attests [OF schnorr_correct_toy sample_honest sample_full_tx_valid, of "[1, 1, 0]" 3] c
    by (auto simp: sample_full_tx_def)
qed

text \<open>With fewer sentinels than the threshold asks for, no transaction is ever passed on, whatever
  the other sentinels answer and however long the choice among them goes on.\<close>

theorem sentinel_starves:
  assumes "Suc (length clients) < threshold"
  shows "send_transaction S k threshold clients draws tx \<noteq> Some (Gathered c)"
proof -
  have "length (m_attestations (insert_attestation att (compact_tx_of tx))) = 1" for att
    by (simp add: insert_attestation_def compact_tx_of_def Let_def emplace_def)
  then show ?thesis
    using assms gather_attestations_starves [where requested = "{}" and clients = clients and threshold = threshold]
    by (auto simp: send_transaction_def Let_def Option.bind_eq_Some_conv)
qed

theorem sentinel_starves_witness:
  "send_transaction toy_secp (sample_key 0) 4 sample_clients [0, 1, 0, 1] sample_full_tx \<noteq> Some (Gathered (compact_tx_of sample_full_tx))"
  by (rule sentinel_starves) (simp add: sample_clients_def)

lemma mark_inputs_all:
  "i < length inps \<Longrightarrow> hash_in_shard_range rng (inps ! i) \<Longrightarrow>
     mark_inputs rng inps i js sent f = Some (sent \<union> set js, f \<or> (\<exists>j \<in> set js. j \<notin> sent))"
  by (induction js arbitrary: sent f) auto

text \<open>A transaction is not sent to every shard that holds one of its inputs. The loop that decides
  which inputs a shard is responsible for looks at the input with the number of the turn, so
  that in the first turn the first input decides for all of them: if it belongs to the first
  shard that is tried, the transaction is sent to that shard only.\<close>

theorem send_compact_tx_first_shard_only:
  assumes "c_inputs ctx \<noteq> []" "shards \<noteq> []" "snd (shards ! (offset mod length shards))"
    and "hash_in_shard_range (fst (shards ! (offset mod length shards))) (hd (c_inputs ctx))"
  shows "send_compact_tx shards offset ctx = Some [offset mod length shards]"
proof -
  let ?n = "length (c_inputs ctx)"
  have first: "[0..<length shards] = 0 # [1..<length shards]"
    using assms(2) by (simp add: upt_conv_Cons)
  have "mark_inputs (fst (shards ! (offset mod length shards))) (c_inputs ctx) 0 [0..<?n] {} False = Some ({..<?n}, True)"
    using assms(1,4) mark_inputs_all [of 0 "c_inputs ctx" _ "[0..<?n]" "{}" False] by (auto simp: hd_conv_nth atLeast0LessThan)
  moreover have "send_turns shards (c_inputs ctx) offset is {..<?n} = Some []" for "is"
    by (cases "is") simp_all
  ultimately show ?thesis
    using assms(1,3) by (simp add: send_compact_tx_def first)
qed

theorem send_compact_tx_first_shard_only_witness:
  "send_compact_tx [((0, 127), True), ((128, 255), True)] 0 (sample_tx 1 [5, 200] [6]) = Some [0] \<and>
     hash_in_shard_range (128, 255) (sample_hash 200)"
  using send_compact_tx_first_shard_only [of "sample_tx 1 [5, 200] [6]" "[((0, 127), True), ((128, 255), True)]" 0]
  by (simp add: sample_tx_def hash_in_shard_range_def sample_hash_def)

text \<open>C29: A sentinel of the two-phase architecture reports what the coordinator decides. An invalid
  transaction is answered with its validation error. For a valid one, with honest other
  sentinels and enough draws, a request that the coordinator refuses any number of times is repeated; it carries
  the compact form of the transaction with attestations that the coordinator accepts, and the
  client is told that the transaction is confirmed or rejected exactly as the coordinator
  answers.\<close>

theorem sentinel_2pc_reports:
  assumes S: "schnorr_correct S" and h: "honest_clients S k ks keys clients"
    and draws: "set draws \<subseteq> {..<length ks}" "threshold \<le> Suc (card (set draws))"
  shows "(\<not> tx_valid S tx \<longrightarrow> (\<exists>e. execute_transaction_2pc S k threshold clients draws coordinator tx =
      Some (Some \<lparr>r_tx_status = Static_invalid, r_tx_error = Some e\<rparr>) \<and> check_tx S tx = Some e)) \<and>
    (tx_valid S tx \<longrightarrow> (\<exists>ctx. ctx\<lparr>m_attestations := []\<rparr> = compact_tx_of tx \<and> check_attestations S ctx keys threshold \<and>
       (\<forall>n answer. execute_transaction_2pc S k threshold clients draws (replicate n (\<lambda>_. None) @ [\<lambda>c. Some (answer c)]) tx =
         Some (map_option (\<lambda>b. \<lparr>r_tx_status = (if b then Confirmed else State_invalid), r_tx_error = None\<rparr>) (answer ctx)))))"
proof (cases "check_tx S tx")
  case (Some e)
  then have "\<not> tx_valid S tx"
    using check_tx_None [of S tx] by auto
  then show ?thesis
    using Some by (simp add: execute_transaction_2pc_def)
next
  case None
  have retry: "send_to_coordinator (replicate n (\<lambda>_. None) @ [\<lambda>c. Some (answer c)]) ctx = Some (answer ctx)" for n answer ctx
    by (induction n) simp_all
  obtain ctx where ctx: "attested S keys tx ctx" "threshold \<le> length (m_attestations ctx)"
      "\<And>cs. execute_transaction_2pc S k threshold clients draws cs tx = map_option result_handler (send_to_coordinator cs ctx)"
  proof (cases "threshold = 0")
    case True
    have "gather_attestations threshold clients draws tx (compact_tx_of tx) {} = Some (Gathered (compact_tx_of tx))"
      using True by (cases draws) simp_all
    then show ?thesis
      using that [of "compact_tx_of tx"] True None
      by (simp add: attested_def compact_tx_of_def Let_def execute_transaction_2pc_def)
  next
    case False
    then show ?thesis
      using that gather_from_own [OF S h None draws] None by (auto simp: execute_transaction_2pc_def Let_def)
  qed
  have "check_attestations S ctx keys threshold"
    using ctx(1,2) by (auto simp: check_attestations_iff attested_def)
  then show ?thesis
    using None check_tx_None [of S tx] ctx(1) ctx(3) retry by (auto simp: attested_def result_handler_def)
qed

theorem sentinel_2pc_reports_witness:
  "execute_transaction_2pc toy_secp (sample_key 0) 3 sample_clients [1, 1, 0] [\<lambda>_. None, \<lambda>c. Some (Some True)] sample_full_tx =
     Some (Some \<lparr>r_tx_status = Confirmed, r_tx_error = None\<rparr>)"
proof -
  have "set [1, 1, 0] \<subseteq> {..<length [sample_key 1, sample_key 2]}" "3 \<le> Suc (card (set [1, 1, 0 :: nat]))"
    by simp_all
  from sentinel_2pc_reports [OF schnorr_correct_toy sample_honest this] sample_full_tx_valid
  obtain ctx where "\<forall>n answer. execute_transaction_2pc toy_secp (sample_key 0) 3 sample_clients [1, 1, 0]
      (replicate n (\<lambda>_. None) @ [\<lambda>c. Some (answer c)]) sample_full_tx =
        Some (map_option (\<lambda>b. \<lparr>r_tx_status = (if b then Confirmed else State_invalid), r_tx_error = None\<rparr>) (answer ctx))"
    by blast
  from this [rule_format, of 1 "\<lambda>_. Some True"] show ?thesis
    by simp
qed

end
