(* ===== verification/Wallet.thy ===== *)
theory Wallet
  imports Validation "HOL-Library.Multiset"
begin

text \<open>
  The wallet (\<open>uhs/transaction/wallet.cpp\<close>): keys, unspent outputs and pre-seeded outputs, and the
  construction of transactions. The set of unspent outputs is the list of its elements, compared by
  outpoint as \<open>cmp_input\<close> does. The random choices are arguments. \<open>None\<close> is a failed
  assertion or an exception.
\<close>

section \<open>State\<close>

record wallet =
  w_balance :: u64
  w_utxos_set :: "input list"
  w_seed_from :: u64
  w_seed_to :: u64
  w_seed_value :: u32
  w_seed_witness_commitment :: hash_t
  w_spend_queue :: "input list"
  w_keys :: "(pubkey_t \<times> privkey_t) list"
  w_pubkeys :: "pubkey_t list"
  w_witness_programs :: "(hash_t \<times> pubkey_t) list"

definition wallet_init :: wallet where
  "wallet_init = \<lparr>w_balance = 0, w_utxos_set = [], w_seed_from = 0, w_seed_to = 0, w_seed_value = 0,
     w_seed_witness_commitment = replicate 32 0, w_spend_queue = [], w_keys = [], w_pubkeys = [], w_witness_programs = []\<rparr>"

definition input_value :: "input \<Rightarrow> u64" where
  "input_value inp = m_value (m_prevout_data inp)"

definition utxos_erase :: "input \<Rightarrow> input list \<Rightarrow> input list" where
  "utxos_erase inp s = filter (\<lambda>x. m_prevout x \<noteq> m_prevout inp) s"

section \<open>Keys\<close>

definition max_keys :: nat where "max_keys = 10000"

definition add_key :: "pubkey_t \<Rightarrow> privkey_t \<Rightarrow> wallet \<Rightarrow> wallet" where
  "add_key pubkey seckey w =
    w\<lparr>w_pubkeys := w_pubkeys w @ [pubkey], w_keys := emplace pubkey seckey (w_keys w),
      w_witness_programs := emplace (get_p2pk_witness_commitment pubkey) pubkey (w_witness_programs w)\<rparr>"

text \<open>\<open>rnd\<close> is the random private key and the random number that picks one of the existing keys.\<close>

definition generate_key :: "secp256k1 \<Rightarrow> privkey_t \<times> nat \<Rightarrow> wallet \<Rightarrow> (pubkey_t \<times> wallet) option" where
  "generate_key S rnd w =
    (if length (w_keys w) > max_keys then
       let index = snd rnd mod length (w_keys w) in
       if index < length (w_pubkeys w) then Some (w_pubkeys w ! index, w) else None
     else do { ret \<leftarrow> pubkey_from_privkey S (fst rnd); Some (ret, add_key ret (fst rnd) w) })"

fun mint_outputs :: "secp256k1 \<Rightarrow> (privkey_t \<times> nat) list \<Rightarrow> u32 \<Rightarrow> wallet \<Rightarrow> (tx_output list \<times> wallet) option" where
  "mint_outputs S [] output_val w = Some ([], w)"
| "mint_outputs S (rnd # rnds) output_val w = do {
     (pubkey, w1) \<leftarrow> generate_key S rnd w;
     (outs, w2) \<leftarrow> mint_outputs S rnds output_val w1;
     Some (\<lparr>m_witness_program_commitment = get_p2pk_witness_commitment pubkey, m_value = ucast output_val\<rparr> # outs, w2) }"

definition mint_new_coins :: "secp256k1 \<Rightarrow> (privkey_t \<times> nat) list \<Rightarrow> u32 \<Rightarrow> wallet \<Rightarrow> (full_tx \<times> wallet) option" where
  "mint_new_coins S rnds output_val w = do {
     (outs, w') \<leftarrow> mint_outputs S rnds output_val w;
     Some (\<lparr>m_inputs = [], m_outputs = outs, m_witness = []\<rparr>, w') }"

definition is_spendable :: "wallet \<Rightarrow> input \<Rightarrow> bool" where
  "is_spendable w inp \<longleftrightarrow> map_of (w_witness_programs w) (m_witness_program_commitment (m_prevout_data inp)) \<noteq> None"

text \<open>The witness of an input whose key the wallet has; other witnesses stay as they are.\<close>

definition sign_input :: "secp256k1 \<Rightarrow> wallet \<Rightarrow> hash_t \<Rightarrow> input \<times> witness_t \<Rightarrow> witness_t option" where
  "sign_input S w sighash e =
    (case map_of (w_witness_programs w) (m_witness_program_commitment (m_prevout_data (fst e))) of
       None \<Rightarrow> Some (snd e)
     | Some pubkey \<Rightarrow> do {
         seckey \<leftarrow> map_of (w_keys w) pubkey;
         _ \<leftarrow> keypair_xonly_pub S seckey;
         Some (p2pk # pubkey @ schnorrsig_sign S sighash seckey) })"

fun sign_inputs :: "secp256k1 \<Rightarrow> wallet \<Rightarrow> hash_t \<Rightarrow> (input \<times> witness_t) list \<Rightarrow> witness_t list option" where
  "sign_inputs S w sighash [] = Some []"
| "sign_inputs S w sighash (e # es) = do {
     wit \<leftarrow> sign_input S w sighash e;
     wits \<leftarrow> sign_inputs S w sighash es;
     Some (wit # wits) }"

definition wallet_sign :: "secp256k1 \<Rightarrow> wallet \<Rightarrow> full_tx \<Rightarrow> full_tx option" where
  "wallet_sign S w tx =
    (let n = length (m_inputs tx);
         resized = take n (m_witness tx) @ replicate (n - length (m_witness tx)) []
     in map_option (\<lambda>wits. tx\<lparr>m_witness := wits\<rparr>) (sign_inputs S w (tx_id tx) (zip (m_inputs tx) resized)))"

section \<open>Seeded outputs\<close>

definition seed_readonly :: "hash_t \<Rightarrow> u32 \<Rightarrow> u64 \<Rightarrow> u64 \<Rightarrow> wallet \<Rightarrow> wallet" where
  "seed_readonly witness_commitment val begin_seed end_seed w =
    w\<lparr>w_seed_from := begin_seed, w_seed_to := end_seed, w_seed_value := val, w_seed_witness_commitment := witness_commitment\<rparr>"

definition wallet_seed :: "secp256k1 \<Rightarrow> privkey_t \<Rightarrow> u32 \<Rightarrow> u64 \<Rightarrow> u64 \<Rightarrow> wallet \<Rightarrow> (bool \<times> wallet) option" where
  "wallet_seed S privkey val begin_seed end_seed w =
    (if end_seed \<le> begin_seed then Some (False, w)
     else do {
       pubkey \<leftarrow> pubkey_from_privkey S privkey;
       if w_keys w \<noteq> [] then Some (False, w)
       else Some (True, seed_readonly (get_p2pk_witness_commitment pubkey) val begin_seed end_seed (add_key pubkey privkey w)) })"

definition create_seeded_transaction :: "wallet \<Rightarrow> u64 \<Rightarrow> full_tx option" where
  "create_seeded_transaction w seed_idx =
    (if w_seed_from w = w_seed_to w then None
     else Some \<lparr>m_inputs = [\<lparr>m_prevout = \<lparr>m_tx_id = replicate 32 0, m_index = seed_idx\<rparr>,
                             m_prevout_data = \<lparr>m_witness_program_commitment = replicate 32 0, m_value = ucast (w_seed_value w)\<rparr>\<rparr>],
                m_outputs = [\<lparr>m_witness_program_commitment = w_seed_witness_commitment w, m_value = ucast (w_seed_value w)\<rparr>],
                m_witness = []\<rparr>)"

definition create_seeded_input :: "wallet \<Rightarrow> u64 \<Rightarrow> input option" where
  "create_seeded_input w seed_idx = do {
     tx \<leftarrow> create_seeded_transaction w seed_idx;
     input_from_output_id tx 0 (tx_id tx) }"

section \<open>Spending\<close>

text \<open>
  The loop over the seeded outputs, used with two conditions \<open>cond\<close> on the total and on the number of
  inputs so far.
\<close>

function take_seeds :: "(u64 \<Rightarrow> nat \<Rightarrow> bool) \<Rightarrow> wallet \<Rightarrow> u64 \<Rightarrow> input list \<Rightarrow> wallet \<times> u64 \<times> input list" where
  "take_seeds cond w total_amount inps =
    (if w_seed_from w \<noteq> w_seed_to w \<and> cond total_amount (length inps) then
       (case create_seeded_input w (w_seed_from w) of
          None \<Rightarrow> (w, total_amount, inps)
        | Some seed_utxo \<Rightarrow>
            take_seeds cond (w\<lparr>w_seed_from := w_seed_from w + 1\<rparr>) (total_amount + ucast (w_seed_value w)) (inps @ [seed_utxo]))
     else (w, total_amount, inps))"
  by pat_completeness auto

lemma seeds_decrease:
  fixes a b :: u64
  assumes "a \<noteq> b"
  shows "unat (b - (a + 1)) < unat (b - a)"
proof -
  have "b - (a + 1) = b - a - 1" "b - a \<noteq> 0"
    using assms by simp_all
  then show ?thesis
    by (metis measure_unat)
qed

termination take_seeds
  by (relation "measure (\<lambda>(_, w, _, _). unat (w_seed_to w - w_seed_from w))") (auto intro: seeds_decrease)

declare take_seeds.simps [simp del]

text \<open>The loop over the spend queue: the total and the inputs taken.\<close>

fun take_queue :: "(u64 \<Rightarrow> nat \<Rightarrow> bool) \<Rightarrow> u64 \<Rightarrow> nat \<Rightarrow> input list \<Rightarrow> u64 \<times> input list" where
  "take_queue cond total_amount n [] = (total_amount, [])"
| "take_queue cond total_amount n (utxo # q) =
    (if cond total_amount n then
       let (total, taken) = take_queue cond (total_amount + input_value utxo) (Suc n) q in (total, utxo # taken)
     else (total_amount, []))"

text \<open>Removing the inputs that were taken; they are at the front of the queue.\<close>

fun remove_spent :: "input list \<Rightarrow> wallet \<Rightarrow> wallet" where
  "remove_spent [] w = w"
| "remove_spent (inp # inps) w =
    remove_spent inps (w\<lparr>w_balance := w_balance w - input_value inp, w_utxos_set := utxos_erase inp (w_utxos_set w),
                         w_spend_queue := tl (w_spend_queue w)\<rparr>)"

definition accumulate_inputs :: "u64 \<Rightarrow> wallet \<Rightarrow> (full_tx \<times> u64) option \<times> wallet" where
  "accumulate_inputs amount w =
    (let cond = (\<lambda>total n. total < amount);
         (w1, total1, seeded) = take_seeds cond w 0 [];
         (total_amount, taken) = take_queue cond total1 (length seeded) (w_spend_queue w1)
     in if total_amount < amount then (None, w1\<lparr>w_seed_from := w_seed_from w1 - word_of_nat (length seeded)\<rparr>)
        else (Some (\<lparr>m_inputs = seeded @ taken, m_outputs = [],
                     m_witness = replicate (length seeded + length taken) (replicate sig_len 0)\<rparr>, total_amount),
              remove_spent taken w1))"

definition finish_tx :: "secp256k1 \<Rightarrow> bool \<Rightarrow> wallet \<Rightarrow> full_tx \<Rightarrow> (full_tx option \<times> wallet) option" where
  "finish_tx S sign_tx w ret =
    (if sign_tx then map_option (\<lambda>tx. (Some tx, w)) (wallet_sign S w ret) else Some (Some ret, w))"

text \<open>The change output, with a new key, when more was taken than is sent.\<close>

definition change_output ::
  "secp256k1 \<Rightarrow> privkey_t \<times> nat \<Rightarrow> u64 \<Rightarrow> u64 \<Rightarrow> wallet \<Rightarrow> (tx_output list \<times> wallet) option" where
  "change_output S rnd total_amount amount w =
    (if total_amount > amount then do {
       (pubkey, w') \<leftarrow> generate_key S rnd w;
       Some ([\<lparr>m_witness_program_commitment = get_p2pk_witness_commitment pubkey, m_value = total_amount - amount\<rparr>], w') }
     else Some ([], w))"

definition send_to ::
  "secp256k1 \<Rightarrow> privkey_t \<times> nat \<Rightarrow> u32 \<Rightarrow> pubkey_t \<Rightarrow> bool \<Rightarrow> wallet \<Rightarrow> (full_tx option \<times> wallet) option" where
  "send_to S rnd amount payee sign_tx w =
    (case accumulate_inputs (ucast amount) w of
       (None, w1) \<Rightarrow> Some (None, w1)
     | (Some (ret, total_amount), w1) \<Rightarrow> do {
         let destination_out = \<lparr>m_witness_program_commitment = get_p2pk_witness_commitment payee, m_value = ucast amount\<rparr>;
         (change, w2) \<leftarrow> change_output S rnd total_amount (ucast amount) w1;
         finish_tx S sign_tx w2 (ret\<lparr>m_outputs := destination_out # change\<rparr>) })"

definition fan ::
  "secp256k1 \<Rightarrow> privkey_t \<times> nat \<Rightarrow> u64 \<Rightarrow> u32 \<Rightarrow> pubkey_t \<Rightarrow> bool \<Rightarrow> wallet \<Rightarrow> (full_tx option \<times> wallet) option" where
  "fan S rnd output_count val payee sign_tx w =
    (let amount = output_count * ucast val in
     case accumulate_inputs amount w of
       (None, w1) \<Rightarrow> Some (None, w1)
     | (Some (ret, total_amount), w1) \<Rightarrow> do {
         let destination_out = \<lparr>m_witness_program_commitment = get_p2pk_witness_commitment payee, m_value = ucast val\<rparr>;
         (change, w2) \<leftarrow> change_output S rnd total_amount amount w1;
         finish_tx S sign_tx w2 (ret\<lparr>m_outputs := change @ replicate (unat output_count) destination_out\<rparr>) })"

text \<open>The values of the outputs of the second \<open>send_to\<close>: equal parts, and the rest in the last one.\<close>

fun split_outputs :: "nat \<Rightarrow> u64 \<Rightarrow> u64 \<Rightarrow> u64 list \<times> u64" where
  "split_outputs 0 output_val total_amount = ([], total_amount)"
| "split_outputs (Suc n) output_val total_amount =
    (let v = (if n = 0 then total_amount else output_val);
         (vs, rest) = split_outputs n output_val (total_amount - v)
     in (v # vs, rest))"

definition send_to_counts ::
  "secp256k1 \<Rightarrow> u64 \<Rightarrow> u64 \<Rightarrow> pubkey_t \<Rightarrow> bool \<Rightarrow> wallet \<Rightarrow> (full_tx option \<times> wallet) option" where
  "send_to_counts S input_count output_count payee sign_tx w =
    (if input_count = 0 \<or> output_count = 0 then None
     else if word_of_nat (length (w_utxos_set w)) + w_seed_to w - w_seed_from w < input_count then Some (None, w)
     else
       let cond = (\<lambda>total n. n < unat input_count);
           (w1, total1, seeded) = take_seeds cond w 0 [];
           (total_amount, taken) = take_queue cond total1 (length seeded) (w_spend_queue w1);
           output_val = total_amount div output_count
       in if output_val = 0 \<and> output_count > 1
          then Some (None, w1\<lparr>w_seed_from := w_seed_from w1 - word_of_nat (length seeded)\<rparr>)
          else
            let (vals, rest) = split_outputs (unat output_count) output_val total_amount in
            if rest \<noteq> 0 then None
            else finish_tx S sign_tx (remove_spent taken w1)
                   \<lparr>m_inputs = seeded @ taken,
                    m_outputs = map (\<lambda>v. \<lparr>m_witness_program_commitment = get_p2pk_witness_commitment payee, m_value = v\<rparr>) vals,
                    m_witness = replicate (length seeded) (replicate sig_len 0)\<rparr>)"

section \<open>Confirmation\<close>

fun credit_inputs :: "input list \<Rightarrow> wallet \<Rightarrow> wallet" where
  "credit_inputs [] w = w"
| "credit_inputs (inp # inps) w =
    credit_inputs inps
      (if m_prevout inp \<in> m_prevout ` set (w_utxos_set w) then w
       else w\<lparr>w_utxos_set := w_utxos_set w @ [inp], w_balance := w_balance w + input_value inp,
              w_spend_queue := w_spend_queue w @ [inp]\<rparr>)"

fun debit_inputs :: "input list \<Rightarrow> wallet \<Rightarrow> wallet" where
  "debit_inputs [] w = w"
| "debit_inputs (inp # inps) w =
    debit_inputs inps
      (if m_prevout inp \<in> m_prevout ` set (w_utxos_set w)
       then w\<lparr>w_utxos_set := utxos_erase inp (w_utxos_set w), w_balance := w_balance w - input_value inp\<rparr> else w)"

definition update_balance :: "input list \<Rightarrow> input list \<Rightarrow> wallet \<Rightarrow> wallet option" where
  "update_balance credits debits w =
    (let w' = debit_inputs debits (credit_inputs credits w)
     in if length (w_spend_queue w') \<noteq> length (w_utxos_set w') then None else Some w')"

definition confirm_inputs :: "input list \<Rightarrow> wallet \<Rightarrow> wallet option" where
  "confirm_inputs credits w = update_balance credits [] w"

text \<open>The loops over the outputs have a counter of 32 bits and do not end for longer lists.\<close>

definition confirm_transaction :: "full_tx \<Rightarrow> wallet \<Rightarrow> wallet option" where
  "confirm_transaction tx w =
    (let new_utxos = map (\<lambda>i. the (input_from_output_id tx i (tx_id tx)))
           (filter (\<lambda>i. map_of (w_witness_programs w) (m_witness_program_commitment (m_outputs tx ! i)) \<noteq> None)
              [0..<length (m_outputs tx)])
     in if length (m_outputs tx) \<ge> 2 ^ 32 then None else update_balance new_utxos (m_inputs tx) w)"

definition export_send_inputs :: "full_tx \<Rightarrow> pubkey_t \<Rightarrow> input list option" where
  "export_send_inputs send_tx payee =
    (if length (m_outputs send_tx) \<ge> 2 ^ 32 then None
     else Some (map (\<lambda>i. the (input_from_output send_tx i))
       (filter (\<lambda>i. m_witness_program_commitment (m_outputs send_tx ! i) = get_p2pk_witness_commitment payee)
          [0..<length (m_outputs send_tx)])))"

definition wallet_balance :: "wallet \<Rightarrow> u64" where
  "wallet_balance w =
    (if w_seed_from w \<noteq> w_seed_to w then w_balance w + (w_seed_to w - w_seed_from w) * ucast (w_seed_value w) else w_balance w)"

definition wallet_count :: "wallet \<Rightarrow> u64" where
  "wallet_count w =
    (let size = word_of_nat (length (w_utxos_set w)) in
     if w_seed_from w \<noteq> w_seed_to w then size + (w_seed_to w - w_seed_from w) else size)"

section \<open>Conservation\<close>

abbreviation inputs_total :: "input list \<Rightarrow> u64" where
  "inputs_total inps \<equiv> sum_list (map input_value inps)"

text \<open>
  The queue holds the unspent outputs in some order, no outpoint occurs twice, and the balance is
  their sum.
\<close>

definition wallet_inv :: "wallet \<Rightarrow> bool" where
  "wallet_inv w \<longleftrightarrow> distinct (map m_prevout (w_utxos_set w)) \<and> mset (w_spend_queue w) = mset (w_utxos_set w) \<and>
     w_balance w = inputs_total (w_utxos_set w)"

lemma create_seeded_input_Some:
  assumes "w_seed_from w \<noteq> w_seed_to w"
  shows "\<exists>inp. create_seeded_input w i = Some inp \<and> m_prevout_data inp =
    \<lparr>m_witness_program_commitment = w_seed_witness_commitment w, m_value = ucast (w_seed_value w)\<rparr>"
  using assms by (simp add: create_seeded_input_def create_seeded_transaction_def input_from_output_id_def)

lemma take_seeds_spec:
  "\<exists>new. take_seeds cond w t inps = (w\<lparr>w_seed_from := w_seed_from w + word_of_nat (length new)\<rparr>, t + inputs_total new, inps @ new) \<and>
     inputs_total new = word_of_nat (length new) * ucast (w_seed_value w)"
proof (induction cond w t inps rule: take_seeds.induct)
  case (1 cond w t inps)
  show ?case
  proof (cases "w_seed_from w \<noteq> w_seed_to w \<and> cond t (length inps)")
    case True
    obtain inp where inp: "create_seeded_input w (w_seed_from w) = Some inp" "input_value inp = ucast (w_seed_value w)"
      using create_seeded_input_Some [of w "w_seed_from w"] True by (auto simp: input_value_def)
    obtain new where new: "take_seeds cond (w\<lparr>w_seed_from := w_seed_from w + 1\<rparr>) (t + ucast (w_seed_value w)) (inps @ [inp]) =
        (w\<lparr>w_seed_from := w_seed_from w + 1 + word_of_nat (length new)\<rparr>, t + ucast (w_seed_value w) + inputs_total new, (inps @ [inp]) @ new)"
        "inputs_total new = word_of_nat (length new) * ucast (w_seed_value w)"
      using "1.IH" [OF True inp(1)] by auto
    show ?thesis
      using True inp new by (intro exI [of _ "inp # new"], subst take_seeds.simps) (simp add: algebra_simps)
  next
    case False
    then show ?thesis
      by (intro exI [of _ "[]"], subst take_seeds.simps) auto
  qed
qed

lemma take_queue_spec: "\<exists>rest. q = snd (take_queue cond t n q) @ rest \<and> fst (take_queue cond t n q) = t + inputs_total (snd (take_queue cond t n q))"
proof (induction cond t n q rule: take_queue.induct)
  case (2 cond t n utxo q)
  then show ?case
    by (auto simp: Let_def split_beta algebra_simps)
qed simp

lemma remove_spent_spec:
  "remove_spent taken w = w\<lparr>w_balance := w_balance w - inputs_total taken,
     w_utxos_set := filter (\<lambda>x. m_prevout x \<notin> m_prevout ` set taken) (w_utxos_set w), w_spend_queue := drop (length taken) (w_spend_queue w)\<rparr>"
proof (induction taken arbitrary: w)
  case (Cons inp taken)
  have "filter (\<lambda>x. m_prevout x \<notin> m_prevout ` set taken) (utxos_erase inp (w_utxos_set w)) =
      filter (\<lambda>x. m_prevout x \<notin> m_prevout ` set (inp # taken)) (w_utxos_set w)"
    by (auto simp: utxos_erase_def intro: filter_cong)
  then show ?case
    by (simp add: Cons drop_Suc diff_diff_eq)
qed simp

lemma inputs_total_mset: "mset xs = mset ys \<Longrightarrow> inputs_total ys = inputs_total xs"
  by (metis mset_map sum_mset_sum_list)

lemma remove_spent_inv:
  assumes w: "wallet_inv w" and q: "w_spend_queue w = taken @ rest"
  shows "wallet_inv (remove_spent taken w)"
proof -
  let ?P = "\<lambda>x. m_prevout x \<notin> m_prevout ` set taken"
  have m: "mset (taken @ rest) = mset (w_utxos_set w)"
    using w q by (simp add: wallet_inv_def)
  have "mset (map m_prevout (taken @ rest)) = mset (map m_prevout (w_utxos_set w))"
    by (simp only: mset_map m)
  then have d: "distinct (map m_prevout (taken @ rest))"
    using w unfolding wallet_inv_def by (metis mset_eq_imp_distinct_iff)
  have rest: "filter ?P rest = rest" "filter ?P taken = []"
    using d by (auto simp: filter_id_conv filter_empty_conv)
  have mset: "mset (filter ?P (w_utxos_set w)) = mset rest"
    using w q rest by (metis append_Nil filter_append mset_filter wallet_inv_def)
  have tot: "inputs_total (w_utxos_set w) = inputs_total taken + inputs_total rest"
    using inputs_total_mset [OF m] by simp
  have "inputs_total (filter ?P (w_utxos_set w)) = inputs_total rest"
    by (rule inputs_total_mset [OF mset [symmetric]])
  moreover have "distinct (map m_prevout (filter ?P (w_utxos_set w)))"
    using w by (simp add: wallet_inv_def distinct_map_filter)
  ultimately show ?thesis
    using w q mset tot by (simp add: wallet_inv_def remove_spent_spec)
qed

lemma wallet_balance_eq: "wallet_balance w = w_balance w + (w_seed_to w - w_seed_from w) * ucast (w_seed_value w)"
  by (simp add: wallet_balance_def)

lemma wallet_balance_seeds:
  "wallet_balance (w\<lparr>w_seed_from := w_seed_from w + k\<rparr>) + k * ucast (w_seed_value w) = wallet_balance w"
  by (simp add: wallet_balance_eq algebra_simps)

lemma wallet_balance_remove: "wallet_balance (remove_spent taken w) = wallet_balance w - inputs_total taken"
  by (simp add: wallet_balance_def remove_spent_spec)

lemma wallet_inv_seeds [simp]: "wallet_inv (w\<lparr>w_seed_from := k\<rparr>) = wallet_inv w"
  by (simp add: wallet_inv_def)

text \<open>What both ways of selecting inputs have in common.\<close>

lemma take_inputs:
  assumes w: "wallet_inv w" and s: "take_seeds cond w 0 [] = (w1, t1, seeded)"
    and q: "take_queue cond' t1 n (w_spend_queue w1) = (tot, taken)"
  shows "tot = inputs_total (seeded @ taken)" "wallet_inv (remove_spent taken w1)"
    "wallet_balance (remove_spent taken w1) + inputs_total (seeded @ taken) = wallet_balance w"
    "w1\<lparr>w_seed_from := w_seed_from w1 - word_of_nat (length seeded)\<rparr> = w"
    "w_keys (remove_spent taken w1) = w_keys w" "w_witness_programs (remove_spent taken w1) = w_witness_programs w"
    "set taken \<subseteq> set (w_utxos_set w)"
proof -
  have s': "w1 = w\<lparr>w_seed_from := w_seed_from w + word_of_nat (length seeded)\<rparr>" "t1 = inputs_total seeded"
      "inputs_total seeded = word_of_nat (length seeded) * ucast (w_seed_value w)"
    using take_seeds_spec [of cond w 0 "[]"] s by auto
  obtain rest where q': "w_spend_queue w1 = taken @ rest" "tot = t1 + inputs_total taken"
    using take_queue_spec [of "w_spend_queue w1" cond' t1 n] q by auto
  show "tot = inputs_total (seeded @ taken)"
    using q'(2) s'(2) by simp
  show "wallet_inv (remove_spent taken w1)"
    using remove_spent_inv [OF _ q'(1)] w s'(1) by simp
  show "wallet_balance (remove_spent taken w1) + inputs_total (seeded @ taken) = wallet_balance w"
    using wallet_balance_seeds [of w "word_of_nat (length seeded)"] s' by (simp add: wallet_balance_remove)
  show "w1\<lparr>w_seed_from := w_seed_from w1 - word_of_nat (length seeded)\<rparr> = w"
    using s'(1) by simp
  show "w_keys (remove_spent taken w1) = w_keys w" "w_witness_programs (remove_spent taken w1) = w_witness_programs w"
    by (simp_all add: remove_spent_spec s'(1))
  have "set (w_spend_queue w) = set (w_utxos_set w)"
    using w unfolding wallet_inv_def by (metis set_mset_mset)
  then show "set taken \<subseteq> set (w_utxos_set w)"
    using q'(1) s'(1) by auto
qed

lemma accumulate_inputs_spec:
  assumes w: "wallet_inv w" and a: "accumulate_inputs amount w = (r, w')"
  shows "r = None \<and> w' = w \<or> (\<exists>ret tot. r = Some (ret, tot) \<and> \<not> tot < amount \<and> tot = inputs_total (m_inputs ret) \<and>
    wallet_inv w' \<and> wallet_balance w' + tot = wallet_balance w \<and> w_keys w' = w_keys w \<and> w_witness_programs w' = w_witness_programs w)"
proof -
  obtain w1 t1 seeded where s: "take_seeds (\<lambda>tot n. tot < amount) w 0 [] = (w1, t1, seeded)"
    by (metis surj_pair)
  obtain tot taken where q: "take_queue (\<lambda>tot n. tot < amount) t1 (length seeded) (w_spend_queue w1) = (tot, taken)"
    by fastforce
  note t = take_inputs [OF w s q]
  show ?thesis
    using a t by (auto simp: accumulate_inputs_def Let_def s q split: if_splits)
qed

lemma generate_key_same:
  assumes "generate_key S rnd w = Some (pk, w')"
  shows "wallet_inv w' = wallet_inv w" "wallet_balance w' = wallet_balance w"
  using assms by (auto simp: generate_key_def add_key_def wallet_inv_def wallet_balance_def Let_def split: if_splits bind_splits)

lemma change_output_spec:
  assumes "change_output S rnd tot amount w = Some (change, w')" "\<not> tot < amount"
  shows "sum_list (map m_value change) + amount = tot" "wallet_inv w' = wallet_inv w" "wallet_balance w' = wallet_balance w"
  using assms by (auto simp: change_output_def generate_key_same split: if_splits bind_splits)

lemma finish_tx_spec:
  assumes "finish_tx S sign w ret = Some (r, w')"
  shows "\<exists>tx. r = Some tx \<and> w' = w \<and> m_inputs tx = m_inputs ret \<and> m_outputs tx = m_outputs ret"
  using assms by (auto simp: finish_tx_def wallet_sign_def Let_def split: if_splits)

lemma split_outputs_spec: "split_outputs (Suc n) v t = (vs, rest) \<Longrightarrow> rest = 0 \<and> sum_list vs = t"
proof (induction n arbitrary: t vs)
  case (Suc n)
  obtain vs' where vs': "split_outputs (Suc n) v (t - v) = (vs', rest)" "vs = v # vs'"
    using Suc.prems by (auto simp: Let_def split: prod.splits simp del: split_outputs.simps(2) simp: split_outputs.simps(2) [of "Suc n"])
  then show ?case
    using Suc.IH [OF vs'(1)] by simp
qed simp

lemma send_to_conserves:
  assumes w: "wallet_inv w" and op: "send_to S rnd amount payee sign_tx w = Some (r, w')"
  shows "wallet_inv w' \<and> (r = None \<and> w' = w \<or> (\<exists>tx. r = Some tx \<and> wallet_balance w' + inputs_total (m_inputs tx) = wallet_balance w \<and>
    sum_list (map m_value (m_outputs tx)) = inputs_total (m_inputs tx)))"
proof -
  obtain a w1 where a: "accumulate_inputs (ucast amount) w = (a, w1)"
    by fastforce
  from accumulate_inputs_spec [OF w a] show ?thesis
  proof
    assume "a = None \<and> w1 = w"
    then show ?thesis
      using op w a by (simp add: send_to_def)
  next
    assume "\<exists>ret tot. a = Some (ret, tot) \<and> \<not> tot < ucast amount \<and> tot = inputs_total (m_inputs ret) \<and>
      wallet_inv w1 \<and> wallet_balance w1 + tot = wallet_balance w \<and> w_keys w1 = w_keys w \<and> w_witness_programs w1 = w_witness_programs w"
    then obtain ret tot where acc: "a = Some (ret, tot)" "\<not> tot < ucast amount" "tot = inputs_total (m_inputs ret)"
        "wallet_inv w1" "wallet_balance w1 + tot = wallet_balance w"
      by blast
    obtain change w2 where ch: "change_output S rnd tot (ucast amount) w1 = Some (change, w2)"
        "finish_tx S sign_tx w2 (ret\<lparr>m_outputs := \<lparr>m_witness_program_commitment = get_p2pk_witness_commitment payee,
           m_value = ucast amount\<rparr> # change\<rparr>) = Some (r, w')"
      using op a acc(1) by (auto simp: send_to_def Let_def split: bind_splits)
    show ?thesis
      using change_output_spec [OF ch(1) acc(2)] finish_tx_spec [OF ch(2)] acc(3-5) by (auto simp: add.commute)
  qed
qed

lemma fan_conserves:
  assumes w: "wallet_inv w" and op: "fan S rnd output_count val payee sign_tx w = Some (r, w')"
  shows "wallet_inv w' \<and> (r = None \<and> w' = w \<or> (\<exists>tx. r = Some tx \<and> wallet_balance w' + inputs_total (m_inputs tx) = wallet_balance w \<and>
    sum_list (map m_value (m_outputs tx)) = inputs_total (m_inputs tx)))"
proof -
  let ?amount = "output_count * ucast val"
  obtain a w1 where a: "accumulate_inputs ?amount w = (a, w1)"
    by fastforce
  from accumulate_inputs_spec [OF w a] show ?thesis
  proof
    assume "a = None \<and> w1 = w"
    then show ?thesis
      using op w a by (simp add: fan_def)
  next
    assume "\<exists>ret tot. a = Some (ret, tot) \<and> \<not> tot < ?amount \<and> tot = inputs_total (m_inputs ret) \<and>
      wallet_inv w1 \<and> wallet_balance w1 + tot = wallet_balance w \<and> w_keys w1 = w_keys w \<and> w_witness_programs w1 = w_witness_programs w"
    then obtain ret tot where acc: "a = Some (ret, tot)" "\<not> tot < ?amount" "tot = inputs_total (m_inputs ret)"
        "wallet_inv w1" "wallet_balance w1 + tot = wallet_balance w"
      by blast
    obtain change w2 where ch: "change_output S rnd tot ?amount w1 = Some (change, w2)"
        "finish_tx S sign_tx w2 (ret\<lparr>m_outputs := change @ replicate (unat output_count)
           \<lparr>m_witness_program_commitment = get_p2pk_witness_commitment payee, m_value = ucast val\<rparr>\<rparr>) = Some (r, w')"
      using op a acc(1) by (auto simp: fan_def Let_def split: bind_splits)
    show ?thesis
      using change_output_spec [OF ch(1) acc(2)] finish_tx_spec [OF ch(2)] acc(3-5) by (auto simp: sum_list_replicate)
  qed
qed

lemma send_to_counts_conserves:
  assumes w: "wallet_inv w" and op: "send_to_counts S input_count output_count payee sign_tx w = Some (r, w')"
  shows "wallet_inv w' \<and> (r = None \<and> w' = w \<or> (\<exists>tx. r = Some tx \<and> wallet_balance w' + inputs_total (m_inputs tx) = wallet_balance w \<and>
    sum_list (map m_value (m_outputs tx)) = inputs_total (m_inputs tx)))"
proof -
  obtain w1 t1 seeded where s: "take_seeds (\<lambda>tot n. n < unat input_count) w 0 [] = (w1, t1, seeded)"
    by (metis surj_pair)
  obtain tot taken where q: "take_queue (\<lambda>tot n. n < unat input_count) t1 (length seeded) (w_spend_queue w1) = (tot, taken)"
    by fastforce
  obtain vals rest where v: "split_outputs (unat output_count) (tot div output_count) tot = (vals, rest)"
    by fastforce
  note t = take_inputs [OF w s q]
  have "output_count \<noteq> 0"
    using op by (auto simp: send_to_counts_def)
  then obtain n where "unat output_count = Suc n"
    by (metis not0_implies_Suc unat_eq_zero)
  then have sum: "sum_list vals = tot"
    using split_outputs_spec v by simp
  define ret where "ret = \<lparr>m_inputs = seeded @ taken, m_outputs = map (\<lambda>v. \<lparr>m_witness_program_commitment =
    get_p2pk_witness_commitment payee, m_value = v\<rparr>) vals, m_witness = replicate (length seeded) (replicate sig_len 0)\<rparr>"
  have eq: "send_to_counts S input_count output_count payee sign_tx w =
    (if input_count = 0 \<or> output_count = 0 then None
     else if word_of_nat (length (w_utxos_set w)) + w_seed_to w - w_seed_from w < input_count then Some (None, w)
     else if tot div output_count = 0 \<and> output_count > 1 then Some (None, w)
     else if rest \<noteq> 0 then None else finish_tx S sign_tx (remove_spent taken w1) ret)"
    unfolding send_to_counts_def Let_def s q v prod.case t(4) ret_def by (rule refl)
  consider "r = None" "w' = w" | "finish_tx S sign_tx (remove_spent taken w1) ret = Some (r, w')"
    using op unfolding eq by (metis option.inject option.distinct(1) prod.inject)
  then show ?thesis
  proof cases
    case 2
    show ?thesis
      using finish_tx_spec [OF 2] sum t(1-3) by (auto simp: ret_def comp_def)
  qed (use w in simp)
qed

section \<open>Transactions are valid\<close>

text \<open>The seeded output with index \<open>i\<close>, and all that the wallet can spend.\<close>

definition seed_coin :: "wallet \<Rightarrow> u64 \<Rightarrow> input" where
  "seed_coin w i = the (create_seeded_input (w\<lparr>w_seed_from := 0, w_seed_to := 1\<rparr>) i)"

definition seed_coins :: "wallet \<Rightarrow> nat \<Rightarrow> input list" where
  "seed_coins w n = map (\<lambda>k. seed_coin w (w_seed_from w + word_of_nat k)) [0..<n]"

definition wallet_coins :: "wallet \<Rightarrow> input list" where
  "wallet_coins w = seed_coins w (unat (w_seed_to w - w_seed_from w)) @ w_utxos_set w"

definition coins_value :: "input list \<Rightarrow> nat" where
  "coins_value inps = (\<Sum>inp \<leftarrow> inps. unat (input_value inp))"

text \<open>The wallet has key pairs, and every witness program of the wallet belongs to one of them.\<close>

definition keys_ok :: "secp256k1 \<Rightarrow> wallet \<Rightarrow> bool" where
  "keys_ok S w \<longleftrightarrow> length (w_keys w) \<le> length (w_pubkeys w) \<and>
     (\<forall>pk sk. map_of (w_keys w) pk = Some sk \<longrightarrow> pubkey_from_privkey S sk = Some pk) \<and>
     (\<forall>c pk. map_of (w_witness_programs w) c = Some pk \<longrightarrow> c = get_p2pk_witness_commitment pk \<and> map_of (w_keys w) pk \<noteq> None)"

definition wallet_ready :: "secp256k1 \<Rightarrow> wallet \<Rightarrow> bool" where
  "wallet_ready S w \<longleftrightarrow> wallet_inv w \<and> keys_ok S w \<and> distinct (map m_prevout (wallet_coins w)) \<and>
     coins_value (wallet_coins w) < 2 ^ 64 \<and> (\<forall>inp \<in> set (wallet_coins w). is_spendable w inp \<and> 0 < input_value inp)"

lemma create_seeded_input_coin:
  "w_seed_from w \<noteq> w_seed_to w \<Longrightarrow> create_seeded_input w i = Some (seed_coin w i)"
  by (simp add: seed_coin_def create_seeded_input_def create_seeded_transaction_def input_from_output_id_def)

lemma seed_coin_from [simp]: "seed_coin (w\<lparr>w_seed_from := k\<rparr>) = seed_coin w"
  by (rule ext) (simp add: seed_coin_def)

lemma seed_coins_Suc: "seed_coins w (Suc n) = seed_coin w (w_seed_from w) # seed_coins (w\<lparr>w_seed_from := w_seed_from w + 1\<rparr>) n"
  by (simp add: seed_coins_def map_upt_Suc add.assoc del: upt_Suc)

lemma seed_coins_length [simp]: "length (seed_coins w n) = n"
  by (simp add: seed_coins_def)

lemma seed_coins_add: "seed_coins w (m + n) = seed_coins w m @ seed_coins (w\<lparr>w_seed_from := w_seed_from w + word_of_nat m\<rparr>) n"
  by (induction m arbitrary: w) (simp_all add: seed_coins_Suc add.assoc seed_coins_def [of _ 0])

lemma seeds_left:
  fixes a b :: u64
  assumes "a \<noteq> b"
  shows "unat (b - a) = Suc (unat (b - (a + 1)))"
proof -
  have "b - a \<noteq> 0"
    using assms by simp
  then have "unat (b - a - 1) = unat (b - a) - 1" "0 < unat (b - a)"
    by (rule unat_minus_one) (use assms in \<open>simp add: unat_gt_0\<close>)
  then show ?thesis
    by (simp add: diff_diff_eq)
qed

lemma take_seeds_coins:
  "\<exists>n. take_seeds cond w t inps = (w\<lparr>w_seed_from := w_seed_from w + word_of_nat n\<rparr>, t + inputs_total (seed_coins w n), inps @ seed_coins w n) \<and>
     n \<le> unat (w_seed_to w - w_seed_from w) \<and>
     (n = unat (w_seed_to w - w_seed_from w) \<or> \<not> cond (t + inputs_total (seed_coins w n)) (length inps + n))"
proof (induction cond w t inps rule: take_seeds.induct)
  case (1 cond w t inps)
  show ?case
  proof (cases "w_seed_from w \<noteq> w_seed_to w \<and> cond t (length inps)")
    case True
    let ?w = "w\<lparr>w_seed_from := w_seed_from w + 1\<rparr>" and ?inp = "seed_coin w (w_seed_from w)"
    have inp: "create_seeded_input w (w_seed_from w) = Some ?inp" "input_value ?inp = ucast (w_seed_value w)"
      using create_seeded_input_coin [of w "w_seed_from w"] create_seeded_input_Some [of w "w_seed_from w"] True by (auto simp: input_value_def)
    from "1.IH" [OF True inp(1)] obtain n where
        n: "take_seeds cond ?w (t + input_value ?inp) (inps @ [?inp]) = (w\<lparr>w_seed_from := w_seed_from w + 1 + word_of_nat n\<rparr>,
          t + input_value ?inp + inputs_total (seed_coins ?w n), (inps @ [?inp]) @ seed_coins ?w n)"
        "n \<le> unat (w_seed_to w - (w_seed_from w + 1))"
        "n = unat (w_seed_to w - (w_seed_from w + 1)) \<or> \<not> cond (t + input_value ?inp + inputs_total (seed_coins ?w n)) (Suc (length inps) + n)"
      unfolding inp(2) by auto
    show ?thesis
      using True n seeds_left [of "w_seed_from w" "w_seed_to w"]
      by (intro exI [of _ "Suc n"], subst take_seeds.simps) (simp add: inp seed_coins_Suc add.assoc)
  next
    case False
    then show ?thesis
      by (intro exI [of _ 0], subst take_seeds.simps) (auto simp: seed_coins_def)
  qed
qed

lemma take_queue_stops:
  "snd (take_queue cond t n q) = q \<or> \<not> cond (fst (take_queue cond t n q)) (n + length (snd (take_queue cond t n q)))"
proof (induction cond t n q rule: take_queue.induct)
  case (2 cond t n utxo q)
  then show ?case
    by (auto simp: Let_def split_beta)
qed simp

lemma coins_value_append [simp]: "coins_value (xs @ ys) = coins_value xs + coins_value ys"
  by (simp add: coins_value_def)

lemma coins_value_mset: "mset xs = mset ys \<Longrightarrow> coins_value xs = coins_value ys"
  by (simp add: coins_value_def flip: sum_mset_sum_list)

lemma inputs_total_unat: "coins_value inps < 2 ^ 64 \<Longrightarrow> unat (inputs_total inps) = coins_value inps"
proof (induction inps)
  case (Cons inp inps)
  then have "unat (input_value inp) + unat (inputs_total inps) < 2 ^ LENGTH(64)"
    by (simp add: coins_value_def)
  then have "unat (input_value inp + inputs_total inps) = unat (input_value inp) + unat (inputs_total inps)"
    by (simp only: unat_add_lem [symmetric])
  then show ?case
    using Cons by (simp add: coins_value_def)
qed (simp add: coins_value_def)

lemma seed_coins_cong:
  assumes "w_seed_value w' = w_seed_value w" "w_seed_witness_commitment w' = w_seed_witness_commitment w" "w_seed_from w' = w_seed_from w"
  shows "seed_coins w' n = seed_coins w n"
  using assms by (simp add: seed_coins_def seed_coin_def create_seeded_input_def create_seeded_transaction_def)

lemma seed_coins_split:
  assumes "n \<le> unat (w_seed_to w - w_seed_from w)"
  shows "seed_coins w (unat (w_seed_to w - w_seed_from w)) = seed_coins w n @
    seed_coins (w\<lparr>w_seed_from := w_seed_from w + word_of_nat n\<rparr>) (unat (w_seed_to w - (w_seed_from w + word_of_nat n)))"
proof -
  let ?d = "w_seed_to w - w_seed_from w"
  have n: "unat (word_of_nat n :: u64) = n"
    using le_less_trans [OF assms unat_lt2p] by (simp add: unat_of_nat)
  then have "unat (?d - word_of_nat n) = unat ?d - n"
    using assms by (simp add: unat_sub word_le_nat_alt)
  then have "unat ?d = n + unat (w_seed_to w - (w_seed_from w + word_of_nat n))"
    using assms by (simp add: diff_diff_eq)
  then show ?thesis
    using seed_coins_add [of w n] by metis
qed

text \<open>What \<open>accumulate_inputs\<close> takes and leaves, and that it fails only when there is not enough.\<close>

lemma accumulate_select:
  obtains n taken rest where "n \<le> unat (w_seed_to w - w_seed_from w)" "w_spend_queue w = taken @ rest"
    "inputs_total (seed_coins w n @ taken) < amount \<longrightarrow> n = unat (w_seed_to w - w_seed_from w) \<and> rest = []"
    "accumulate_inputs amount w = (if inputs_total (seed_coins w n @ taken) < amount then (None, w)
       else (Some (\<lparr>m_inputs = seed_coins w n @ taken, m_outputs = [], m_witness = replicate (n + length taken) (replicate sig_len 0)\<rparr>,
                   inputs_total (seed_coins w n @ taken)),
             remove_spent taken (w\<lparr>w_seed_from := w_seed_from w + word_of_nat n\<rparr>)))"
proof -
  let ?cond = "\<lambda>tot n. tot < amount"
  obtain n where s: "take_seeds ?cond w 0 [] = (w\<lparr>w_seed_from := w_seed_from w + word_of_nat n\<rparr>, inputs_total (seed_coins w n), seed_coins w n)"
      and n: "n \<le> unat (w_seed_to w - w_seed_from w)"
      "n = unat (w_seed_to w - w_seed_from w) \<or> \<not> inputs_total (seed_coins w n) < amount"
    using take_seeds_coins [of ?cond w 0 "[]"] by auto
  obtain t taken where q: "take_queue ?cond (inputs_total (seed_coins w n)) n (w_spend_queue w) = (t, taken)"
    by fastforce
  obtain rest where q': "w_spend_queue w = taken @ rest" "t = inputs_total (seed_coins w n @ taken)" "rest = [] \<or> \<not> t < amount"
    using take_queue_spec [of "w_spend_queue w" ?cond "inputs_total (seed_coins w n)" n]
      take_queue_stops [of ?cond "inputs_total (seed_coins w n)" n "w_spend_queue w"] q by auto
  have "t = inputs_total (seed_coins w n)" if "\<not> inputs_total (seed_coins w n) < amount"
    using q that by (cases "w_spend_queue w") auto
  then have "t < amount \<longrightarrow> n = unat (w_seed_to w - w_seed_from w) \<and> rest = []"
    using n(2) q'(3) by blast
  moreover have "accumulate_inputs amount w = (if t < amount then (None, w)
      else (Some (\<lparr>m_inputs = seed_coins w n @ taken, m_outputs = [], m_witness = replicate (n + length taken) (replicate sig_len 0)\<rparr>, t),
            remove_spent taken (w\<lparr>w_seed_from := w_seed_from w + word_of_nat n\<rparr>)))"
    using q unfolding accumulate_inputs_def Let_def s by simp
  ultimately show thesis
    by (rule that [OF n(1) q'(1), folded q'(2)])
qed

lemma accumulate_coins:
  assumes w: "wallet_inv w" and v: "coins_value (wallet_coins w) < 2 ^ 64" and a: "accumulate_inputs amount w = (r, w')"
  shows "(r = None) = (coins_value (wallet_coins w) < unat amount)"
    "r = Some (ret, tot) \<Longrightarrow> mset (wallet_coins w) = mset (m_inputs ret) + mset (wallet_coins w') \<and>
       w_keys w' = w_keys w \<and> w_pubkeys w' = w_pubkeys w \<and> w_witness_programs w' = w_witness_programs w"
proof -
  obtain n taken rest where n: "n \<le> unat (w_seed_to w - w_seed_from w)" and q: "w_spend_queue w = taken @ rest"
    and all: "inputs_total (seed_coins w n @ taken) < amount \<longrightarrow> n = unat (w_seed_to w - w_seed_from w) \<and> rest = []"
    and acc: "accumulate_inputs amount w = (if inputs_total (seed_coins w n @ taken) < amount then (None, w)
       else (Some (\<lparr>m_inputs = seed_coins w n @ taken, m_outputs = [], m_witness = replicate (n + length taken) (replicate sig_len 0)\<rparr>,
                   inputs_total (seed_coins w n @ taken)),
             remove_spent taken (w\<lparr>w_seed_from := w_seed_from w + word_of_nat n\<rparr>)))"
    by (rule accumulate_select [of w amount]) (rule that)
  let ?w1 = "w\<lparr>w_seed_from := w_seed_from w + word_of_nat n\<rparr>" and ?in = "seed_coins w n @ taken"
  have inv: "wallet_inv (remove_spent taken ?w1)"
    by (rule remove_spent_inv [of _ _ rest]) (use w q in simp_all)
  have rest: "mset (w_utxos_set (remove_spent taken ?w1)) = mset rest"
    using inv q by (simp add: wallet_inv_def remove_spent_spec)
  have utxos: "mset (w_utxos_set w) = mset taken + mset rest"
    using w q by (simp add: wallet_inv_def)
  have left: "wallet_coins (remove_spent taken ?w1) =
      seed_coins ?w1 (unat (w_seed_to w - (w_seed_from w + word_of_nat n))) @ w_utxos_set (remove_spent taken ?w1)"
    using seed_coins_cong [of "remove_spent taken ?w1" ?w1] by (simp add: wallet_coins_def remove_spent_spec)
  have coins: "mset (wallet_coins w) = mset ?in + mset (wallet_coins (remove_spent taken ?w1))"
    unfolding left by (simp add: wallet_coins_def seed_coins_split [OF n] rest utxos)
  have val: "coins_value (wallet_coins w) = coins_value ?in + coins_value (wallet_coins (remove_spent taken ?w1))"
    using coins_value_mset [of "wallet_coins w" "?in @ wallet_coins (remove_spent taken ?w1)"] coins by simp
  have t: "unat (inputs_total ?in) = coins_value ?in"
    by (rule inputs_total_unat) (use v val in simp)
  have "coins_value (wallet_coins w) = coins_value ?in" if "inputs_total ?in < amount"
    by (rule coins_value_mset) (use all that utxos in \<open>simp add: wallet_coins_def\<close>)
  then show "(r = None) = (coins_value (wallet_coins w) < unat amount)"
    using a acc val t by (auto simp: word_less_nat_alt split: if_splits)
  show "r = Some (ret, tot) \<Longrightarrow> mset (wallet_coins w) = mset (m_inputs ret) + mset (wallet_coins w') \<and>
       w_keys w' = w_keys w \<and> w_pubkeys w' = w_pubkeys w \<and> w_witness_programs w' = w_witness_programs w"
    using a acc coins by (auto simp: remove_spent_spec split: if_splits)
qed

lemma length_emplace: "length (emplace k v m) \<le> Suc (length m)"
  by (simp add: emplace_def)

lemma generate_key_ready:
  assumes keys: "keys_ok S w" and rnd: "pubkey_from_privkey S (fst rnd) \<noteq> None"
  obtains pk w' where "generate_key S rnd w = Some (pk, w')" "keys_ok S w'" "wallet_coins w' = wallet_coins w"
    "\<And>inp. is_spendable w inp \<Longrightarrow> is_spendable w' inp"
proof (cases "length (w_keys w) > max_keys")
  case True
  then have "snd rnd mod length (w_keys w) < length (w_pubkeys w)"
    using keys unfolding keys_ok_def by (metis less_le_trans less_nat_zero_code list.size(3) mod_less_divisor neq0_conv)
  then have "generate_key S rnd w = Some (w_pubkeys w ! (snd rnd mod length (w_keys w)), w)"
    using True by (simp add: generate_key_def Let_def)
  then show thesis
    by (rule that) (use keys in simp_all)
next
  case False
  obtain pk where pk: "pubkey_from_privkey S (fst rnd) = Some pk"
    using rnd by blast
  show thesis
  proof (rule that)
    show "generate_key S rnd w = Some (pk, add_key pk (fst rnd) w)"
      using False pk by (simp add: generate_key_def)
    show "keys_ok S (add_key pk (fst rnd) w)"
      using keys pk length_emplace [of pk "fst rnd" "w_keys w"] by (auto simp: keys_ok_def add_key_def map_of_emplace split: if_splits)
    show "wallet_coins (add_key pk (fst rnd) w) = wallet_coins w"
      using seed_coins_cong [of "add_key pk (fst rnd) w" w] by (simp add: wallet_coins_def add_key_def)
    show "is_spendable (add_key pk (fst rnd) w) inp" if "is_spendable w inp" for inp
      using that by (auto simp: is_spendable_def add_key_def map_of_emplace)
  qed
qed

lemma sign_inputs_ok:
  assumes S: "schnorr_correct S" and keys: "keys_ok S w"
  shows "\<forall>e \<in> set es. is_spendable w (fst e) \<Longrightarrow>
    \<exists>wits. sign_inputs S w sighash es = Some wits \<and> list_all2 (p2pk_spend_ok S sighash) (map fst es) wits"
proof (induction es)
  case (Cons e es)
  then obtain pk where "map_of (w_witness_programs w) (m_witness_program_commitment (m_prevout_data (fst e))) = Some pk"
    by (auto simp: is_spendable_def)
  moreover from this obtain sk where "m_witness_program_commitment (m_prevout_data (fst e)) = get_p2pk_witness_commitment pk"
      "map_of (w_keys w) pk = Some sk" "keypair_xonly_pub S sk = Some pk"
    using keys unfolding keys_ok_def pubkey_from_privkey_def by blast
  moreover have "length pk = pubkey_len" "xonly_pubkey_parse S pk" "length (schnorrsig_sign S sighash sk) = sig_len"
      "schnorrsig_verify S (schnorrsig_sign S sighash sk) sighash pk"
    using S calculation(4) by (auto simp: schnorr_correct_def size_defs)
  ultimately have "sign_input S w sighash e = Some (p2pk # pk @ schnorrsig_sign S sighash sk)"
      "p2pk_spend_ok S sighash (fst e) (p2pk # pk @ schnorrsig_sign S sighash sk)"
    by (auto simp: sign_input_def p2pk_spend_ok_def)
  then show ?case
    using Cons by auto
qed simp

lemma wallet_sign_ok:
  assumes S: "schnorr_correct S" and keys: "keys_ok S w" and own: "\<forall>inp \<in> set (m_inputs tx). is_spendable w inp"
  shows "\<exists>wits. wallet_sign S w tx = Some (tx\<lparr>m_witness := wits\<rparr>) \<and> list_all2 (p2pk_spend_ok S (tx_id tx)) (m_inputs tx) wits"
proof -
  let ?n = "length (m_inputs tx)"
  define es where "es = zip (m_inputs tx) (take ?n (m_witness tx) @ replicate (?n - length (m_witness tx)) [])"
  have es: "map fst es = m_inputs tx"
    by (simp add: es_def)
  then have "\<forall>e \<in> set es. is_spendable w (fst e)"
    using own by (metis image_eqI list.set_map)
  from sign_inputs_ok [OF S keys this, of "tx_id tx"] show ?thesis
    by (auto simp: wallet_sign_def Let_def es es_def [symmetric])
qed

lemma change_output_ready:
  assumes keys: "keys_ok S w" and rnd: "pubkey_from_privkey S (fst rnd) \<noteq> None" and le: "amount \<le> tot"
  obtains change w' where "change_output S rnd tot amount w = Some (change, w')" "keys_ok S w'" "wallet_coins w' = wallet_coins w"
    "\<And>inp. is_spendable w inp \<Longrightarrow> is_spendable w' inp" "\<forall>out \<in> set change. 0 < m_value out"
    "(\<Sum>out \<leftarrow> change. unat (m_value out)) + unat amount = unat tot"
proof (cases "amount < tot")
  case True
  obtain pk w' where g: "generate_key S rnd w = Some (pk, w')" "keys_ok S w'" "wallet_coins w' = wallet_coins w"
      "\<And>inp. is_spendable w inp \<Longrightarrow> is_spendable w' inp"
    using generate_key_ready [OF keys rnd] by metis
  have "unat (tot - amount) = unat tot - unat amount" "unat amount < unat tot"
    using le True by (simp_all add: unat_sub word_less_nat_alt)
  then show thesis
    using True g by (intro that [of "[\<lparr>m_witness_program_commitment = get_p2pk_witness_commitment pk, m_value = tot - amount\<rparr>]" w'])
      (auto simp: change_output_def word_less_nat_alt)
next
  case False
  then show thesis
    using keys le by (intro that [of "[]" w]) (auto simp: change_output_def)
qed

lemma wallet_ready_part:
  assumes "wallet_ready S w" "mset (wallet_coins w) = mset inps + mset coins"
  shows "distinct (map m_prevout inps)" "distinct (map m_prevout coins)" "coins_value inps + coins_value coins < 2 ^ 64"
    "\<forall>inp \<in> set inps \<union> set coins. is_spendable w inp \<and> 0 < input_value inp"
proof -
  have m: "mset (wallet_coins w) = mset (inps @ coins)"
    using assms(2) by simp
  then have "mset (map m_prevout (wallet_coins w)) = mset (map m_prevout (inps @ coins))"
    by (simp only: mset_map)
  then have "distinct (map m_prevout (inps @ coins))"
    using assms(1) unfolding wallet_ready_def by (metis mset_eq_imp_distinct_iff)
  then show "distinct (map m_prevout inps)" "distinct (map m_prevout coins)"
    by simp_all
  show "coins_value inps + coins_value coins < 2 ^ 64"
    using assms(1) coins_value_mset [OF m] by (simp add: wallet_ready_def)
  show "\<forall>inp \<in> set inps \<union> set coins. is_spendable w inp \<and> 0 < input_value inp"
    using assms(1) mset_eq_setD [OF m] by (simp add: wallet_ready_def)
qed

lemma unat_ucast_u32: "unat (ucast (x :: u32) :: u64) = unat x"
proof -
  have "unat x < 2 ^ 64"
    using unsigned_less [of x, where 'a = nat] by simp
  then show ?thesis
    by (simp add: unsigned_ucast_eq take_bit_nat_eq_self)
qed

lemma send_to_valid:
  assumes S: "schnorr_correct S" and w: "wallet_ready S w" and amount: "0 < amount"
    and rnd: "pubkey_from_privkey S (fst rnd) \<noteq> None" and enough: "unat amount \<le> coins_value (wallet_coins w)"
  shows "\<exists>tx w'. send_to S rnd amount payee True w = Some (Some tx, w') \<and> tx_valid S tx \<and>
    (\<exists>change. m_outputs tx = \<lparr>m_witness_program_commitment = get_p2pk_witness_commitment payee, m_value = ucast amount\<rparr> # change) \<and>
    mset (wallet_coins w) = mset (m_inputs tx) + mset (wallet_coins w') \<and> wallet_ready S w'"
proof -
  let ?a = "ucast amount :: u64"
  let ?dest = "\<lparr>m_witness_program_commitment = get_p2pk_witness_commitment payee, m_value = ?a\<rparr>"
  have a: "unat ?a = unat amount" "0 < unat amount"
    using amount by (simp_all add: unat_ucast_u32 unat_gt_0)
  then have a0: "0 < ?a"
    by (simp add: word_less_nat_alt)
  have inv: "wallet_inv w" and v: "coins_value (wallet_coins w) < 2 ^ 64"
    using w by (simp_all add: wallet_ready_def)
  obtain r w1 where acc: "accumulate_inputs ?a w = (r, w1)"
    by fastforce
  obtain ret tot where r: "r = Some (ret, tot)"
    using accumulate_coins(1) [OF inv v acc] enough a by fastforce
  have tot: "?a \<le> tot" "tot = inputs_total (m_inputs ret)" and inv1: "wallet_inv w1"
    using accumulate_inputs_spec [OF inv acc] r by auto
  have split: "mset (wallet_coins w) = mset (m_inputs ret) + mset (wallet_coins w1)" and
      same: "w_keys w1 = w_keys w" "w_pubkeys w1 = w_pubkeys w" "w_witness_programs w1 = w_witness_programs w"
    using accumulate_coins(2) [OF inv v acc r] by auto
  note part = wallet_ready_part [OF w split]
  have unat_tot: "unat tot = coins_value (m_inputs ret)"
    unfolding tot(2) by (rule inputs_total_unat) (use part(3) in simp)
  have keys1: "keys_ok S w1" and spend1: "\<And>inp. is_spendable w1 inp = is_spendable w inp"
    using w same by (simp_all add: wallet_ready_def keys_ok_def is_spendable_def)
  obtain change w2 where ch: "change_output S rnd tot ?a w1 = Some (change, w2)" and keys2: "keys_ok S w2"
      and coins2: "wallet_coins w2 = wallet_coins w1" and spend2: "\<And>inp. is_spendable w1 inp \<Longrightarrow> is_spendable w2 inp"
      and pos: "\<forall>out \<in> set change. 0 < m_value out" and sum: "(\<Sum>out \<leftarrow> change. unat (m_value out)) + unat ?a = unat tot"
    using change_output_ready [OF keys1 rnd tot(1)] by metis
  have inv2: "wallet_inv w2"
    using change_output_spec(2) [OF ch] tot(1) inv1 by simp
  let ?tx = "ret\<lparr>m_outputs := ?dest # change\<rparr>"
  obtain wits where wits: "wallet_sign S w2 ?tx = Some (?tx\<lparr>m_witness := wits\<rparr>)"
      "list_all2 (p2pk_spend_ok S (tx_id ?tx)) (m_inputs ret) wits"
    using wallet_sign_ok [OF S keys2, of ?tx] part(4) spend1 spend2 by auto
  have "m_inputs ret \<noteq> []"
    using unat_tot sum a by (auto simp: coins_value_def)
  then have "tx_valid S (?tx\<lparr>m_witness := wits\<rparr>)"
    using part pos sum unat_tot wits(2) a a0
    by (auto simp: tx_valid_def unat_gt_0 input_value_def coins_value_def tx_id_def word_neq_0_conv)
  moreover have "wallet_ready S w2"
    unfolding wallet_ready_def coins2 using part inv2 keys2 spend1 spend2 by auto
  ultimately show ?thesis
    using acc r ch wits(1) split coins2 by (auto simp: send_to_def finish_tx_def Let_def)
qed

section \<open>Confirmation\<close>

lemma credit_inputs_inv: "wallet_inv w \<Longrightarrow> wallet_inv (credit_inputs credits w)"
  by (induction credits w rule: credit_inputs.induct) (simp_all add: wallet_inv_def)

lemma credit_inputs_outpoints: "m_prevout ` set (w_utxos_set (credit_inputs credits w)) = m_prevout ` set (w_utxos_set w) \<union> m_prevout ` set credits"
  by (induction credits w rule: credit_inputs.induct) auto

lemma debit_inputs_queue: "w_spend_queue (debit_inputs debits w) = w_spend_queue w"
  by (induction debits w rule: debit_inputs.induct) simp_all

lemma debit_inputs_length: "length (w_utxos_set (debit_inputs debits w)) \<le> length (w_utxos_set w)"
proof (induction debits w rule: debit_inputs.induct)
  case (2 inp inps w)
  then show ?case
    by (auto simp: utxos_erase_def intro: order_trans [OF _ length_filter_le])
qed simp

lemma debit_inputs_unknown:
  "m_prevout ` set debits \<inter> m_prevout ` set (w_utxos_set w) = {} \<Longrightarrow> debit_inputs debits w = w"
  by (induction debits w rule: debit_inputs.induct) auto

lemma debit_inputs_known:
  "m_prevout ` set debits \<inter> m_prevout ` set (w_utxos_set w) \<noteq> {} \<Longrightarrow>
     length (w_utxos_set (debit_inputs debits w)) < length (w_utxos_set w)"
proof (induction debits w rule: debit_inputs.induct)
  case (2 inp inps w)
  show ?case
  proof (cases "m_prevout inp \<in> m_prevout ` set (w_utxos_set w)")
    case True
    then have "length (utxos_erase inp (w_utxos_set w)) < length (w_utxos_set w)"
      by (auto simp: utxos_erase_def intro: length_filter_less)
    then show ?thesis
      using True debit_inputs_length [of inps "w\<lparr>w_utxos_set := utxos_erase inp (w_utxos_set w), w_balance := w_balance w - input_value inp\<rparr>"]
      by simp
  next
    case False
    then show ?thesis
      using 2 by auto
  qed
qed simp

lemma generate_key_spendable:
  assumes "generate_key S rnd w = Some (pk, w')" "is_spendable w inp"
  shows "is_spendable w' inp"
  using assms by (auto simp: generate_key_def add_key_def is_spendable_def map_of_emplace Let_def split: if_splits bind_splits)

lemma send_to_spendable:
  assumes w: "wallet_inv w" and op: "send_to S rnd amount payee sign_tx w = Some (r, w')" and spend: "is_spendable w inp"
  shows "is_spendable w' inp"
proof -
  obtain a w1 where a: "accumulate_inputs (ucast amount) w = (a, w1)"
    by fastforce
  have s1: "is_spendable w1 inp"
    using accumulate_inputs_spec [OF w a] spend by (auto simp: is_spendable_def)
  show ?thesis
  proof (cases a)
    case None
    then show ?thesis
      using op a s1 by (simp add: send_to_def)
  next
    case (Some acc)
    obtain ret tot where acc: "acc = (ret, tot)"
      by fastforce
    obtain change w2 where ch: "change_output S rnd tot (ucast amount) w1 = Some (change, w2)"
        "finish_tx S sign_tx w2 (ret\<lparr>m_outputs := \<lparr>m_witness_program_commitment = get_p2pk_witness_commitment payee,
           m_value = ucast amount\<rparr> # change\<rparr>) = Some (r, w')"
      using op a Some acc by (auto simp: send_to_def Let_def split: bind_splits)
    have "is_spendable w2 inp"
      using ch(1) s1 by (auto simp: change_output_def dest: generate_key_spendable split: if_splits bind_splits)
    then show ?thesis
      using finish_tx_spec [OF ch(2)] by auto
  qed
qed

section \<open>Properties\<close>

text \<open>C18: The wallet neither creates nor loses money. Whatever of the three ways of building a
  transaction is used, and whether it succeeds, the wallet stays consistent: its queue holds exactly its unspent
  outputs, no outpoint twice, and the recorded balance is their sum. If no transaction results, the
  wallet is unchanged. Otherwise the outputs have the total of the inputs, and the balance, seeded outputs included, has
  decreased by it (all sums in 64 bits).\<close>

theorem wallet_conserves:
  assumes "wallet_inv w"
    and "send_to S rnd amount payee sign_tx w = Some (r, w') \<or> fan S rnd output_count val payee sign_tx w = Some (r, w') \<or>
      send_to_counts S input_count output_count payee sign_tx w = Some (r, w')"
  shows "wallet_inv w' \<and> (r = None \<and> w' = w \<or> (\<exists>tx. r = Some tx \<and>
    wallet_balance w' + sum_list (map input_value (m_inputs tx)) = wallet_balance w \<and>
    sum_list (map m_value (m_outputs tx)) = sum_list (map input_value (m_inputs tx))))"
  using assms(2) by (elim disjE) (rule send_to_conserves [OF assms(1)] fan_conserves [OF assms(1)] send_to_counts_conserves [OF assms(1)], assumption)+

text \<open>A wallet with one key and one unspent output.\<close>

definition sample_pair :: "byte \<Rightarrow> byte list" where
  "sample_pair b = replicate 32 b"

definition sample_utxo :: input where
  "sample_utxo = \<lparr>m_prevout = \<lparr>m_tx_id = replicate 32 9, m_index = 0\<rparr>,
     m_prevout_data = \<lparr>m_witness_program_commitment = get_p2pk_witness_commitment (sample_pair 3), m_value = 7\<rparr>\<rparr>"

definition sample_wallet :: wallet where
  "sample_wallet = credit_inputs [sample_utxo] (add_key (sample_pair 3) (sample_pair 3) wallet_init)"

lemma sample_wallet_inv: "wallet_inv sample_wallet"
  by (simp add: sample_wallet_def add_key_def wallet_init_def wallet_inv_def)

lemma sample_wallet_ready: "wallet_ready toy_secp sample_wallet"
  unfolding wallet_ready_def
  by (auto simp: sample_wallet_inv) (simp_all add: sample_wallet_def add_key_def wallet_init_def keys_ok_def emplace_def wallet_coins_def seed_coins_def
      coins_value_def sample_utxo_def input_value_def is_spendable_def toy_secp_def pubkey_from_privkey_def sample_pair_def)

theorem wallet_conserves_witness:
  "\<exists>tx w'. send_to toy_secp (sample_pair 4, 0) 5 (sample_pair 5) False sample_wallet = Some (Some tx, w') \<and> wallet_inv w' \<and>
     wallet_balance w' + 7 = wallet_balance sample_wallet"
proof -
  obtain tx w' where r: "send_to toy_secp (sample_pair 4, 0) 5 (sample_pair 5) False sample_wallet = Some (Some tx, w')"
      "m_inputs tx = [sample_utxo]"
    by (simp add: send_to_def accumulate_inputs_def Let_def sample_wallet_def add_key_def wallet_init_def take_seeds.simps sample_utxo_def
        input_value_def change_output_def generate_key_def max_keys_def emplace_def finish_tx_def toy_secp_def pubkey_from_privkey_def)
  then show ?thesis
    using wallet_conserves [OF sample_wallet_inv disjI1 [OF r(1)]] by (simp add: sample_utxo_def input_value_def)
qed

text \<open>C11: Every payment the wallet signs passes the sentinel's checks. For a wallet with key pairs for all
  that it can spend, seeded outputs included, a payment that it can afford succeeds: the transaction satisfies
  \<open>check_tx\<close>, its first output pays the payee, it consumes exactly what the wallet no longer has, and the wallet
  is ready for the next payment. A payment that it cannot afford leaves it unchanged. Assumed of libsecp256k1 is that its signatures verify.\<close>

theorem wallet_sends_valid:
  assumes "schnorr_correct S" "wallet_ready S w" "0 < amount" "pubkey_from_privkey S (fst rnd) \<noteq> None"
  shows "if unat amount \<le> coins_value (wallet_coins w) then
      \<exists>tx w'. send_to S rnd amount payee True w = Some (Some tx, w') \<and> check_tx S tx = None \<and>
        (\<exists>change. m_outputs tx = \<lparr>m_witness_program_commitment = get_p2pk_witness_commitment payee, m_value = ucast amount\<rparr> # change) \<and>
        mset (wallet_coins w) = mset (m_inputs tx) + mset (wallet_coins w') \<and> wallet_ready S w'
    else send_to S rnd amount payee True w = Some (None, w)"
proof (cases "unat amount \<le> coins_value (wallet_coins w)")
  case True
  then show ?thesis
    using send_to_valid [OF assms True, of payee] by (simp add: check_tx_None)
next
  case False
  have w: "wallet_inv w" "coins_value (wallet_coins w) < 2 ^ 64"
    using assms(2) by (simp_all add: wallet_ready_def)
  obtain r w1 where acc: "accumulate_inputs (ucast amount) w = (r, w1)"
    by fastforce
  then have "r = None" "w1 = w"
    using accumulate_coins(1) [OF w acc] accumulate_inputs_spec [OF w(1) acc] False by (auto simp: unat_ucast_u32)
  then show ?thesis
    using False acc by (simp add: send_to_def)
qed

theorem wallet_sends_valid_witness:
  "\<exists>tx w'. send_to toy_secp (sample_pair 4, 0) 5 (sample_pair 5) True sample_wallet = Some (Some tx, w') \<and> check_tx toy_secp tx = None"
proof -
  have "coins_value (wallet_coins sample_wallet) = 7"
    by (simp add: sample_wallet_def add_key_def wallet_init_def wallet_coins_def seed_coins_def coins_value_def sample_utxo_def input_value_def)
  moreover have "pubkey_from_privkey toy_secp (fst (sample_pair 4, 0)) \<noteq> None"
    by (simp add: toy_secp_def pubkey_from_privkey_def sample_pair_def)
  ultimately show ?thesis
    using wallet_sends_valid [OF schnorr_correct_toy sample_wallet_ready, of 5 "(sample_pair 4, 0)" "sample_pair 5"] by auto
qed

text \<open>Confirmation adds every output that pays the wallet exactly once and keeps the wallet consistent,
  but only as long as no debited outpoint is among the unspent or the credited ones: the debits do not remove anything from the queue of
  outputs to spend, so that otherwise the assertion that compares the sizes of queue and set fails.\<close>

theorem update_balance_exact:
  assumes "wallet_inv w"
  shows "update_balance credits debits w =
      (if m_prevout ` set debits \<inter> (m_prevout ` set (w_utxos_set w) \<union> m_prevout ` set credits) = {}
       then Some (credit_inputs credits w) else None) \<and>
    wallet_inv (credit_inputs credits w) \<and>
    m_prevout ` set (w_utxos_set (credit_inputs credits w)) = m_prevout ` set (w_utxos_set w) \<union> m_prevout ` set credits"
proof -
  let ?w = "credit_inputs credits w"
  have inv: "wallet_inv ?w"
    by (rule credit_inputs_inv [OF assms])
  then have "length (w_spend_queue ?w) = length (w_utxos_set ?w)"
    unfolding wallet_inv_def by (metis size_mset)
  then show ?thesis
    using inv debit_inputs_unknown [of debits ?w] debit_inputs_known [of debits ?w]
    by (cases "m_prevout ` set debits \<inter> m_prevout ` set (w_utxos_set ?w) = {}")
      (simp_all add: update_balance_def Let_def debit_inputs_queue credit_inputs_outpoints)
qed

theorem update_balance_exact_witness:
  "update_balance [] [sample_utxo] sample_wallet = None \<and> update_balance [sample_utxo] [] sample_wallet = Some sample_wallet"
  using update_balance_exact [OF sample_wallet_inv, of "[]" "[sample_utxo]"] update_balance_exact [OF sample_wallet_inv, of "[sample_utxo]" "[]"]
  by (simp add: sample_wallet_def add_key_def wallet_init_def)

end
