(* ===== verification/Client.thy ===== *)
theory Client
  imports Wallet Watchtower Sentinel "HOL-Library.List_Lexorder"
begin

text \<open>
  The client (\<open>uhs/client/client.cpp\<close>) with its two variants (\<open>twophase_client.cpp\<close> and
  \<open>atomizer_client.cpp\<close>): a wallet, the transactions that wait for confirmation, the inputs these spend and the
  inputs received from others. Remote parties are arguments. The maps are lists without equal keys, whose order stands for the
  order of iteration. \<open>None\<close> is a failed assertion of the wallet.
\<close>

section \<open>State\<close>

record client =
  cl_pending_txs :: "(hash_t \<times> full_tx) list"
  cl_pending_spend :: "(hash_t \<times> input) list"
  cl_pending_inputs :: "(hash_t \<times> input) list"
  cl_wallet :: wallet

definition client_balance :: "client \<Rightarrow> u64" where
  "client_balance c = wallet_balance (cl_wallet c)"

definition utxo_count :: "client \<Rightarrow> u64" where
  "utxo_count c = wallet_count (cl_wallet c)"

definition pending_tx_count :: "client \<Rightarrow> nat" where
  "pending_tx_count c = length (cl_pending_txs c)"

definition pending_input_count :: "client \<Rightarrow> nat" where
  "pending_input_count c = length (cl_pending_inputs c)"

section \<open>Operations\<close>

definition new_address :: "secp256k1 \<Rightarrow> privkey_t \<times> nat \<Rightarrow> client \<Rightarrow> (pubkey_t \<times> client) option" where
  "new_address S rnd c = do {
     (addr, w) \<leftarrow> generate_key S rnd (cl_wallet c);
     Some (addr, c\<lparr>cl_wallet := w\<rparr>) }"

definition sign_transaction :: "secp256k1 \<Rightarrow> client \<Rightarrow> full_tx \<Rightarrow> full_tx option" where
  "sign_transaction S c tx = wallet_sign S (cl_wallet c) tx"

definition register_pending_tx :: "full_tx \<Rightarrow> client \<Rightarrow> client" where
  "register_pending_tx tx c =
    c\<lparr>cl_pending_spend := foldl (\<lambda>m inp. emplace (input_hash inp) inp m) (cl_pending_spend c) (m_inputs tx)\<rparr>"

definition import_transaction :: "full_tx \<Rightarrow> client \<Rightarrow> client" where
  "import_transaction tx c = c\<lparr>cl_pending_txs := emplace (tx_id tx) tx (cl_pending_txs c)\<rparr>"

definition create_transaction ::
  "secp256k1 \<Rightarrow> privkey_t \<times> nat \<Rightarrow> u32 \<Rightarrow> pubkey_t \<Rightarrow> client \<Rightarrow> (full_tx option \<times> client) option" where
  "create_transaction S rnd val payee c = do {
     (tx, w) \<leftarrow> send_to S rnd val payee True (cl_wallet c);
     Some (tx, case tx of None \<Rightarrow> c\<lparr>cl_wallet := w\<rparr> | Some t \<Rightarrow> register_pending_tx t (c\<lparr>cl_wallet := w\<rparr>)) }"

text \<open>Whether another pending transaction uses an input.\<close>

definition check_pending :: "input \<Rightarrow> client \<Rightarrow> bool" where
  "check_pending inp c \<longleftrightarrow> (\<exists>(txid, tx) \<in> set (cl_pending_txs c). inp \<in> set (m_inputs tx))"

fun return_inputs :: "input list \<Rightarrow> client \<Rightarrow> client option" where
  "return_inputs [] c = Some c"
| "return_inputs (i # is) c =
    (if map_of (cl_pending_spend c) (input_hash i) \<noteq> None \<and> \<not> check_pending i c then do {
       w \<leftarrow> Wallet.confirm_inputs [i] (cl_wallet c);
       return_inputs is (c\<lparr>cl_pending_spend := map_erase (input_hash i) (cl_pending_spend c), cl_wallet := w\<rparr>) }
     else return_inputs is c)"

definition abandon_transaction :: "hash_t \<Rightarrow> client \<Rightarrow> (bool \<times> client) option" where
  "abandon_transaction txid c =
    (case map_of (cl_pending_txs c) txid of
       None \<Rightarrow> Some (False, c)
     | Some tx \<Rightarrow> do {
         c' \<leftarrow> return_inputs (m_inputs tx) (c\<lparr>cl_pending_txs := map_erase txid (cl_pending_txs c)\<rparr>);
         Some (True, c') })"

definition confirm_pending_tx :: "hash_t \<Rightarrow> client \<Rightarrow> (bool \<times> client) option" where
  "confirm_pending_tx txid c =
    (case map_of (cl_pending_txs c) txid of
       None \<Rightarrow> Some (False, c)
     | Some tx \<Rightarrow> do {
         w \<leftarrow> Wallet.confirm_transaction tx (cl_wallet c);
         Some (True, c\<lparr>cl_wallet := w,
                       cl_pending_spend := foldl (\<lambda>m i. map_erase (input_hash i) m) (cl_pending_spend c) (m_inputs tx),
                       cl_pending_txs := map_erase txid (cl_pending_txs c)\<rparr>) })"

definition confirm_pending_input :: "hash_t \<Rightarrow> client \<Rightarrow> (bool \<times> client) option" where
  "confirm_pending_input txid c =
    (case map_of (cl_pending_inputs c) txid of
       None \<Rightarrow> Some (False, c)
     | Some inp \<Rightarrow> do {
         w \<leftarrow> Wallet.confirm_inputs [inp] (cl_wallet c);
         Some (True, c\<lparr>cl_wallet := w, cl_pending_inputs := map_erase txid (cl_pending_inputs c)\<rparr>) })"

definition client_confirm :: "hash_t \<Rightarrow> client \<Rightarrow> (bool \<times> client) option" where
  "client_confirm txid c = do {
     (a, c1) \<leftarrow> confirm_pending_tx txid c;
     (b, c2) \<leftarrow> confirm_pending_input txid c1;
     Some (a \<or> b, c2) }"

definition client_send_transaction ::
  "(full_tx \<Rightarrow> execute_response option) \<Rightarrow> full_tx \<Rightarrow> client \<Rightarrow> (execute_response option \<times> client) option" where
  "client_send_transaction sentinel tx c =
    (let c1 = import_transaction tx c in
     case sentinel tx of
       None \<Rightarrow> Some (None, c1)
     | Some res \<Rightarrow>
         if r_tx_status res = Confirmed then do {
           (_, c2) \<leftarrow> client_confirm (tx_id tx) c1;
           Some (Some res, c2) }
         else Some (Some res, c1))"

definition client_send ::
  "secp256k1 \<Rightarrow> privkey_t \<times> nat \<Rightarrow> (full_tx \<Rightarrow> execute_response option) \<Rightarrow> u32 \<Rightarrow> pubkey_t \<Rightarrow> client \<Rightarrow>
     ((full_tx \<times> execute_response) option \<times> client) option" where
  "client_send S rnd sentinel val payee c = do {
     (spend_tx, c1) \<leftarrow> create_transaction S rnd val payee c;
     case spend_tx of
       None \<Rightarrow> Some (None, c1)
     | Some tx \<Rightarrow> do {
         (res, c2) \<leftarrow> client_send_transaction sentinel tx c1;
         Some (map_option (Pair tx) res, c2) } }"

definition client_fan ::
  "secp256k1 \<Rightarrow> privkey_t \<times> nat \<Rightarrow> (full_tx \<Rightarrow> execute_response option) \<Rightarrow> u32 \<Rightarrow> u32 \<Rightarrow> pubkey_t \<Rightarrow> client \<Rightarrow>
     ((full_tx \<times> execute_response) option \<times> client) option" where
  "client_fan S rnd sentinel output_count val payee c = do {
     (fan_tx, w) \<leftarrow> fan S rnd (ucast output_count) val payee True (cl_wallet c);
     case fan_tx of
       None \<Rightarrow> Some (None, c\<lparr>cl_wallet := w\<rparr>)
     | Some tx \<Rightarrow> do {
         (res, c2) \<leftarrow> client_send_transaction sentinel tx (register_pending_tx tx (c\<lparr>cl_wallet := w\<rparr>));
         Some (map_option (Pair tx) res, c2) } }"

definition import_send_input :: "input \<Rightarrow> client \<Rightarrow> client" where
  "import_send_input inp c =
    (if is_spendable (cl_wallet c) inp
     then c\<lparr>cl_pending_inputs := emplace (m_tx_id (m_prevout inp)) inp (cl_pending_inputs c)\<rparr> else c)"

text \<open>Minting; \<open>send_mint_tx\<close> is that of the variant.\<close>

definition client_mint ::
  "secp256k1 \<Rightarrow> (privkey_t \<times> nat) list \<Rightarrow> (full_tx \<Rightarrow> client \<Rightarrow> (bool \<times> client) option) \<Rightarrow> u32 \<Rightarrow> client \<Rightarrow> (full_tx \<times> client) option" where
  "client_mint S rnds send_mint_tx output_val c = do {
     (mint_tx, w) \<leftarrow> mint_new_coins S rnds output_val (cl_wallet c);
     (_, c') \<leftarrow> send_mint_tx mint_tx (import_transaction mint_tx (c\<lparr>cl_wallet := w\<rparr>));
     Some (mint_tx, c') }"

text \<open>The attestations of a minting transaction; a missing private key is created as zero.\<close>

fun mint_attestations :: "secp256k1 \<Rightarrow> (nat \<Rightarrow> privkey_t option) \<Rightarrow> nat list \<Rightarrow> compact_tx \<Rightarrow> compact_tx option" where
  "mint_attestations S private_keys [] ctx = Some ctx"
| "mint_attestations S private_keys (i # is) ctx = do {
     att \<leftarrow> compact_tx_sign S ctx (case private_keys i of Some k \<Rightarrow> k | None \<Rightarrow> replicate 32 0);
     mint_attestations S private_keys is (insert_attestation att ctx) }"

section \<open>Two-phase commit\<close>

text \<open>
  \<open>coordinator\<close> is \<open>None\<close> if the request cannot be sent, and else what the callback gets within the time limit:
  nothing, no decision, or the decision.
\<close>

definition twophase_send_mint_tx ::
  "secp256k1 \<Rightarrow> u64 \<Rightarrow> (nat \<Rightarrow> privkey_t option) \<Rightarrow> (compact_tx \<Rightarrow> bool option option option) \<Rightarrow> full_tx \<Rightarrow> client \<Rightarrow> (bool \<times> client) option" where
  "twophase_send_mint_tx S threshold private_keys coordinator mint_tx c = do {
     ctx \<leftarrow> mint_attestations S private_keys [0..<unat threshold] (compact_tx_of mint_tx);
     case coordinator ctx of
       Some (Some (Some True)) \<Rightarrow> do { (_, c') \<leftarrow> client_confirm (m_id ctx) c; Some (True, c') }
     | _ \<Rightarrow> Some (False, c) }"

fun sync_ids :: "(hash_t \<Rightarrow> bool option) \<Rightarrow> hash_t list \<Rightarrow> bool \<Rightarrow> client \<Rightarrow> (bool \<times> client) option" where
  "sync_ids check [] success c = Some (success, c)"
| "sync_ids check (txid # txids) success c =
    (case check txid of
       None \<Rightarrow> sync_ids check txids False c
     | Some True \<Rightarrow> do { (_, c') \<leftarrow> client_confirm txid c; sync_ids check txids success c' }
     | Some False \<Rightarrow> sync_ids check txids success c)"

definition twophase_sync :: "(hash_t \<Rightarrow> bool option) \<Rightarrow> client \<Rightarrow> (bool \<times> client) option" where
  "twophase_sync check c =
    sync_ids check (sort (remdups (map fst (cl_pending_txs c) @ map fst (cl_pending_inputs c)))) True c"

section \<open>Atomizer\<close>

definition atomizer_send_mint_tx ::
  "secp256k1 \<Rightarrow> u64 \<Rightarrow> (nat \<Rightarrow> privkey_t option) \<Rightarrow> u64 \<Rightarrow> (atomizer_request \<Rightarrow> bool) \<Rightarrow> full_tx \<Rightarrow> client \<Rightarrow> (bool \<times> client) option" where
  "atomizer_send_mint_tx S threshold private_keys best_height send_to_one mint_tx c = do {
     ctx \<leftarrow> mint_attestations S private_keys [0..<unat threshold] (compact_tx_of mint_tx);
     Some (send_to_one (Req_tx_notify \<lparr>n_tx = ctx, n_attestations = [], n_block_height = best_height\<rparr>), c) }"

text \<open>What is asked of the watchtower.\<close>

definition sync_request :: "client \<Rightarrow> (hash_t \<times> hash_t list) list" where
  "sync_request c =
    foldl (\<lambda>tus (txid, inp). emplace txid [input_hash inp] tus)
      (map (\<lambda>(txid, tx). let ctx = compact_tx_of tx in (m_id ctx, c_inputs ctx @ m_uhs_outputs ctx)) (cl_pending_txs c))
      (cl_pending_inputs c)"

fun sync_states :: "status_update_state list \<Rightarrow> bool \<Rightarrow> bool" where
  "sync_states [] success = success"
| "sync_states (s # ss) success =
    (if st_status s \<noteq> Unspent \<and> st_status s \<noteq> Spent then sync_states ss False else success)"

fun sync_txs :: "(hash_t \<times> status_update_state list) list \<Rightarrow> bool \<Rightarrow> client \<Rightarrow> (bool \<times> client) option" where
  "sync_txs [] success c = Some (success, c)"
| "sync_txs ((txid, uhs_states) # rest) success c =
    (let success' = sync_states uhs_states success in
     if \<not> success' then sync_txs rest success' c
     else do { (ok, c') \<leftarrow> client_confirm txid c; sync_txs rest ok c' })"

text \<open>\<open>watchtower_reply\<close> is the answer of the watchtower; without an answer, a null pointer is used.\<close>

definition atomizer_sync ::
  "((hash_t \<times> hash_t list) list \<Rightarrow> (hash_t \<times> status_update_state list) list option) \<Rightarrow> client \<Rightarrow> (bool \<times> client) option" where
  "atomizer_sync watchtower_reply c = do {
     states \<leftarrow> watchtower_reply (sync_request c);
     sync_txs states True c }"

section \<open>Funds\<close>

text \<open>What the wallet can spend and what pending transactions spend.\<close>

definition all_funds :: "client \<Rightarrow> input list" where
  "all_funds c = wallet_coins (cl_wallet c) @ map snd (cl_pending_spend c)"

text \<open>
  The wallet is consistent, no two inputs have the same outpoint or hash, the keys of the maps belong to their values, and
  every pending transaction spends inputs that are marked as pending and that no other one spends.
\<close>

definition client_inv :: "secp256k1 \<Rightarrow> client \<Rightarrow> bool" where
  "client_inv S c \<longleftrightarrow> wallet_inv (cl_wallet c) \<and> keys_ok S (cl_wallet c) \<and>
     distinct (map m_prevout (all_funds c)) \<and> coins_value (all_funds c) < 2 ^ 64 \<and> inj_on input_hash (set (all_funds c)) \<and>
     (\<forall>inp \<in> set (all_funds c). is_spendable (cl_wallet c) inp \<and> 0 < input_value inp) \<and>
     distinct (map fst (cl_pending_spend c)) \<and> (\<forall>e \<in> set (cl_pending_spend c). fst e = input_hash (snd e)) \<and>
     distinct (map fst (cl_pending_txs c)) \<and>
     (\<forall>e \<in> set (cl_pending_txs c). fst e = tx_id (snd e) \<and> set (m_inputs (snd e)) \<subseteq> snd ` set (cl_pending_spend c) \<and> distinct (m_inputs (snd e))) \<and>
     (\<forall>e \<in> set (cl_pending_txs c). \<forall>f \<in> set (cl_pending_txs c). fst e \<noteq> fst f \<longrightarrow> set (m_inputs (snd e)) \<inter> set (m_inputs (snd f)) = {})"

lemma client_inv_ready: "client_inv S c \<Longrightarrow> wallet_ready S (cl_wallet c)"
  by (simp add: client_inv_def wallet_ready_def all_funds_def)

text \<open>What the invariant says of the funds depends on their multiset only.\<close>

lemma funds_cong:
  assumes "mset xs = mset ys"
  shows "distinct (map m_prevout xs) = distinct (map m_prevout ys)" "coins_value xs = coins_value ys" "set xs = set ys"
proof -
  have "mset (map m_prevout xs) = mset (map m_prevout ys)"
    using assms by simp
  then show "distinct (map m_prevout xs) = distinct (map m_prevout ys)"
    by (rule mset_eq_imp_distinct_iff)
qed (use assms in \<open>auto intro: coins_value_mset dest: mset_eq_setD\<close>)

lemma map_erase_set: "set (map_erase k m) = {e \<in> set m. fst e \<noteq> k}"
  by (auto simp: map_erase_def)

lemma mset_map_erase:
  assumes "distinct (map fst m)" "(k, v) \<in> set m"
  shows "mset (map snd m) = add_mset v (mset (map snd (map_erase k m)))"
  using assms
proof (induction m)
  case (Cons e m)
  show ?case
  proof (cases "fst e = k")
    case True
    then have "k \<notin> fst ` set m" "e = (k, v)"
      using Cons.prems by (auto simp: rev_image_eqI)
    then have "map_erase k m = m"
      by (auto simp: map_erase_def filter_id_conv rev_image_eqI)
    then show ?thesis
      using \<open>e = (k, v)\<close> by (simp add: map_erase_def)
  next
    case False
    then have "mset (map snd m) = add_mset v (mset (map snd (map_erase k m)))"
      using Cons by auto
    then show ?thesis
      using False by (simp add: map_erase_def case_prod_beta add_mset_commute)
  qed
qed simp

lemma client_inv_spend:
  assumes "client_inv S c" "i \<in> snd ` set (cl_pending_spend c)"
  shows "(input_hash i, i) \<in> set (cl_pending_spend c)"
proof -
  obtain h where h: "(h, i) \<in> set (cl_pending_spend c)"
    using assms(2) by auto
  have "\<forall>e \<in> set (cl_pending_spend c). fst e = input_hash (snd e)"
    using assms(1) by (simp add: client_inv_def)
  then show ?thesis
    using h by fastforce
qed

lemma spend_other:
  assumes "client_inv S c" "i \<in> snd ` set (cl_pending_spend c)" "j \<in> snd ` set (cl_pending_spend c)" "j \<noteq> i"
  shows "j \<in> snd ` set (map_erase (input_hash i) (cl_pending_spend c))"
proof -
  have "inj_on input_hash (set (all_funds c))" "i \<in> set (all_funds c)" "j \<in> set (all_funds c)"
    using assms(1-3) by (simp_all add: client_inv_def all_funds_def)
  then have "input_hash j \<noteq> input_hash i"
    using assms(4) by (metis inj_onD)
  then have "(input_hash j, j) \<in> set (map_erase (input_hash i) (cl_pending_spend c))"
    using client_inv_spend [OF assms(1,3)] by (simp add: map_erase_set)
  then show ?thesis
    by force
qed

lemma client_inv_tx:
  assumes "client_inv S c" "(txid, tx) \<in> set (cl_pending_txs c)"
  shows "txid = tx_id tx" "set (m_inputs tx) \<subseteq> snd ` set (cl_pending_spend c)" "distinct (m_inputs tx)"
proof -
  have "\<forall>e \<in> set (cl_pending_txs c). fst e = tx_id (snd e) \<and> set (m_inputs (snd e)) \<subseteq> snd ` set (cl_pending_spend c) \<and> distinct (m_inputs (snd e))"
    using assms(1) by (simp add: client_inv_def)
  from bspec [OF this assms(2)] show "txid = tx_id tx" "set (m_inputs tx) \<subseteq> snd ` set (cl_pending_spend c)" "distinct (m_inputs tx)"
    by simp_all
qed

section \<open>Giving inputs back\<close>

lemma confirm_inputs_new:
  assumes "wallet_inv w" "m_prevout i \<notin> m_prevout ` set (w_utxos_set w)"
  shows "\<exists>w'. Wallet.confirm_inputs [i] w = Some w' \<and> wallet_inv w' \<and> mset (wallet_coins w') = add_mset i (mset (wallet_coins w)) \<and>
    w_keys w' = w_keys w \<and> w_pubkeys w' = w_pubkeys w \<and> w_witness_programs w' = w_witness_programs w"
proof -
  let ?w = "w\<lparr>w_utxos_set := w_utxos_set w @ [i], w_balance := w_balance w + input_value i, w_spend_queue := w_spend_queue w @ [i]\<rparr>"
  have "credit_inputs [i] w = ?w"
    using assms(2) by simp
  moreover have inv: "wallet_inv (credit_inputs [i] w)"
    by (rule credit_inputs_inv [OF assms(1)])
  moreover have "length (w_spend_queue ?w) = length (w_utxos_set ?w)"
    using assms(1) unfolding wallet_inv_def by (simp del: size_mset add: size_mset [symmetric])
  moreover have "wallet_coins ?w = wallet_coins w @ [i]"
    using seed_coins_cong [of ?w w] by (simp add: wallet_coins_def)
  ultimately show ?thesis
    by (simp add: confirm_inputs_def update_balance_def)
qed

lemma return_input:
  assumes inv: "client_inv S c" and i: "i \<in> snd ` set (cl_pending_spend c)" "\<not> check_pending i c"
  shows "\<exists>w. map_of (cl_pending_spend c) (input_hash i) = Some i \<and> Wallet.confirm_inputs [i] (cl_wallet c) = Some w \<and>
    client_inv S (c\<lparr>cl_pending_spend := map_erase (input_hash i) (cl_pending_spend c), cl_wallet := w\<rparr>) \<and>
    mset (wallet_coins w) = add_mset i (mset (wallet_coins (cl_wallet c))) \<and>
    mset (all_funds (c\<lparr>cl_pending_spend := map_erase (input_hash i) (cl_pending_spend c), cl_wallet := w\<rparr>)) = mset (all_funds c)"
proof -
  let ?spend = "cl_pending_spend c"
  have mem: "(input_hash i, i) \<in> set ?spend" and d: "distinct (map fst ?spend)"
    using client_inv_spend [OF inv i(1)] inv by (simp_all add: client_inv_def)
  have "m_prevout i \<notin> m_prevout ` set (w_utxos_set (cl_wallet c))"
  proof -
    have "m_prevout ` set (wallet_coins (cl_wallet c)) \<inter> m_prevout ` snd ` set ?spend = {}"
      using inv by (simp add: client_inv_def all_funds_def image_image)
    moreover have "set (w_utxos_set (cl_wallet c)) \<subseteq> set (wallet_coins (cl_wallet c))"
      by (simp add: wallet_coins_def)
    ultimately show ?thesis
      using i(1) by blast
  qed
  then obtain w where w: "Wallet.confirm_inputs [i] (cl_wallet c) = Some w" "wallet_inv w"
      "mset (wallet_coins w) = add_mset i (mset (wallet_coins (cl_wallet c)))"
      "w_keys w = w_keys (cl_wallet c)" "w_pubkeys w = w_pubkeys (cl_wallet c)" "w_witness_programs w = w_witness_programs (cl_wallet c)"
    using confirm_inputs_new inv unfolding client_inv_def by metis
  let ?c = "c\<lparr>cl_pending_spend := map_erase (input_hash i) ?spend, cl_wallet := w\<rparr>"
  have funds: "mset (all_funds ?c) = mset (all_funds c)"
    using mset_map_erase [OF d mem] w(3) by (simp add: all_funds_def)
  have keys: "keys_ok S w" "\<And>inp. is_spendable w inp = is_spendable (cl_wallet c) inp"
    using inv w(4-6) by (simp_all add: client_inv_def keys_ok_def is_spendable_def)
  have sub: "set (m_inputs (snd e)) \<subseteq> snd ` set (map_erase (input_hash i) ?spend)" if e: "e \<in> set (cl_pending_txs c)" for e
  proof
    fix j
    assume j: "j \<in> set (m_inputs (snd e))"
    have "j \<in> snd ` set ?spend"
      using client_inv_tx(2) [OF inv, of "fst e" "snd e"] e j by auto
    moreover have "j \<noteq> i"
      using i(2) e j by (auto simp: check_pending_def)
    ultimately show "j \<in> snd ` set (map_erase (input_hash i) ?spend)"
      by (rule spend_other [OF inv i(1)])
  qed
  have hashes: "\<forall>e \<in> set (map_erase (input_hash i) ?spend). fst e = input_hash (snd e)"
    using inv by (auto simp: client_inv_def map_erase_set)
  have "client_inv S ?c"
    using inv w(2) keys funds_cong [OF funds] sub distinct_map_erase [OF d, of "input_hash i"] hashes
    unfolding client_inv_def [of _ ?c] by (simp add: client_inv_def)
  then show ?thesis
    using w mem d funds by auto
qed

lemma return_inputs_all:
  assumes "client_inv S c" "distinct is" "set is \<subseteq> snd ` set (cl_pending_spend c)" "\<forall>i \<in> set is. \<not> check_pending i c"
  shows "\<exists>c'. return_inputs is c = Some c' \<and> client_inv S c' \<and> mset (wallet_coins (cl_wallet c')) = mset (wallet_coins (cl_wallet c)) + mset is \<and>
    mset (all_funds c') = mset (all_funds c) \<and> cl_pending_txs c' = cl_pending_txs c \<and> cl_pending_inputs c' = cl_pending_inputs c"
  using assms
proof (induction "is" arbitrary: c)
  case (Cons i "is")
  let ?c = "\<lambda>w. c\<lparr>cl_pending_spend := map_erase (input_hash i) (cl_pending_spend c), cl_wallet := w\<rparr>"
  obtain w where w: "map_of (cl_pending_spend c) (input_hash i) = Some i" "Wallet.confirm_inputs [i] (cl_wallet c) = Some w"
      "client_inv S (?c w)" "mset (wallet_coins w) = add_mset i (mset (wallet_coins (cl_wallet c)))" "mset (all_funds (?c w)) = mset (all_funds c)"
    using return_input [OF Cons.prems(1), of i] Cons.prems by auto
  have "set is \<subseteq> snd ` set (map_erase (input_hash i) (cl_pending_spend c))"
  proof
    fix j
    assume "j \<in> set is"
    then show "j \<in> snd ` set (map_erase (input_hash i) (cl_pending_spend c))"
      using Cons.prems(2,3) by (intro spend_other [OF Cons.prems(1)]) auto
  qed
  moreover have "\<forall>j \<in> set is. \<not> check_pending j (?c w)"
    using Cons.prems(4) by (simp add: check_pending_def)
  ultimately obtain c' where "return_inputs is (?c w) = Some c'" "client_inv S c'"
      "mset (wallet_coins (cl_wallet c')) = mset (wallet_coins w) + mset is" "mset (all_funds c') = mset (all_funds (?c w))"
      "cl_pending_txs c' = cl_pending_txs c" "cl_pending_inputs c' = cl_pending_inputs c"
    using Cons.IH [OF w(3)] Cons.prems(2) by auto
  then show ?case
    using w Cons.prems(4) by simp
qed simp

lemma client_inv_erase_tx: "client_inv S c \<Longrightarrow> client_inv S (c\<lparr>cl_pending_txs := map_erase txid (cl_pending_txs c)\<rparr>)"
  by (simp add: client_inv_def all_funds_def distinct_map_erase map_erase_set)

lemma abandon_restores:
  assumes inv: "client_inv S c" and tx: "map_of (cl_pending_txs c) txid = Some tx"
  shows "\<exists>c'. abandon_transaction txid c = Some (True, c') \<and> client_inv S c' \<and>
    mset (wallet_coins (cl_wallet c')) = mset (wallet_coins (cl_wallet c)) + mset (m_inputs tx) \<and>
    mset (all_funds c') = mset (all_funds c) \<and> cl_pending_txs c' = map_erase txid (cl_pending_txs c) \<and> cl_pending_inputs c' = cl_pending_inputs c"
proof -
  let ?c = "c\<lparr>cl_pending_txs := map_erase txid (cl_pending_txs c)\<rparr>"
  have mem: "(txid, tx) \<in> set (cl_pending_txs c)"
    by (rule map_of_SomeD [OF tx])
  have "set (m_inputs tx) \<subseteq> snd ` set (cl_pending_spend c)" "distinct (m_inputs tx)"
    using client_inv_tx [OF inv mem] by simp_all
  moreover have "\<not> check_pending i ?c" if i: "i \<in> set (m_inputs tx)" for i
  proof
    assume "check_pending i ?c"
    then obtain e where e: "e \<in> set (cl_pending_txs c)" "fst e \<noteq> txid" "i \<in> set (m_inputs (snd e))"
      by (auto simp: check_pending_def map_erase_set)
    have "set (m_inputs (snd e)) \<inter> set (m_inputs (snd (txid, tx))) = {}"
      using inv e(1,2) mem unfolding client_inv_def by (metis fst_conv)
    then show False
      using e(3) i by auto
  qed
  ultimately show ?thesis
    using return_inputs_all [OF client_inv_erase_tx [OF inv, of txid], of "m_inputs tx"] tx
    by (auto simp: abandon_transaction_def all_funds_def)
qed

section \<open>Sending\<close>

lemma foldl_emplace_new:
  "distinct (map input_hash inps) \<Longrightarrow> \<forall>i \<in> set inps. input_hash i \<notin> fst ` set m \<Longrightarrow>
     foldl (\<lambda>m inp. emplace (input_hash inp) inp m) m inps = m @ map (\<lambda>i. (input_hash i, i)) inps"
proof (induction inps arbitrary: m)
  case (Cons a inps)
  have "emplace (input_hash a) a m = m @ [(input_hash a, a)]" "\<forall>i \<in> set inps. input_hash i \<notin> fst ` set (m @ [(input_hash a, a)])"
    using Cons.prems by (auto simp: emplace_def image_iff)
  then show ?case
    using Cons.IH [of "m @ [(input_hash a, a)]"] Cons.prems(1) by simp
qed simp

lemma spent_inputs_new:
  assumes inv: "client_inv S c" and coins: "mset (wallet_coins (cl_wallet c)) = mset inps + mset (wallet_coins w')"
  shows "set inps \<inter> snd ` set (cl_pending_spend c) = {}" "distinct inps" "distinct (map input_hash inps)"
    "\<forall>i \<in> set inps. input_hash i \<notin> fst ` set (cl_pending_spend c)"
proof -
  let ?spend = "cl_pending_spend c"
  have d: "distinct (map m_prevout (wallet_coins (cl_wallet c) @ map snd ?spend))" and inj: "inj_on input_hash (set (all_funds c))"
    using inv by (simp_all add: client_inv_def all_funds_def)
  have "mset (all_funds c) = mset (inps @ wallet_coins w' @ map snd ?spend)"
    using coins by (simp add: all_funds_def)
  note all = funds_cong [OF this]
  have "distinct (map m_prevout (inps @ wallet_coins w' @ map snd ?spend))"
    using all(1) d by (simp add: all_funds_def)
  then have "distinct (map m_prevout inps)" "m_prevout ` set inps \<inter> m_prevout ` snd ` set ?spend = {}"
    by (auto simp: image_image)
  then show disj: "set inps \<inter> snd ` set ?spend = {}" and dist: "distinct inps"
    by (blast, simp add: distinct_map)
  show "distinct (map input_hash inps)"
    using dist inj all(3) by (simp add: distinct_map inj_on_Un)
  show "\<forall>i \<in> set inps. input_hash i \<notin> fst ` set ?spend"
  proof (intro ballI notI)
    fix i
    assume i: "i \<in> set inps" and "input_hash i \<in> fst ` set ?spend"
    then obtain j where j: "(input_hash i, j) \<in> set ?spend"
      by auto
    have "\<forall>e \<in> set ?spend. fst e = input_hash (snd e)"
      using inv by (simp add: client_inv_def)
    then have "input_hash j = input_hash i"
      using j by fastforce
    moreover have "i \<in> set (all_funds c)" "j \<in> set (all_funds c)"
      using all(3) i j by force+
    ultimately have "j = i"
      using inj by (metis inj_onD)
    then show False
      using disj i j by force
  qed
qed

lemma spend_keys:
  assumes "distinct (map fst spend)" "\<forall>e \<in> set spend. fst e = input_hash (snd e)" "distinct (map input_hash inps)"
    and new: "\<forall>i \<in> set inps. input_hash i \<notin> fst ` set spend"
  shows "distinct (map fst (spend @ map (\<lambda>i. (input_hash i, i)) inps))"
    "\<forall>e \<in> set (spend @ map (\<lambda>i. (input_hash i, i)) inps). fst e = input_hash (snd e)"
proof -
  have "fst ` set spend \<inter> input_hash ` set inps = {}"
  proof (rule equals0I)
    fix h
    assume h: "h \<in> fst ` set spend \<inter> input_hash ` set inps"
    then obtain i where "i \<in> set inps" "h = input_hash i"
      by auto
    with new have "h \<notin> fst ` set spend"
      by simp
    with h show False
      by simp
  qed
  then show "distinct (map fst (spend @ map (\<lambda>i. (input_hash i, i)) inps))"
    using assms(1,3) by (simp add: comp_def image_image)
  show "\<forall>e \<in> set (spend @ map (\<lambda>i. (input_hash i, i)) inps). fst e = input_hash (snd e)"
    using assms(2) by auto
qed

lemma send_pending:
  assumes inv: "client_inv S c" and w': "wallet_ready S w'" and coins: "mset (wallet_coins (cl_wallet c)) = mset (m_inputs tx) + mset (wallet_coins w')"
    and spend: "\<And>inp. is_spendable (cl_wallet c) inp \<Longrightarrow> is_spendable w' inp" and fresh: "tx_id tx \<notin> fst ` set (cl_pending_txs c)"
  defines "c' \<equiv> import_transaction tx (register_pending_tx tx (c\<lparr>cl_wallet := w'\<rparr>))"
  shows "client_inv S c' \<and> mset (all_funds c') = mset (all_funds c) \<and> cl_pending_txs c' = cl_pending_txs c @ [(tx_id tx, tx)] \<and>
    cl_wallet c' = w' \<and> cl_pending_inputs c' = cl_pending_inputs c"
proof -
  let ?inps = "m_inputs tx" and ?spend = "cl_pending_spend c"
  note new = spent_inputs_new [OF inv coins]
  have spend': "cl_pending_spend c' = ?spend @ map (\<lambda>i. (input_hash i, i)) ?inps"
    using new(3,4) by (simp add: c'_def register_pending_tx_def import_transaction_def foldl_emplace_new)
  have c': "cl_wallet c' = w'" "cl_pending_txs c' = cl_pending_txs c @ [(tx_id tx, tx)]" "cl_pending_inputs c' = cl_pending_inputs c"
    using fresh by (simp_all add: c'_def register_pending_tx_def import_transaction_def emplace_def)
  have funds: "mset (all_funds c') = mset (all_funds c)"
    using coins by (simp add: all_funds_def c'(1) spend' comp_def)
  have spend_set: "snd ` set (cl_pending_spend c') = snd ` set ?spend \<union> set ?inps"
    by (simp add: spend' image_Un image_image)
  have old: "distinct (map fst ?spend)" "\<forall>e \<in> set ?spend. fst e = input_hash (snd e)"
    using inv by (simp_all add: client_inv_def)
  note keys = spend_keys [OF old new(3,4), folded spend']
  have txs: "\<forall>e \<in> set (cl_pending_txs c'). fst e = tx_id (snd e) \<and> set (m_inputs (snd e)) \<subseteq> snd ` set (cl_pending_spend c') \<and> distinct (m_inputs (snd e))"
    unfolding spend_set c'(2) using inv new(2) by (auto simp: client_inv_def)
  have "\<forall>e \<in> set (cl_pending_txs c'). \<forall>f \<in> set (cl_pending_txs c'). fst e \<noteq> fst f \<longrightarrow> set (m_inputs (snd e)) \<inter> set (m_inputs (snd f)) = {}"
  proof -
    have "\<forall>f \<in> set (cl_pending_txs c). set (m_inputs (snd f)) \<inter> set ?inps = {}"
      using client_inv_tx(2) [OF inv] new(1) by fastforce
    moreover have "\<forall>e \<in> set (cl_pending_txs c). \<forall>f \<in> set (cl_pending_txs c). fst e \<noteq> fst f \<longrightarrow> set (m_inputs (snd e)) \<inter> set (m_inputs (snd f)) = {}"
      using inv by (simp add: client_inv_def)
    ultimately show ?thesis
      unfolding c'(2) by (simp add: Int_commute)
  qed
  moreover have "\<forall>inp \<in> set (all_funds c). is_spendable w' inp \<and> 0 < input_value inp"
    using inv spend by (simp add: client_inv_def)
  moreover have "distinct (map fst (cl_pending_txs c'))"
    using inv fresh by (simp add: c'(2) client_inv_def)
  ultimately have "client_inv S c'"
    unfolding client_inv_def c'(1) using funds_cong [OF funds] keys txs inv w' by (simp add: client_inv_def wallet_ready_def)
  then show ?thesis
    using funds c' by blast
qed

lemma client_send_pending:
  assumes S: "schnorr_correct S" and inv: "client_inv S c" and val: "0 < val" and rnd: "pubkey_from_privkey S (fst rnd) \<noteq> None"
    and enough: "unat val \<le> coins_value (wallet_coins (cl_wallet c))"
    and fresh: "\<forall>tx w'. send_to S rnd val payee True (cl_wallet c) = Some (Some tx, w') \<longrightarrow> tx_id tx \<notin> fst ` set (cl_pending_txs c)"
    and unconfirmed: "\<forall>tx res. sentinel tx = Some res \<longrightarrow> r_tx_status res \<noteq> Confirmed"
  shows "\<exists>tx c'. client_send S rnd sentinel val payee c = Some (map_option (Pair tx) (sentinel tx), c') \<and> tx_valid S tx \<and>
    client_inv S c' \<and> mset (all_funds c') = mset (all_funds c) \<and> cl_pending_txs c' = cl_pending_txs c @ [(tx_id tx, tx)] \<and>
    mset (wallet_coins (cl_wallet c)) = mset (m_inputs tx) + mset (wallet_coins (cl_wallet c')) \<and>
    cl_pending_inputs c' = cl_pending_inputs c"
proof -
  have ready: "wallet_ready S (cl_wallet c)" and winv: "wallet_inv (cl_wallet c)"
    using client_inv_ready [OF inv] by (simp_all add: wallet_ready_def)
  obtain tx w' where tx: "send_to S rnd val payee True (cl_wallet c) = Some (Some tx, w')" "tx_valid S tx"
      "mset (wallet_coins (cl_wallet c)) = mset (m_inputs tx) + mset (wallet_coins w')" "wallet_ready S w'"
    using send_to_valid [OF S ready val rnd enough, of payee] by blast
  let ?c = "import_transaction tx (register_pending_tx tx (c\<lparr>cl_wallet := w'\<rparr>))"
  note p = send_pending [OF inv tx(4,3) send_to_spendable [OF winv tx(1)] fresh [rule_format, OF tx(1)]]
  have "client_send_transaction sentinel tx (register_pending_tx tx (c\<lparr>cl_wallet := w'\<rparr>)) = Some (sentinel tx, ?c)"
    using unconfirmed by (auto simp: client_send_transaction_def Let_def split: option.splits)
  then have "client_send S rnd sentinel val payee c = Some (map_option (Pair tx) (sentinel tx), ?c)"
    using tx(1) by (simp add: client_send_def create_transaction_def)
  then show ?thesis
    using p tx by metis
qed

section \<open>Synchronisation\<close>

lemma sync_states_False: "sync_states ss False = False"
  by (induction ss) auto

lemma sync_txs_False: "sync_txs states False c = Some (False, c)"
  by (induction states) (auto simp: Let_def sync_states_False)

text \<open>
  One transaction whose first state is neither unspent nor spent keeps all that are listed after it from being confirmed: the flag
  of the loop is never set again.
\<close>

lemma atomizer_sync_blocked:
  assumes "watchtower_reply (sync_request c) = Some ((txid, s # ss) # rest)" "st_status s \<noteq> Unspent" "st_status s \<noteq> Spent"
  shows "atomizer_sync watchtower_reply c = Some (False, c)"
  using assms by (simp add: atomizer_sync_def Let_def sync_states_False sync_txs_False)

text \<open>Of several outputs of one transaction, only the first that is imported is kept.\<close>

lemma import_keeps_first_output:
  assumes "m_tx_id (m_prevout j) = m_tx_id (m_prevout i)" "is_spendable (cl_wallet c) i"
  shows "import_send_input j (import_send_input i c) = import_send_input i c"
  using assms by (auto simp: import_send_input_def emplace_def)

section \<open>Properties\<close>

text \<open>C19: No payment loses money on its way. For a consistent client that can afford a payment, sending it gives a
  valid transaction and marks its inputs as pending, so that wallet and pending inputs together are what they were before; as long as it is not confirmed, abandoning it gives
  exactly these inputs back to the wallet, and the client is consistent throughout. Assumed is that signatures of libsecp256k1
  verify and that the identifier of the new transaction is not that of a pending one.\<close>

theorem client_funds_restored:
  assumes "schnorr_correct S" "client_inv S c" "0 < val" "pubkey_from_privkey S (fst rnd) \<noteq> None"
    and "unat val \<le> coins_value (wallet_coins (cl_wallet c))"
    and "\<forall>tx w'. send_to S rnd val payee True (cl_wallet c) = Some (Some tx, w') \<longrightarrow> tx_id tx \<notin> fst ` set (cl_pending_txs c)"
    and "\<forall>tx res. sentinel tx = Some res \<longrightarrow> r_tx_status res \<noteq> Confirmed"
  shows "\<exists>tx c1 c2. client_send S rnd sentinel val payee c = Some (map_option (Pair tx) (sentinel tx), c1) \<and> check_tx S tx = None \<and>
    client_inv S c1 \<and> mset (all_funds c1) = mset (all_funds c) \<and>
    abandon_transaction (tx_id tx) c1 = Some (True, c2) \<and> client_inv S c2 \<and> mset (all_funds c2) = mset (all_funds c) \<and>
    mset (wallet_coins (cl_wallet c2)) = mset (wallet_coins (cl_wallet c)) \<and>
    cl_pending_txs c2 = cl_pending_txs c \<and> cl_pending_inputs c2 = cl_pending_inputs c"
proof -
  obtain tx c1 where s: "client_send S rnd sentinel val payee c = Some (map_option (Pair tx) (sentinel tx), c1)" "tx_valid S tx"
      "client_inv S c1" "mset (all_funds c1) = mset (all_funds c)" "cl_pending_txs c1 = cl_pending_txs c @ [(tx_id tx, tx)]"
      "mset (wallet_coins (cl_wallet c)) = mset (m_inputs tx) + mset (wallet_coins (cl_wallet c1))" "cl_pending_inputs c1 = cl_pending_inputs c"
    using client_send_pending [OF assms] by blast
  have "distinct (map fst (cl_pending_txs c1))"
    using s(3) by (simp add: client_inv_def)
  then have new: "tx_id tx \<notin> fst ` set (cl_pending_txs c)"
    by (simp add: s(5))
  then have "map_of (cl_pending_txs c) (tx_id tx) = None" "map_erase (tx_id tx) (cl_pending_txs c) = cl_pending_txs c"
    by (simp add: map_of_eq_None_iff, auto simp: map_erase_def filter_id_conv rev_image_eqI)
  then have "map_of (cl_pending_txs c1) (tx_id tx) = Some tx" "map_erase (tx_id tx) (cl_pending_txs c1) = cl_pending_txs c"
    by (simp_all add: s(5) map_add_def) (simp add: map_erase_def)
  with abandon_restores [OF s(3), of "tx_id tx" tx] s show ?thesis
    by (auto simp: check_tx_None add.commute)
qed

definition sample_client :: client where
  "sample_client = \<lparr>cl_pending_txs = [], cl_pending_spend = [], cl_pending_inputs = [], cl_wallet = sample_wallet\<rparr>"

lemma sample_client_inv: "client_inv toy_secp sample_client"
proof -
  have coins: "wallet_coins sample_wallet = [sample_utxo]"
    by (simp add: sample_wallet_def add_key_def wallet_init_def wallet_coins_def seed_coins_def)
  show ?thesis
    using sample_wallet_ready by (simp add: client_inv_def all_funds_def sample_client_def wallet_ready_def coins)
qed

theorem client_funds_restored_witness:
  "\<exists>tx c1 c2. client_send toy_secp (sample_pair 4, 0) (\<lambda>_. None) 5 (sample_pair 5) sample_client = Some (None, c1) \<and>
     abandon_transaction (tx_id tx) c1 = Some (True, c2) \<and> mset (wallet_coins (cl_wallet c2)) = {#sample_utxo#}"
proof -
  have coins: "wallet_coins (cl_wallet sample_client) = [sample_utxo]"
    by (simp add: sample_client_def sample_wallet_def add_key_def wallet_init_def wallet_coins_def seed_coins_def)
  moreover have "pubkey_from_privkey toy_secp (fst (sample_pair 4, 0)) \<noteq> None"
    by (simp add: toy_secp_def pubkey_from_privkey_def sample_pair_def)
  moreover have "coins_value [sample_utxo] = 7"
    by (simp add: coins_value_def sample_utxo_def input_value_def)
  ultimately show ?thesis
    using client_funds_restored [OF schnorr_correct_toy sample_client_inv, of 5 "(sample_pair 4, 0)" "sample_pair 5" "\<lambda>_. None"]
    by (fastforce simp: sample_client_def)
qed

end
