(* ===== verification/Client_Files.thy ===== *)
theory Client_Files
  imports Client "HOL-Library.Product_Lexorder"
begin

text \<open>
  The files of a client: \<open>wallet::save\<close> and \<open>wallet::load\<close> (\<open>uhs/transaction/wallet.cpp\<close>),
  \<open>save_client_state\<close>, \<open>load_client_state\<close> and \<open>init\<close> (\<open>uhs/client/client.cpp\<close>). A file is the list of its
  bytes, or \<open>None\<close> when it is not there. Shown is that a client that is started again on its files has
  the same funds, keys and pending transactions.
\<close>

section \<open>Wallet files\<close>

text \<open>The order of iteration of the set of unspent outputs, \<open>cmp_input\<close>.\<close>

definition cmp_key :: "input \<Rightarrow> hash_t \<times> u64" where
  "cmp_key inp = (m_tx_id (m_prevout inp), m_index (m_prevout inp))"

definition utxos_order :: "input list \<Rightarrow> input list" where
  "utxos_order s = sort_key cmp_key s"

definition utxos_insert :: "input \<Rightarrow> input list \<Rightarrow> input list" where
  "utxos_insert inp s = (if m_prevout inp \<in> m_prevout ` set s then s else s @ [inp])"

definition wallet_save :: "wallet \<Rightarrow> byte list" where
  "wallet_save w = put_map put_array put_array (w_keys w) @ put_set put_input (utxos_order (w_utxos_set w))"

definition get_utxos :: "input list getter" where
  "get_utxos bs = do {
     (len, r) \<leftarrow> get_u64 bs;
     (xs, r) \<leftarrow> get_many get_input (unat len) r;
     Some (utxos_order (foldl (\<lambda>s x. utxos_insert x s) [] xs), r) }"

text \<open>
  \<open>None\<close> is a file that cannot be read to its end: the code does not look at the state of the stream and goes on with
  the entries that were read before the failure.
\<close>

definition wallet_load :: "byte list \<Rightarrow> wallet \<Rightarrow> wallet option" where
  "wallet_load buf w = do {
     (keys, r) \<leftarrow> get_map (get_array pubkey_len) (get_array pubkey_len) buf;
     (utxos, r) \<leftarrow> get_utxos r;
     Some (w\<lparr>w_keys := keys, w_pubkeys := map fst keys,
             w_witness_programs := foldl (\<lambda>m k. emplace (get_p2pk_witness_commitment (fst k)) (fst k) m) [] keys,
             w_utxos_set := utxos, w_spend_queue := utxos, w_balance := foldl (\<lambda>b inp. b + input_value inp) 0 utxos\<rparr>) }"

section \<open>Client files\<close>

definition save_client_state :: "client \<Rightarrow> byte list" where
  "save_client_state c =
    put_map put_array put_full_tx (cl_pending_txs c) @ put_map put_array put_input (cl_pending_inputs c) @
    put_map put_array put_input (cl_pending_spend c)"

text \<open>\<open>None\<close>: the program ends with a fatal error.\<close>

definition load_client_state :: "byte list option \<Rightarrow> client \<Rightarrow> client option" where
  "load_client_state client_file c =
    (case client_file of
       None \<Rightarrow> Some c
     | Some buf \<Rightarrow> do {
         (txs, r) \<leftarrow> get_map (get_array hash_size) get_full_tx buf;
         (inps, r) \<leftarrow> get_map (get_array hash_size) get_input r;
         (spend, r) \<leftarrow> get_map (get_array hash_size) get_input r;
         Some (c\<lparr>cl_pending_txs := txs, cl_pending_inputs := inps, cl_pending_spend := spend\<rparr>) })"

definition client_new :: client where
  "client_new = \<lparr>cl_pending_txs = [], cl_pending_spend = [], cl_pending_inputs = [], cl_wallet = wallet_init\<rparr>"

text \<open>The connections to the sentinel and to the other servers succeed or not: \<open>sentinel_ok\<close> and \<open>derived_ok\<close>.\<close>

definition client_init :: "bool \<Rightarrow> bool \<Rightarrow> byte list option \<Rightarrow> byte list option \<Rightarrow> client \<Rightarrow> (bool \<times> client) option" where
  "client_init sentinel_ok derived_ok wallet_file client_file c = do {
     w \<leftarrow> (case wallet_file of None \<Rightarrow> Some (cl_wallet c) | Some buf \<Rightarrow> wallet_load buf (cl_wallet c));
     c' \<leftarrow> load_client_state client_file (c\<lparr>cl_wallet := w\<rparr>);
     Some (if \<not> sentinel_ok then False else derived_ok, c') }"

definition client_save :: "client \<Rightarrow> byte list option \<times> byte list option" where
  "client_save c = (Some (wallet_save (cl_wallet c)), Some (save_client_state c))"

section \<open>Restart\<close>

text \<open>The sizes that the arrays of the code have by their types.\<close>

definition client_sized :: "client \<Rightarrow> bool" where
  "client_sized c \<longleftrightarrow>
     wf_map (is_array hash_size) wf_full_tx (cl_pending_txs c) \<and> wf_map (is_array hash_size) wf_input (cl_pending_inputs c) \<and>
     wf_map (is_array hash_size) wf_input (cl_pending_spend c) \<and>
     wf_map (is_array pubkey_len) (is_array pubkey_len) (w_keys (cl_wallet c)) \<and>
     length (w_utxos_set (cl_wallet c)) < 2 ^ 64 \<and> (\<forall>inp \<in> set (w_utxos_set (cl_wallet c)). wf_input inp)"

lemma set_utxos_order [simp]: "set (utxos_order s) = set s"
  by (simp add: utxos_order_def)

lemma mset_utxos_order [simp]: "mset (utxos_order s) = mset s"
  by (simp add: utxos_order_def)

lemma length_utxos_order [simp]: "length (utxos_order s) = length s"
  by (simp add: utxos_order_def)

lemma utxos_order_order [simp]: "utxos_order (utxos_order s) = utxos_order s"
  by (simp add: utxos_order_def sorted_sort_id sort_key_id_if_sorted)

lemma distinct_utxos_order: "distinct (map m_prevout (utxos_order s)) = distinct (map m_prevout s)"
  by (rule mset_eq_imp_distinct_iff) simp

lemma foldl_utxos_insert:
  "distinct (map m_prevout (acc @ xs)) \<Longrightarrow> foldl (\<lambda>s x. utxos_insert x s) acc xs = acc @ xs"
  by (induction xs arbitrary: acc) (auto simp: utxos_insert_def)

lemma get_utxos_put:
  assumes "distinct (map m_prevout s)" "length s < 2 ^ 64" "\<forall>inp \<in> set s. wf_input inp"
  shows "get_utxos (put_set put_input (utxos_order s) @ r) = Some (utxos_order s, r)"
proof -
  have "get_many get_input (length s) (concat (map put_input (utxos_order s)) @ r) = Some (utxos_order s, r)"
    using get_many_put [OF input_fmt.codec_axioms, of "utxos_order s" r] assms(3) by simp
  then show ?thesis
    using assms(1,2) by (simp add: get_utxos_def put_set_def u64.get_put unat_length_u64 foldl_utxos_insert distinct_utxos_order)
qed

lemma foldl_plus_sum: "foldl (\<lambda>b inp. b + input_value inp) t xs = t + inputs_total xs"
  by (induction xs arbitrary: t) (simp_all add: add.assoc)

text \<open>The witness programs of a loaded wallet are the commitments of its keys.\<close>

definition programs_of :: "(pubkey_t \<times> privkey_t) list \<Rightarrow> (hash_t \<times> pubkey_t) list" where
  "programs_of keys = foldl (\<lambda>m k. emplace (get_p2pk_witness_commitment (fst k)) (fst k) m) [] keys"

lemma foldl_emplace_dom:
  "dom (map_of (foldl (\<lambda>m k. emplace (f k) (g k) m) m ks)) = dom (map_of m) \<union> f ` set ks"
proof (induction ks arbitrary: m)
  case (Cons k ks)
  have "dom (map_of (emplace (f k) (g k) m)) = insert (f k) (dom (map_of m))"
    by (auto simp: emplace_def dom_map_of_conv_image_fst)
  then show ?case
    using Cons.IH [of "emplace (f k) (g k) m"] by simp
qed simp

lemma foldl_emplace_Some:
  "map_of (foldl (\<lambda>m k. emplace (f k) (g k) m) m ks) c = Some v \<Longrightarrow> map_of m c = Some v \<or> (\<exists>k \<in> set ks. c = f k \<and> v = g k)"
proof (induction ks arbitrary: m)
  case (Cons k ks)
  then have "map_of (emplace (f k) (g k) m) c = Some v \<or> (\<exists>k \<in> set ks. c = f k \<and> v = g k)"
    by simp
  then show ?case
    by (auto simp: map_of_emplace split: if_splits option.splits)
qed simp

lemma programs_of_Some: "map_of (programs_of keys) c = Some pk \<Longrightarrow> c = get_p2pk_witness_commitment pk \<and> pk \<in> fst ` set keys"
  unfolding programs_of_def by (drule foldl_emplace_Some) auto

lemma programs_of_dom: "dom (map_of (programs_of keys)) = (\<lambda>k. get_p2pk_witness_commitment (fst k)) ` set keys"
  by (simp add: programs_of_def foldl_emplace_dom)

lemma wallet_load_save:
  assumes "wallet_inv w" "wf_map (is_array pubkey_len) (is_array pubkey_len) (w_keys w)"
    and "length (w_utxos_set w) < 2 ^ 64" "\<forall>inp \<in> set (w_utxos_set w). wf_input inp"
  shows "wallet_load (wallet_save w) v = Some (v\<lparr>w_keys := w_keys w, w_pubkeys := map fst (w_keys w),
    w_witness_programs := programs_of (w_keys w), w_utxos_set := utxos_order (w_utxos_set w),
    w_spend_queue := utxos_order (w_utxos_set w), w_balance := w_balance w\<rparr>)"
proof -
  have a: "codec put_array (get_array pubkey_len) (is_array pubkey_len)"
    using strict_codec_array by (simp add: strict_codec_def)
  have d: "distinct (map m_prevout (w_utxos_set w))" and b: "w_balance w = inputs_total (w_utxos_set w)"
    using assms(1) by (simp_all add: wallet_inv_def)
  have "get_utxos (put_set put_input (utxos_order (w_utxos_set w))) = Some (utxos_order (w_utxos_set w), [])"
    using get_utxos_put [OF d assms(3,4), of "[]"] by simp
  moreover have "inputs_total (utxos_order (w_utxos_set w)) = inputs_total (w_utxos_set w)"
    by (metis mset_utxos_order mset_map sum_mset_sum_list)
  ultimately show ?thesis
    by (simp add: wallet_load_def wallet_save_def codec.get_put [OF codec_map [OF a a] assms(2)] programs_of_def foldl_plus_sum b)
qed

lemma load_client_state_save:
  assumes "client_sized c"
  shows "load_client_state (Some (save_client_state c)) d = Some (d\<lparr>cl_pending_txs := cl_pending_txs c,
    cl_pending_inputs := cl_pending_inputs c, cl_pending_spend := cl_pending_spend c\<rparr>)"
proof -
  note i = codec_map [OF hash.codec_axioms input_fmt.codec_axioms]
  note t = codec_map [OF hash.codec_axioms full_tx_fmt.codec_axioms]
  show ?thesis
    using assms by (simp add: client_sized_def load_client_state_def save_client_state_def codec.get_put [OF t] codec.get_put [OF i]
        codec.get_put_nil [OF i])
qed

text \<open>What a loaded wallet shares with the saved one.\<close>

definition reloaded :: "wallet \<Rightarrow> wallet" where
  "reloaded w = wallet_init\<lparr>w_keys := w_keys w, w_pubkeys := map fst (w_keys w),
    w_witness_programs := programs_of (w_keys w), w_utxos_set := utxos_order (w_utxos_set w),
    w_spend_queue := utxos_order (w_utxos_set w), w_balance := w_balance w\<rparr>"

lemma reloaded_inv: "wallet_inv w \<Longrightarrow> wallet_inv (reloaded w)"
proof -
  assume "wallet_inv w"
  moreover have "inputs_total (utxos_order (w_utxos_set w)) = inputs_total (w_utxos_set w)"
    by (metis mset_utxos_order mset_map sum_mset_sum_list)
  ultimately show ?thesis
    by (simp add: wallet_inv_def reloaded_def distinct_utxos_order)
qed

lemma reloaded_keys_ok: "keys_ok S w \<Longrightarrow> keys_ok S (reloaded w)"
proof -
  assume "keys_ok S w"
  moreover have "map_of (w_keys w) pk \<noteq> None" if "map_of (programs_of (w_keys w)) c = Some pk" for c pk
    using programs_of_Some [OF that] by (simp only: map_of_eq_None_iff not_not)
  moreover have "c = get_p2pk_witness_commitment pk" if "map_of (programs_of (w_keys w)) c = Some pk" for c pk
    using programs_of_Some [OF that] by (rule conjunct1)
  ultimately show ?thesis
    unfolding keys_ok_def reloaded_def by simp
qed

lemma reloaded_spendable: "keys_ok S w \<Longrightarrow> is_spendable w inp \<Longrightarrow> is_spendable (reloaded w) inp"
proof -
  let ?c = "m_witness_program_commitment (m_prevout_data inp)"
  assume k: "keys_ok S w" and "is_spendable w inp"
  then obtain pk where "map_of (w_witness_programs w) ?c = Some pk"
    by (auto simp: is_spendable_def)
  with k have c: "?c = get_p2pk_witness_commitment pk" and "map_of (w_keys w) pk \<noteq> None"
    unfolding keys_ok_def by blast+
  then obtain sk where "(pk, sk) \<in> set (w_keys w)"
    by (auto dest: map_of_SomeD)
  then have "?c \<in> dom (map_of (programs_of (w_keys w)))"
    by (auto simp: programs_of_dom c intro: rev_image_eqI)
  then show ?thesis
    by (auto simp: is_spendable_def reloaded_def)
qed

lemma reloaded_coins: "w_seed_from w = w_seed_to w \<Longrightarrow> wallet_coins w = w_utxos_set w \<and> wallet_coins (reloaded w) = utxos_order (w_utxos_set w)"
  by (simp add: wallet_coins_def seed_coins_def reloaded_def wallet_init_def)

lemma client_inv_cong:
  assumes "client_inv S c" "mset (all_funds c') = mset (all_funds c)" "wallet_inv (cl_wallet c')" "keys_ok S (cl_wallet c')"
    and "\<forall>inp. is_spendable (cl_wallet c) inp \<longrightarrow> is_spendable (cl_wallet c') inp"
    and "cl_pending_spend c' = cl_pending_spend c" "cl_pending_txs c' = cl_pending_txs c"
  shows "client_inv S c'"
proof -
  have "set (all_funds c') = set (all_funds c)" "coins_value (all_funds c') = coins_value (all_funds c)"
    "mset (map m_prevout (all_funds c')) = mset (map m_prevout (all_funds c))"
    by (rule mset_eq_setD [OF assms(2)], rule coins_value_mset [OF assms(2)], simp only: mset_map assms(2))
  moreover from this(3) have "distinct (map m_prevout (all_funds c')) = distinct (map m_prevout (all_funds c))"
    by (rule mset_eq_imp_distinct_iff)
  ultimately show ?thesis
    using assms(1,3-7) unfolding client_inv_def by simp
qed

text \<open>C20: A client survives a restart. What \<open>save\<close> writes is read back by \<open>init\<close> of a new client: the same pending
  transactions, pending inputs, received inputs and keys, the same coins and the same balance, and the client is consistent again,
  so that every coin is still spendable. The wallet has no pre-seeded outputs, which are not written.\<close>

theorem client_restart:
  assumes "client_inv S c" "client_sized c" "w_seed_from (cl_wallet c) = w_seed_to (cl_wallet c)"
  shows "\<exists>c'. client_init sentinel_ok derived_ok (fst (client_save c)) (snd (client_save c)) client_new =
      Some (sentinel_ok \<and> derived_ok, c') \<and> client_inv S c' \<and> mset (all_funds c') = mset (all_funds c) \<and>
    cl_pending_txs c' = cl_pending_txs c \<and> cl_pending_spend c' = cl_pending_spend c \<and> cl_pending_inputs c' = cl_pending_inputs c \<and>
    w_keys (cl_wallet c') = w_keys (cl_wallet c) \<and> client_balance c' = client_balance c"
proof -
  let ?w = "cl_wallet c"
  let ?c' = "c\<lparr>cl_wallet := reloaded ?w\<rparr>"
  have w: "wallet_inv ?w" "keys_ok S ?w"
    using assms(1) by (simp_all add: client_inv_def)
  have "wallet_load (wallet_save ?w) wallet_init = Some (reloaded ?w)"
    using wallet_load_save [OF w(1)] assms(2) by (simp add: client_sized_def reloaded_def)
  then have i: "client_init sentinel_ok derived_ok (fst (client_save c)) (snd (client_save c)) client_new =
      Some (sentinel_ok \<and> derived_ok, ?c')"
    by (simp add: client_init_def client_save_def client_new_def load_client_state_save [OF assms(2)])
  have f: "mset (all_funds ?c') = mset (all_funds c)"
    using reloaded_coins [OF assms(3)] by (simp add: all_funds_def)
  have "client_inv S ?c'"
    by (rule client_inv_cong [OF assms(1) f])
      (simp_all add: reloaded_inv [OF w(1)] reloaded_keys_ok [OF w(2)] reloaded_spendable [OF w(2)])
  moreover have "client_balance ?c' = client_balance c"
    using assms(3) by (simp add: client_balance_def wallet_balance_def reloaded_def wallet_init_def)
  ultimately show ?thesis
    using i f by (intro exI [of _ ?c']) (simp add: reloaded_def)
qed

theorem client_restart_witness:
  "\<exists>c'. client_init True True (fst (client_save sample_client)) (snd (client_save sample_client)) client_new = Some (True, c') \<and>
     all_funds c' = [sample_utxo] \<and> client_balance c' = 7"
proof -
  have "client_sized sample_client"
    by (simp add: client_sized_def sample_client_def sample_wallet_def add_key_def wallet_init_def wf_map_def emplace_def
        sample_utxo_def wf_input_def wf_out_point_def wf_output_def sample_pair_def size_defs get_p2pk_witness_commitment_def hash_data_sha256)
  moreover have "w_seed_from (cl_wallet sample_client) = w_seed_to (cl_wallet sample_client)" "all_funds sample_client = [sample_utxo]"
      "client_balance sample_client = 7"
    by (simp_all add: sample_client_def sample_wallet_def add_key_def wallet_init_def all_funds_def wallet_coins_def seed_coins_def
        client_balance_def wallet_balance_def sample_utxo_def input_value_def)
  ultimately show ?thesis
    using client_restart [OF sample_client_inv, of True True] by fastforce
qed

end
