(* ===== verification/Bech32.thy ===== *)
theory Bech32
  imports Decimal
begin

text \<open>
  Addresses as text (\<open>3rdparty/bech32\<close>): the Bech32 checksum, its encoder and decoder, and \<open>ConvertBits\<close>, which regroups bits. The
  checksum is a linear map over exclusive or; the theory shows that it is correct and that every changed character is detected.
\<close>

unbundle bit_operations_syntax

section \<open>Checksum\<close>

text \<open>The body of the loop of \<open>PolyMod\<close>.\<close>

definition polymod_step :: "u32 \<Rightarrow> byte \<Rightarrow> u32" where
  "polymod_step c v =
    (let c0 = ucast (drop_bit 25 c) :: byte;
         c = push_bit 5 (c AND 0x1ffffff) XOR ucast v;
         c = if c0 AND 1 \<noteq> 0 then c XOR 0x3b6a57b2 else c;
         c = if c0 AND 2 \<noteq> 0 then c XOR 0x26508e6d else c;
         c = if c0 AND 4 \<noteq> 0 then c XOR 0x1ea119fa else c;
         c = if c0 AND 8 \<noteq> 0 then c XOR 0x3d4233dd else c
     in if c0 AND 16 \<noteq> 0 then c XOR 0x2a1462b3 else c)"

definition PolyMod :: "byte list \<Rightarrow> u32" where
  "PolyMod v = foldl polymod_step 1 v"

definition LowerCase :: "char \<Rightarrow> char" where
  "LowerCase c = (if 65 \<le> (of_char c :: nat) \<and> (of_char c :: nat) \<le> 90 then char_of (of_char c - 65 + 97 :: nat) else c)"

definition ExpandHRP :: "string \<Rightarrow> byte list" where
  "ExpandHRP hrp = map (drop_bit 5) (string_bytes hrp) @ [0] @ map (\<lambda>c. c AND 0x1f) (string_bytes hrp)"

definition VerifyChecksum :: "string \<Rightarrow> byte list \<Rightarrow> bool" where
  "VerifyChecksum hrp values \<longleftrightarrow> PolyMod (ExpandHRP hrp @ values) = 1"

definition CreateChecksum :: "string \<Rightarrow> byte list \<Rightarrow> byte list" where
  "CreateChecksum hrp values =
    (let m = PolyMod (ExpandHRP hrp @ values @ replicate 6 0) XOR 1
     in map (\<lambda>i. ucast (drop_bit (5 * (5 - i)) m AND 31)) [0..<6])"

section \<open>Encoder and decoder\<close>

definition CHARSET :: string where
  "CHARSET = ''qpzry9x8gf2tvdw0s3jn54khce6mua7l''"

definition CHARSET_REV :: "int list" where
  "CHARSET_REV = [
    -1, -1, -1, -1, -1, -1, -1, -1, -1, -1, -1, -1, -1, -1, -1, -1,
    -1, -1, -1, -1, -1, -1, -1, -1, -1, -1, -1, -1, -1, -1, -1, -1,
    -1, -1, -1, -1, -1, -1, -1, -1, -1, -1, -1, -1, -1, -1, -1, -1,
    15, -1, 10, 17, 21, 20, 26, 30,  7,  5, -1, -1, -1, -1, -1, -1,
    -1, 29, -1, 24, 13, 25,  9,  8, 23, -1, 18, 22, 31, 27, 19, -1,
     1,  0,  3, 16, 11, 28, 12, 14,  6,  4,  2, -1, -1, -1, -1, -1,
    -1, 29, -1, 24, 13, 25,  9,  8, 23, -1, 18, 22, 31, 27, 19, -1,
     1,  0,  3, 16, 11, 28, 12, 14,  6,  4,  2, -1, -1, -1, -1, -1]"

definition is_upper :: "char \<Rightarrow> bool" where
  "is_upper c \<longleftrightarrow> 65 \<le> (of_char c :: nat) \<and> (of_char c :: nat) \<le> 90"

definition is_lower :: "char \<Rightarrow> bool" where
  "is_lower c \<longleftrightarrow> 97 \<le> (of_char c :: nat) \<and> (of_char c :: nat) \<le> 122"

text \<open>\<open>None\<close>: the assertion fails, or a value has no character in the table.\<close>

definition Encode :: "string \<Rightarrow> byte list \<Rightarrow> string option" where
  "Encode hrp values =
    (if list_ex is_upper hrp then None
     else let combined = values @ CreateChecksum hrp values in
       if list_ex (\<lambda>c. length CHARSET \<le> unat c) combined then None
       else Some (hrp @ ''1'' @ map (\<lambda>c. CHARSET ! unat c) combined))"

text \<open>The position of the last separator.\<close>

fun rfind :: "char \<Rightarrow> string \<Rightarrow> nat option" where
  "rfind x [] = None"
| "rfind x (c # cs) = (case rfind x cs of Some i \<Rightarrow> Some (Suc i) | None \<Rightarrow> if c = x then Some 0 else None)"

fun rev_values :: "string \<Rightarrow> byte list option" where
  "rev_values [] = Some []"
| "rev_values (c # cs) =
    (let r = CHARSET_REV ! of_char c in
     if r = -1 then None else map_option ((#) (word_of_int r)) (rev_values cs))"

definition Decode :: "string \<Rightarrow> string \<times> byte list" where
  "Decode str =
    (if list_ex (\<lambda>c. \<not> is_lower c \<and> \<not> is_upper c \<and> ((of_char c :: nat) < 33 \<or> 126 < (of_char c :: nat))) str then ([], [])
     else if list_ex is_lower str \<and> list_ex is_upper str then ([], [])
     else case rfind CHR ''1'' str of
       None \<Rightarrow> ([], [])
     | Some pos \<Rightarrow>
         if 90 < length str \<or> pos = 0 \<or> length str < pos + 7 then ([], [])
         else case rev_values (drop (pos + 1) str) of
           None \<Rightarrow> ([], [])
         | Some values \<Rightarrow>
             let hrp = map LowerCase (take pos str) in
             if \<not> VerifyChecksum hrp values then ([], []) else (hrp, take (length values - 6) values))"

section \<open>Regrouping bits\<close>

text \<open>The inner loop of \<open>ConvertBits\<close>: while there are enough bits, the next group is emitted. The accumulator is masked to less
  than 64 bits, so that it is a natural number.\<close>

fun emit_bits :: "nat \<Rightarrow> nat \<Rightarrow> nat \<Rightarrow> nat list \<times> nat" where
  "emit_bits tobits acc bits =
    (if tobits \<le> bits \<and> 0 < tobits
     then let (out, b) = emit_bits tobits acc (bits - tobits) in ((drop_bit (bits - tobits) acc AND (2 ^ tobits - 1)) # out, b)
     else ([], bits))"

declare emit_bits.simps [simp del]

fun convert_loop :: "nat \<Rightarrow> nat \<Rightarrow> nat \<Rightarrow> nat \<Rightarrow> nat list \<Rightarrow> nat list \<times> nat \<times> nat" where
  "convert_loop frombits tobits acc bits [] = ([], acc, bits)"
| "convert_loop frombits tobits acc bits (x # xs) =
    (let acc = (push_bit frombits acc OR x) AND (2 ^ (frombits + tobits - 1) - 1);
         (out, bits) = emit_bits tobits acc (bits + frombits);
         (outs, r) = convert_loop frombits tobits acc bits xs
     in (out @ outs, r))"

definition ConvertBits :: "nat \<Rightarrow> nat \<Rightarrow> bool \<Rightarrow> nat list \<Rightarrow> bool \<times> nat list" where
  "ConvertBits frombits tobits pad xs =
    (let (outs, acc, bits) = convert_loop frombits tobits 0 0 xs;
         rest = push_bit (tobits - bits) acc AND (2 ^ tobits - 1)
     in if pad then (True, outs @ (if bits \<noteq> 0 then [rest] else []))
        else (\<not> (frombits \<le> bits \<or> rest \<noteq> 0), outs))"

section \<open>The checksum is linear\<close>

definition gen_bit :: "u32 \<Rightarrow> nat \<Rightarrow> u32 \<Rightarrow> u32" where
  "gen_bit c n k = (if bit c n then k else 0)"

definition polymod_gen :: "u32 \<Rightarrow> u32" where
  "polymod_gen c = gen_bit c 25 0x3b6a57b2 XOR gen_bit c 26 0x26508e6d XOR gen_bit c 27 0x1ea119fa XOR gen_bit c 28 0x3d4233dd XOR gen_bit c 29 0x2a1462b3"

definition polymod_shift :: "u32 \<Rightarrow> u32" where
  "polymod_shift c = push_bit 5 (c AND 0x1ffffff) XOR polymod_gen c"

lemma top_bit: "(ucast (drop_bit 25 c) :: byte) AND 2 ^ n = 0 \<longleftrightarrow> \<not> bit c (25 + n)" if "n < 5" for c :: u32
  using that by (simp add: and_exp_eq_0_iff_not_bit bit_ucast_iff bit_drop_bit_eq)

lemma polymod_step_eq: "polymod_step c v = polymod_shift c XOR ucast v"
  using top_bit [of 0 c] top_bit [of 1 c] top_bit [of 2 c] top_bit [of 3 c] top_bit [of 4 c]
  by (simp add: polymod_step_def polymod_shift_def polymod_gen_def gen_bit_def Let_def ac_simps)

lemma gen_bit_xor: "gen_bit (a XOR b) n k = gen_bit a n k XOR gen_bit b n k"
  by (simp add: gen_bit_def bit_xor_iff)

lemma polymod_shift_xor: "polymod_shift (a XOR b) = polymod_shift a XOR polymod_shift b"
  by (simp add: polymod_shift_def polymod_gen_def gen_bit_xor push_bit_xor bit.conj_xor_distrib2 ac_simps)

lemma polymod_shift_0 [simp]: "polymod_shift 0 = 0"
  by (simp add: polymod_shift_def polymod_gen_def gen_bit_def)

lemma polymod_step_xor: "polymod_step (a XOR b) (v XOR w) = polymod_step a v XOR polymod_step b w"
  by (simp add: polymod_step_eq polymod_shift_xor unsigned_xor_eq ac_simps)

abbreviation polymod_from :: "u32 \<Rightarrow> byte list \<Rightarrow> u32" where
  "polymod_from \<equiv> foldl polymod_step"

lemma polymod_from_xor:
  "length v = length w \<Longrightarrow> polymod_from (a XOR b) (map2 (XOR) v w) = polymod_from a v XOR polymod_from b w"
  by (induction v w arbitrary: a b rule: list_induct2) (simp_all add: polymod_step_xor)

lemma polymod_zeros: "polymod_from 0 (replicate n 0) = 0"
  by (induction n) (simp_all add: polymod_step_eq)

section \<open>The checksum fits into thirty bits\<close>

definition small :: "u32 \<Rightarrow> bool" where
  "small c \<longleftrightarrow> (\<forall>n. bit c n \<longrightarrow> n < 30)"

lemma smallI: "\<not> bit c 30 \<Longrightarrow> \<not> bit c 31 \<Longrightarrow> small c"
proof -
  assume b: "\<not> bit c 30" "\<not> bit c 31"
  have "n < 30" if "bit c n" for n
  proof -
    have "n < 32"
      using bit_imp_le_length [OF that] by simp
    then show ?thesis
      using that b by (cases "n = 30"; cases "n = 31") auto
  qed
  then show ?thesis
    by (simp add: small_def)
qed

lemma small_xor: "small a \<Longrightarrow> small b \<Longrightarrow> small (a XOR b)"
  by (auto simp: small_def bit_xor_iff)

lemma small_ucast: "small (ucast (v :: byte))"
  by (auto simp: small_def bit_ucast_iff dest: bit_imp_le_length)

lemma small_gen: "small (polymod_gen c)"
  by (rule smallI) (simp_all add: polymod_gen_def gen_bit_def bit_xor_iff)

lemma small_shift: "small (polymod_shift c)"
proof -
  have "small (push_bit 5 (c AND 0x1ffffff))"
    by (rule smallI) (simp_all add: bit_push_bit_iff bit_and_iff)
  then show ?thesis
    by (simp add: polymod_shift_def small_xor small_gen)
qed

lemma small_step: "small (polymod_step c v)"
  by (simp add: polymod_step_eq small_xor small_shift small_ucast)

lemma small_polymod: "small c \<Longrightarrow> small (polymod_from c vs)"
  by (induction vs arbitrary: c) (simp_all add: small_step)

lemma polymod_shift_inj:
  assumes z: "polymod_shift c = 0" and s: "small c"
  shows "c = 0"
proof -
  have low: "\<not> bit (polymod_gen c) i" if "i < 5" for i
    using arg_cong [OF z, of "\<lambda>x. bit x i"] that by (simp add: polymod_shift_def bit_xor_iff bit_push_bit_iff bit_and_iff)
  have top: "\<not> bit c 25 \<and> \<not> bit c 26 \<and> \<not> bit c 27 \<and> \<not> bit c 28 \<and> \<not> bit c 29"
    using low [of 0] low [of 1] low [of 2] low [of 3] low [of 4]
    by (simp add: polymod_gen_def gen_bit_def bit_xor_iff split: if_splits)
  have m: "(0x1ffffff :: u32) = mask 25"
    by (simp add: mask_eq_exp_minus_1)
  have "push_bit 5 (c AND mask 25) = 0"
    using z top by (simp only: polymod_shift_def polymod_gen_def gen_bit_def m) simp
  then have shifted: "\<not> bit (push_bit 5 (c AND mask 25)) (n + 5)" for n
    by simp
  have low: "\<not> bit c n" if "n < 25" for n
    using shifted [of n] that by (simp add: bit_push_bit_iff bit_and_iff bit_mask_iff)
  have "\<not> bit c n" for n
  proof (cases "n < 25")
    case False
    then have "n = 25 \<or> n = 26 \<or> n = 27 \<or> n = 28 \<or> n = 29 \<or> 30 \<le> n" by linarith
    then show ?thesis
      using top s by (auto simp: small_def)
  qed (rule low)
  then show ?thesis
    by (simp add: bit_eq_iff)
qed

section \<open>Correct checksums\<close>

lemma polymod_shift_push: "(\<And>n. bit c n \<Longrightarrow> n < 25) \<Longrightarrow> polymod_shift c = push_bit 5 c"
proof -
  assume c: "\<And>n. bit c n \<Longrightarrow> n < 25"
  have m: "(0x1ffffff :: u32) = mask 25"
    by (simp add: mask_eq_exp_minus_1)
  have "c AND mask 25 = c"
    using c by (auto simp: bit_eq_iff bit_and_iff bit_mask_iff)
  moreover have "polymod_gen c = 0"
    using c [of 25] c [of 26] c [of 27] c [of 28] c [of 29] by (auto simp: polymod_gen_def gen_bit_def)
  ultimately show ?thesis
    by (simp only: polymod_shift_def m) simp
qed

lemma group_step:
  assumes "small m"
  shows "polymod_step (drop_bit (s + 5) m) (ucast (drop_bit s m AND 31)) = drop_bit s m"
proof -
  have m: "(31 :: u32) = mask 5"
    by (simp add: mask_eq_exp_minus_1)
  have "polymod_shift (drop_bit (s + 5) m) = push_bit 5 (drop_bit (s + 5) m)"
    using assms by (intro polymod_shift_push) (force simp: small_def bit_drop_bit_eq)
  then have "polymod_step (drop_bit (s + 5) m) (ucast (drop_bit s m AND 31)) =
      push_bit 5 (drop_bit (s + 5) m) XOR ucast (ucast (drop_bit s m AND mask 5) :: byte)"
    by (simp only: polymod_step_eq m)
  also have "\<dots> = drop_bit s m"
  proof (rule bit_eqI)
    fix n assume "possible_bit TYPE(u32) n"
    then have n: "n < 32"
      by (simp add: possible_bit_word)
    have "bit m (s + n) \<Longrightarrow> s + n < 32"
      using bit_imp_le_length [of m "s + n"] by simp
    then show "bit (push_bit 5 (drop_bit (s + 5) m) XOR ucast (ucast (drop_bit s m AND mask 5) :: byte)) n = bit (drop_bit s m) n"
      using n by (cases "n < 5") (auto simp: bit_xor_iff bit_push_bit_iff bit_drop_bit_eq bit_ucast_iff bit_and_iff bit_mask_iff ac_simps)
  qed
  finally show ?thesis .
qed

lemma polymod_groups:
  assumes "small m"
  shows "polymod_from 0 (map (\<lambda>i. ucast (drop_bit (5 * (5 - i)) m AND 31)) [0..<6]) = m"
proof -
  have z: "drop_bit 30 m = 0"
    using assms by (auto simp: bit_eq_iff bit_drop_bit_eq small_def)
  have u: "[0..<6] = [0, 1, 2, 3, 4, 5]"
    by (simp add: upt_rec)
  show ?thesis
    using group_step [OF assms, of 25] group_step [OF assms, of 20] group_step [OF assms, of 15] group_step [OF assms, of 10]
      group_step [OF assms, of 5] group_step [OF assms, of 0] z
    by (simp add: u)
qed

lemma map2_xor_zero: "map2 (XOR) xs (replicate (length xs) (0 :: byte)) = xs" "map2 (XOR) (replicate (length xs) (0 :: byte)) xs = xs"
  by (induction xs) simp_all

lemma checksum_correct: "VerifyChecksum hrp (values @ CreateChecksum hrp values)"
proof -
  let ?E = "ExpandHRP hrp @ values"
  let ?m = "PolyMod (?E @ replicate 6 0) XOR 1"
  let ?chk = "CreateChecksum hrp values"
  have "small 1"
    by (simp add: small_def bit_1_iff)
  then have "small ?m"
    unfolding PolyMod_def by (intro small_xor small_polymod)
  then have c: "polymod_from 0 ?chk = ?m"
    by (simp only: CreateChecksum_def Let_def append_assoc polymod_groups)
  have l: "length ?chk = 6"
    by (simp add: CreateChecksum_def Let_def)
  have "?E @ ?chk = map2 (XOR) ?E (replicate (length ?E) 0) @ map2 (XOR) (replicate 6 0) ?chk"
    using map2_xor_zero(2) [of ?chk] by (simp only: map2_xor_zero l)
  then have "?E @ ?chk = map2 (XOR) (?E @ replicate 6 0) (replicate (length ?E) 0 @ ?chk)"
    by (simp only: zip_append length_replicate map_append)
  then have "PolyMod (?E @ ?chk) = polymod_from (1 XOR 0) (map2 (XOR) (?E @ replicate 6 0) (replicate (length ?E) 0 @ ?chk))"
    by (simp add: PolyMod_def)
  also have "\<dots> = PolyMod (?E @ replicate 6 0) XOR polymod_from 0 (replicate (length ?E) 0 @ ?chk)"
    by (subst polymod_from_xor) (simp_all add: l PolyMod_def)
  also have "\<dots> = 1"
    using c by (simp add: polymod_zeros)
  finally show ?thesis
    by (simp add: VerifyChecksum_def)
qed

section \<open>Changed characters\<close>

lemma polymod_nonzero: "small d \<Longrightarrow> d \<noteq> 0 \<Longrightarrow> polymod_from d (replicate n 0) \<noteq> 0"
proof (induction n arbitrary: d)
  case (Suc n)
  have "polymod_step d 0 \<noteq> 0"
    using polymod_shift_inj [of d] Suc.prems by (auto simp: polymod_step_eq)
  then show ?case
    using Suc.IH [OF small_step] by simp
qed simp

lemma polymod_changed:
  assumes "x \<noteq> y"
  shows "polymod_from c (xs @ x # ys) \<noteq> polymod_from c (xs @ y # ys)"
proof -
  define a where "a = polymod_step (polymod_from c xs) x"
  define d where "d = (ucast x XOR ucast y :: u32)"
  have "(ucast x :: u32) \<noteq> ucast y"
  proof
    assume e: "(ucast x :: u32) = ucast y"
    have "unat (ucast x :: u32) = unat x" for x :: byte
      using unat_lt2p [of x] by (simp add: unsigned_ucast_eq take_bit_eq_mod)
    then show False
      using arg_cong [OF e, of unat] assms by (simp add: word_unat_eq_iff)
  qed
  moreover have "a = b" if "a XOR b = 0" for a b :: u32
    using that by (simp add: bit_eq_iff bit_xor_iff)
  ultimately have d: "small d" "d \<noteq> 0"
    by (auto simp: d_def small_xor small_ucast)
  have "polymod_step (polymod_from c xs) y = a XOR d"
    by (simp add: a_def d_def polymod_step_eq ac_simps)
  then have "polymod_from c (xs @ y # ys) = polymod_from (a XOR d) (map2 (XOR) ys (replicate (length ys) 0))"
    by (simp add: map2_xor_zero)
  also have "\<dots> = polymod_from c (xs @ x # ys) XOR polymod_from d (replicate (length ys) 0)"
    by (subst polymod_from_xor) (simp_all add: a_def)
  finally show ?thesis
    using polymod_nonzero [OF d, of "length ys"] by (auto simp: bit_eq_iff bit_xor_iff)
qed

section \<open>What is encoded is decoded\<close>

text \<open>The characters of the alphabet.\<close>

lemma length_CHARSET: "length CHARSET = 32"
  by (simp add: CHARSET_def)

lemma charset_codes:
  "map of_char CHARSET = [113, 112, 122, 114, 121, 57, 120, 56, 103, 102, 50, 116, 118, 100, 119, 48, 115, 51, 106, 110, 53, 52, 107, 104, 99,
     101, 54, 109, 117, 97, 55, 108 :: nat]"
  by (simp add: CHARSET_def)

lemma charset_rev: "map ((!) CHARSET_REV) (map of_char CHARSET) = map int [0..<32]"
  unfolding charset_codes by (simp add: CHARSET_REV_def upt_rec)

lemma charset_chars: "\<forall>n \<in> set (map of_char CHARSET). n \<noteq> 49 \<and> \<not> (65 \<le> n \<and> n \<le> 90) \<and> 33 \<le> n \<and> n \<le> (126 :: nat)"
  unfolding charset_codes by simp

lemma charset:
  assumes "v < 32"
  shows "CHARSET_REV ! of_char (CHARSET ! v) = int v" "CHARSET ! v \<noteq> CHR ''1''" "\<not> is_upper (CHARSET ! v)"
    "33 \<le> (of_char (CHARSET ! v) :: nat)" "(of_char (CHARSET ! v) :: nat) \<le> 126"
proof -
  show "CHARSET_REV ! of_char (CHARSET ! v) = int v"
    using arg_cong [OF charset_rev, of "\<lambda>xs. xs ! v"] assms by (simp add: length_CHARSET)
  have "of_char (CHARSET ! v) \<in> set (map of_char CHARSET :: nat list)"
    using assms by (simp add: length_CHARSET)
  note c = bspec [OF charset_chars this]
  show "\<not> is_upper (CHARSET ! v)" "33 \<le> (of_char (CHARSET ! v) :: nat)" "(of_char (CHARSET ! v) :: nat) \<le> 126"
    using c by (simp_all add: is_upper_def)
  show "CHARSET ! v \<noteq> CHR ''1''"
    using c by auto
qed

lemma rfind_none: "rfind x cs = None \<longleftrightarrow> x \<notin> set cs"
  by (induction cs) (auto split: option.splits)

lemma rfind_append: "x \<notin> set zs \<Longrightarrow> rfind x (ys @ x # zs) = Some (length ys)"
  using rfind_none [of x zs] by (induction ys) auto

lemma rev_values_charset:
  "(\<And>v. v \<in> set vs \<Longrightarrow> unat v < 32) \<Longrightarrow> rev_values (map (\<lambda>v. CHARSET ! unat v) vs) = Some vs"
proof (induction vs)
  case (Cons v vs)
  have "uint v \<noteq> -1"
    using uint_ge_0 [of v] by linarith
  then show ?case
    using Cons by (simp add: charset(1) Let_def)
qed simp

lemma lower_case_id: "\<not> is_upper c \<Longrightarrow> LowerCase c = c"
  by (auto simp: LowerCase_def is_upper_def)

lemma checksum_values: "v \<in> set (CreateChecksum hrp values) \<Longrightarrow> unat v < 32"
proof -
  assume "v \<in> set (CreateChecksum hrp values)"
  then obtain w :: u32 where v: "v = ucast (w AND 31)"
    by (auto simp: CreateChecksum_def Let_def)
  have "unat (w AND 31) \<le> 31"
    using word_and_le1 [of w 31] by (simp add: word_le_nat_alt)
  then show ?thesis
    by (simp add: v unsigned_ucast_eq take_bit_eq_mod)
qed

text \<open>A human-readable part in lower case.\<close>

definition valid_hrp :: "string \<Rightarrow> bool" where
  "valid_hrp hrp \<longleftrightarrow> hrp \<noteq> [] \<and> (\<forall>c \<in> set hrp. \<not> is_upper c \<and> 33 \<le> (of_char c :: nat) \<and> (of_char c :: nat) \<le> 126)"

definition encoded :: "string \<Rightarrow> byte list \<Rightarrow> string" where
  "encoded hrp values = hrp @ ''1'' @ map (\<lambda>c. CHARSET ! unat c) (values @ CreateChecksum hrp values)"

lemma length_checksum: "length (CreateChecksum hrp values) = 6"
  by (simp add: CreateChecksum_def Let_def)

lemma Encode_eq:
  assumes "valid_hrp hrp" "\<And>v. v \<in> set values \<Longrightarrow> unat v < 32"
  shows "Encode hrp values = Some (encoded hrp values)"
  using assms checksum_values [of _ hrp "values"]
  by (auto simp: Encode_def Let_def encoded_def valid_hrp_def list_ex_iff length_CHARSET not_le)

lemma encoded_chars:
  assumes "valid_hrp hrp" "\<And>v. v \<in> set values \<Longrightarrow> unat v < 32" "c \<in> set (encoded hrp values)"
  shows "\<not> is_upper c \<and> 33 \<le> (of_char c :: nat) \<and> (of_char c :: nat) \<le> 126"
proof -
  have "CHARSET ! unat v \<notin> Collect is_upper \<and> 33 \<le> (of_char (CHARSET ! unat v) :: nat) \<and> (of_char (CHARSET ! unat v) :: nat) \<le> 126"
    if "v \<in> set (values @ CreateChecksum hrp values)" for v
    using charset(3-5) [of "unat v"] assms(2) checksum_values that by auto
  moreover have "\<not> is_upper CHR ''1''"
    by (simp add: is_upper_def)
  ultimately show ?thesis
    using assms(1,3) by (auto simp: encoded_def valid_hrp_def)
qed

text \<open>How a string in lower case is decoded.\<close>

lemma Decode_lower:
  assumes "\<And>c. c \<in> set str \<Longrightarrow> \<not> is_upper c" "str = hrp @ ''1'' @ cs" "CHR ''1'' \<notin> set cs" "Decode str \<noteq> ([], [])"
  shows "\<exists>vs. rev_values cs = Some vs \<and> VerifyChecksum hrp vs \<and> Decode str = (hrp, take (length vs - 6) vs)"
proof -
  have "rfind CHR ''1'' str = Some (length hrp)"
    using rfind_append [OF assms(3), of hrp] assms(2) by simp
  moreover have "map LowerCase hrp = hrp"
    by (rule map_idI, rule lower_case_id, rule assms(1)) (simp add: assms(2))
  ultimately show ?thesis
    using assms(2,4) by (auto simp: Decode_def Let_def split: if_splits option.splits)
qed

lemma Decode_encoded:
  assumes hrp: "valid_hrp hrp" and v: "\<And>v. v \<in> set values \<Longrightarrow> unat v < 32" and len: "length hrp + length values \<le> 83"
  shows "Decode (encoded hrp values) = (hrp, values)"
proof -
  let ?vs = "values @ CreateChecksum hrp values"
  let ?cs = "map (\<lambda>c. CHARSET ! unat c) ?vs"
  have small: "unat x < 32" if "x \<in> set ?vs" for x
    using that v checksum_values by auto
  then have "CHR ''1'' \<notin> set ?cs"
    using charset(2) by (metis (no_types, lifting) imageE list.set_map)
  then have pos: "rfind CHR ''1'' (encoded hrp values) = Some (length hrp)"
    using rfind_append by (simp add: encoded_def)
  have rev: "rev_values ?cs = Some ?vs"
    by (rule rev_values_charset) (rule small)
  have chars: "list_ex is_upper (encoded hrp values) = False"
    "list_ex (\<lambda>c. \<not> is_lower c \<and> \<not> is_upper c \<and> ((of_char c :: nat) < 33 \<or> 126 < (of_char c :: nat))) (encoded hrp values) = False"
    using encoded_chars [OF hrp v] by (fastforce simp: list_ex_iff)+
  have "map LowerCase hrp = hrp"
    using hrp by (auto simp: valid_hrp_def lower_case_id intro!: map_idI)
  moreover have "length (encoded hrp values) = length hrp + length values + 7" "drop (length hrp + 1) (encoded hrp values) = ?cs"
    "take (length hrp) (encoded hrp values) = hrp"
    by (simp_all add: encoded_def length_checksum)
  moreover have "hrp \<noteq> []"
    using hrp by (simp add: valid_hrp_def)
  ultimately show ?thesis
    using pos rev chars len checksum_correct [of hrp "values"] by (simp add: Decode_def Let_def length_checksum)
qed

section \<open>Regrouped bits\<close>

text \<open>The number that a list of groups of bits stands for.\<close>

definition groups_value :: "nat \<Rightarrow> nat list \<Rightarrow> nat" where
  "groups_value b xs = foldl (\<lambda>a x. a * 2 ^ b + x) 0 xs"

lemma groups_value_foldl: "foldl (\<lambda>a x. a * 2 ^ b + x) a xs = a * 2 ^ (b * length xs) + groups_value b xs"
proof (induction xs arbitrary: a)
  case (Cons x xs)
  show ?case
    using Cons.IH [of "a * 2 ^ b + x"] Cons.IH [of x] by (simp add: groups_value_def power_add algebra_simps)
qed (simp add: groups_value_def)

lemma groups_value_Nil [simp]: "groups_value b [] = 0"
  by (simp add: groups_value_def)

lemma groups_value_Cons: "groups_value b (x # xs) = x * 2 ^ (b * length xs) + groups_value b xs"
  using groups_value_foldl [of b x xs] by (simp add: groups_value_def)

lemma groups_value_append: "groups_value b (xs @ ys) = groups_value b xs * 2 ^ (b * length ys) + groups_value b ys"
  using groups_value_foldl [of b "groups_value b xs" ys] by (simp add: groups_value_def)

lemma groups_value_less: "(\<And>x. x \<in> set xs \<Longrightarrow> x < 2 ^ b) \<Longrightarrow> groups_value b xs < 2 ^ (b * length xs)"
proof (induction xs)
  case (Cons x xs)
  have "x * 2 ^ (b * length xs) + 2 ^ (b * length xs) \<le> 2 ^ b * 2 ^ (b * length xs)"
    using Cons.prems [of x] by (metis Suc_leI list.set_intros(1) mult.commute mult_Suc_right mult_le_mono1 add.commute)
  then show ?case
    using Cons by (simp add: groups_value_Cons power_add)
qed simp

lemma groups_value_inj:
  assumes "length xs = length ys" "groups_value b xs = groups_value b ys" "\<And>x. x \<in> set xs \<union> set ys \<Longrightarrow> x < 2 ^ b"
  shows "xs = ys"
  using assms
proof (induction xs ys rule: list_induct2)
  case (Cons x xs y ys)
  have l: "groups_value b xs < 2 ^ (b * length ys)" "groups_value b ys < 2 ^ (b * length ys)"
    using groups_value_less [of xs b] groups_value_less [of ys b] Cons.prems(2) Cons.hyps by auto
  have e: "x * 2 ^ (b * length ys) + groups_value b xs = y * 2 ^ (b * length ys) + groups_value b ys"
    using Cons.prems(1) Cons.hyps by (simp add: groups_value_Cons)
  have "x = y" "groups_value b xs = groups_value b ys"
    using arg_cong [OF e, of "\<lambda>n. n div 2 ^ (b * length ys)"] arg_cong [OF e, of "\<lambda>n. n mod 2 ^ (b * length ys)"] l by simp_all
  then show ?case
    using Cons by auto
qed simp

lemma and_low: "a AND (2 ^ n - 1) = a mod 2 ^ n" for a :: nat
  by (metis mask_eq_exp_minus_1 take_bit_eq_mask take_bit_eq_mod)

lemma and_low_Suc: "a AND (2 ^ n - Suc 0) = a mod 2 ^ n" for a :: nat
  using and_low [of a n] by simp

lemma emit_bits_value:
  assumes "0 < tobits" "emit_bits tobits acc bits = (out, b)"
  shows "b < tobits \<and> bits = tobits * length out + b \<and> (\<forall>x \<in> set out. x < 2 ^ tobits) \<and>
    acc mod 2 ^ bits = groups_value tobits out * 2 ^ b + acc mod 2 ^ b"
  using assms
proof (induction tobits acc bits arbitrary: out b rule: emit_bits.induct)
  case (1 tobits acc bits)
  show ?case
  proof (cases "tobits \<le> bits")
    case True
    obtain out' where r: "emit_bits tobits acc (bits - tobits) = (out', b)" and out: "out = (drop_bit (bits - tobits) acc AND (2 ^ tobits - 1)) # out'"
      using "1.prems" True by (subst (asm) emit_bits.simps) (auto simp: Let_def split: prod.splits)
    have IH: "b < tobits" "bits - tobits = tobits * length out' + b" "\<forall>x \<in> set out'. x < 2 ^ tobits"
      "acc mod 2 ^ (bits - tobits) = groups_value tobits out' * 2 ^ b + acc mod 2 ^ b"
      using "1.IH" [OF _ "1.prems"(1) r] True "1.prems"(1) by auto
    let ?x = "drop_bit (bits - tobits) acc AND (2 ^ tobits - 1)"
    have x: "?x = acc div 2 ^ (bits - tobits) mod 2 ^ tobits"
      by (simp add: drop_bit_eq_div and_low_Suc)
    have "acc mod 2 ^ bits = acc mod (2 ^ (bits - tobits) * 2 ^ tobits)"
      using True by (simp flip: power_add)
    also have "\<dots> = 2 ^ (bits - tobits) * ?x + acc mod 2 ^ (bits - tobits)"
      by (simp only: mod_mult2_eq x)
    also have "\<dots> = groups_value tobits out * 2 ^ b + acc mod 2 ^ b"
      using IH(2,4) by (simp add: out groups_value_Cons power_add algebra_simps)
    finally have v: "acc mod 2 ^ bits = groups_value tobits out * 2 ^ b + acc mod 2 ^ b" .
    have "?x < 2 ^ tobits"
      unfolding x by simp
    then have "\<forall>y \<in> set out. y < 2 ^ tobits"
      using IH(3) unfolding out by simp
    moreover have "bits = tobits * length out + b"
      using IH(2) True unfolding out by simp
    ultimately show ?thesis
      using IH(1) v by blast
  qed (use "1.prems" in \<open>subst (asm) emit_bits.simps, simp\<close>)
qed

lemma shift_in:
  fixes x acc :: nat
  assumes "x < 2 ^ f" "bits + f \<le> m"
  shows "((push_bit f acc OR x) AND (2 ^ m - 1)) mod 2 ^ (bits + f) = acc mod 2 ^ bits * 2 ^ f + x"
proof -
  have x: "take_bit f x = x"
    using assms(1) by (simp add: take_bit_eq_mod)
  have "push_bit f acc AND take_bit f x = 0"
    by (auto simp: bit_eq_iff bit_and_iff bit_push_bit_iff bit_take_bit_iff)
  then have o: "push_bit f acc OR x = acc * 2 ^ f + x"
    by (simp add: x disjunctive_add_eq_or [symmetric] push_bit_eq_mult)
  have "((push_bit f acc OR x) AND (2 ^ m - 1)) mod 2 ^ (bits + f) = (acc * 2 ^ f + x) mod 2 ^ (bits + f)"
    using assms(2) by (simp only: and_low o mod_mod_cancel [OF le_imp_power_dvd])
  also have "\<dots> = acc mod 2 ^ bits * 2 ^ f + x"
  proof -
    have "(2 :: nat) ^ (bits + f) = 2 ^ f * 2 ^ bits"
      by (simp add: power_add)
    then show ?thesis
      using assms(1) by (simp add: mod_mult2_eq)
  qed
  finally show ?thesis .
qed

lemma convert_loop_value:
  assumes "0 < t" "bits < t" "convert_loop f t acc bits xs = (outs, acc', b)" "\<And>x. x \<in> set xs \<Longrightarrow> x < 2 ^ f"
  shows "b < t \<and> bits + f * length xs = t * length outs + b \<and> (\<forall>x \<in> set outs. x < 2 ^ t) \<and>
    acc mod 2 ^ bits * 2 ^ (f * length xs) + groups_value f xs = groups_value t outs * 2 ^ b + acc' mod 2 ^ b"
  using assms
proof (induction xs arbitrary: acc bits outs)
  case (Cons x xs)
  define A where "A = (push_bit f acc OR x) AND (2 ^ (f + t - 1) - 1)"
  obtain out b1 where e: "emit_bits t A (bits + f) = (out, b1)" by fastforce
  obtain outs' where r: "convert_loop f t A b1 xs = (outs', acc', b)" and outs: "outs = out @ outs'"
    using Cons.prems(3) e by (auto simp: A_def Let_def split: prod.splits)
  note E = emit_bits_value [OF Cons.prems(1) e]
  then have EA: "A mod 2 ^ (bits + f) = groups_value t out * 2 ^ b1 + A mod 2 ^ b1" by blast
  have IH: "b < t" "b1 + f * length xs = t * length outs' + b" "\<forall>x \<in> set outs'. x < 2 ^ t"
    "A mod 2 ^ b1 * 2 ^ (f * length xs) + groups_value f xs = groups_value t outs' * 2 ^ b + acc' mod 2 ^ b"
    using Cons.IH [OF Cons.prems(1) _ r] E Cons.prems(4) by auto
  have s: "A mod 2 ^ (bits + f) = acc mod 2 ^ bits * 2 ^ f + x"
    unfolding A_def using Cons.prems(2,4) by (intro shift_in) auto
  have "acc mod 2 ^ bits * 2 ^ (f * length (x # xs)) + groups_value f (x # xs) =
      A mod 2 ^ (bits + f) * 2 ^ (f * length xs) + groups_value f xs"
    unfolding s by (simp add: groups_value_Cons power_add algebra_simps)
  also have "\<dots> = groups_value t out * 2 ^ (b1 + f * length xs) + (A mod 2 ^ b1 * 2 ^ (f * length xs) + groups_value f xs)"
    using arg_cong [OF EA, of "\<lambda>v. v * 2 ^ (f * length xs) + groups_value f xs"] by (simp add: power_add algebra_simps)
  also have "\<dots> = groups_value t outs * 2 ^ b + acc' mod 2 ^ b"
    unfolding IH(4) IH(2) by (simp add: outs groups_value_append power_add algebra_simps)
  finally show ?case
    using IH E by (auto simp: outs algebra_simps)
qed simp

lemma rest_value: "b \<le> t \<Longrightarrow> push_bit (t - b) acc AND (2 ^ t - 1) = acc mod 2 ^ b * 2 ^ (t - b)" for acc :: nat
proof -
  assume "b \<le> t"
  then have "(2 :: nat) ^ t = 2 ^ b * 2 ^ (t - b)"
    by (simp flip: power_add)
  then show ?thesis
    unfolding and_low push_bit_eq_mult by (simp only: mult_mod_left)
qed

text \<open>Bytes that have been regrouped with padding are regrouped back.\<close>

lemma ConvertBits_round_trip:
  assumes xs: "\<And>x. x \<in> set xs \<Longrightarrow> x < 256"
  shows "\<exists>ys. ConvertBits 8 5 True xs = (True, ys) \<and> (\<forall>y \<in> set ys. y < 32) \<and> 5 * length ys < 8 * length xs + 5 \<and> ConvertBits 5 8 False ys = (True, xs)"
proof -
  obtain outs acc b where c: "convert_loop 8 5 0 0 xs = (outs, acc, b)" by (metis prod_cases3)
  have C: "b < 5" "8 * length xs = 5 * length outs + b" "\<forall>x \<in> set outs. x < 2 ^ 5"
    "groups_value 8 xs = groups_value 5 outs * 2 ^ b + acc mod 2 ^ b"
    using convert_loop_value [OF _ _ c] xs by auto
  define p where "p = (if b = 0 then 0 else 5 - b)"
  define ys where "ys = outs @ (if b \<noteq> 0 then [acc mod 2 ^ b * 2 ^ (5 - b)] else [])"
  have enc: "ConvertBits 8 5 True xs = (True, ys)"
    using C(1) rest_value [of b 5 acc] by (simp add: ConvertBits_def c ys_def Let_def)
  have "acc mod 2 ^ b * 2 ^ (5 - b) < 2 ^ b * 2 ^ (5 - b)"
    by (intro mult_strict_right_mono) simp_all
  also have "\<dots> = 32"
    using C(1) by (simp flip: power_add)
  finally have y: "\<forall>y \<in> set ys. y < 32"
    using C(3) by (auto simp: ys_def)
  have len: "5 * length ys = 8 * length xs + p" "p < 5"
    using C(1,2) by (auto simp: ys_def p_def)
  have val: "groups_value 5 ys = groups_value 8 xs * 2 ^ p"
    using C(1) power_add [of "2 :: nat" b "5 - b"] by (auto simp: C(4) ys_def p_def groups_value_append groups_value_Cons algebra_simps)
  obtain outs2 acc2 b2 where d: "convert_loop 5 8 0 0 ys = (outs2, acc2, b2)" by (metis prod_cases3)
  have D: "b2 < 8" "5 * length ys = 8 * length outs2 + b2" "\<forall>x \<in> set outs2. x < 2 ^ 8"
    "groups_value 5 ys = groups_value 8 outs2 * 2 ^ b2 + acc2 mod 2 ^ b2"
    using convert_loop_value [OF _ _ d] y by auto
  have "(8 * length xs + p) mod 8 = (8 * length outs2 + b2) mod 8"
    using D(2) len(1) by simp
  then have b2: "b2 = p"
    using D(1) len(2) by simp
  then have b2: "b2 = p" "length outs2 = length xs"
    using D(2) len(1) by simp_all
  have e: "groups_value 8 xs * 2 ^ p = groups_value 8 outs2 * 2 ^ p + acc2 mod 2 ^ p"
    using D(4) val b2(1) by simp
  have "acc2 mod 2 ^ p = 0"
    using arg_cong [OF e, of "\<lambda>n. n mod 2 ^ p"] by simp
  moreover have "groups_value 8 xs = groups_value 8 outs2"
    using arg_cong [OF e, of "\<lambda>n. n div 2 ^ p"] by simp
  then have "outs2 = xs"
    using groups_value_inj [of outs2 xs 8] b2(2) D(3) xs by auto
  ultimately have "ConvertBits 5 8 False ys = (True, xs)"
    using len(2) b2(1) rest_value [of p 8 acc2] by (simp add: ConvertBits_def d Let_def)
  then show ?thesis
    using enc y len by auto
qed

section \<open>Accepted strings\<close>

lemma rfind_Some: "rfind x cs = Some i \<Longrightarrow> i < length cs \<and> cs ! i = x \<and> x \<notin> set (drop (Suc i) cs)"
proof (induction cs arbitrary: i)
  case (Cons c cs)
  show ?case
  proof (cases "rfind x cs")
    case None
    then show ?thesis
      using Cons.prems rfind_none [of x cs] by (auto split: if_splits)
  qed (use Cons in auto)
qed simp

lemma Decode_accepted:
  assumes "fst (Decode str) \<noteq> []"
  shows "\<exists>pos vs. rfind CHR ''1'' str = Some pos \<and> rev_values (drop (pos + 1) str) = Some vs \<and>
    VerifyChecksum (map LowerCase (take pos str)) vs \<and> fst (Decode str) = map LowerCase (take pos str) \<and>
    \<not> (list_ex is_lower str \<and> list_ex is_upper str) \<and> (\<forall>c \<in> set str. (of_char c :: nat) \<le> 126)"
proof -
  have c: "(of_char c :: nat) \<le> 126" if "c \<in> set str" for c
    using assms that by (auto simp: Decode_def list_ex_iff is_lower_def is_upper_def split: if_splits)
  have "\<not> (list_ex is_lower str \<and> list_ex is_upper str)"
    using assms by (auto simp: Decode_def split: if_splits)
  moreover obtain pos where pos: "rfind CHR ''1'' str = Some pos"
    using assms by (cases "rfind CHR ''1'' str") (auto simp: Decode_def split: if_splits)
  moreover obtain vs where vs: "rev_values (drop (pos + 1) str) = Some vs"
    using assms pos by (cases "rev_values (drop (pos + 1) str)") (auto simp: Decode_def split: if_splits)
  ultimately show ?thesis
    using assms c by (simp add: Decode_def Let_def split: if_splits)
qed

lemma charset_unique_table:
  "list_all (\<lambda>n. CHARSET_REV ! n = -1 \<or> 65 \<le> n \<and> n \<le> 90 \<or>
     map of_char CHARSET ! nat (CHARSET_REV ! n) = n \<and> 0 \<le> CHARSET_REV ! n \<and> CHARSET_REV ! n < 32) [0..<127]"
  unfolding charset_codes by (simp add: CHARSET_REV_def upt_rec)

lemma charset_unique:
  assumes "(word_of_int (CHARSET_REV ! of_char c) :: byte) = word_of_int (CHARSET_REV ! of_char d)"
    and c: "CHARSET_REV ! of_char c \<noteq> -1" "\<not> is_upper c" "(of_char c :: nat) \<le> 126"
    and d: "CHARSET_REV ! of_char d \<noteq> -1" "\<not> is_upper d" "(of_char d :: nat) \<le> 126"
  shows "c = d"
proof -
  have t: "CHARSET_REV ! n = -1 \<or> 65 \<le> n \<and> n \<le> 90 \<or>
      map of_char CHARSET ! nat (CHARSET_REV ! n) = n \<and> 0 \<le> CHARSET_REV ! n \<and> CHARSET_REV ! n < 32" if "n \<le> 126" for n :: nat
    using charset_unique_table that by (simp add: list_all_iff)
  have r: "0 \<le> CHARSET_REV ! of_char c" "CHARSET_REV ! of_char c < 32" "0 \<le> CHARSET_REV ! of_char d" "CHARSET_REV ! of_char d < 32"
    and e: "map of_char CHARSET ! nat (CHARSET_REV ! of_char c) = (of_char c :: nat)"
      "map of_char CHARSET ! nat (CHARSET_REV ! of_char d) = (of_char d :: nat)"
    using t [OF c(3)] t [OF d(3)] c d by (auto simp: is_upper_def)
  have "CHARSET_REV ! of_char c = CHARSET_REV ! of_char d"
    using arg_cong [OF assms(1), of uint] r by (simp add: uint_word_of_int)
  then have "(of_char c :: nat) = of_char d"
    using e by metis
  then show ?thesis
    by (simp add: of_char_eq_iff)
qed

lemma rev_values_nth:
  "rev_values cs = Some vs \<Longrightarrow> length vs = length cs \<and> (\<forall>i < length cs. CHARSET_REV ! of_char (cs ! i) \<noteq> -1 \<and> vs ! i = word_of_int (CHARSET_REV ! of_char (cs ! i)))"
  by (induction cs arbitrary: vs) (auto simp: Let_def nth_Cons' split: if_splits)

text \<open>A changed character of a checked string in lower case is noticed.\<close>

lemma changed_values:
  assumes "rev_values cs = Some vs" "rev_values (cs[i := c]) = Some vs'" "i < length cs" "c \<noteq> cs ! i" "\<not> is_upper c" "\<not> is_upper (cs ! i)"
    "(of_char c :: nat) \<le> 126" "(of_char (cs ! i) :: nat) \<le> 126" "VerifyChecksum hrp vs"
  shows "\<not> VerifyChecksum hrp vs'"
proof -
  note v = rev_values_nth [OF assms(1)] and v' = rev_values_nth [OF assms(2)]
  have ne: "vs' ! i \<noteq> vs ! i"
    using charset_unique [of c "cs ! i"] assms(3-8) v v' by (auto simp: nth_list_update)
  have same: "vs' ! j = vs ! j" if "j < length cs" "j \<noteq> i" for j
    using v v' that by (auto simp: nth_list_update)
  have "vs' = vs[i := vs' ! i]"
  proof (rule nth_equalityI)
    show "vs' ! j = vs[i := vs' ! i] ! j" if "j < length vs'" for j
      using same [of j] that v v' by (cases "j = i") simp_all
  qed (use v v' in simp)
  moreover have "vs = vs[i := vs ! i]"
    by simp
  ultimately have "vs' = take i vs @ vs' ! i # drop (Suc i) vs" "vs = take i vs @ vs ! i # drop (Suc i) vs"
    using v assms(3) by (metis upd_conv_take_nth_drop)+
  then have "PolyMod (ExpandHRP hrp @ vs') \<noteq> PolyMod (ExpandHRP hrp @ vs)"
    using polymod_changed [OF ne, of 1 "ExpandHRP hrp @ take i vs" "drop (Suc i) vs"] by (simp add: PolyMod_def)
  then show ?thesis
    using assms(9) by (simp add: VerifyChecksum_def)
qed

end
