(* ===== verification/Hex.thy ===== *)
theory Hex
  imports Decimal
begin

text \<open>
  Hexadecimal strings: \<open>to_string\<close> and \<open>hash_from_hex\<close> of \<open>util/common/hash.cpp\<close>, and \<open>to_hex\<close>
  and \<open>from_hex\<close> of \<open>util/common/buffer.cpp\<close>. Numbers are read from a \<open>std::stringstream\<close>, which skips
  leading blanks, accepts a sign and stops at the first character that is no digit.
\<close>

definition hex_digit :: "nat \<Rightarrow> char" where
  "hex_digit d = char_of (if d < 10 then 48 + d else 87 + d)"

definition hex_byte :: "byte \<Rightarrow> string" where
  "hex_byte b = [hex_digit (unat b div 16), hex_digit (unat b mod 16)]"

definition hash_to_string :: "hash_t \<Rightarrow> string" where
  "hash_to_string val = concat (map hex_byte val)"

definition to_hex :: "byte list \<Rightarrow> string" where
  "to_hex data = concat (map hex_byte data)"

definition hex_digit_value :: "char \<Rightarrow> nat option" where
  "hex_digit_value c =
    (let n = of_char c in
     if 48 \<le> n \<and> n \<le> 57 then Some (n - 48)
     else if 97 \<le> n \<and> n \<le> 102 then Some (n - 87)
     else if 65 \<le> n \<and> n \<le> 70 then Some (n - 55)
     else None)"

text \<open>
  Reading an unsigned number of at most two characters, in base 16: the number, or \<open>None\<close> when the stream
  fails (it then stores zero). A negative number wraps around; only its lowest byte matters.
\<close>

definition read_hex :: "string \<Rightarrow> byte option" where
  "read_hex s =
    (let t = dropWhile is_space s;
         neg = (t \<noteq> [] \<and> hd t = CHR ''-'');
         u = (if t \<noteq> [] \<and> (hd t = CHR ''-'' \<or> hd t = CHR ''+'') then tl t else t);
         ds = takeWhile (\<lambda>c. hex_digit_value c \<noteq> None) u;
         v = word_of_nat (foldl (\<lambda>a c. 16 * a + the (hex_digit_value c)) 0 ds)
     in if ds = [] \<or> u = ''0x'' \<or> u = ''0X'' then None else Some (if neg then - v else v))"

fun hex_pairs :: "string \<Rightarrow> string list" where
  "hex_pairs [] = []"
| "hex_pairs [c] = [[c]]"
| "hex_pairs (c # d # s) = [c, d] # hex_pairs s"

text \<open>
  The hash is not initialised: fewer than 32 pairs leave bytes that are not determined, and more of them
  write past its end; both give \<open>None\<close>.
\<close>

definition hash_from_hex :: "string \<Rightarrow> hash_t option" where
  "hash_from_hex val =
    (let bs = map (\<lambda>p. case read_hex p of Some v \<Rightarrow> v | None \<Rightarrow> 0) (hex_pairs val)
     in if length bs = 32 then Some bs else None)"

fun read_pairs :: "string list \<Rightarrow> byte list option" where
  "read_pairs [] = Some []"
| "read_pairs (p # ps) = do { v \<leftarrow> read_hex p; vs \<leftarrow> read_pairs ps; Some (v # vs) }"

definition from_hex :: "string \<Rightarrow> byte list option" where
  "from_hex hex =
    (if hex = [] \<or> length hex mod 2 \<noteq> 0 \<or> length hex > 102400 then None else read_pairs (hex_pairs hex))"

section \<open>Reading back\<close>

lemma hex_digit_value_digit: "d < 16 \<Longrightarrow> hex_digit_value (hex_digit d) = Some d"
  by (auto simp: hex_digit_value_def hex_digit_def Let_def)

lemma hex_digit_plain:
  assumes "d < 16"
  shows "\<not> is_space (hex_digit d)" "hex_digit d \<noteq> CHR ''-''" "hex_digit d \<noteq> CHR ''+''" "hex_digit d \<noteq> CHR ''x''" "hex_digit d \<noteq> CHR ''X''"
proof -
  have "of_char (hex_digit d) \<in> {48..57 :: nat} \<union> {97..102}"
    using assms by (auto simp: hex_digit_def)
  then show "\<not> is_space (hex_digit d)" "hex_digit d \<noteq> CHR ''-''" "hex_digit d \<noteq> CHR ''+''" "hex_digit d \<noteq> CHR ''x''" "hex_digit d \<noteq> CHR ''X''"
    by (auto simp: is_space_def)
qed

lemma read_hex_byte: "read_hex (hex_byte b) = Some b"
proof -
  have d: "unat b div 16 < 16" "unat b mod 16 < 16"
    using unat_lt2p [of b] by (simp_all add: less_mult_imp_div_less)
  have "word_of_nat (16 * (unat b div 16) + unat b mod 16) = b"
    by simp
  then show ?thesis
    using hex_digit_plain [OF d(1)] hex_digit_plain [OF d(2)]
    by (simp add: read_hex_def hex_byte_def Let_def hex_digit_value_digit d)
qed

lemma hex_pairs_concat: "hex_pairs (concat (map hex_byte bs)) = map hex_byte bs"
  by (induction bs) (simp_all add: hex_byte_def)

lemma length_hex: "length (concat (map hex_byte bs)) = 2 * length bs"
  by (induction bs) (simp_all add: hex_byte_def)

lemma hash_from_hex_to_string: "length h = 32 \<Longrightarrow> hash_from_hex (hash_to_string h) = Some h"
  by (simp add: hash_from_hex_def hash_to_string_def hex_pairs_concat read_hex_byte comp_def)

lemma from_hex_to_hex:
  assumes "data \<noteq> []" "length data \<le> 51200"
  shows "from_hex (to_hex data) = Some data"
proof -
  have "read_pairs (map hex_byte data) = Some data"
    by (induction data) (simp_all add: read_hex_byte)
  moreover have "concat (map hex_byte data) \<noteq> []"
    using assms(1) length_hex [of data] by fastforce
  ultimately show ?thesis
    using assms by (simp only: from_hex_def to_hex_def hex_pairs_concat length_hex) simp
qed

end
