(* ===== verification/Client_Cli.thy ===== *)
theory Client_Cli
  imports Bech32 Client Hex
begin

text \<open>
  The command line client (\<open>uhs/client/client-cli.cpp\<close>): addresses as text, the commands with their arguments, and the choice of the
  command. An exception and an access outside of a vector are \<open>None\<close>; what the program prints is left out, except for the new
  address.
\<close>

section \<open>Addresses\<close>

definition bech32_hrp :: string where "bech32_hrp = ''usd''"

definition decode_address :: "string \<Rightarrow> pubkey_t option option" where
  "decode_address addr_str =
    (let (hrp, enc_data) = Decode addr_str in
     if hrp \<noteq> bech32_hrp then Some None
     else let data = map word_of_nat (snd (ConvertBits 5 8 False (map unat enc_data))) in
       case data of
         [] \<Rightarrow> None
       | d # rest \<Rightarrow> if d \<noteq> 0 \<or> length data \<noteq> pubkey_len + 1 then Some None else Some (Some rest))"

definition encode_address :: "pubkey_t \<Rightarrow> string option" where
  "encode_address addr = Encode bech32_hrp (map word_of_nat (snd (ConvertBits 8 5 True (map unat (0 # addr)))))"

section \<open>Commands\<close>

definition newaddress_command :: "secp256k1 \<Rightarrow> privkey_t \<times> nat \<Rightarrow> client \<Rightarrow> (string \<times> client) option" where
  "newaddress_command S rnd c = do {
     (addr, c') \<leftarrow> new_address S rnd c;
     str \<leftarrow> encode_address addr;
     Some (str, c') }"

definition mint_command ::
  "secp256k1 \<Rightarrow> (nat \<Rightarrow> privkey_t \<times> nat) \<Rightarrow> (full_tx \<Rightarrow> client \<Rightarrow> (bool \<times> client) option) \<Rightarrow> string list \<Rightarrow> client \<Rightarrow> (bool \<times> client) option" where
  "mint_command S rnds send_mint_tx args c =
    (if length args < 7 then Some (False, c)
     else do {
       n_outputs \<leftarrow> stoul (args ! 5);
       output_val \<leftarrow> stoul (args ! 6);
       (tx, c') \<leftarrow> client_mint S (map rnds [0..<n_outputs]) send_mint_tx (word_of_nat output_val) c;
       Some (True, c') })"

definition send_command ::
  "secp256k1 \<Rightarrow> privkey_t \<times> nat \<Rightarrow> (full_tx \<Rightarrow> execute_response option) \<Rightarrow> string list \<Rightarrow> client \<Rightarrow> (bool \<times> client) option" where
  "send_command S rnd sentinel args c =
    (if length args < 7 then Some (False, c)
     else do {
       value \<leftarrow> stoul (args ! 5);
       pubkey \<leftarrow> decode_address (args ! 6);
       case pubkey of
         None \<Rightarrow> Some (False, c)
       | Some pk \<Rightarrow> do {
           (res, c') \<leftarrow> client_send S rnd sentinel (word_of_nat value) pk c;
           Some (res \<noteq> None, c') } })"

definition fan_command ::
  "secp256k1 \<Rightarrow> privkey_t \<times> nat \<Rightarrow> (full_tx \<Rightarrow> execute_response option) \<Rightarrow> string list \<Rightarrow> client \<Rightarrow> (bool \<times> client) option" where
  "fan_command S rnd sentinel args c =
    (if length args < 8 then Some (False, c)
     else do {
       value \<leftarrow> stoul (args ! 6);
       count \<leftarrow> stoul (args ! 5);
       pubkey \<leftarrow> decode_address (args ! 7);
       case pubkey of
         None \<Rightarrow> Some (False, c)
       | Some pk \<Rightarrow> do {
           (res, c') \<leftarrow> client_fan S rnd sentinel (word_of_nat count) (word_of_nat value) pk c;
           Some (res \<noteq> None, c') } })"

definition importinput_command :: "string list \<Rightarrow> client \<Rightarrow> (bool \<times> client) option" where
  "importinput_command args c =
    (if length args \<le> 5 then None
     else case from_hex (args ! 5) of
       None \<Rightarrow> Some (False, c)
     | Some buf \<Rightarrow>
         (case from_buffer get_input buf of
            None \<Rightarrow> Some (False, c)
          | Some inp \<Rightarrow> Some (True, import_send_input inp c)))"

definition confirmtx_command :: "string list \<Rightarrow> client \<Rightarrow> (bool \<times> client) option" where
  "confirmtx_command args c =
    (if length args \<le> 5 then None
     else do { txid \<leftarrow> hash_from_hex (args ! 5); client_confirm txid c })"

text \<open>The choice of the command. The exit code is -1 if it fails; the last component is the address that is printed.\<close>

definition cli_command ::
  "secp256k1 \<Rightarrow> (nat \<Rightarrow> privkey_t \<times> nat) \<Rightarrow> (full_tx \<Rightarrow> execute_response option) \<Rightarrow> (full_tx \<Rightarrow> client \<Rightarrow> (bool \<times> client) option) \<Rightarrow>
     (client \<Rightarrow> (bool \<times> client) option) \<Rightarrow> string list \<Rightarrow> client \<Rightarrow> (int \<times> client \<times> string option) option" where
  "cli_command S rnds sentinel send_mint_tx sync args c =
    (let command = args ! 4;
         exit = map_option (\<lambda>(ok, c'). (if ok then 0 else -1, c', None))
     in if command = ''mint'' then exit (mint_command S rnds send_mint_tx args c)
        else if command = ''send'' then exit (send_command S (rnds 0) sentinel args c)
        else if command = ''fan'' then exit (fan_command S (rnds 0) sentinel args c)
        else if command = ''sync'' then map_option (\<lambda>(ok, c'). (0, c', None)) (sync c)
        else if command = ''newaddress'' then map_option (\<lambda>(str, c'). (0, c', Some str)) (newaddress_command S (rnds 0) c)
        else if command = ''importinput'' then exit (importinput_command args c)
        else if command = ''confirmtx'' then exit (confirmtx_command args c)
        else Some (0, c, None))"

section \<open>Addresses are read back and protected\<close>

lemma valid_bech32_hrp: "valid_hrp bech32_hrp"
  by (simp add: valid_hrp_def bech32_hrp_def is_upper_def)

lemma map_unat_word: "(\<And>x. x \<in> set xs \<Longrightarrow> x < 2 ^ LENGTH('a)) \<Longrightarrow> map (unat \<circ> (word_of_nat :: nat \<Rightarrow> 'a :: len word)) xs = xs"
  by (induction xs) (simp_all add: unsigned_of_nat take_bit_eq_mod)

lemma encode_address_value:
  assumes "is_pubkey addr"
  shows "\<exists>vs. encode_address addr = Some (encoded bech32_hrp vs) \<and> (\<forall>v \<in> set vs. unat v < 32) \<and> length vs \<le> 80 \<and>
    map word_of_nat (snd (ConvertBits 5 8 False (map unat vs))) = 0 # addr"
proof -
  let ?xs = "map unat (0 # addr)"
  have "x < 256" if "x \<in> set ?xs" for x
    using that unat_lt2p [where 'a = 8] by auto
  then obtain ys where ys: "ConvertBits 8 5 True ?xs = (True, ys)" "\<forall>y \<in> set ys. y < 32" "5 * length ys < 8 * length ?xs + 5"
    "ConvertBits 5 8 False ys = (True, ?xs)"
    using ConvertBits_round_trip by blast
  have "map (unat \<circ> (word_of_nat :: nat \<Rightarrow> byte)) ys = ys"
    by (rule map_unat_word) (use ys(2) in fastforce)
  then have u: "map unat (map (word_of_nat :: nat \<Rightarrow> byte) ys) = ys"
    by simp
  have v: "unat v < 32" if "v \<in> set (map (word_of_nat :: nat \<Rightarrow> byte) ys)" for v
    using that ys(2) u by (metis imageI list.set_map)
  then have "encode_address addr = Some (encoded bech32_hrp (map word_of_nat ys))"
    unfolding encode_address_def ys(1) by (simp only: snd_conv Encode_eq [OF valid_bech32_hrp v])
  moreover have "length ys \<le> 80"
    using ys(3) assms by (simp add: is_array_def size_defs)
  ultimately show ?thesis
    using v u ys(4) by (intro exI [of _ "map word_of_nat ys"]) (simp add: comp_def)
qed

lemma decode_address_rejects: "fst (Decode str) \<noteq> bech32_hrp \<Longrightarrow> decode_address str = Some None"
  by (simp add: decode_address_def Let_def case_prod_unfold)

abbreviation address_symbols :: "byte list \<Rightarrow> string" where
  "address_symbols vs \<equiv> map (\<lambda>v. CHARSET ! unat v) (vs @ CreateChecksum bech32_hrp vs)"

lemma address_shape: "encoded bech32_hrp vs = ''usd1'' @ address_symbols vs"
  by (simp add: encoded_def bech32_hrp_def)

text \<open>A capital letter among the small ones is noticed.\<close>

lemma mixed_case:
  assumes "i < length s" "is_upper c" "1 < length s" "is_lower (s ! 0)" "is_lower (s ! 1)"
  shows "list_ex is_lower (s[i := c]) \<and> list_ex is_upper (s[i := c])"
proof
  have "is_lower (s[i := c] ! 0) \<or> is_lower (s[i := c] ! 1)"
    using assms(4,5) by (cases "i = 0") simp_all
  then show "list_ex is_lower (s[i := c])"
    unfolding list_ex_length using assms(3) by (metis length_list_update less_trans zero_less_one)
  show "list_ex is_upper (s[i := c])"
    using assms(1,2) by (metis length_list_update list_ex_length nth_list_update_eq)
qed

text \<open>The prefix of an accepted string cannot have been changed.\<close>

lemma prefix_unchanged:
  assumes "take 3 (s[i := c]) = ''usd''" "s[i := c] ! 3 = CHR ''1''" "s = ''usd1'' @ cs" "i < length s" "c \<noteq> s ! i"
  shows "4 \<le> i"
proof (rule ccontr)
  assume "\<not> 4 \<le> i"
  then have "i < 3 \<or> i = 3" by linarith
  then have "s[i := c] ! i = s ! i"
  proof
    assume "i < 3"
    then have "s[i := c] ! i = ''usd'' ! i"
      using arg_cong [OF assms(1), of "\<lambda>xs. xs ! i"] by simp
    then show ?thesis
      using \<open>i < 3\<close> assms(3) by (auto simp: less_Suc_eq numeral_3_eq_3)
  next
    assume "i = 3"
    then show ?thesis
      using assms(2,3) by simp
  qed
  then show False
    using assms(4,5) by simp
qed

text \<open>A string in lower case that is changed in one character is not accepted with the same prefix.\<close>

lemma changed_rejected:
  assumes v: "\<And>v. v \<in> set vs \<Longrightarrow> unat v < 32" and i: "i < length (encoded bech32_hrp vs)" and ne: "c \<noteq> encoded bech32_hrp vs ! i"
  shows "fst (Decode ((encoded bech32_hrp vs)[i := c])) \<noteq> bech32_hrp"
proof
  define s where "s = encoded bech32_hrp vs"
  have s: "s = ''usd1'' @ address_symbols vs"
    unfolding s_def by (rule address_shape)
  assume acc: "fst (Decode ((encoded bech32_hrp vs)[i := c])) = bech32_hrp"
  then have "fst (Decode (s[i := c])) \<noteq> []"
    by (simp add: s_def bech32_hrp_def)
  from Decode_accepted [OF this] obtain pos vs' where d: "rfind CHR ''1'' (s[i := c]) = Some pos" "rev_values (drop (pos + 1) (s[i := c])) = Some vs'"
    "VerifyChecksum bech32_hrp vs'" "map LowerCase (take pos (s[i := c])) = bech32_hrp"
    "\<not> (list_ex is_lower (s[i := c]) \<and> list_ex is_upper (s[i := c]))" "\<forall>c \<in> set (s[i := c]). (of_char c :: nat) \<le> 126"
    using acc unfolding s_def by auto
  have ine: "i < length s" "c \<noteq> s ! i"
    using i ne by (simp_all add: s_def)
  have low: "\<not> is_upper x" "(of_char x :: nat) \<le> 126" if "x \<in> set s" for x
    using encoded_chars [OF valid_bech32_hrp v] that by (simp_all add: s_def)
  have c: "\<not> is_upper c"
    using mixed_case [OF ine(1), of c] d(5) s by (auto simp: is_lower_def)
  have "map LowerCase (take pos (s[i := c])) = take pos (s[i := c])"
    using c low(1) set_update_subset_insert [of s i c] by (intro map_idI lower_case_id) (auto dest!: in_set_takeD)
  then have hrp: "take pos (s[i := c]) = ''usd''"
    using d(4) by (simp add: bech32_hrp_def)
  have p: "pos < length s" "s[i := c] ! pos = CHR ''1''"
    using rfind_Some [OF d(1)] by simp_all
  then have p3: "pos = 3"
    using arg_cong [OF hrp, of length] by simp
  have i4: "4 \<le> i"
    using prefix_unchanged [OF _ _ s ine] hrp p(2) p3 by simp
  have dr: "drop 4 s = address_symbols vs"
    unfolding s by simp
  then have "drop (pos + 1) (s[i := c]) = (address_symbols vs)[i - 4 := c]"
    using drop_update_swap [OF i4, of s c] p3 by simp
  moreover have "rev_values (address_symbols vs) = Some (vs @ CreateChecksum bech32_hrp vs)"
    by (rule rev_values_charset) (use v checksum_values in auto)
  moreover have "address_symbols vs ! (i - 4) = s ! i" "i - 4 < length (address_symbols vs)"
    unfolding dr [symmetric] using ine(1) i4 by simp_all
  ultimately show False
    using changed_values [of "address_symbols vs" "vs @ CreateChecksum bech32_hrp vs" "i - 4" c vs' bech32_hrp] d(2,3,6) ine c low [of "s ! i"]
      checksum_correct [of bech32_hrp vs] by (simp add: set_update_memI)
qed

text \<open>C24: Addresses are safe to type. The text of an address is decoded to the same public key, and if any one character of it is replaced by any
  other character, the client reports an invalid address.\<close>

theorem address_typo_detected:
  assumes "is_pubkey addr"
  shows "\<exists>str. encode_address addr = Some str \<and> decode_address str = Some (Some addr) \<and>
    (\<forall>i c. i < length str \<and> c \<noteq> str ! i \<longrightarrow> decode_address (str[i := c]) = Some None)"
proof -
  obtain vs where e: "encode_address addr = Some (encoded bech32_hrp vs)" and v: "\<forall>v \<in> set vs. unat v < 32" and l: "length vs \<le> 80"
    and b: "map word_of_nat (snd (ConvertBits 5 8 False (map unat vs))) = 0 # addr"
    using encode_address_value [OF assms] by (elim exE conjE)
  have "Decode (encoded bech32_hrp vs) = (bech32_hrp, vs)"
    using v l by (intro Decode_encoded valid_bech32_hrp) (simp_all add: bech32_hrp_def)
  then have "decode_address (encoded bech32_hrp vs) = Some (Some addr)"
    using b assms by (simp add: decode_address_def Let_def is_array_def)
  moreover have "decode_address ((encoded bech32_hrp vs)[i := c]) = Some None"
    if "i < length (encoded bech32_hrp vs)" "c \<noteq> encoded bech32_hrp vs ! i" for i c
    by (rule decode_address_rejects, rule changed_rejected) (use v that in auto)
  ultimately show ?thesis
    using e by blast
qed

theorem address_typo_detected_witness:
  "\<exists>str. encode_address (sample_hash 7) = Some str \<and> decode_address str = Some (Some (sample_hash 7)) \<and> decode_address (str[0 := CHR ''x'']) = Some None"
proof -
  obtain str where s: "encode_address (sample_hash 7) = Some str" "decode_address str = Some (Some (sample_hash 7))"
    and t: "0 < length str \<and> CHR ''x'' \<noteq> str ! 0 \<longrightarrow> decode_address (str[0 := CHR ''x'']) = Some None"
    using address_typo_detected [of "sample_hash 7"] by (auto simp: is_array_def sample_hash_def size_defs)
  have "\<exists>cs. str = CHR ''u'' # cs"
    using s(1) by (auto simp: encode_address_def Encode_def Let_def bech32_hrp_def split: if_splits)
  then show ?thesis
    using s t by auto
qed

section \<open>Amounts\<close>

text \<open>The amount of a transfer is cut to 32 bits: a larger number, or a negative one, sends another amount than the one given.\<close>

lemma send_command_amount:
  assumes "7 \<le> length args" "stoul (args ! 5) = Some v" "stoul x = Some (v mod 2 ^ 32)"
  shows "send_command S rnd sentinel args c = send_command S rnd sentinel (args[5 := x]) c"
proof -
  have "(word_of_nat (v mod 2 ^ 32) :: u32) = word_of_nat v"
    by (simp add: word_of_nat_eq_iff take_bit_eq_mod)
  then show ?thesis
    using assms by (simp add: send_command_def)
qed

end
