(* ===== verification/Config_Parser.thy ===== *)
theory Config_Parser
  imports Hex
begin

text \<open>
  The configuration file reader of \<open>util/common/config.cpp\<close>: the class \<open>parser\<close>, values, endpoints and
  log levels. The outer \<open>option\<close> of a result is \<open>None\<close> for an exception, a failed assertion or an access outside
  of a string; the inner one is the \<open>std::optional\<close> of the code. The environment, and the conversion \<open>stod\<close> of the
  numbers with a point, whose values the code only stores, are arguments.
\<close>

section \<open>Streams of lines\<close>

text \<open>
  \<open>std::getline\<close> on the rest of a stream: the text before the delimiter and the rest after it. It fails, with
  \<open>None\<close>, if there is nothing left; a stream that has been read to its end has nothing left.
\<close>

definition getline :: "char \<Rightarrow> string \<Rightarrow> (string \<times> string) option" where
  "getline delim s =
    (if s = [] then None
     else Some (takeWhile (\<lambda>c. c \<noteq> delim) s, drop 1 (dropWhile (\<lambda>c. c \<noteq> delim) s)))"

lemma getline_shorter: "getline delim s = Some (line, rest) \<Longrightarrow> length rest < length s"
proof -
  assume "getline delim s = Some (line, rest)"
  then have "s \<noteq> []" "rest = drop 1 (dropWhile (\<lambda>c. c \<noteq> delim) s)"
    by (auto simp: getline_def split: if_splits)
  then show ?thesis
    using length_dropWhile_le [of "\<lambda>c. c \<noteq> delim" s] by (cases s) auto
qed

section \<open>Endpoints and log levels\<close>

type_synonym endpoint_t = "string \<times> 16 word"

definition parse_ip_port :: "string \<Rightarrow> endpoint_t option" where
  "parse_ip_port in_str = do {
     (host, ss) \<leftarrow> getline (CHR '':'') in_str;
     (port_str, _) \<leftarrow> getline (CHR '':'') ss;
     port \<leftarrow> stoul port_str;
     if port \<le> 65535 then Some (host, word_of_nat port) else None }"

datatype log_level = Trace | Debug | Info | Warn | Error | Fatal

definition parse_loglevel :: "string \<Rightarrow> log_level option" where
  "parse_loglevel level =
    (if level = ''TRACE'' then Some Trace
     else if level = ''DEBUG'' then Some Debug
     else if level = ''INFO'' then Some Info
     else if level = ''WARN'' then Some Warn
     else if level = ''ERROR'' then Some Error
     else if level = ''FATAL'' then Some Fatal
     else None)"

section \<open>The parser\<close>

datatype 'd value_t = V_string string | V_ulong u64 | V_double 'd

text \<open>The options of the file, and the environment.\<close>

record 'd parser =
  p_options :: "(string \<times> 'd value_t) list"
  p_env :: "string \<Rightarrow> string option"
  p_stod :: "string \<Rightarrow> 'd option"

text \<open>For a value that is a single quote, the length of the substring wraps around and nothing is left to take.\<close>

definition parse_value :: "(string \<Rightarrow> 'd option) \<Rightarrow> string \<Rightarrow> 'd value_t option" where
  "parse_value stod val =
    (if val = [] then None
     else if hd val \<noteq> CHR 0x22 \<and> last val \<noteq> CHR 0x22 then
       if CHR ''.'' \<notin> set val then map_option (\<lambda>n. V_ulong (word_of_nat n)) (stoul val)
       else map_option V_double (stod val)
     else Some (V_string (take (length val - 2) (drop 1 val))))"

definition parse_line :: "(string \<Rightarrow> 'd option) \<Rightarrow> string \<Rightarrow> (string \<times> 'd value_t) list \<Rightarrow> (string \<times> 'd value_t) list option" where
  "parse_line stod line opts =
    (case getline (CHR ''='') line of
       None \<Rightarrow> Some opts
     | Some (key, line_stream) \<Rightarrow>
         (case getline (CHR 0x0A) line_stream of
            None \<Rightarrow> Some opts
          | Some (val, _) \<Rightarrow> do {
              v \<leftarrow> parse_value stod val;
              Some (if key \<in> fst ` set opts then opts else opts @ [(key, v)]) }))"

function parser_init ::
  "(string \<Rightarrow> 'd option) \<Rightarrow> string \<Rightarrow> (string \<times> 'd value_t) list \<Rightarrow> (string \<times> 'd value_t) list option" where
  "parser_init stod stream opts =
    (case getline (CHR 0x0A) stream of
       None \<Rightarrow> Some opts
     | Some (line, stream') \<Rightarrow>
         (case parse_line stod line opts of None \<Rightarrow> None | Some opts' \<Rightarrow> parser_init stod stream' opts'))"
  by pat_completeness auto

termination parser_init
  by (relation "measure (\<lambda>(_, stream, _). length stream)") (auto dest: getline_shorter)

declare parser_init.simps [simp del]

definition make_parser :: "(string \<Rightarrow> 'd option) \<Rightarrow> (string \<Rightarrow> string option) \<Rightarrow> string \<Rightarrow> 'd parser option" where
  "make_parser stod env stream = do {
     opts \<leftarrow> parser_init stod stream [];
     Some \<lparr>p_options = opts, p_env = env, p_stod = stod\<rparr> }"

definition to_upper :: "char \<Rightarrow> char" where
  "to_upper c = (let n = of_char c in if 97 \<le> n \<and> n \<le> 122 then char_of (n - 32 :: nat) else c)"

definition find_or_env :: "'d parser \<Rightarrow> string \<Rightarrow> 'd value_t option option" where
  "find_or_env cfg key =
    (case p_env cfg (map to_upper key) of
       Some env_v \<Rightarrow> map_option Some (parse_value (p_stod cfg) env_v)
     | None \<Rightarrow> Some (map_of (p_options cfg) key))"

definition get_string :: "'d parser \<Rightarrow> string \<Rightarrow> string option option" where
  "get_string cfg key = map_option (\<lambda>v. case v of Some (V_string s) \<Rightarrow> Some s | _ \<Rightarrow> None) (find_or_env cfg key)"

definition get_ulong :: "'d parser \<Rightarrow> string \<Rightarrow> u64 option option" where
  "get_ulong cfg key = map_option (\<lambda>v. case v of Some (V_ulong n) \<Rightarrow> Some n | _ \<Rightarrow> None) (find_or_env cfg key)"

definition get_decimal :: "'d parser \<Rightarrow> string \<Rightarrow> 'd option option" where
  "get_decimal cfg key = map_option (\<lambda>v. case v of Some (V_double d) \<Rightarrow> Some d | _ \<Rightarrow> None) (find_or_env cfg key)"

definition get_endpoint :: "'d parser \<Rightarrow> string \<Rightarrow> endpoint_t option option" where
  "get_endpoint cfg key = do {
     val_str \<leftarrow> get_string cfg key;
     case val_str of None \<Rightarrow> Some None | Some s \<Rightarrow> map_option Some (parse_ip_port s) }"

definition get_loglevel :: "'d parser \<Rightarrow> string \<Rightarrow> log_level option option" where
  "get_loglevel cfg key = do {
     val_str \<leftarrow> get_string cfg key;
     case val_str of None \<Rightarrow> Some None | Some s \<Rightarrow> Some (parse_loglevel s) }"

section \<open>Reading a file\<close>

lemma getline_delim: "delim \<notin> set line \<Longrightarrow> getline delim (line @ delim # rest) = Some (line, rest)"
proof -
  assume d: "delim \<notin> set line"
  then have "takeWhile (\<lambda>c. c \<noteq> delim) (line @ delim # rest) = line" "dropWhile (\<lambda>c. c \<noteq> delim) (line @ delim # rest) = delim # rest"
    by (induction line) auto
  then show ?thesis
    by (simp add: getline_def)
qed

lemma getline_last: "delim \<notin> set line \<Longrightarrow> line \<noteq> [] \<Longrightarrow> getline delim line = Some (line, [])"
proof -
  assume d: "delim \<notin> set line" and "line \<noteq> []"
  from d have tw: "takeWhile (\<lambda>c. c \<noteq> delim) line = line" and dw: "dropWhile (\<lambda>c. c \<noteq> delim) line = []"
    by (induction line) auto
  show ?thesis
    unfolding getline_def tw dw using \<open>line \<noteq> []\<close> by simp
qed

text \<open>The text of a file with the given options, strings in quotes and numbers in decimal.\<close>

fun print_value :: "'d value_t \<Rightarrow> string" where
  "print_value (V_string s) = CHR 0x22 # s @ [CHR 0x22]"
| "print_value (V_ulong n) = dec_string (unat n)"
| "print_value (V_double d) = []"

definition config_file :: "(string \<times> 'd value_t) list \<Rightarrow> string" where
  "config_file kvs = concat (map (\<lambda>(k, v). k @ CHR ''='' # print_value v @ [CHR 0x0A]) kvs)"

fun printable_value :: "'d value_t \<Rightarrow> bool" where
  "printable_value (V_string s) \<longleftrightarrow> CHR 0x0A \<notin> set s"
| "printable_value (V_ulong n) \<longleftrightarrow> True"
| "printable_value (V_double d) \<longleftrightarrow> False"

definition printable_option :: "string \<times> 'd value_t \<Rightarrow> bool" where
  "printable_option kv \<longleftrightarrow> CHR ''='' \<notin> set (fst kv) \<and> CHR 0x0A \<notin> set (fst kv) \<and> printable_value (snd kv)"

lemma dec_string_plain: "is_dec c \<Longrightarrow> c \<noteq> CHR 0x22 \<and> c \<noteq> CHR 0x0A \<and> c \<noteq> CHR ''.'' \<and> c \<noteq> CHR '':''"
  by (auto simp: is_dec_def)

lemma dec_string_chars: "CHR 0x0A \<notin> set (dec_string n)" "CHR ''.'' \<notin> set (dec_string n)" "CHR '':'' \<notin> set (dec_string n)"
    "hd (dec_string n) \<noteq> CHR 0x22" "last (dec_string n) \<noteq> CHR 0x22"
proof -
  have "hd (dec_string n) \<in> set (dec_string n)" "last (dec_string n) \<in> set (dec_string n)"
    by simp_all
  then show "CHR 0x0A \<notin> set (dec_string n)" "CHR ''.'' \<notin> set (dec_string n)" "CHR '':'' \<notin> set (dec_string n)"
      "hd (dec_string n) \<noteq> CHR 0x22" "last (dec_string n) \<noteq> CHR 0x22"
    using dec_string_digits [of n] dec_string_plain by metis+
qed

lemma parse_print_value: "printable_value v \<Longrightarrow> parse_value stod (print_value v) = Some v \<and> print_value v \<noteq> [] \<and> CHR 0x0A \<notin> set (print_value v)"
proof (cases v)
  case (V_ulong n)
  have "stoul (dec_string (unat n)) = Some (unat n)"
    using unat_lt2p [of n] by (intro stoul_dec_string) simp
  then show ?thesis
    by (simp add: V_ulong parse_value_def dec_string_chars)
qed (simp_all add: parse_value_def)

lemma parse_line_option:
  assumes "printable_option (k, v)"
  shows "parse_line stod (k @ CHR ''='' # print_value v) opts = Some (if k \<in> fst ` set opts then opts else opts @ [(k, v)])"
  using assms parse_print_value [of v stod] by (simp add: parse_line_def getline_delim getline_last printable_option_def)

lemma parser_init_line:
  assumes "printable_option (k, v)"
  shows "parser_init stod ((k @ CHR ''='' # print_value v @ [CHR 0x0A]) @ rest) opts =
    parser_init stod rest (if k \<in> fst ` set opts then opts else opts @ [(k, v)])"
proof -
  have "CHR 0x0A \<notin> set (k @ CHR ''='' # print_value v)"
    using assms parse_print_value [of v] by (simp add: printable_option_def)
  then have "getline (CHR 0x0A) ((k @ CHR ''='' # print_value v) @ CHR 0x0A # rest) = Some (k @ CHR ''='' # print_value v, rest)"
    by (rule getline_delim)
  then show ?thesis
    by (subst parser_init.simps) (simp add: parse_line_option [OF assms])
qed

lemma parser_init_file:
  "\<forall>kv \<in> set kvs. printable_option kv \<Longrightarrow>
     \<exists>opts'. parser_init stod (config_file kvs) opts = Some opts' \<and> map_of opts' = map_of (opts @ kvs)"
proof (induction kvs arbitrary: opts)
  case Nil
  then show ?case
    by (subst parser_init.simps) (simp add: config_file_def getline_def)
next
  case (Cons kv kvs)
  obtain k v where kv: "kv = (k, v)"
    by fastforce
  let ?opts = "if k \<in> fst ` set opts then opts else opts @ [(k, v)]"
  have "parser_init stod (config_file (kv # kvs)) opts = parser_init stod (config_file kvs) ?opts"
    using parser_init_line [of k v stod "config_file kvs" opts] Cons.prems by (simp add: config_file_def kv)
  moreover have "map_of (?opts @ kvs) = map_of (opts @ kv # kvs)"
  proof (cases "map_of opts k")
    case None
    then show ?thesis
      by (simp add: kv map_of_eq_None_iff)
  next
    case (Some y)
    then show ?thesis
      by (auto simp: kv map_add_def fun_eq_iff map_of_eq_None_iff dest: weak_map_of_SomeI split: option.splits) (metis map_of_eq_None_iff option.distinct(1))+
  qed
  ultimately show ?case
    using Cons.IH [of ?opts] Cons.prems by auto
qed

lemma parse_ip_port_print:
  assumes "CHR '':'' \<notin> set host"
  shows "parse_ip_port (host @ CHR '':'' # dec_string (unat port)) = Some (host, port)"
proof -
  have "unat port < 2 ^ 16"
    using unat_lt2p [of port] by simp
  then show ?thesis
    using assms by (simp add: parse_ip_port_def getline_delim getline_last dec_string_chars stoul_dec_string)
qed

section \<open>Properties\<close>

text \<open>C36: A configuration file is read back as it was written. From a file with a line for each option, quoted strings
  and decimal numbers, every key gets the value of its first line, unless the environment has the upper-case
  key, whose value then counts; and an endpoint of a host and a port is read back from its text.\<close>

theorem config_file_round_trip:
  assumes "\<forall>kv \<in> set kvs. printable_option kv"
  shows "\<exists>cfg. make_parser stod env (config_file kvs) = Some cfg \<and>
    (\<forall>key. find_or_env cfg key =
       (case env (map to_upper key) of Some e \<Rightarrow> map_option Some (parse_value stod e) | None \<Rightarrow> Some (map_of kvs key))) \<and>
    (\<forall>key host port. map_of kvs key = Some (V_string (host @ CHR '':'' # dec_string (unat port))) \<longrightarrow> CHR '':'' \<notin> set host \<longrightarrow>
       env (map to_upper key) = None \<longrightarrow> get_endpoint cfg key = Some (Some (host, port)))"
proof -
  obtain opts where opts: "parser_init stod (config_file kvs) [] = Some opts" "map_of opts = map_of kvs"
    using parser_init_file [OF assms, of stod "[]"] by auto
  show ?thesis
    by (intro exI [of _ "\<lparr>p_options = opts, p_env = env, p_stod = stod\<rparr>"])
      (simp add: make_parser_def opts find_or_env_def get_endpoint_def get_string_def parse_ip_port_print split: option.splits)
qed

theorem config_file_round_trip_witness:
  "\<exists>cfg. make_parser (\<lambda>s. None :: nat option) (\<lambda>k. if k = ''2PC'' then Some ''1'' else None)
      (config_file ([(''2pc'', V_ulong 0), (''shard0_endpoint'', V_string ''localhost:5557'')] :: (string \<times> nat value_t) list)) = Some cfg \<and>
    get_ulong cfg ''2pc'' = Some (Some 1) \<and> get_endpoint cfg ''shard0_endpoint'' = Some (Some (''localhost'', 5557))"
proof -
  let ?kvs = "[(''2pc'', V_ulong 0), (''shard0_endpoint'', V_string ''localhost:5557'')] :: (string \<times> nat value_t) list"
  have "\<forall>kv \<in> set ?kvs. printable_option kv"
    by (simp add: printable_option_def)
  from config_file_round_trip [OF this, of "\<lambda>s. None" "\<lambda>k. if k = ''2PC'' then Some ''1'' else None"]
  obtain cfg where cfg: "make_parser (\<lambda>s. None :: nat option) (\<lambda>k. if k = ''2PC'' then Some ''1'' else None) (config_file ?kvs) = Some cfg"
      "\<And>key. find_or_env cfg key = (case (if map to_upper key = ''2PC'' then Some ''1'' else None) of
         Some e \<Rightarrow> map_option Some (parse_value (\<lambda>s. None) e) | None \<Rightarrow> Some (map_of ?kvs key))"
    by blast
  have "get_endpoint cfg ''shard0_endpoint'' = Some (Some (''localhost'', 5557))"
    by (simp add: get_endpoint_def get_string_def cfg(2) to_upper_def parse_ip_port_def getline_def) (simp add: stoul_def Let_def is_space_def is_dec_def dec_value_def)
  moreover have "get_ulong cfg ''2pc'' = Some (Some 1)"
    by (simp add: get_ulong_def cfg(2) to_upper_def char_of_def bit_Suc_0_iff parse_value_def stoul_def is_space_def is_dec_def dec_value_def)
  ultimately show ?thesis
    using cfg(1) by blast
qed

end
