(* ===== verification/Config_Options.thy ===== *)
theory Config_Options
  imports Config_Parser Config
begin

text \<open>
  The options of the whole system (\<open>options\<close> of \<open>util/common/config.hpp\<close>) and how \<open>util/common/config.cpp\<close>
  reads them from a configuration file, checks them and splits the seeded outputs among load generators. Results are errors as strings,
  inside an \<open>option\<close> whose \<open>None\<close> is an exception or a failed assertion.
\<close>

section \<open>Options\<close>

record 'd options =
  o_stxo_cache_depth :: u64
  o_window_size :: u64
  o_input_count :: u64
  o_output_count :: u64
  o_invalid_rate :: 'd
  o_fixed_tx_rate :: 'd
  o_shard_completed_txs_cache_size :: u64
  o_atomizer_endpoints :: "endpoint_t list"
  o_archiver_endpoints :: "endpoint_t list"
  o_sentinel_endpoints :: "endpoint_t list"
  o_watchtower_client_endpoints :: "endpoint_t list"
  o_watchtower_internal_endpoints :: "endpoint_t list"
  o_shard_endpoints :: "endpoint_t list"
  o_atomizer_raft_endpoints :: "endpoint_t option list"
  o_batch_size :: u64
  o_target_block_interval :: u64
  o_atomizer_loglevels :: "log_level list"
  o_election_timeout_upper :: u32
  o_election_timeout_lower :: u32
  o_heartbeat :: u32
  o_snapshot_distance :: u32
  o_raft_max_batch :: u32
  o_shard_loglevels :: "log_level list"
  o_shard_db_dirs :: "string list"
  o_shard_ranges :: "shard_range list"
  o_seed_privkey :: "hash_t option"
  o_seed_value :: u64
  o_seed_from :: u64
  o_seed_to :: u64
  o_sentinel_loglevels :: "log_level list"
  o_archiver_loglevels :: "log_level list"
  o_watchtower_loglevels :: "log_level list"
  o_archiver_db_dirs :: "string list"
  o_fixed_tx_mode :: bool
  o_twophase_mode :: bool
  o_locking_shard_endpoints :: "endpoint_t list list"
  o_locking_shard_raft_endpoints :: "endpoint_t list list"
  o_locking_shard_readonly_endpoints :: "endpoint_t list list"
  o_coordinator_endpoints :: "endpoint_t list list"
  o_coordinator_raft_endpoints :: "endpoint_t list list"
  o_coordinator_max_threads :: u64
  o_coordinator_loglevels :: "log_level list"
  o_initial_mint_count :: u64
  o_initial_mint_value :: u64
  o_watchtower_block_cache_size :: u64
  o_watchtower_error_cache_size :: u64
  o_loadgen_count :: u64
  o_wait_for_followers :: bool
  o_sentinel_private_keys :: "nat \<Rightarrow> hash_t option"
  o_sentinel_public_keys :: "hash_t set"
  o_attestation_threshold :: u64

text \<open>The defaults; both rates are numbers with zero and one as defaults.\<close>

definition default_options :: "'d :: {zero, one} options" where
  "default_options =
    \<lparr>o_stxo_cache_depth = 1, o_window_size = 10000, o_input_count = 2, o_output_count = 2,
     o_invalid_rate = 0, o_fixed_tx_rate = 1, o_shard_completed_txs_cache_size = 10000000,
     o_atomizer_endpoints = [], o_archiver_endpoints = [], o_sentinel_endpoints = [],
     o_watchtower_client_endpoints = [], o_watchtower_internal_endpoints = [], o_shard_endpoints = [],
     o_atomizer_raft_endpoints = [], o_batch_size = 2000, o_target_block_interval = 250,
     o_atomizer_loglevels = [], o_election_timeout_upper = 4000, o_election_timeout_lower = 2000,
     o_heartbeat = 1000, o_snapshot_distance = 0, o_raft_max_batch = 100000,
     o_shard_loglevels = [], o_shard_db_dirs = [], o_shard_ranges = [],
     o_seed_privkey = None, o_seed_value = 0, o_seed_from = 0, o_seed_to = 0,
     o_sentinel_loglevels = [], o_archiver_loglevels = [], o_watchtower_loglevels = [],
     o_archiver_db_dirs = [], o_fixed_tx_mode = False, o_twophase_mode = False,
     o_locking_shard_endpoints = [], o_locking_shard_raft_endpoints = [], o_locking_shard_readonly_endpoints = [],
     o_coordinator_endpoints = [], o_coordinator_raft_endpoints = [], o_coordinator_max_threads = 75,
     o_coordinator_loglevels = [], o_initial_mint_count = 20000, o_initial_mint_value = 100,
     o_watchtower_block_cache_size = 100, o_watchtower_error_cache_size = 1000000,
     o_loadgen_count = 0, o_wait_for_followers = True,
     o_sentinel_private_keys = Map.empty, o_sentinel_public_keys = {}, o_attestation_threshold = 1\<rparr>"

section \<open>Keys\<close>

definition shard_key_prefix :: "nat \<Rightarrow> string" where
  "shard_key_prefix shard_id = ''shard'' @ dec_string shard_id @ ''_''"

definition atomizer_key_prefix :: "nat \<Rightarrow> string" where
  "atomizer_key_prefix atomizer_id = ''atomizer'' @ dec_string atomizer_id @ ''_''"

definition sentinel_key_prefix :: "nat \<Rightarrow> string" where
  "sentinel_key_prefix sentinel_id = ''sentinel'' @ dec_string sentinel_id @ ''_''"

definition archiver_key_prefix :: "nat \<Rightarrow> string" where
  "archiver_key_prefix archiver_id = ''archiver'' @ dec_string archiver_id @ ''_''"

definition watchtower_key_prefix :: "nat \<Rightarrow> string" where
  "watchtower_key_prefix watchtower_id = ''watchtower'' @ dec_string watchtower_id @ ''_''"

definition coordinator_key_prefix :: "nat \<Rightarrow> string" where
  "coordinator_key_prefix coordinator_id = ''coordinator'' @ dec_string coordinator_id @ ''_''"

definition get_shard_endpoint_key :: "nat \<Rightarrow> string" where
  "get_shard_endpoint_key shard_id = shard_key_prefix shard_id @ ''endpoint''"

definition get_atomizer_endpoint_key :: "nat \<Rightarrow> string" where
  "get_atomizer_endpoint_key atomizer_id = atomizer_key_prefix atomizer_id @ ''endpoint''"

definition get_atomizer_raft_endpoint_key :: "nat \<Rightarrow> string" where
  "get_atomizer_raft_endpoint_key atomizer_id = atomizer_key_prefix atomizer_id @ ''raft_endpoint''"

definition get_atomizer_loglevel_key :: "nat \<Rightarrow> string" where
  "get_atomizer_loglevel_key atomizer_id = atomizer_key_prefix atomizer_id @ ''loglevel''"

definition get_sentinel_endpoint_key :: "nat \<Rightarrow> string" where
  "get_sentinel_endpoint_key sentinel_id = sentinel_key_prefix sentinel_id @ ''endpoint''"

definition get_shard_db_key :: "nat \<Rightarrow> string" where
  "get_shard_db_key shard_id = shard_key_prefix shard_id @ ''db''"

definition get_shard_end_key :: "nat \<Rightarrow> string" where
  "get_shard_end_key shard_id = shard_key_prefix shard_id @ ''end''"

definition get_shard_start_key :: "nat \<Rightarrow> string" where
  "get_shard_start_key shard_id = shard_key_prefix shard_id @ ''start''"

definition get_archiver_endpoint_key :: "nat \<Rightarrow> string" where
  "get_archiver_endpoint_key archiver_id = archiver_key_prefix archiver_id @ ''endpoint''"

definition get_archiver_loglevel_key :: "nat \<Rightarrow> string" where
  "get_archiver_loglevel_key archiver_id = archiver_key_prefix archiver_id @ ''loglevel''"

definition get_archiver_db_key :: "nat \<Rightarrow> string" where
  "get_archiver_db_key archiver_id = archiver_key_prefix archiver_id @ ''db''"

definition get_shard_loglevel_key :: "nat \<Rightarrow> string" where
  "get_shard_loglevel_key shard_id = shard_key_prefix shard_id @ ''loglevel''"

definition get_sentinel_loglevel_key :: "nat \<Rightarrow> string" where
  "get_sentinel_loglevel_key sentinel_id = sentinel_key_prefix sentinel_id @ ''loglevel''"

definition get_watchtower_client_endpoint_key :: "nat \<Rightarrow> string" where
  "get_watchtower_client_endpoint_key watchtower_id = watchtower_key_prefix watchtower_id @ ''client_endpoint''"

definition get_watchtower_internal_endpoint_key :: "nat \<Rightarrow> string" where
  "get_watchtower_internal_endpoint_key watchtower_id = watchtower_key_prefix watchtower_id @ ''internal_endpoint''"

definition get_watchtower_loglevel_key :: "nat \<Rightarrow> string" where
  "get_watchtower_loglevel_key watchtower_id = watchtower_key_prefix watchtower_id @ ''loglevel''"

definition get_shard_node_count_key :: "nat \<Rightarrow> string" where
  "get_shard_node_count_key shard_id = shard_key_prefix shard_id @ ''count''"

definition get_shard_raft_endpoint_key :: "nat \<Rightarrow> nat \<Rightarrow> string" where
  "get_shard_raft_endpoint_key shard_id node_id = shard_key_prefix shard_id @ dec_string node_id @ ''_'' @ ''raft_endpoint''"

definition get_shard_node_endpoint_key :: "nat \<Rightarrow> nat \<Rightarrow> string" where
  "get_shard_node_endpoint_key shard_id node_id = shard_key_prefix shard_id @ dec_string node_id @ ''_'' @ ''endpoint''"

definition get_shard_readonly_endpoint_key :: "nat \<Rightarrow> nat \<Rightarrow> string" where
  "get_shard_readonly_endpoint_key shard_id node_id = shard_key_prefix shard_id @ dec_string node_id @ ''_'' @ ''readonly'' @ ''_'' @ ''endpoint''"

definition get_coordinator_endpoint_key :: "nat \<Rightarrow> nat \<Rightarrow> string" where
  "get_coordinator_endpoint_key coordinator_id node_id = coordinator_key_prefix coordinator_id @ dec_string node_id @ ''_'' @ ''endpoint''"

definition get_coordinator_raft_endpoint_key :: "nat \<Rightarrow> nat \<Rightarrow> string" where
  "get_coordinator_raft_endpoint_key coordinator_id node_id = coordinator_key_prefix coordinator_id @ dec_string node_id @ ''_'' @ ''raft_endpoint''"

definition get_coordinator_node_count_key :: "nat \<Rightarrow> string" where
  "get_coordinator_node_count_key coordinator_id = coordinator_key_prefix coordinator_id @ ''count''"

definition get_coordinator_loglevel_key :: "nat \<Rightarrow> string" where
  "get_coordinator_loglevel_key coordinator_id = coordinator_key_prefix coordinator_id @ ''loglevel''"

definition get_sentinel_private_key_key :: "nat \<Rightarrow> string" where
  "get_sentinel_private_key_key sentinel_id = sentinel_key_prefix sentinel_id @ ''private_key''"

definition get_sentinel_public_key_key :: "nat \<Rightarrow> string" where
  "get_sentinel_public_key_key sentinel_id = sentinel_key_prefix sentinel_id @ ''public_key''"

section \<open>Reading\<close>

type_synonym 'a cfg_result = "(string + 'a) option"

text \<open>A value that must be there, a value with a default, and a loop that stops at the first error.\<close>

definition require :: "'v option option \<Rightarrow> string \<Rightarrow> ('v \<Rightarrow> 'a cfg_result) \<Rightarrow> 'a cfg_result" where
  "require v msg k = (case v of None \<Rightarrow> None | Some None \<Rightarrow> Some (Inl msg) | Some (Some x) \<Rightarrow> k x)"

definition value_or :: "'v option option \<Rightarrow> 'v \<Rightarrow> ('v \<Rightarrow> 'a cfg_result) \<Rightarrow> 'a cfg_result" where
  "value_or v d k = (case v of None \<Rightarrow> None | Some None \<Rightarrow> k d | Some (Some x) \<Rightarrow> k x)"

definition seq_result :: "'a cfg_result \<Rightarrow> ('a \<Rightarrow> 'b cfg_result) \<Rightarrow> 'b cfg_result" where
  "seq_result r k = (case r of None \<Rightarrow> None | Some (Inl err) \<Rightarrow> Some (Inl err) | Some (Inr x) \<Rightarrow> k x)"

fun for_each :: "nat list \<Rightarrow> (nat \<Rightarrow> 's \<Rightarrow> 's cfg_result) \<Rightarrow> 's \<Rightarrow> 's cfg_result" where
  "for_each [] f s = Some (Inr s)"
| "for_each (i # is) f s = seq_result (f i s) (for_each is f)"

definition push_at :: "nat \<Rightarrow> 'v \<Rightarrow> 'v list list \<Rightarrow> 'v list list" where
  "push_at i x xss = xss[i := xss ! i @ [x]]"

definition read_shard_node :: "'d parser \<Rightarrow> nat \<Rightarrow> nat \<Rightarrow> 'd options \<Rightarrow> 'd options cfg_result" where
  "read_shard_node cfg i j opts =
    require (get_endpoint cfg (get_shard_raft_endpoint_key i j))
      (''No raft endpoint specified for shard '' @ dec_string i @ '' node '' @ dec_string j @ '' ('' @ get_shard_raft_endpoint_key i j @ '')'') (\<lambda>raft_ep.
    require (get_endpoint cfg (get_shard_node_endpoint_key i j))
      (''No endpoint specified for shard '' @ dec_string i @ '' node '' @ dec_string j) (\<lambda>ep.
    require (get_endpoint cfg (get_shard_readonly_endpoint_key i j))
      (''No read-only endpoint specified for shard '' @ dec_string i @ '' node '' @ dec_string j @ '' ('' @ get_shard_readonly_endpoint_key i j @ '')'') (\<lambda>ro_ep.
    Some (Inr (opts\<lparr>o_locking_shard_raft_endpoints := push_at i raft_ep (o_locking_shard_raft_endpoints opts),
                    o_locking_shard_endpoints := push_at i ep (o_locking_shard_endpoints opts),
                    o_locking_shard_readonly_endpoints := push_at i ro_ep (o_locking_shard_readonly_endpoints opts)\<rparr>)))))"

definition read_shard_nodes :: "'d parser \<Rightarrow> nat \<Rightarrow> 'd options \<Rightarrow> 'd options cfg_result" where
  "read_shard_nodes cfg i opts =
    require (get_ulong cfg (get_shard_node_count_key i))
      (''No node count specified for shard '' @ dec_string i @ '' ('' @ get_shard_node_count_key i @ '')'') (\<lambda>node_count.
    for_each [0..<unat node_count] (read_shard_node cfg i) opts)"

definition read_shard_endpoints :: "'d parser \<Rightarrow> 'd options \<Rightarrow> 'd options cfg_result" where
  "read_shard_endpoints cfg opts =
    value_or (get_ulong cfg ''shard_count'') 0 (\<lambda>shard_count.
    if o_twophase_mode opts then
      for_each [0..<unat shard_count] (read_shard_nodes cfg)
        (opts\<lparr>o_locking_shard_endpoints := replicate (unat shard_count) [],
              o_locking_shard_raft_endpoints := replicate (unat shard_count) [],
              o_locking_shard_readonly_endpoints := replicate (unat shard_count) []\<rparr>)
    else Some (Inr opts))"

definition read_shard_address :: "'d parser \<Rightarrow> nat \<Rightarrow> 'd options \<Rightarrow> 'd options cfg_result" where
  "read_shard_address cfg i opts =
    (if \<not> o_twophase_mode opts then
       require (get_endpoint cfg (get_shard_endpoint_key i))
         (''No endpoint specified for shard '' @ dec_string i @ '' ('' @ get_shard_endpoint_key i @ '')'') (\<lambda>shard_ep.
       require (get_string cfg (get_shard_db_key i))
         (''No db directory specified for shard '' @ dec_string i @ '' ('' @ get_shard_db_key i @ '')'') (\<lambda>shard_db.
       Some (Inr (opts\<lparr>o_shard_endpoints := o_shard_endpoints opts @ [shard_ep], o_shard_db_dirs := o_shard_db_dirs opts @ [shard_db]\<rparr>))))
     else Some (Inr opts))"

definition read_shard :: "'d parser \<Rightarrow> nat \<Rightarrow> 'd options \<Rightarrow> 'd options cfg_result" where
  "read_shard cfg i opts0 =
    seq_result (read_shard_address cfg i opts0) (\<lambda>opts.
    value_or (get_loglevel cfg (get_shard_loglevel_key i)) Warn (\<lambda>shard_loglevel.
    require (get_ulong cfg (get_shard_start_key i))
      (''No range start specified for shard '' @ dec_string i @ '' ('' @ get_shard_start_key i @ '')'') (\<lambda>range_start.
    require (get_ulong cfg (get_shard_end_key i))
      (''No range end specified for shard '' @ dec_string i @ '' ('' @ get_shard_end_key i @ '')'') (\<lambda>range_end.
    Some (Inr (opts\<lparr>o_shard_loglevels := o_shard_loglevels opts @ [shard_loglevel],
                    o_shard_ranges := o_shard_ranges opts @ [(ucast range_start, ucast range_end)]\<rparr>))))))"

definition read_seed_key :: "'d parser \<Rightarrow> 'd options \<Rightarrow> 'd options cfg_result" where
  "read_seed_key cfg opts =
    (if o_seed_from opts \<noteq> o_seed_to opts then
       require (get_string cfg ''seed_privkey'') ''Seed range defined but missing a private key'' (\<lambda>priv_str.
       if length priv_str \<noteq> 32 * 2 then Some (Inl ''Invalid seed private key length'')
       else do {
         key \<leftarrow> hash_from_hex priv_str;
         value_or (get_ulong cfg ''seed_value'') (o_seed_value opts) (\<lambda>v.
         Some (Inr (opts\<lparr>o_seed_privkey := Some key, o_seed_value := v\<rparr>))) })
     else Some (Inr opts))"

definition read_shard_options :: "'d parser \<Rightarrow> 'd options \<Rightarrow> 'd options cfg_result" where
  "read_shard_options cfg opts0 =
    value_or (get_ulong cfg ''shard_count'') 0 (\<lambda>shard_count.
    seq_result (for_each [0..<unat shard_count] (read_shard cfg) opts0) (\<lambda>opts.
    value_or (get_ulong cfg ''shard_completed_txs_cache_size'') (o_shard_completed_txs_cache_size opts) (\<lambda>cache_size.
    value_or (get_ulong cfg ''seed_from'') (o_seed_from opts) (\<lambda>seed_from.
    value_or (get_ulong cfg ''seed_to'') (o_seed_to opts) (\<lambda>seed_to.
    read_seed_key cfg (opts\<lparr>o_shard_completed_txs_cache_size := cache_size, o_seed_from := seed_from, o_seed_to := seed_to\<rparr>))))))"

definition read_coordinator_node :: "'d parser \<Rightarrow> nat \<Rightarrow> nat \<Rightarrow> 'd options \<Rightarrow> 'd options cfg_result" where
  "read_coordinator_node cfg i j opts =
    require (get_endpoint cfg (get_coordinator_raft_endpoint_key i j))
      (''No raft endpoint specified for coordinator '' @ dec_string i @ '' node '' @ dec_string j @ '' ('' @ get_coordinator_raft_endpoint_key i j @ '')'') (\<lambda>raft_ep.
    require (get_endpoint cfg (get_coordinator_endpoint_key i j))
      (''No endpoint specified for coordinator '' @ dec_string i @ '' node '' @ dec_string j @ '' ('' @ get_coordinator_endpoint_key i j @ '')'') (\<lambda>ep.
    Some (Inr (opts\<lparr>o_coordinator_raft_endpoints := push_at i raft_ep (o_coordinator_raft_endpoints opts),
                    o_coordinator_endpoints := push_at i ep (o_coordinator_endpoints opts)\<rparr>))))"

definition read_coordinator :: "'d parser \<Rightarrow> nat \<Rightarrow> 'd options \<Rightarrow> 'd options cfg_result" where
  "read_coordinator cfg i opts =
    value_or (get_loglevel cfg (get_coordinator_loglevel_key i)) Warn (\<lambda>coordinator_loglevel.
    require (get_ulong cfg (get_coordinator_node_count_key i))
      (''No node count specified for coordinator '' @ dec_string i @ '' ('' @ get_coordinator_node_count_key i @ '')'') (\<lambda>node_count.
    for_each [0..<unat node_count] (read_coordinator_node cfg i)
      (opts\<lparr>o_coordinator_loglevels := o_coordinator_loglevels opts @ [coordinator_loglevel]\<rparr>)))"

definition read_coordinator_options :: "'d parser \<Rightarrow> 'd options \<Rightarrow> 'd options cfg_result" where
  "read_coordinator_options cfg opts0 =
    value_or (get_ulong cfg ''coordinator_count'') 0 (\<lambda>coordinator_count.
    seq_result (for_each [0..<unat coordinator_count] (read_coordinator cfg)
        (opts0\<lparr>o_coordinator_endpoints := replicate (unat coordinator_count) [],
               o_coordinator_raft_endpoints := replicate (unat coordinator_count) []\<rparr>)) (\<lambda>opts.
    value_or (get_ulong cfg ''coordinator_max_threads'') (o_coordinator_max_threads opts) (\<lambda>max_threads.
    Some (Inr (opts\<lparr>o_coordinator_max_threads := max_threads\<rparr>)))))"

definition read_sentinel :: "'d parser \<Rightarrow> nat \<Rightarrow> 'd options \<Rightarrow> 'd options cfg_result" where
  "read_sentinel cfg i opts =
    require (get_endpoint cfg (get_sentinel_endpoint_key i))
      (''No endpoint specified for sentinel '' @ dec_string i @ '' ('' @ get_sentinel_endpoint_key i @ '')'') (\<lambda>sentinel_ep.
    value_or (get_loglevel cfg (get_sentinel_loglevel_key i)) Warn (\<lambda>sentinel_loglevel. do {
    private_key \<leftarrow> get_string cfg (get_sentinel_private_key_key i);
    private_keys \<leftarrow> (case private_key of None \<Rightarrow> Some (o_sentinel_private_keys opts)
       | Some s \<Rightarrow> map_option (\<lambda>key. (o_sentinel_private_keys opts)(i \<mapsto> key)) (hash_from_hex s));
    require (get_string cfg (get_sentinel_public_key_key i))
      (''No public key specified for sentinel '' @ dec_string i @ '' ('' @ get_sentinel_public_key_key i @ '')'') (\<lambda>public_key. do {
    key \<leftarrow> hash_from_hex public_key;
    Some (Inr (opts\<lparr>o_sentinel_endpoints := o_sentinel_endpoints opts @ [sentinel_ep],
                    o_sentinel_loglevels := o_sentinel_loglevels opts @ [sentinel_loglevel],
                    o_sentinel_private_keys := private_keys,
                    o_sentinel_public_keys := insert key (o_sentinel_public_keys opts)\<rparr>)) }) }))"

definition read_sentinel_options :: "'d parser \<Rightarrow> 'd options \<Rightarrow> 'd options cfg_result" where
  "read_sentinel_options cfg opts =
    value_or (get_ulong cfg ''attestation_threshold'') (o_attestation_threshold opts) (\<lambda>threshold.
    value_or (get_ulong cfg ''sentinel_count'') 0 (\<lambda>sentinel_count.
    for_each [0..<unat sentinel_count] (read_sentinel cfg) (opts\<lparr>o_attestation_threshold := threshold\<rparr>)))"

definition read_atomizer :: "'d parser \<Rightarrow> nat \<Rightarrow> 'd options \<Rightarrow> 'd options cfg_result" where
  "read_atomizer cfg i opts =
    require (get_endpoint cfg (get_atomizer_endpoint_key i))
      (''No endpoint specified for atomizer '' @ dec_string i @ '' ('' @ get_atomizer_endpoint_key i @ '')'') (\<lambda>atomizer_ep.
    value_or (get_loglevel cfg (get_atomizer_loglevel_key i)) Warn (\<lambda>loglevel. do {
    raft_ep \<leftarrow> get_endpoint cfg (get_atomizer_raft_endpoint_key i);
    Some (Inr (opts\<lparr>o_atomizer_endpoints := o_atomizer_endpoints opts @ [atomizer_ep],
                    o_atomizer_loglevels := o_atomizer_loglevels opts @ [loglevel],
                    o_atomizer_raft_endpoints := o_atomizer_raft_endpoints opts @ [raft_ep]\<rparr>)) }))"

definition read_atomizer_options :: "'d parser \<Rightarrow> 'd options \<Rightarrow> 'd options cfg_result" where
  "read_atomizer_options cfg opts0 =
    value_or (get_ulong cfg ''atomizer_count'') 0 (\<lambda>atomizer_count.
    seq_result (for_each [0..<unat atomizer_count] (read_atomizer cfg) opts0) (\<lambda>opts.
    value_or (get_ulong cfg ''target_block_interval'') (o_target_block_interval opts) (\<lambda>interval.
    value_or (get_ulong cfg ''stxo_cache_depth'') (o_stxo_cache_depth opts) (\<lambda>depth.
    Some (Inr (opts\<lparr>o_target_block_interval := interval, o_stxo_cache_depth := depth\<rparr>))))))"

definition read_archiver :: "'d parser \<Rightarrow> nat \<Rightarrow> 'd options \<Rightarrow> 'd options cfg_result" where
  "read_archiver cfg i opts =
    require (get_endpoint cfg (get_archiver_endpoint_key i))
      (''No endpoint specified for archiver '' @ dec_string i @ '' ('' @ get_archiver_endpoint_key i @ '')'') (\<lambda>archiver_ep.
    value_or (get_loglevel cfg (get_archiver_loglevel_key i)) Warn (\<lambda>archiver_loglevel.
    require (get_string cfg (get_archiver_db_key i))
      (''No db directory specified for archiver '' @ dec_string i @ '' ('' @ get_archiver_db_key i @ '')'') (\<lambda>archiver_db.
    Some (Inr (opts\<lparr>o_archiver_endpoints := o_archiver_endpoints opts @ [archiver_ep],
                    o_archiver_loglevels := o_archiver_loglevels opts @ [archiver_loglevel],
                    o_archiver_db_dirs := o_archiver_db_dirs opts @ [archiver_db]\<rparr>)))))"

definition read_archiver_options :: "'d parser \<Rightarrow> 'd options \<Rightarrow> 'd options cfg_result" where
  "read_archiver_options cfg opts =
    value_or (get_ulong cfg ''archiver_count'') 0 (\<lambda>archiver_count.
    for_each [0..<unat archiver_count] (read_archiver cfg) opts)"

text \<open>The message for a missing internal endpoint has the number of the watchtower twice.\<close>

definition read_watchtower :: "'d parser \<Rightarrow> nat \<Rightarrow> 'd options \<Rightarrow> 'd options cfg_result" where
  "read_watchtower cfg i opts =
    require (get_endpoint cfg (get_watchtower_client_endpoint_key i))
      (''No client endpoint specified for watchtower '' @ dec_string i @ '' ('' @ get_watchtower_client_endpoint_key i @ '')'') (\<lambda>client_ep.
    require (get_endpoint cfg (get_watchtower_internal_endpoint_key i))
      (''No internal endpoint specified for watchtower '' @ dec_string i @ dec_string i @ '' ('' @ get_watchtower_internal_endpoint_key i @ '')'') (\<lambda>internal_ep.
    value_or (get_loglevel cfg (get_watchtower_loglevel_key i)) Warn (\<lambda>watchtower_loglevel.
    Some (Inr (opts\<lparr>o_watchtower_client_endpoints := o_watchtower_client_endpoints opts @ [client_ep],
                    o_watchtower_internal_endpoints := o_watchtower_internal_endpoints opts @ [internal_ep],
                    o_watchtower_loglevels := o_watchtower_loglevels opts @ [watchtower_loglevel]\<rparr>)))))"

definition read_watchtower_options :: "'d parser \<Rightarrow> 'd options \<Rightarrow> 'd options cfg_result" where
  "read_watchtower_options cfg opts0 =
    value_or (get_ulong cfg ''watchtower_count'') 0 (\<lambda>watchtower_count.
    seq_result (for_each [0..<unat watchtower_count] (read_watchtower cfg) opts0) (\<lambda>opts.
    value_or (get_ulong cfg ''watchtower_block_cache_size'') (o_watchtower_block_cache_size opts) (\<lambda>block_cache_size.
    value_or (get_ulong cfg ''watchtower_error_cache_size'') (o_watchtower_error_cache_size opts) (\<lambda>error_cache_size.
    Some (Inr (opts\<lparr>o_watchtower_block_cache_size := block_cache_size, o_watchtower_error_cache_size := error_cache_size\<rparr>))))))"

text \<open>Values of 64 bits are cut to the 32 bits of these options.\<close>

definition read_raft_options :: "'d parser \<Rightarrow> 'd options \<Rightarrow> 'd options cfg_result" where
  "read_raft_options cfg opts =
    value_or (get_ulong cfg ''election_timeout_upper'') (scast (o_election_timeout_upper opts)) (\<lambda>upper.
    value_or (get_ulong cfg ''election_timeout_lower'') (scast (o_election_timeout_lower opts)) (\<lambda>lower.
    value_or (get_ulong cfg ''heartbeat'') (scast (o_heartbeat opts)) (\<lambda>heartbeat.
    value_or (get_ulong cfg ''snapshot_distance'') (scast (o_snapshot_distance opts)) (\<lambda>distance.
    value_or (get_ulong cfg ''raft_max_batch'') (scast (o_raft_max_batch opts)) (\<lambda>max_batch.
    value_or (get_ulong cfg ''batch_size'') (o_batch_size opts) (\<lambda>batch_size.
    value_or (map_option (map_option (\<lambda>n. n \<noteq> 0)) (get_ulong cfg ''wait_for_followers'')) (o_wait_for_followers opts) (\<lambda>wait_for_followers.
    Some (Inr (opts\<lparr>o_election_timeout_upper := ucast upper, o_election_timeout_lower := ucast lower, o_heartbeat := ucast heartbeat,
                    o_snapshot_distance := ucast distance, o_raft_max_batch := ucast max_batch, o_batch_size := batch_size,
                    o_wait_for_followers := wait_for_followers\<rparr>)))))))))"

definition read_loadgen_options :: "'d parser \<Rightarrow> 'd options \<Rightarrow> 'd options cfg_result" where
  "read_loadgen_options cfg opts =
    value_or (get_ulong cfg ''loadgen_sendtx_input_count'') (o_input_count opts) (\<lambda>input_count.
    value_or (get_ulong cfg ''loadgen_sendtx_output_count'') (o_output_count opts) (\<lambda>output_count.
    value_or (get_decimal cfg ''loadgen_invalid_tx_rate'') (o_invalid_rate opts) (\<lambda>invalid_rate.
    value_or (get_decimal cfg ''loadgen_fixed_tx_rate'') (o_fixed_tx_rate opts) (\<lambda>fixed_tx_rate.
    value_or (get_ulong cfg ''window_size'') (o_window_size opts) (\<lambda>window_size.
    value_or (get_ulong cfg ''initial_mint_count'') (o_initial_mint_count opts) (\<lambda>mint_count.
    value_or (get_ulong cfg ''initial_mint_value'') (o_initial_mint_value opts) (\<lambda>mint_value.
    value_or (get_ulong cfg ''loadgen_count'') (o_loadgen_count opts) (\<lambda>loadgen_count.
    Some (Inr (opts\<lparr>o_input_count := input_count, o_output_count := output_count, o_invalid_rate := invalid_rate,
                    o_fixed_tx_rate := fixed_tx_rate, o_fixed_tx_mode := (input_count \<noteq> 0 \<and> output_count \<noteq> 0),
                    o_window_size := window_size, o_initial_mint_count := mint_count, o_initial_mint_value := mint_value,
                    o_loadgen_count := loadgen_count\<rparr>))))))))))"

definition read_options :: "'d :: {zero, one} parser \<Rightarrow> 'd options cfg_result" where
  "read_options cfg =
    value_or (get_ulong cfg ''2pc'') 0 (\<lambda>twophase.
    seq_result (read_sentinel_options cfg (default_options\<lparr>o_twophase_mode := twophase \<noteq> 0\<rparr>)) (\<lambda>opts.
    seq_result (read_shard_endpoints cfg opts) (\<lambda>opts.
    seq_result (read_shard_options cfg opts) (\<lambda>opts.
    seq_result (read_atomizer_options cfg opts) (\<lambda>opts.
    seq_result (read_archiver_options cfg opts) (\<lambda>opts.
    seq_result (read_watchtower_options cfg opts) (\<lambda>opts.
    seq_result (read_coordinator_options cfg opts) (\<lambda>opts.
    seq_result (read_raft_options cfg opts) (\<lambda>opts.
    read_loadgen_options cfg opts)))))))))"

section \<open>Checking\<close>

definition check_options :: "'d options \<Rightarrow> string option" where
  "check_options opts =
    (if o_twophase_mode opts \<and> o_sentinel_endpoints opts = [] then Some ''Two-phase mode requires at least one configured sentinel''
     else if o_twophase_mode opts \<and> o_locking_shard_endpoints opts = [] then Some ''Two-phase mode requires at least one configured shard''
     else if o_twophase_mode opts \<and> o_coordinator_endpoints opts = [] then Some ''Two-phase mode required at least one configured coordinator''
     else if \<not> o_twophase_mode opts \<and> o_watchtower_client_endpoints opts = [] then Some ''Atomizer mode requires at least one configured watchtower''
     else if \<not> o_twophase_mode opts \<and> o_archiver_endpoints opts = [] then Some ''Atomizer mode requires at least one configured archiver''
     else if \<not> o_twophase_mode opts \<and> o_shard_endpoints opts = [] \<and> o_sentinel_endpoints opts \<noteq> [] then
       Some ''Sentinels require at least one configured shard''
     else if \<not> o_twophase_mode opts \<and> o_atomizer_endpoints opts = [] then Some ''Atomizer mode requires at least one configured atomizer''
     else if o_seed_from opts > o_seed_to opts then Some ''shard_seed_from > shard_seed_to''
     else if o_seed_from opts \<noteq> o_seed_to opts \<and> o_seed_value opts = 0 then Some ''Seed range defined but value is zero''
     else if card (o_sentinel_public_keys opts) < unat (o_attestation_threshold opts) then
       Some ''Not enough sentinel public keys to reach the attestation threshold''
     else None)"

definition load_options ::
  "(string \<Rightarrow> 'd option) \<Rightarrow> (string \<Rightarrow> string option) \<Rightarrow> string \<Rightarrow> 'd :: {zero, one} options cfg_result" where
  "load_options stod env stream =
    do {
      cfg \<leftarrow> make_parser stod env stream;
      seq_result (read_options cfg) (\<lambda>opts.
      case check_options opts of Some res \<Rightarrow> Some (Inl res) | None \<Rightarrow> Some (Inr opts)) }"

definition loadgen_seed_range :: "'d options \<Rightarrow> u64 \<Rightarrow> (u64 \<times> u64) option" where
  "loadgen_seed_range opts gen_id =
    (if gen_id < o_loadgen_count opts then
       let total_seed_range = o_seed_to opts - o_seed_from opts;
           seed_range_sz = total_seed_range div o_loadgen_count opts;
           our_range_start = o_seed_from opts + gen_id * seed_range_sz;
           our_range_end = our_range_start + seed_range_sz - 1
       in Some (our_range_start, our_range_end)
     else None)"

section \<open>Results\<close>

named_theorems cfg_results

lemma require_Inr [cfg_results]: "require v msg k = Some (Inr y) \<longleftrightarrow> (\<exists>x. v = Some (Some x) \<and> k x = Some (Inr y))"
  by (auto simp: require_def split: option.splits)

lemma seq_result_Inr [cfg_results]: "seq_result r k = Some (Inr y) \<longleftrightarrow> (\<exists>x. r = Some (Inr x) \<and> k x = Some (Inr y))"
  by (auto simp: seq_result_def split: option.splits sum.splits)

lemma hash_from_hex_length: "hash_from_hex s = Some h \<Longrightarrow> length h = 32"
  by (auto simp: hash_from_hex_def Let_def split: if_splits)

section \<open>What the options hold\<close>

text \<open>
  What a configuration says, without the loops that read it: a value with a default, a count, a list with the value of the
  \<open>i\<close>-th key at index \<open>i\<close>, and for groups of nodes a list of such lists, each with as many entries as its own count says.
\<close>

definition config_or :: "'v option option \<Rightarrow> 'v \<Rightarrow> 'v" where
  "config_or v d = (case v of Some (Some x) \<Rightarrow> x | _ \<Rightarrow> d)"

definition config_count :: "'d parser \<Rightarrow> string \<Rightarrow> nat" where
  "config_count cfg key = unat (config_or (get_ulong cfg key) 0)"

definition values_at :: "(nat \<Rightarrow> 'v option option) \<Rightarrow> nat \<Rightarrow> 'v list \<Rightarrow> bool" where
  "values_at v n xs \<longleftrightarrow> map (\<lambda>x. Some (Some x)) xs = map v [0..<n]"

definition loglevels_at :: "(nat \<Rightarrow> log_level option option) \<Rightarrow> nat \<Rightarrow> log_level list \<Rightarrow> bool" where
  "loglevels_at v n xs \<longleftrightarrow> xs = map (\<lambda>i. config_or (v i) Warn) [0..<n]"

definition nodes_at :: "(nat \<Rightarrow> u64 option option) \<Rightarrow> (nat \<Rightarrow> nat \<Rightarrow> 'v option option) \<Rightarrow> nat \<Rightarrow> 'v list list \<Rightarrow> bool" where
  "nodes_at counts v n xss \<longleftrightarrow> length xss = n \<and>
     (\<forall>i<n. \<exists>c. counts i = Some (Some c) \<and> values_at (v i) (unat c) (xss ! i))"

definition config_hash :: "string option option \<Rightarrow> hash_t option" where
  "config_hash v = (case v of Some (Some s) \<Rightarrow> hash_from_hex s | _ \<Rightarrow> None)"

definition sentinels_read :: "'d parser \<Rightarrow> nat \<Rightarrow> 'd options \<Rightarrow> bool" where
  "sentinels_read cfg n opts \<longleftrightarrow>
     values_at (\<lambda>i. get_endpoint cfg (get_sentinel_endpoint_key i)) n (o_sentinel_endpoints opts) \<and>
     loglevels_at (\<lambda>i. get_loglevel cfg (get_sentinel_loglevel_key i)) n (o_sentinel_loglevels opts) \<and>
     o_sentinel_private_keys opts = (\<lambda>i. if i < n then config_hash (get_string cfg (get_sentinel_private_key_key i)) else None) \<and>
     (\<exists>strs keys. values_at (\<lambda>i. get_string cfg (get_sentinel_public_key_key i)) n strs \<and>
        map hash_from_hex strs = map Some keys \<and> o_sentinel_public_keys opts = set keys)"

definition shard_endpoints_read :: "'d parser \<Rightarrow> nat \<Rightarrow> 'd options \<Rightarrow> bool" where
  "shard_endpoints_read cfg n opts \<longleftrightarrow>
     (let counts = \<lambda>i. get_ulong cfg (get_shard_node_count_key i) in
      nodes_at counts (\<lambda>i j. get_endpoint cfg (get_shard_raft_endpoint_key i j)) n (o_locking_shard_raft_endpoints opts) \<and>
      nodes_at counts (\<lambda>i j. get_endpoint cfg (get_shard_node_endpoint_key i j)) n (o_locking_shard_endpoints opts) \<and>
      nodes_at counts (\<lambda>i j. get_endpoint cfg (get_shard_readonly_endpoint_key i j)) n (o_locking_shard_readonly_endpoints opts))"

definition shards_read :: "'d parser \<Rightarrow> nat \<Rightarrow> 'd options \<Rightarrow> bool" where
  "shards_read cfg n opts \<longleftrightarrow>
     (let m = if o_twophase_mode opts then 0 else n in
      values_at (\<lambda>i. get_endpoint cfg (get_shard_endpoint_key i)) m (o_shard_endpoints opts) \<and>
      values_at (\<lambda>i. get_string cfg (get_shard_db_key i)) m (o_shard_db_dirs opts)) \<and>
     loglevels_at (\<lambda>i. get_loglevel cfg (get_shard_loglevel_key i)) n (o_shard_loglevels opts) \<and>
     (\<exists>starts ends. values_at (\<lambda>i. get_ulong cfg (get_shard_start_key i)) n starts \<and>
        values_at (\<lambda>i. get_ulong cfg (get_shard_end_key i)) n ends \<and>
        o_shard_ranges opts = map2 (\<lambda>a b. (ucast a, ucast b)) starts ends)"

definition seed_read :: "'d parser \<Rightarrow> 'd options \<Rightarrow> bool" where
  "seed_read cfg opts \<longleftrightarrow>
     o_seed_from opts = config_or (get_ulong cfg ''seed_from'') 0 \<and> o_seed_to opts = config_or (get_ulong cfg ''seed_to'') 0 \<and>
     (if o_seed_from opts = o_seed_to opts then o_seed_privkey opts = None \<and> o_seed_value opts = 0
      else o_seed_value opts = config_or (get_ulong cfg ''seed_value'') 0 \<and>
        (\<exists>s key. get_string cfg ''seed_privkey'' = Some (Some s) \<and> length s = 64 \<and> hash_from_hex s = Some key \<and>
           o_seed_privkey opts = Some key))"

definition atomizers_read :: "'d parser \<Rightarrow> nat \<Rightarrow> 'd options \<Rightarrow> bool" where
  "atomizers_read cfg n opts \<longleftrightarrow>
     values_at (\<lambda>i. get_endpoint cfg (get_atomizer_endpoint_key i)) n (o_atomizer_endpoints opts) \<and>
     loglevels_at (\<lambda>i. get_loglevel cfg (get_atomizer_loglevel_key i)) n (o_atomizer_loglevels opts) \<and>
     map Some (o_atomizer_raft_endpoints opts) = map (\<lambda>i. get_endpoint cfg (get_atomizer_raft_endpoint_key i)) [0..<n]"

definition archivers_read :: "'d parser \<Rightarrow> nat \<Rightarrow> 'd options \<Rightarrow> bool" where
  "archivers_read cfg n opts \<longleftrightarrow>
     values_at (\<lambda>i. get_endpoint cfg (get_archiver_endpoint_key i)) n (o_archiver_endpoints opts) \<and>
     loglevels_at (\<lambda>i. get_loglevel cfg (get_archiver_loglevel_key i)) n (o_archiver_loglevels opts) \<and>
     values_at (\<lambda>i. get_string cfg (get_archiver_db_key i)) n (o_archiver_db_dirs opts)"

definition watchtowers_read :: "'d parser \<Rightarrow> nat \<Rightarrow> 'd options \<Rightarrow> bool" where
  "watchtowers_read cfg n opts \<longleftrightarrow>
     values_at (\<lambda>i. get_endpoint cfg (get_watchtower_client_endpoint_key i)) n (o_watchtower_client_endpoints opts) \<and>
     values_at (\<lambda>i. get_endpoint cfg (get_watchtower_internal_endpoint_key i)) n (o_watchtower_internal_endpoints opts) \<and>
     loglevels_at (\<lambda>i. get_loglevel cfg (get_watchtower_loglevel_key i)) n (o_watchtower_loglevels opts)"

definition coordinators_read :: "'d parser \<Rightarrow> nat \<Rightarrow> 'd options \<Rightarrow> bool" where
  "coordinators_read cfg n opts \<longleftrightarrow>
     (let counts = \<lambda>i. get_ulong cfg (get_coordinator_node_count_key i) in
      nodes_at counts (\<lambda>i j. get_endpoint cfg (get_coordinator_raft_endpoint_key i j)) n (o_coordinator_raft_endpoints opts) \<and>
      nodes_at counts (\<lambda>i j. get_endpoint cfg (get_coordinator_endpoint_key i j)) n (o_coordinator_endpoints opts)) \<and>
     loglevels_at (\<lambda>i. get_loglevel cfg (get_coordinator_loglevel_key i)) n (o_coordinator_loglevels opts)"

lemmas reads_defs = sentinels_read_def shard_endpoints_read_def shards_read_def seed_read_def atomizers_read_def archivers_read_def
  watchtowers_read_def coordinators_read_def Let_def

lemma value_or_config [cfg_results]: "value_or v d k = Some (Inr y) \<longleftrightarrow> v \<noteq> None \<and> k (config_or v d) = Some (Inr y)"
  by (auto simp: value_or_def config_or_def split: option.splits)

lemma values_at_0 [simp]: "values_at v 0 xs \<longleftrightarrow> xs = []"
  by (simp add: values_at_def)

lemma values_at_Suc [simp]: "values_at v (Suc n) (xs @ [x]) \<longleftrightarrow> values_at v n xs \<and> v n = Some (Some x)"
  by (auto simp: values_at_def)

lemma loglevels_at_0 [simp]: "loglevels_at v 0 xs \<longleftrightarrow> xs = []"
  by (simp add: loglevels_at_def)

lemma loglevels_at_Suc [simp]: "loglevels_at v (Suc n) (xs @ [x]) \<longleftrightarrow> loglevels_at v n xs \<and> x = config_or (v n) Warn"
  by (simp add: loglevels_at_def)

lemma nodes_at_0 [simp]: "nodes_at counts v 0 xss \<longleftrightarrow> xss = []"
  by (auto simp: nodes_at_def)

lemma nodes_at_Suc:
  "nodes_at counts v n xss \<Longrightarrow> counts n = Some (Some c) \<Longrightarrow> values_at (v n) (unat c) xs \<Longrightarrow> nodes_at counts v (Suc n) (xss @ [xs])"
  by (auto simp: nodes_at_def less_Suc_eq nth_append)

lemma values_at_length: "values_at v n xs \<Longrightarrow> length xs = n"
  unfolding values_at_def by (drule arg_cong [of _ _ length]) simp

lemma for_each_append:
  "for_each (is @ js) f s = seq_result (for_each is f s) (for_each js f)"
  by (induction "is" arbitrary: s) (simp_all add: seq_result_def split: option.splits sum.splits)

text \<open>A loop over \<open>i < n\<close>: what holds at turn \<open>i\<close> holds for \<open>n\<close> at the end.\<close>

lemma for_each_upt:
  assumes "for_each [0..<n] f s = Some (Inr s')" "P 0 s"
    and "\<And>i t t'. i < n \<Longrightarrow> P i t \<Longrightarrow> f i t = Some (Inr t') \<Longrightarrow> P (Suc i) t'"
  shows "P n s'"
  using assms
proof (induction n arbitrary: s')
  case (Suc n)
  obtain t where t: "for_each [0..<n] f s = Some (Inr t)" "f n t = Some (Inr s')"
    using Suc.prems(1) by (auto simp: for_each_append cfg_results)
  have "P n t"
    by (rule Suc.IH [OF t(1) Suc.prems(2)]) (use Suc.prems(3) in auto)
  then show ?case
    using Suc.prems(3) t(2) by blast
qed simp

text \<open>Rounds of \<open>push_at\<close> at one index.\<close>

definition append_at :: "nat \<Rightarrow> 'v list \<Rightarrow> 'v list list \<Rightarrow> 'v list list" where
  "append_at i xs xss = xss[i := xss ! i @ xs]"

lemma append_at_Nil [simp]: "append_at i [] xss = xss"
  by (simp add: append_at_def)

lemma push_at_append_at [simp]: "push_at i x (append_at i xs xss) = append_at i (xs @ [x]) xss"
  by (cases "i < length xss") (simp_all add: push_at_def append_at_def list_update_beyond)

lemma append_at_next:
  assumes "length xss = i" "i < n"
  shows "append_at i xs (xss @ replicate (n - i) []) = (xss @ [xs]) @ replicate (n - Suc i) []"
proof -
  have "replicate (n - i) [] = ([] :: 'a list) # replicate (n - Suc i) []"
    using assms(2) by (metis Suc_diff_Suc replicate_Suc)
  then show ?thesis
    using assms(1) by (simp add: append_at_def list_update_append nth_append)
qed

section \<open>Each reader fills in its own options\<close>

lemma read_sentinel_options_read:
  assumes "read_sentinel_options cfg opts = Some (Inr opts')" "o_sentinel_endpoints opts = []" "o_sentinel_loglevels opts = []"
    "o_sentinel_private_keys opts = Map.empty" "o_sentinel_public_keys opts = {}"
  shows "sentinels_read cfg (config_count cfg ''sentinel_count'') opts' \<and>
    o_attestation_threshold opts' = config_or (get_ulong cfg ''attestation_threshold'') (o_attestation_threshold opts) \<and>
    (\<exists>a b c d e. opts' = opts\<lparr>o_attestation_threshold := a, o_sentinel_endpoints := b, o_sentinel_loglevels := c,
       o_sentinel_private_keys := d, o_sentinel_public_keys := e\<rparr>)"
    (is "_ \<and> _ = ?t \<and> _")
proof -
  let ?P = "\<lambda>n s. sentinels_read cfg n s \<and> (\<exists>b c d e. s = opts\<lparr>o_attestation_threshold := ?t, o_sentinel_endpoints := b,
      o_sentinel_loglevels := c, o_sentinel_private_keys := d, o_sentinel_public_keys := e\<rparr>)"
  have loop: "for_each [0..<config_count cfg ''sentinel_count''] (read_sentinel cfg) (opts\<lparr>o_attestation_threshold := ?t\<rparr>) = Some (Inr opts')"
    using assms(1) by (simp add: read_sentinel_options_def value_or_config config_count_def)
  have "?P (config_count cfg ''sentinel_count'') opts'"
  proof (rule for_each_upt [OF loop, where P = ?P])
    show "?P 0 (opts\<lparr>o_attestation_threshold := ?t\<rparr>)"
    proof
      show "sentinels_read cfg 0 (opts\<lparr>o_attestation_threshold := ?t\<rparr>)"
        using assms(2-5) by (simp add: sentinels_read_def)
      have "opts\<lparr>o_attestation_threshold := ?t\<rparr> = opts\<lparr>o_attestation_threshold := ?t, o_sentinel_endpoints := [],
          o_sentinel_loglevels := [], o_sentinel_private_keys := Map.empty, o_sentinel_public_keys := {}\<rparr>"
        by (rule options.equality) (simp_all add: assms(2-5))
      then show "\<exists>b c d e. opts\<lparr>o_attestation_threshold := ?t\<rparr> = opts\<lparr>o_attestation_threshold := ?t, o_sentinel_endpoints := b,
          o_sentinel_loglevels := c, o_sentinel_private_keys := d, o_sentinel_public_keys := e\<rparr>"
        by blast
    qed
    fix i s s'
    assume s: "?P i s" and r: "read_sentinel cfg i s = Some (Inr s')"
    from r obtain ep p priv str key where ep: "get_endpoint cfg (get_sentinel_endpoint_key i) = Some (Some ep)"
        and p: "get_string cfg (get_sentinel_private_key_key i) = Some p"
          "(case p of None \<Rightarrow> Some (o_sentinel_private_keys s)
             | Some w \<Rightarrow> map_option (\<lambda>k. (o_sentinel_private_keys s)(i \<mapsto> k)) (hash_from_hex w)) = Some priv"
        and key: "get_string cfg (get_sentinel_public_key_key i) = Some (Some str)" "hash_from_hex str = Some key"
        and s': "s' = s\<lparr>o_sentinel_endpoints := o_sentinel_endpoints s @ [ep],
          o_sentinel_loglevels := o_sentinel_loglevels s @ [config_or (get_loglevel cfg (get_sentinel_loglevel_key i)) Warn],
          o_sentinel_private_keys := priv, o_sentinel_public_keys := insert key (o_sentinel_public_keys s)\<rparr>"
      unfolding read_sentinel_def require_Inr value_or_config bind_eq_Some_conv by clarsimp
    obtain strs keys where keys: "values_at (\<lambda>i. get_string cfg (get_sentinel_public_key_key i)) i strs"
        "map hash_from_hex strs = map Some keys" "o_sentinel_public_keys s = set keys"
      using s by (auto simp: sentinels_read_def)
    have old: "o_sentinel_private_keys s = (\<lambda>j. if j < i then config_hash (get_string cfg (get_sentinel_private_key_key j)) else None)"
      using s by (simp add: sentinels_read_def)
    have "priv = (o_sentinel_private_keys s)(i := config_hash (get_string cfg (get_sentinel_private_key_key i)))"
      using p(2) by (cases p) (auto simp: p(1) config_hash_def old)
    then have "priv = (\<lambda>j. if j < Suc i then config_hash (get_string cfg (get_sentinel_private_key_key j)) else None)"
      by (auto simp: old less_Suc_eq)
    moreover have "\<exists>strs keys. values_at (\<lambda>i. get_string cfg (get_sentinel_public_key_key i)) (Suc i) strs \<and>
        map hash_from_hex strs = map Some keys \<and> insert key (o_sentinel_public_keys s) = set keys"
      using keys key by (intro exI [of _ "strs @ [str]"] exI [of _ "keys @ [key]"]) simp
    ultimately have "sentinels_read cfg (Suc i) s'"
      using s ep by (simp add: s' sentinels_read_def)
    moreover obtain b c d e where "s = opts\<lparr>o_attestation_threshold := ?t, o_sentinel_endpoints := b,
        o_sentinel_loglevels := c, o_sentinel_private_keys := d, o_sentinel_public_keys := e\<rparr>"
      using s by blast
    then have "s' = opts\<lparr>o_attestation_threshold := ?t, o_sentinel_endpoints := o_sentinel_endpoints s',
        o_sentinel_loglevels := o_sentinel_loglevels s', o_sentinel_private_keys := priv, o_sentinel_public_keys := o_sentinel_public_keys s'\<rparr>"
      by (simp add: s')
    ultimately show "?P (Suc i) s'"
      by blast
  qed
  then show ?thesis
    by force
qed

lemma read_shard_nodes_read:
  assumes "read_shard_nodes cfg i s = Some (Inr s')"
  shows "\<exists>c xs ys zs. get_ulong cfg (get_shard_node_count_key i) = Some (Some c) \<and>
    values_at (\<lambda>j. get_endpoint cfg (get_shard_raft_endpoint_key i j)) (unat c) xs \<and>
    values_at (\<lambda>j. get_endpoint cfg (get_shard_node_endpoint_key i j)) (unat c) ys \<and>
    values_at (\<lambda>j. get_endpoint cfg (get_shard_readonly_endpoint_key i j)) (unat c) zs \<and>
    s' = s\<lparr>o_locking_shard_raft_endpoints := append_at i xs (o_locking_shard_raft_endpoints s),
      o_locking_shard_endpoints := append_at i ys (o_locking_shard_endpoints s),
      o_locking_shard_readonly_endpoints := append_at i zs (o_locking_shard_readonly_endpoints s)\<rparr>"
proof -
  let ?P = "\<lambda>n t. \<exists>xs ys zs. values_at (\<lambda>j. get_endpoint cfg (get_shard_raft_endpoint_key i j)) n xs \<and>
    values_at (\<lambda>j. get_endpoint cfg (get_shard_node_endpoint_key i j)) n ys \<and>
    values_at (\<lambda>j. get_endpoint cfg (get_shard_readonly_endpoint_key i j)) n zs \<and>
    t = s\<lparr>o_locking_shard_raft_endpoints := append_at i xs (o_locking_shard_raft_endpoints s),
      o_locking_shard_endpoints := append_at i ys (o_locking_shard_endpoints s),
      o_locking_shard_readonly_endpoints := append_at i zs (o_locking_shard_readonly_endpoints s)\<rparr>"
  obtain c where c: "get_ulong cfg (get_shard_node_count_key i) = Some (Some c)"
      and loop: "for_each [0..<unat c] (read_shard_node cfg i) s = Some (Inr s')"
    using assms by (auto simp: read_shard_nodes_def require_Inr)
  have "?P (unat c) s'"
  proof (rule for_each_upt [OF loop, where P = ?P])
    fix j t t'
    assume "?P j t" and t': "read_shard_node cfg i j t = Some (Inr t')"
    then obtain xs ys zs where "values_at (\<lambda>j. get_endpoint cfg (get_shard_raft_endpoint_key i j)) j xs"
      "values_at (\<lambda>j. get_endpoint cfg (get_shard_node_endpoint_key i j)) j ys"
      "values_at (\<lambda>j. get_endpoint cfg (get_shard_readonly_endpoint_key i j)) j zs"
      "t = s\<lparr>o_locking_shard_raft_endpoints := append_at i xs (o_locking_shard_raft_endpoints s),
        o_locking_shard_endpoints := append_at i ys (o_locking_shard_endpoints s),
        o_locking_shard_readonly_endpoints := append_at i zs (o_locking_shard_readonly_endpoints s)\<rparr>"
      by blast
    moreover obtain x y z where "get_endpoint cfg (get_shard_raft_endpoint_key i j) = Some (Some x)"
        "get_endpoint cfg (get_shard_node_endpoint_key i j) = Some (Some y)" "get_endpoint cfg (get_shard_readonly_endpoint_key i j) = Some (Some z)"
        "t' = t\<lparr>o_locking_shard_raft_endpoints := push_at i x (o_locking_shard_raft_endpoints t),
          o_locking_shard_endpoints := push_at i y (o_locking_shard_endpoints t),
          o_locking_shard_readonly_endpoints := push_at i z (o_locking_shard_readonly_endpoints t)\<rparr>"
      using t' unfolding read_shard_node_def require_Inr by auto
    ultimately show "?P (Suc j) t'"
      by (intro exI [of _ "xs @ [x]"] exI [of _ "ys @ [y]"] exI [of _ "zs @ [z]"]) simp
  qed simp
  with c show ?thesis
    by blast
qed

lemma read_shard_endpoints_read:
  assumes "read_shard_endpoints cfg opts = Some (Inr opts')" "o_locking_shard_raft_endpoints opts = []"
    "o_locking_shard_endpoints opts = []" "o_locking_shard_readonly_endpoints opts = []"
  shows "shard_endpoints_read cfg (if o_twophase_mode opts then config_count cfg ''shard_count'' else 0) opts' \<and>
    (\<exists>a b c. opts' = opts\<lparr>o_locking_shard_raft_endpoints := a, o_locking_shard_endpoints := b, o_locking_shard_readonly_endpoints := c\<rparr>)"
proof (cases "o_twophase_mode opts")
  case False
  then have "opts' = opts"
    using assms(1) by (simp add: read_shard_endpoints_def value_or_config)
  moreover have "opts = opts\<lparr>o_locking_shard_raft_endpoints := [], o_locking_shard_endpoints := [], o_locking_shard_readonly_endpoints := []\<rparr>"
    by (rule options.equality) (simp_all add: assms(2-4))
  moreover have "shard_endpoints_read cfg 0 opts"
    using assms(2-4) by (simp add: shard_endpoints_read_def)
  ultimately show ?thesis
    unfolding if_not_P [OF False] by blast
next
  case True
  let ?n = "config_count cfg ''shard_count''"
  let ?counts = "\<lambda>i. get_ulong cfg (get_shard_node_count_key i)"
  let ?raft = "\<lambda>i j. get_endpoint cfg (get_shard_raft_endpoint_key i j)" and ?ep = "\<lambda>i j. get_endpoint cfg (get_shard_node_endpoint_key i j)"
    and ?ro = "\<lambda>i j. get_endpoint cfg (get_shard_readonly_endpoint_key i j)"
  let ?with = "\<lambda>i a b c. opts\<lparr>o_locking_shard_raft_endpoints := a @ replicate (?n - i) [], o_locking_shard_endpoints := b @ replicate (?n - i) [],
      o_locking_shard_readonly_endpoints := c @ replicate (?n - i) []\<rparr>"
  let ?P = "\<lambda>i s. \<exists>a b c. nodes_at ?counts ?raft i a \<and> nodes_at ?counts ?ep i b \<and> nodes_at ?counts ?ro i c \<and> s = ?with i a b c"
  have "?with 0 [] [] [] = opts\<lparr>o_locking_shard_endpoints := replicate ?n [], o_locking_shard_raft_endpoints := replicate ?n [],
      o_locking_shard_readonly_endpoints := replicate ?n []\<rparr>"
    by (rule options.equality) simp_all
  then have loop: "for_each [0..<?n] (read_shard_nodes cfg) (?with 0 [] [] []) = Some (Inr opts')"
    using assms(1) True by (simp only: read_shard_endpoints_def value_or_config config_count_def if_True)
  have "?P ?n opts'"
  proof (rule for_each_upt [OF loop, where P = ?P])
    fix i t t'
    assume i: "i < ?n" and "?P i t" and t': "read_shard_nodes cfg i t = Some (Inr t')"
    then obtain a b c where abc: "nodes_at ?counts ?raft i a" "nodes_at ?counts ?ep i b" "nodes_at ?counts ?ro i c" and t: "t = ?with i a b c"
      by blast
    have l: "length a = i" "length b = i" "length c = i"
      using abc by (auto simp: nodes_at_def)
    obtain m xs ys zs where r: "?counts i = Some (Some m)" "values_at (?raft i) (unat m) xs" "values_at (?ep i) (unat m) ys"
        "values_at (?ro i) (unat m) zs" and "t' = ?with (Suc i) (a @ [xs]) (b @ [ys]) (c @ [zs])"
      using read_shard_nodes_read [OF t'] by (auto simp: t append_at_next [OF l(1) i] append_at_next [OF l(2) i] append_at_next [OF l(3) i])
    then show "?P (Suc i) t'"
      using nodes_at_Suc [OF abc(1) r(1,2)] nodes_at_Suc [OF abc(2) r(1,3)] nodes_at_Suc [OF abc(3) r(1,4)] by blast
  qed simp
  then show ?thesis
    using True by (auto simp: shard_endpoints_read_def)
qed

lemma read_shard_read:
  assumes "read_shard cfg i s = Some (Inr s')" "shards_read cfg i s"
  shows "shards_read cfg (Suc i) s' \<and> (\<exists>a b c d. s' = s\<lparr>o_shard_endpoints := a, o_shard_db_dirs := b, o_shard_loglevels := c, o_shard_ranges := d\<rparr>)"
proof -
  obtain t a b where t: "read_shard_address cfg i s = Some (Inr t)"
      and ab: "get_ulong cfg (get_shard_start_key i) = Some (Some a)" "get_ulong cfg (get_shard_end_key i) = Some (Some b)"
      and s': "s' = t\<lparr>o_shard_loglevels := o_shard_loglevels t @ [config_or (get_loglevel cfg (get_shard_loglevel_key i)) Warn],
        o_shard_ranges := o_shard_ranges t @ [(ucast a, ucast b)]\<rparr>"
    using assms(1) unfolding read_shard_def require_Inr value_or_config seq_result_Inr by auto
  let ?addr = "\<lambda>eps dbs. s\<lparr>o_shard_endpoints := eps, o_shard_db_dirs := dbs\<rparr>"
  obtain eps dbs where t': "t = ?addr eps dbs"
      and addr: "values_at (\<lambda>i. get_endpoint cfg (get_shard_endpoint_key i)) (if o_twophase_mode s then 0 else Suc i) eps"
        "values_at (\<lambda>i. get_string cfg (get_shard_db_key i)) (if o_twophase_mode s then 0 else Suc i) dbs"
  proof (cases "o_twophase_mode s")
    case True
    then have "t = ?addr (o_shard_endpoints s) (o_shard_db_dirs s)"
      using t by (simp add: read_shard_address_def)
    then show ?thesis
      using that assms(2) True by (simp add: shards_read_def)
  next
    case False
    then obtain ep db where "get_endpoint cfg (get_shard_endpoint_key i) = Some (Some ep)" "get_string cfg (get_shard_db_key i) = Some (Some db)"
        "t = ?addr (o_shard_endpoints s @ [ep]) (o_shard_db_dirs s @ [db])"
      using t by (auto simp: read_shard_address_def require_Inr)
    then show ?thesis
      using that assms(2) False by (simp add: shards_read_def)
  qed
  obtain starts ends where se: "values_at (\<lambda>i. get_ulong cfg (get_shard_start_key i)) i starts" "values_at (\<lambda>i. get_ulong cfg (get_shard_end_key i)) i ends"
      "o_shard_ranges s = map2 (\<lambda>a b. (ucast a, ucast b)) starts ends"
    using assms(2) by (auto simp: shards_read_def)
  have "\<exists>starts ends. values_at (\<lambda>i. get_ulong cfg (get_shard_start_key i)) (Suc i) starts \<and>
      values_at (\<lambda>i. get_ulong cfg (get_shard_end_key i)) (Suc i) ends \<and> o_shard_ranges s' = map2 (\<lambda>a b. (ucast a, ucast b)) starts ends"
    using se ab values_at_length [OF se(1)] values_at_length [OF se(2)]
    by (intro exI [of _ "starts @ [a]"] exI [of _ "ends @ [b]"]) (simp add: s' t')
  then have "shards_read cfg (Suc i) s'"
    using assms(2) addr by (simp add: shards_read_def s' t')
  moreover have "s' = s\<lparr>o_shard_endpoints := eps, o_shard_db_dirs := dbs, o_shard_loglevels := o_shard_loglevels s', o_shard_ranges := o_shard_ranges s'\<rparr>"
    by (simp add: s' t')
  ultimately show ?thesis
    by blast
qed

lemma read_seed_key_read:
  assumes "read_seed_key cfg opts = Some (Inr opts')" "o_seed_from opts = config_or (get_ulong cfg ''seed_from'') 0"
    "o_seed_to opts = config_or (get_ulong cfg ''seed_to'') 0" "o_seed_privkey opts = None" "o_seed_value opts = 0"
  shows "seed_read cfg opts' \<and> (\<exists>key v. opts' = opts\<lparr>o_seed_privkey := key, o_seed_value := v\<rparr>)"
proof (cases "o_seed_from opts = o_seed_to opts")
  case True
  then have "opts' = opts\<lparr>o_seed_privkey := o_seed_privkey opts, o_seed_value := o_seed_value opts\<rparr>"
    using assms(1) by (simp add: read_seed_key_def)
  moreover from this have "seed_read cfg opts'"
    using True assms(2-5) by (simp add: seed_read_def)
  ultimately show ?thesis
    by blast
next
  case False
  then obtain s key where key: "get_string cfg ''seed_privkey'' = Some (Some s)" "length s = 64" "hash_from_hex s = Some key"
      and opts': "opts' = opts\<lparr>o_seed_privkey := Some key, o_seed_value := config_or (get_ulong cfg ''seed_value'') 0\<rparr>"
    using assms(1,5) by (auto simp: read_seed_key_def require_Inr value_or_config bind_eq_Some_conv split: if_splits)
  then have "seed_read cfg opts'"
    using False assms(2,3) by (auto simp: seed_read_def)
  with opts' show ?thesis
    by blast
qed

lemma read_shard_options_read:
  assumes "read_shard_options cfg opts = Some (Inr opts')" "o_shard_endpoints opts = []" "o_shard_db_dirs opts = []"
    "o_shard_loglevels opts = []" "o_shard_ranges opts = []" "o_seed_privkey opts = None" "o_seed_value opts = 0"
    "o_seed_from opts = 0" "o_seed_to opts = 0"
  shows "shards_read cfg (config_count cfg ''shard_count'') opts' \<and> seed_read cfg opts' \<and>
    (\<exists>a b c d e f g h k. opts' = opts\<lparr>o_shard_endpoints := a, o_shard_db_dirs := b, o_shard_loglevels := c, o_shard_ranges := d,
       o_shard_completed_txs_cache_size := e, o_seed_from := f, o_seed_to := g, o_seed_privkey := h, o_seed_value := k\<rparr>)"
proof -
  let ?n = "config_count cfg ''shard_count''"
  let ?upd = "\<lambda>a b c d. opts\<lparr>o_shard_endpoints := a, o_shard_db_dirs := b, o_shard_loglevels := c, o_shard_ranges := d\<rparr>"
  let ?P = "\<lambda>i s. shards_read cfg i s \<and> (\<exists>a b c d. s = ?upd a b c d)"
  obtain t c f g where loop: "for_each [0..<?n] (read_shard cfg) opts = Some (Inr t)"
      and fg: "f = config_or (get_ulong cfg ''seed_from'') (o_seed_from t)" "g = config_or (get_ulong cfg ''seed_to'') (o_seed_to t)"
      and key: "read_seed_key cfg (t\<lparr>o_shard_completed_txs_cache_size := c, o_seed_from := f, o_seed_to := g\<rparr>) = Some (Inr opts')"
    using assms(1) unfolding read_shard_options_def value_or_config seq_result_Inr config_count_def by blast
  have "?P ?n t"
  proof (rule for_each_upt [OF loop, where P = ?P])
    have "shards_read cfg 0 opts"
      using assms(2-5) by (simp add: shards_read_def)
    moreover have "opts = ?upd [] [] [] []"
      by (rule options.equality) (simp_all add: assms(2-5))
    ultimately show "?P 0 opts"
      by blast
    fix i s s'
    assume s: "?P i s" and r: "read_shard cfg i s = Some (Inr s')"
    obtain a b c d a' b' c' d' where "s = ?upd a b c d" "s' = s\<lparr>o_shard_endpoints := a', o_shard_db_dirs := b',
        o_shard_loglevels := c', o_shard_ranges := d'\<rparr>"
      using s read_shard_read [OF r] by blast
    then have "s' = ?upd a' b' c' d'"
      by simp
    then show "?P (Suc i) s'"
      using s read_shard_read [OF r] by blast
  qed
  then obtain a b d e where t: "t = ?upd a b d e" and read: "shards_read cfg ?n t"
    by blast
  obtain k v where opts': "opts' = t\<lparr>o_shard_completed_txs_cache_size := c, o_seed_from := f, o_seed_to := g, o_seed_privkey := k, o_seed_value := v\<rparr>"
      and "seed_read cfg opts'"
    using read_seed_key_read [OF key] assms(6-9) fg by (auto simp: t)
  moreover have "shards_read cfg ?n opts'"
    using read by (simp add: opts' shards_read_def)
  moreover have "opts' = opts\<lparr>o_shard_endpoints := a, o_shard_db_dirs := b, o_shard_loglevels := d, o_shard_ranges := e,
      o_shard_completed_txs_cache_size := c, o_seed_from := f, o_seed_to := g, o_seed_privkey := k, o_seed_value := v\<rparr>"
    by (simp add: opts' t)
  ultimately show ?thesis
    by blast
qed

lemma read_atomizer_options_read:
  assumes "read_atomizer_options cfg opts = Some (Inr opts')" "o_atomizer_endpoints opts = []" "o_atomizer_loglevels opts = []"
    "o_atomizer_raft_endpoints opts = []"
  shows "atomizers_read cfg (config_count cfg ''atomizer_count'') opts' \<and>
    (\<exists>a b c d e. opts' = opts\<lparr>o_atomizer_endpoints := a, o_atomizer_loglevels := b, o_atomizer_raft_endpoints := c,
       o_target_block_interval := d, o_stxo_cache_depth := e\<rparr>)"
proof -
  let ?n = "config_count cfg ''atomizer_count''"
  let ?upd = "\<lambda>a b c. opts\<lparr>o_atomizer_endpoints := a, o_atomizer_loglevels := b, o_atomizer_raft_endpoints := c\<rparr>"
  let ?P = "\<lambda>i s. \<exists>a b c. s = ?upd a b c \<and> atomizers_read cfg i s"
  obtain t d e where loop: "for_each [0..<?n] (read_atomizer cfg) opts = Some (Inr t)"
      and opts': "opts' = t\<lparr>o_target_block_interval := d, o_stxo_cache_depth := e\<rparr>"
    using assms(1) unfolding read_atomizer_options_def value_or_config seq_result_Inr config_count_def by auto
  have "?P ?n t"
  proof (rule for_each_upt [OF loop, where P = ?P])
    have "opts = ?upd [] [] []"
      by (rule options.equality) (simp_all add: assms(2-4))
    moreover have "atomizers_read cfg 0 opts"
      using assms(2-4) by (simp add: atomizers_read_def)
    ultimately show "?P 0 opts"
      by blast
    fix i s s'
    assume "?P i s" and r: "read_atomizer cfg i s = Some (Inr s')"
    then obtain a b c where s: "s = ?upd a b c" "atomizers_read cfg i s"
      by blast
    from r obtain ep raft where ep: "get_endpoint cfg (get_atomizer_endpoint_key i) = Some (Some ep)"
        "get_endpoint cfg (get_atomizer_raft_endpoint_key i) = Some raft"
        and s': "s' = s\<lparr>o_atomizer_endpoints := o_atomizer_endpoints s @ [ep],
          o_atomizer_loglevels := o_atomizer_loglevels s @ [config_or (get_loglevel cfg (get_atomizer_loglevel_key i)) Warn],
          o_atomizer_raft_endpoints := o_atomizer_raft_endpoints s @ [raft]\<rparr>"
      unfolding read_atomizer_def require_Inr value_or_config bind_eq_Some_conv by auto
    have "s' = ?upd (o_atomizer_endpoints s') (o_atomizer_loglevels s') (o_atomizer_raft_endpoints s')" "atomizers_read cfg (Suc i) s'"
      using s ep by (simp_all add: s' atomizers_read_def)
    then show "?P (Suc i) s'"
      by blast
  qed
  then obtain a b c where t: "t = ?upd a b c" "atomizers_read cfg ?n t"
    by blast
  then have "atomizers_read cfg ?n opts'"
    by (simp add: opts' atomizers_read_def)
  moreover have "opts' = opts\<lparr>o_atomizer_endpoints := a, o_atomizer_loglevels := b, o_atomizer_raft_endpoints := c,
       o_target_block_interval := d, o_stxo_cache_depth := e\<rparr>"
    using t(1) by (simp add: opts')
  ultimately show ?thesis
    by blast
qed

lemma read_archiver_options_read:
  assumes "read_archiver_options cfg opts = Some (Inr opts')" "o_archiver_endpoints opts = []" "o_archiver_loglevels opts = []"
    "o_archiver_db_dirs opts = []"
  shows "\<exists>a b c. opts' = opts\<lparr>o_archiver_endpoints := a, o_archiver_loglevels := b, o_archiver_db_dirs := c\<rparr> \<and>
    archivers_read cfg (config_count cfg ''archiver_count'') opts'"
proof -
  let ?n = "config_count cfg ''archiver_count''"
  let ?upd = "\<lambda>a b c. opts\<lparr>o_archiver_endpoints := a, o_archiver_loglevels := b, o_archiver_db_dirs := c\<rparr>"
  let ?P = "\<lambda>i s. \<exists>a b c. s = ?upd a b c \<and> archivers_read cfg i s"
  have loop: "for_each [0..<?n] (read_archiver cfg) opts = Some (Inr opts')"
    using assms(1) unfolding read_archiver_options_def value_or_config config_count_def by blast
  show ?thesis
  proof (rule for_each_upt [OF loop, where P = ?P])
    have "opts = ?upd [] [] []"
      by (rule options.equality) (simp_all add: assms(2-4))
    moreover have "archivers_read cfg 0 opts"
      using assms(2-4) by (simp add: archivers_read_def)
    ultimately show "?P 0 opts"
      by blast
    fix i s s'
    assume "?P i s" and r: "read_archiver cfg i s = Some (Inr s')"
    then obtain a b c where s: "s = ?upd a b c" "archivers_read cfg i s"
      by blast
    from r obtain ep db where ep: "get_endpoint cfg (get_archiver_endpoint_key i) = Some (Some ep)"
        "get_string cfg (get_archiver_db_key i) = Some (Some db)"
        and s': "s' = s\<lparr>o_archiver_endpoints := o_archiver_endpoints s @ [ep],
          o_archiver_loglevels := o_archiver_loglevels s @ [config_or (get_loglevel cfg (get_archiver_loglevel_key i)) Warn],
          o_archiver_db_dirs := o_archiver_db_dirs s @ [db]\<rparr>"
      unfolding read_archiver_def require_Inr value_or_config by auto
    have "s' = ?upd (o_archiver_endpoints s') (o_archiver_loglevels s') (o_archiver_db_dirs s')" "archivers_read cfg (Suc i) s'"
      using s ep by (simp_all add: s' archivers_read_def)
    then show "?P (Suc i) s'"
      by blast
  qed
qed

lemma read_watchtower_options_read:
  assumes "read_watchtower_options cfg opts = Some (Inr opts')" "o_watchtower_client_endpoints opts = []"
    "o_watchtower_internal_endpoints opts = []" "o_watchtower_loglevels opts = []"
  shows "watchtowers_read cfg (config_count cfg ''watchtower_count'') opts' \<and>
    (\<exists>a b c d e. opts' = opts\<lparr>o_watchtower_client_endpoints := a, o_watchtower_internal_endpoints := b, o_watchtower_loglevels := c,
       o_watchtower_block_cache_size := d, o_watchtower_error_cache_size := e\<rparr>)"
proof -
  let ?n = "config_count cfg ''watchtower_count''"
  let ?upd = "\<lambda>a b c. opts\<lparr>o_watchtower_client_endpoints := a, o_watchtower_internal_endpoints := b, o_watchtower_loglevels := c\<rparr>"
  let ?P = "\<lambda>i s. \<exists>a b c. s = ?upd a b c \<and> watchtowers_read cfg i s"
  obtain t d e where loop: "for_each [0..<?n] (read_watchtower cfg) opts = Some (Inr t)"
      and opts': "opts' = t\<lparr>o_watchtower_block_cache_size := d, o_watchtower_error_cache_size := e\<rparr>"
    using assms(1) unfolding read_watchtower_options_def value_or_config seq_result_Inr config_count_def by auto
  have "?P ?n t"
  proof (rule for_each_upt [OF loop, where P = ?P])
    have "opts = ?upd [] [] []"
      by (rule options.equality) (simp_all add: assms(2-4))
    moreover have "watchtowers_read cfg 0 opts"
      using assms(2-4) by (simp add: watchtowers_read_def)
    ultimately show "?P 0 opts"
      by blast
    fix i s s'
    assume "?P i s" and r: "read_watchtower cfg i s = Some (Inr s')"
    then obtain a b c where s: "s = ?upd a b c" "watchtowers_read cfg i s"
      by blast
    from r obtain c e where ep: "get_endpoint cfg (get_watchtower_client_endpoint_key i) = Some (Some c)"
        "get_endpoint cfg (get_watchtower_internal_endpoint_key i) = Some (Some e)"
        and s': "s' = s\<lparr>o_watchtower_client_endpoints := o_watchtower_client_endpoints s @ [c],
          o_watchtower_internal_endpoints := o_watchtower_internal_endpoints s @ [e],
          o_watchtower_loglevels := o_watchtower_loglevels s @ [config_or (get_loglevel cfg (get_watchtower_loglevel_key i)) Warn]\<rparr>"
      unfolding read_watchtower_def require_Inr value_or_config by auto
    have "s' = ?upd (o_watchtower_client_endpoints s') (o_watchtower_internal_endpoints s') (o_watchtower_loglevels s')"
        "watchtowers_read cfg (Suc i) s'"
      using s ep by (simp_all add: s' watchtowers_read_def)
    then show "?P (Suc i) s'"
      by blast
  qed
  then obtain a b c where t: "t = ?upd a b c" "watchtowers_read cfg ?n t"
    by blast
  then have "watchtowers_read cfg ?n opts'"
    by (simp add: opts' watchtowers_read_def)
  moreover have "opts' = opts\<lparr>o_watchtower_client_endpoints := a, o_watchtower_internal_endpoints := b, o_watchtower_loglevels := c,
       o_watchtower_block_cache_size := d, o_watchtower_error_cache_size := e\<rparr>"
    using t(1) by (simp add: opts')
  ultimately show ?thesis
    by blast
qed

lemma read_coordinator_read:
  assumes "read_coordinator cfg i s = Some (Inr s')"
  shows "\<exists>c xs ys. get_ulong cfg (get_coordinator_node_count_key i) = Some (Some c) \<and>
    values_at (\<lambda>j. get_endpoint cfg (get_coordinator_raft_endpoint_key i j)) (unat c) xs \<and>
    values_at (\<lambda>j. get_endpoint cfg (get_coordinator_endpoint_key i j)) (unat c) ys \<and>
    s' = s\<lparr>o_coordinator_loglevels := o_coordinator_loglevels s @ [config_or (get_loglevel cfg (get_coordinator_loglevel_key i)) Warn],
      o_coordinator_raft_endpoints := append_at i xs (o_coordinator_raft_endpoints s),
      o_coordinator_endpoints := append_at i ys (o_coordinator_endpoints s)\<rparr>"
proof -
  let ?raft = "\<lambda>j. get_endpoint cfg (get_coordinator_raft_endpoint_key i j)" and ?ep = "\<lambda>j. get_endpoint cfg (get_coordinator_endpoint_key i j)"
  let ?s = "s\<lparr>o_coordinator_loglevels := o_coordinator_loglevels s @ [config_or (get_loglevel cfg (get_coordinator_loglevel_key i)) Warn]\<rparr>"
  let ?upd = "\<lambda>xs ys. ?s\<lparr>o_coordinator_raft_endpoints := append_at i xs (o_coordinator_raft_endpoints s),
      o_coordinator_endpoints := append_at i ys (o_coordinator_endpoints s)\<rparr>"
  let ?P = "\<lambda>n t. \<exists>xs ys. values_at ?raft n xs \<and> values_at ?ep n ys \<and> t = ?upd xs ys"
  obtain c where c: "get_ulong cfg (get_coordinator_node_count_key i) = Some (Some c)"
      and loop: "for_each [0..<unat c] (read_coordinator_node cfg i) ?s = Some (Inr s')"
    using assms by (auto simp: read_coordinator_def require_Inr value_or_config)
  have "?P (unat c) s'"
  proof (rule for_each_upt [OF loop, where P = ?P])
    fix j t t'
    assume "?P j t" and t': "read_coordinator_node cfg i j t = Some (Inr t')"
    then obtain xs ys where "values_at ?raft j xs" "values_at ?ep j ys" "t = ?upd xs ys"
      by blast
    moreover obtain x y where "?raft j = Some (Some x)" "?ep j = Some (Some y)"
        "t' = t\<lparr>o_coordinator_raft_endpoints := push_at i x (o_coordinator_raft_endpoints t),
          o_coordinator_endpoints := push_at i y (o_coordinator_endpoints t)\<rparr>"
      using t' unfolding read_coordinator_node_def require_Inr by auto
    ultimately show "?P (Suc j) t'"
      by (intro exI [of _ "xs @ [x]"] exI [of _ "ys @ [y]"]) simp
  qed simp
  with c show ?thesis
    by auto
qed

lemma read_coordinator_options_read:
  assumes "read_coordinator_options cfg opts = Some (Inr opts')" "o_coordinator_loglevels opts = []"
  shows "coordinators_read cfg (config_count cfg ''coordinator_count'') opts' \<and>
    (\<exists>a b c d. opts' = opts\<lparr>o_coordinator_raft_endpoints := a, o_coordinator_endpoints := b, o_coordinator_loglevels := c,
       o_coordinator_max_threads := d\<rparr>)"
proof -
  let ?n = "config_count cfg ''coordinator_count''"
  let ?counts = "\<lambda>i. get_ulong cfg (get_coordinator_node_count_key i)" and ?level = "\<lambda>i. get_loglevel cfg (get_coordinator_loglevel_key i)"
  let ?raft = "\<lambda>i j. get_endpoint cfg (get_coordinator_raft_endpoint_key i j)" and ?ep = "\<lambda>i j. get_endpoint cfg (get_coordinator_endpoint_key i j)"
  let ?with = "\<lambda>i a b c. opts\<lparr>o_coordinator_raft_endpoints := a @ replicate (?n - i) [], o_coordinator_endpoints := b @ replicate (?n - i) [],
      o_coordinator_loglevels := c\<rparr>"
  let ?P = "\<lambda>i s. \<exists>a b c. nodes_at ?counts ?raft i a \<and> nodes_at ?counts ?ep i b \<and> loglevels_at ?level i c \<and> s = ?with i a b c"
  obtain t d where "for_each [0..<?n] (read_coordinator cfg)
        (opts\<lparr>o_coordinator_endpoints := replicate ?n [], o_coordinator_raft_endpoints := replicate ?n []\<rparr>) = Some (Inr t)"
      and opts': "opts' = t\<lparr>o_coordinator_max_threads := d\<rparr>"
    using assms(1) unfolding read_coordinator_options_def value_or_config seq_result_Inr config_count_def by auto
  moreover have "opts\<lparr>o_coordinator_endpoints := replicate ?n [], o_coordinator_raft_endpoints := replicate ?n []\<rparr> = ?with 0 [] [] []"
    by (rule options.equality) (simp_all add: assms(2))
  ultimately have loop: "for_each [0..<?n] (read_coordinator cfg) (?with 0 [] [] []) = Some (Inr t)"
    by (simp only:)
  have "?P ?n t"
  proof (rule for_each_upt [OF loop, where P = ?P])
    fix i s s'
    assume i: "i < ?n" and "?P i s" and r: "read_coordinator cfg i s = Some (Inr s')"
    then obtain a b c where abc: "nodes_at ?counts ?raft i a" "nodes_at ?counts ?ep i b" "loglevels_at ?level i c" and s: "s = ?with i a b c"
      by blast
    have l: "length a = i" "length b = i"
      using abc by (auto simp: nodes_at_def)
    obtain m xs ys where r: "?counts i = Some (Some m)" "values_at (?raft i) (unat m) xs" "values_at (?ep i) (unat m) ys"
        and s': "s' = ?with (Suc i) (a @ [xs]) (b @ [ys]) (c @ [config_or (?level i) Warn])"
      using read_coordinator_read [OF r] by (auto simp: s append_at_next [OF l(1) i] append_at_next [OF l(2) i])
    have "loglevels_at ?level (Suc i) (c @ [config_or (?level i) Warn])"
      using abc(3) by simp
    with s' show "?P (Suc i) s'"
      using nodes_at_Suc [OF abc(1) r(1,2)] nodes_at_Suc [OF abc(2) r(1,3)] by blast
  qed simp
  then obtain a b c where abc: "nodes_at ?counts ?raft ?n a" "nodes_at ?counts ?ep ?n b" "loglevels_at ?level ?n c" and t: "t = ?with ?n a b c"
    by blast
  have "opts' = opts\<lparr>o_coordinator_raft_endpoints := a, o_coordinator_endpoints := b, o_coordinator_loglevels := c, o_coordinator_max_threads := d\<rparr>"
    by (simp add: opts' t)
  moreover from this have "coordinators_read cfg ?n opts'"
    using abc by (simp add: coordinators_read_def)
  ultimately show ?thesis
    by blast
qed

text \<open>All options that describe the system are those of the configuration.\<close>

definition options_read :: "'d parser \<Rightarrow> 'd options \<Rightarrow> bool" where
  "options_read cfg opts \<longleftrightarrow>
     o_twophase_mode opts = (config_or (get_ulong cfg ''2pc'') 0 \<noteq> 0) \<and>
     o_attestation_threshold opts = config_or (get_ulong cfg ''attestation_threshold'') 1 \<and>
     sentinels_read cfg (config_count cfg ''sentinel_count'') opts \<and>
     shard_endpoints_read cfg (if o_twophase_mode opts then config_count cfg ''shard_count'' else 0) opts \<and>
     shards_read cfg (config_count cfg ''shard_count'') opts \<and> seed_read cfg opts \<and>
     atomizers_read cfg (config_count cfg ''atomizer_count'') opts \<and>
     archivers_read cfg (config_count cfg ''archiver_count'') opts \<and>
     watchtowers_read cfg (config_count cfg ''watchtower_count'') opts \<and>
     coordinators_read cfg (config_count cfg ''coordinator_count'') opts"

lemma read_raft_options_read:
  assumes "read_raft_options cfg opts = Some (Inr opts')" "options_read cfg opts"
  shows "options_read cfg opts'"
proof -
  obtain a b c d e f g where "opts' = opts\<lparr>o_election_timeout_upper := a, o_election_timeout_lower := b, o_heartbeat := c,
      o_snapshot_distance := d, o_raft_max_batch := e, o_batch_size := f, o_wait_for_followers := g\<rparr>"
    using assms(1) unfolding read_raft_options_def value_or_config by blast
  then have "options_read cfg opts' = options_read cfg opts"
    by (simp add: options_read_def reads_defs)
  then show ?thesis
    using assms(2) by simp
qed

lemma read_loadgen_options_read:
  assumes "read_loadgen_options cfg opts = Some (Inr opts')" "options_read cfg opts"
  shows "options_read cfg opts'"
proof -
  obtain a b c d e f g h k where "opts' = opts\<lparr>o_input_count := a, o_output_count := b, o_invalid_rate := c, o_fixed_tx_rate := d,
      o_fixed_tx_mode := e, o_window_size := f, o_initial_mint_count := g, o_initial_mint_value := h, o_loadgen_count := k\<rparr>"
    using assms(1) unfolding read_loadgen_options_def value_or_config by blast
  then have "options_read cfg opts' = options_read cfg opts"
    by (simp add: options_read_def reads_defs)
  then show ?thesis
    using assms(2) by simp
qed

lemma read_options_read:
  assumes "read_options cfg = Some (Inr opts)"
  shows "options_read cfg opts"
proof -
  let ?b = "config_or (get_ulong cfg ''2pc'') 0 \<noteq> 0"
  obtain o1 o2 o3 o4 o5 o6 o7 o8 where
      r: "read_sentinel_options cfg (default_options\<lparr>o_twophase_mode := ?b\<rparr>) = Some (Inr o1)"
        "read_shard_endpoints cfg o1 = Some (Inr o2)" "read_shard_options cfg o2 = Some (Inr o3)"
        "read_atomizer_options cfg o3 = Some (Inr o4)" "read_archiver_options cfg o4 = Some (Inr o5)"
        "read_watchtower_options cfg o5 = Some (Inr o6)" "read_coordinator_options cfg o6 = Some (Inr o7)"
        "read_raft_options cfg o7 = Some (Inr o8)" "read_loadgen_options cfg o8 = Some (Inr opts)"
    using assms unfolding read_options_def value_or_config seq_result_Inr by blast
  let ?o0 = "default_options\<lparr>o_twophase_mode := ?b\<rparr> :: 'a options"
  have 0: "o_sentinel_endpoints ?o0 = []" "o_sentinel_loglevels ?o0 = []" "o_sentinel_private_keys ?o0 = Map.empty" "o_sentinel_public_keys ?o0 = {}"
    "o_attestation_threshold ?o0 = 1"
    by (simp_all add: default_options_def)
  note 1 = read_sentinel_options_read [OF r(1) 0(1-4), unfolded 0(5)]
  obtain a1 a2 a3 a4 a5 where e1: "o1 = ?o0\<lparr>o_attestation_threshold := a1, o_sentinel_endpoints := a2,
      o_sentinel_loglevels := a3, o_sentinel_private_keys := a4, o_sentinel_public_keys := a5\<rparr>"
    using 1 by blast
  have "o_locking_shard_raft_endpoints o1 = []" "o_locking_shard_endpoints o1 = []" "o_locking_shard_readonly_endpoints o1 = []"
    by (simp_all add: e1 default_options_def)
  note 2 = read_shard_endpoints_read [OF r(2) this]
  obtain b1 b2 b3 where e2: "o2 = o1\<lparr>o_locking_shard_raft_endpoints := b1, o_locking_shard_endpoints := b2, o_locking_shard_readonly_endpoints := b3\<rparr>"
    using 2 by blast
  have "o_shard_endpoints o2 = []" "o_shard_db_dirs o2 = []" "o_shard_loglevels o2 = []" "o_shard_ranges o2 = []" "o_seed_privkey o2 = None"
    "o_seed_value o2 = 0" "o_seed_from o2 = 0" "o_seed_to o2 = 0"
    by (simp_all add: e2 e1 default_options_def)
  note 3 = read_shard_options_read [OF r(3) this]
  obtain c1 c2 c3 c4 c5 c6 c7 c8 c9 where e3: "o3 = o2\<lparr>o_shard_endpoints := c1, o_shard_db_dirs := c2, o_shard_loglevels := c3, o_shard_ranges := c4,
       o_shard_completed_txs_cache_size := c5, o_seed_from := c6, o_seed_to := c7, o_seed_privkey := c8, o_seed_value := c9\<rparr>"
    using 3 by blast
  have "o_atomizer_endpoints o3 = []" "o_atomizer_loglevels o3 = []" "o_atomizer_raft_endpoints o3 = []"
    by (simp_all add: e3 e2 e1 default_options_def)
  note 4 = read_atomizer_options_read [OF r(4) this]
  obtain d1 d2 d3 d4 d5 where e4: "o4 = o3\<lparr>o_atomizer_endpoints := d1, o_atomizer_loglevels := d2, o_atomizer_raft_endpoints := d3,
       o_target_block_interval := d4, o_stxo_cache_depth := d5\<rparr>"
    using 4 by blast
  have "o_archiver_endpoints o4 = []" "o_archiver_loglevels o4 = []" "o_archiver_db_dirs o4 = []"
    by (simp_all add: e4 e3 e2 e1 default_options_def)
  note 5 = read_archiver_options_read [OF r(5) this]
  obtain f1 f2 f3 where e5: "o5 = o4\<lparr>o_archiver_endpoints := f1, o_archiver_loglevels := f2, o_archiver_db_dirs := f3\<rparr>"
    using 5 by blast
  have "o_watchtower_client_endpoints o5 = []" "o_watchtower_internal_endpoints o5 = []" "o_watchtower_loglevels o5 = []"
    by (simp_all add: e5 e4 e3 e2 e1 default_options_def)
  note 6 = read_watchtower_options_read [OF r(6) this]
  obtain g1 g2 g3 g4 g5 where e6: "o6 = o5\<lparr>o_watchtower_client_endpoints := g1, o_watchtower_internal_endpoints := g2, o_watchtower_loglevels := g3,
       o_watchtower_block_cache_size := g4, o_watchtower_error_cache_size := g5\<rparr>"
    using 6 by blast
  have "o_coordinator_loglevels o6 = []"
    by (simp add: e6 e5 e4 e3 e2 e1 default_options_def)
  note 7 = read_coordinator_options_read [OF r(7) this]
  obtain h1 h2 h3 h4 where e7: "o7 = o6\<lparr>o_coordinator_raft_endpoints := h1, o_coordinator_endpoints := h2, o_coordinator_loglevels := h3,
       o_coordinator_max_threads := h4\<rparr>"
    using 7 by blast
  note frames = e7 e6 e5 e4 e3 e2
  have "o_twophase_mode o7 = ?b" "o_twophase_mode o1 = ?b"
    by (simp_all add: frames e1 default_options_def)
  moreover have "o_attestation_threshold o7 = o_attestation_threshold o1" "sentinels_read cfg n o7 = sentinels_read cfg n o1"
      "shard_endpoints_read cfg n o7 = shard_endpoints_read cfg n o2" for n
    by (simp_all add: frames reads_defs)
  moreover have "shards_read cfg n o7 = shards_read cfg n o3" "seed_read cfg o7 = seed_read cfg o3" "atomizers_read cfg n o7 = atomizers_read cfg n o4" for n
    by (simp_all add: frames reads_defs)
  moreover have "archivers_read cfg n o7 = archivers_read cfg n o5" "watchtowers_read cfg n o7 = watchtowers_read cfg n o6" for n
    by (simp_all add: frames reads_defs)
  ultimately have "options_read cfg o7"
    unfolding options_read_def using 1 2 3 4 5 6 7 by (simp only:) blast
  then show ?thesis
    using read_raft_options_read [OF r(8)] read_loadgen_options_read [OF r(9)] by blast
qed

section \<open>Properties\<close>

text \<open>C16: Options that load are those of the configuration and consistent. If a configuration loads without error, then for every kind of
  component each list of the options (endpoints, Raft and read-only endpoints, directories, log levels with their default, shard ranges) has exactly
  as many entries as the configured count, with the value of the \<open>i\<close>-th key at index \<open>i\<close>, down to the nodes of each shard and coordinator; the
  private and public keys of the sentinels, the attestation threshold and the seed are the configured ones. The components of the chosen architecture
  are all there, a range of seeded outputs is not reversed and has a key of 32 bytes and a value, and there are enough different public keys of
  sentinels, of 32 bytes each, to reach the attestation threshold.\<close>

theorem load_options_consistent:
  assumes "load_options stod env stream = Some (Inr opts)"
  shows "\<exists>cfg. make_parser stod env stream = Some cfg \<and> options_read cfg opts \<and>
    (o_twophase_mode opts \<longrightarrow> o_sentinel_endpoints opts \<noteq> [] \<and> o_locking_shard_endpoints opts \<noteq> [] \<and> o_coordinator_endpoints opts \<noteq> []) \<and>
    (\<not> o_twophase_mode opts \<longrightarrow> o_watchtower_client_endpoints opts \<noteq> [] \<and> o_archiver_endpoints opts \<noteq> [] \<and> o_atomizer_endpoints opts \<noteq> [] \<and>
       (o_sentinel_endpoints opts \<noteq> [] \<longrightarrow> o_shard_endpoints opts \<noteq> [])) \<and>
    o_seed_from opts \<le> o_seed_to opts \<and>
    (o_seed_from opts \<noteq> o_seed_to opts \<longrightarrow> o_seed_value opts \<noteq> 0 \<and> (\<exists>key. o_seed_privkey opts = Some key \<and> length key = 32)) \<and>
    (\<forall>key \<in> o_sentinel_public_keys opts. length key = 32) \<and>
    unat (o_attestation_threshold opts) \<le> card (o_sentinel_public_keys opts)"
proof -
  obtain cfg where cfg: "make_parser stod env stream = Some cfg" and r: "read_options cfg = Some (Inr opts)" "check_options opts = None"
    using assms by (auto simp: load_options_def seq_result_Inr bind_eq_Some_conv split: option.splits)
  note read = read_options_read [OF r(1)]
  have "o_seed_from opts \<noteq> o_seed_to opts \<longrightarrow> (\<exists>key. o_seed_privkey opts = Some key \<and> length key = 32)"
    using read hash_from_hex_length unfolding options_read_def seed_read_def by metis
  moreover have "length key = 32" if key: "key \<in> o_sentinel_public_keys opts" for key
  proof -
    obtain strs keys where "map hash_from_hex strs = map Some keys" "o_sentinel_public_keys opts = set keys"
      using read unfolding options_read_def sentinels_read_def by blast
    then have "Some key \<in> set (map hash_from_hex strs)"
      using key by simp
    then show ?thesis
      using hash_from_hex_length by fastforce
  qed
  ultimately show ?thesis
    using cfg read r(2) by (auto simp: check_options_def not_less split: if_splits)
qed

text \<open>A configuration for the atomizer architecture.\<close>

definition sample_config :: "(string \<times> nat value_t) list" where
  "sample_config =
    [(''attestation_threshold'', V_ulong 0), (''watchtower_count'', V_ulong 1), (''archiver_count'', V_ulong 1), (''atomizer_count'', V_ulong 1),
     (''watchtower0_client_endpoint'', V_string ''w:1''), (''watchtower0_internal_endpoint'', V_string ''w:2''),
     (''archiver0_endpoint'', V_string ''a:3''), (''archiver0_db'', V_string ''db''), (''atomizer0_endpoint'', V_string ''m:4'')]"

lemma sample_config_loads:
  "\<exists>opts :: nat options. load_options (\<lambda>_. None) (\<lambda>_. None) (config_file sample_config) = Some (Inr opts)"
proof -
  have "\<forall>kv \<in> set sample_config. printable_option kv"
    by (simp add: sample_config_def printable_option_def)
  from parser_init_file [OF this, of "\<lambda>_. None :: nat option" "[]"] obtain kvs where
      kvs: "parser_init (\<lambda>_. None :: nat option) (config_file sample_config) [] = Some kvs" "map_of kvs = map_of sample_config"
    by auto
  define cfg where "cfg = \<lparr>p_options = kvs, p_env = \<lambda>_. None, p_stod = \<lambda>_. None\<rparr>"
  have find: "find_or_env cfg key = Some (map_of sample_config key)" for key
    by (simp add: find_or_env_def cfg_def kvs)
  note gets = get_ulong_def get_string_def get_endpoint_def get_loglevel_def get_decimal_def find sample_config_def
  have parse: "parse_ip_port ''w:1'' = Some (''w'', 1)" "parse_ip_port ''w:2'' = Some (''w'', 2)" "parse_ip_port ''a:3'' = Some (''a'', 3)"
      "parse_ip_port ''m:4'' = Some (''m'', 4)"
    by (simp_all add: parse_ip_port_def getline_def stoul_def is_space_def is_dec_def dec_value_def)
  have zero: "dec_string 0 = ''0''"
    by (simp add: dec_string.simps dec_digit_def char_of_def bit_Suc_0_iff)
  note keys = get_watchtower_client_endpoint_key_def get_watchtower_internal_endpoint_key_def get_watchtower_loglevel_key_def watchtower_key_prefix_def
    get_archiver_endpoint_key_def get_archiver_db_key_def get_archiver_loglevel_key_def archiver_key_prefix_def
    get_atomizer_endpoint_key_def get_atomizer_raft_endpoint_key_def get_atomizer_loglevel_key_def atomizer_key_prefix_def zero
  note run = value_or_def require_def seq_result_def gets keys parse
  let ?o1 = "default_options\<lparr>o_twophase_mode := False, o_attestation_threshold := 0\<rparr> :: nat options"
  let ?o2 = "?o1\<lparr>o_atomizer_endpoints := [(''m'', 4)], o_atomizer_loglevels := [Warn], o_atomizer_raft_endpoints := [None]\<rparr>"
  let ?o3 = "?o2\<lparr>o_archiver_endpoints := [(''a'', 3)], o_archiver_loglevels := [Warn], o_archiver_db_dirs := [''db'']\<rparr>"
  let ?o4 = "?o3\<lparr>o_watchtower_client_endpoints := [(''w'', 1)], o_watchtower_internal_endpoints := [(''w'', 2)], o_watchtower_loglevels := [Warn]\<rparr>"
  have 1: "read_sentinel_options cfg (default_options\<lparr>o_twophase_mode := False\<rparr>) = Some (Inr ?o1)"
    by (simp add: read_sentinel_options_def run)
  have 2: "read_shard_endpoints cfg ?o1 = Some (Inr ?o1)" "read_shard_options cfg ?o1 = Some (Inr ?o1)"
    by (simp_all add: read_shard_endpoints_def read_shard_options_def read_seed_key_def run default_options_def)
  have 3: "read_atomizer_options cfg ?o1 = Some (Inr ?o2)"
    by (simp add: read_atomizer_options_def read_atomizer_def run default_options_def)
  have 4: "read_archiver_options cfg ?o2 = Some (Inr ?o3)"
    by (simp add: read_archiver_options_def read_archiver_def run default_options_def)
  have 5: "read_watchtower_options cfg ?o3 = Some (Inr ?o4)"
    by (simp add: read_watchtower_options_def read_watchtower_def run default_options_def)
  have 6: "read_coordinator_options cfg ?o4 = Some (Inr ?o4)"
    by (simp add: read_coordinator_options_def run default_options_def)
  have 7: "read_raft_options cfg ?o4 = Some (Inr ?o4)"
    by (simp add: read_raft_options_def run default_options_def)
  have 8: "read_loadgen_options cfg ?o4 = Some (Inr (?o4\<lparr>o_fixed_tx_mode := True\<rparr>))"
    by (simp add: read_loadgen_options_def run default_options_def)
  have "read_options cfg = Some (Inr (?o4\<lparr>o_fixed_tx_mode := True\<rparr>))"
    using 1 2 3 4 5 6 7 8 by (simp add: read_options_def value_or_def seq_result_def get_ulong_def find sample_config_def)
  moreover have "check_options (?o4\<lparr>o_fixed_tx_mode := True\<rparr>) = None"
    by (simp add: check_options_def default_options_def)
  ultimately show ?thesis
    by (simp add: load_options_def make_parser_def kvs cfg_def [symmetric] seq_result_def)
qed

theorem load_options_consistent_witness:
  "\<exists>(opts :: nat options) cfg. load_options (\<lambda>_. None) (\<lambda>_. None) (config_file sample_config) = Some (Inr opts) \<and>
     make_parser (\<lambda>_. None) (\<lambda>_. None) (config_file sample_config) = Some cfg \<and> options_read cfg opts \<and>
     unat (o_attestation_threshold opts) \<le> card (o_sentinel_public_keys opts)"
  using sample_config_loads load_options_consistent by blast

lemma unat_word_of_nat_u64: "n < 2 ^ 64 \<Longrightarrow> unat (word_of_nat n :: u64) = n"
  by (simp add: unsigned_of_nat take_bit_nat_eq_self)

text \<open>The range of one generator in terms of natural numbers.\<close>

lemma loadgen_seed_range_nat:
  assumes le: "o_seed_from opts \<le> o_seed_to opts" and few: "o_loadgen_count opts \<le> o_seed_to opts - o_seed_from opts"
    and r: "loadgen_seed_range opts g = Some (a, b)"
    and sz: "sz = (unat (o_seed_to opts) - unat (o_seed_from opts)) div unat (o_loadgen_count opts)"
  shows "unat a = unat (o_seed_from opts) + unat g * sz" "unat b + 1 = unat a + sz" "unat a + sz \<le> unat (o_seed_to opts)"
    "0 < sz" "unat g < unat (o_loadgen_count opts)" "unat (o_seed_to opts - o_seed_from opts) div unat (o_loadgen_count opts) = sz"
proof -
  let ?F = "unat (o_seed_from opts)" and ?T = "unat (o_seed_to opts)" and ?C = "unat (o_loadgen_count opts)"
  have total: "unat (o_seed_to opts - o_seed_from opts) = ?T - ?F"
    using le by (rule unat_sub)
  then show sz': "unat (o_seed_to opts - o_seed_from opts) div ?C = sz"
    using sz by simp
  show g: "unat g < ?C"
    using r by (auto simp: loadgen_seed_range_def word_less_nat_alt split: if_splits)
  have "?C \<le> ?T - ?F"
    using few total by (simp add: word_le_nat_alt)
  then show pos: "0 < sz"
    using g sz by (simp add: div_greater_zero_iff)
  have "?C * sz \<le> ?T - ?F"
    using sz by (simp add: mult.commute)
  moreover have "(unat g + 1) * sz \<le> ?C * sz"
    using g by (intro mult_right_mono) simp_all
  ultimately have fit: "?F + unat g * sz + sz \<le> ?T"
    using le pos by (simp add: word_le_nat_alt add.commute)
  have "unat ((o_seed_to opts - o_seed_from opts) div o_loadgen_count opts) = sz"
    using sz' by (simp add: unat_div)
  then have "(o_seed_to opts - o_seed_from opts) div o_loadgen_count opts = word_of_nat sz"
    by force
  then have a: "a = word_of_nat (?F + unat g * sz)" and b: "b = word_of_nat (?F + unat g * sz) + word_of_nat sz - 1"
    using r by (auto simp: loadgen_seed_range_def Let_def split: if_splits)
  have T: "?T < 2 ^ 64"
    using unat_lt2p [of "o_seed_to opts"] by simp
  then show ua: "unat a = ?F + unat g * sz"
    unfolding a using fit by (intro unat_word_of_nat_u64) simp
  have "b = word_of_nat (?F + unat g * sz + sz - 1)"
    using pos by (simp add: b of_nat_diff)
  then have "unat b = ?F + unat g * sz + sz - 1"
    using fit T by (simp only:) (rule unat_word_of_nat_u64, simp)
  then show "unat b + 1 = unat a + sz" "unat a + sz \<le> ?T"
    using pos ua fit by simp_all
qed

text \<open>The seeded outputs are split among load generators without overlap or overflow. With at least one output per
  generator, the range of each lies inside the seeded range, has the same number of outputs, both ends included, and lies before the range of every
  generator with a higher number.\<close>

theorem loadgen_ranges_disjoint:
  assumes "o_seed_from opts \<le> o_seed_to opts" "o_loadgen_count opts \<le> o_seed_to opts - o_seed_from opts"
    and "loadgen_seed_range opts gen_id = Some (a, b)"
  shows "o_seed_from opts \<le> a \<and> a \<le> b \<and> b < o_seed_to opts \<and>
    unat b + 1 = unat a + unat (o_seed_to opts - o_seed_from opts) div unat (o_loadgen_count opts) \<and>
    (\<forall>gen_id' a' b'. gen_id < gen_id' \<longrightarrow> loadgen_seed_range opts gen_id' = Some (a', b') \<longrightarrow> b < a')"
proof -
  define sz where "sz = (unat (o_seed_to opts) - unat (o_seed_from opts)) div unat (o_loadgen_count opts)"
  note r = loadgen_seed_range_nat [OF assms sz_def]
  have "b < a'" if less: "gen_id < g" and g: "loadgen_seed_range opts g = Some (a', b')" for g a' b'
  proof -
    have "(unat gen_id + 1) * sz \<le> unat g * sz"
      using less by (intro mult_right_mono) (simp_all add: word_less_nat_alt)
    then have "unat a + sz \<le> unat a'"
      using r(1) loadgen_seed_range_nat(1) [OF assms(1,2) g sz_def] by simp
    then show ?thesis
      using r(2) by (simp add: word_less_nat_alt)
  qed
  then show ?thesis
    using r by (auto simp: word_le_nat_alt word_less_nat_alt)
qed

theorem loadgen_ranges_disjoint_witness:
  "let opts = default_options\<lparr>o_seed_to := 100, o_loadgen_count := 3\<rparr> :: nat options in
   loadgen_seed_range opts 1 = Some (33, 65) \<and> loadgen_seed_range opts 2 = Some (66, 98) \<and> (65 :: u64) < 66 \<and> (65 :: u64) < o_seed_to opts"
proof -
  let ?opts = "default_options\<lparr>o_seed_to := 100, o_loadgen_count := 3\<rparr> :: nat options"
  have r: "loadgen_seed_range ?opts 1 = Some (33, 65)" "loadgen_seed_range ?opts 2 = Some (66, 98)"
    by (simp_all add: loadgen_seed_range_def default_options_def)
  have "65 < o_seed_to ?opts \<and> (\<forall>gen_id' a' b'. 1 < gen_id' \<longrightarrow> loadgen_seed_range ?opts gen_id' = Some (a', b') \<longrightarrow> 65 < a')"
    using loadgen_ranges_disjoint [OF _ _ r(1)] by (simp add: default_options_def)
  then have "65 < o_seed_to ?opts" "(65 :: u64) < 66"
    using r(2) by (blast, simp)
  then show ?thesis
    unfolding Let_def using r by blast
qed

end
