(* ===== verification/Seeder.thy ===== *)
theory Seeder
  imports Wallet Config_Options Locking_Shard Uhs_Shard
begin

text \<open>
  The tool that creates the initial supply (\<open>tools/shard-seeder/shard-seeder.cpp\<close>), the start of a locking shard on its file
  (\<open>uhs/twophase/locking_shard/controller.cpp\<close>) and the wallets of the load generators that spend the supply
  (\<open>tools/bench/twophase_gen.cpp\<close> and \<open>atomizer-cli-watchtower.cpp\<close>). Files are a list of names and contents. \<open>None\<close> is an
  exception, the division by zero, or an exit with an error.
\<close>

section \<open>Seeding\<close>

definition write_batch_size :: nat where "write_batch_size = 450000"

text \<open>The first and the last value of the first byte of the hashes of a shard.\<close>

definition shard_bounds :: "u64 \<Rightarrow> u64 \<Rightarrow> u64 \<times> u64" where
  "shard_bounds num_shards shard_idx =
    (let shard_range = (255 + 1) div num_shards;
         shard_start = shard_idx * shard_range;
         shard_end = (if shard_idx = num_shards - 1 then 255 else (shard_idx + 1) * shard_range - 1)
     in (shard_start, shard_end))"

definition in_bounds :: "u64 \<times> u64 \<Rightarrow> hash_t \<Rightarrow> bool" where
  "in_bounds b output_hash \<longleftrightarrow> ucast (hd output_hash) \<ge> fst b \<and> ucast (hd output_hash) \<le> snd b"

text \<open>The hash of the output with the given number: the input of the transaction gets the number as its index.\<close>

definition set_index :: "u64 \<Rightarrow> full_tx \<Rightarrow> full_tx" where
  "set_index tx_idx tx = tx\<lparr>m_inputs := (let i = m_inputs tx ! 0 in (m_inputs tx)[0 := i\<lparr>m_prevout := (m_prevout i)\<lparr>m_index := tx_idx\<rparr>\<rparr>])\<rparr>"

definition output_hash :: "full_tx \<Rightarrow> nat \<Rightarrow> hash_t" where
  "output_hash tx k = m_uhs_outputs (compact_tx_of (set_index (word_of_nat k) tx)) ! 0"

text \<open>The loop of the two-phase mode: the count and what is appended to the file.\<close>

fun seed_file_loop :: "full_tx \<Rightarrow> u64 \<times> u64 \<Rightarrow> nat list \<Rightarrow> u64 \<Rightarrow> byte list \<Rightarrow> u64 \<times> byte list" where
  "seed_file_loop tx b [] cnt out = (cnt, out)"
| "seed_file_loop tx b (k # ks) cnt out =
    (let h = output_hash tx k in
     if in_bounds b h then seed_file_loop tx b ks (cnt + 1) (out @ put_array h) else seed_file_loop tx b ks cnt out)"

definition seed_file :: "wallet \<Rightarrow> u64 \<times> u64 \<Rightarrow> u64 \<Rightarrow> byte list option" where
  "seed_file wal b num_utxos = do {
     tx \<leftarrow> create_seeded_transaction wal 0;
     let (cnt, out) = seed_file_loop tx b [0..<unat num_utxos] 0 (put_u64 0);
     Some (overwrite out 0 (put_u64 cnt)) }"

text \<open>The loop of the atomizer mode: the pending batch and the database.\<close>

fun seed_db_loop :: "'db leveldb \<Rightarrow> full_tx \<Rightarrow> u64 \<times> u64 \<Rightarrow> nat list \<Rightarrow> db_op list \<Rightarrow> 'db \<Rightarrow> db_op list \<times> 'db" where
  "seed_db_loop L tx b [] batch db = (batch, db)"
| "seed_db_loop L tx b (k # ks) batch db =
    (let h = output_hash tx k in
     if in_bounds b h then
       let batch' = batch @ [Db_put h []] in
       if length batch' \<ge> write_batch_size then seed_db_loop L tx b ks [] (db_write L db batch')
       else seed_db_loop L tx b ks batch' db
     else seed_db_loop L tx b ks batch db)"

definition seed_db :: "'db leveldb \<Rightarrow> wallet \<Rightarrow> u64 \<times> u64 \<Rightarrow> u64 \<Rightarrow> 'db \<Rightarrow> 'db option" where
  "seed_db L wal b num_utxos db = do {
     tx \<leftarrow> create_seeded_transaction wal 0;
     let (batch, db') = seed_db_loop L tx b [0..<unat num_utxos] [] db;
     Some (if length batch > 0 then db_write L db' batch else db') }"

definition seed_path :: "bool \<Rightarrow> u64 \<Rightarrow> nat \<Rightarrow> string" where
  "seed_path twophase num_utxos shard_idx =
    (if twophase then ''2pc_'' else []) @ ''shard_preseed_'' @ dec_string (unat num_utxos) @ ''_'' @ dec_string shard_idx"

definition seeder_wallet :: "secp256k1 \<Rightarrow> 'd options \<Rightarrow> wallet option" where
  "seeder_wallet S cfg = do {
     privkey \<leftarrow> o_seed_privkey cfg;
     pubkey \<leftarrow> pubkey_from_privkey S privkey;
     Some (seed_readonly (get_p2pk_witness_commitment pubkey) (ucast (o_seed_value cfg)) 0 (o_seed_to cfg - o_seed_from cfg) wallet_init) }"

text \<open>The files of the two-phase mode and the databases of the atomizer mode, which were empty.\<close>

definition seed_files :: "secp256k1 \<Rightarrow> 'd options \<Rightarrow> (string \<times> byte list) list option" where
  "seed_files S cfg = do {
     wal \<leftarrow> seeder_wallet S cfg;
     let num_shards = length (o_shard_ranges cfg);
     let num_utxos = o_seed_to cfg - o_seed_from cfg;
     if num_shards = 0 then None
     else those (map (\<lambda>i. map_option (Pair (seed_path True num_utxos i))
            (seed_file wal (shard_bounds (word_of_nat num_shards) (word_of_nat i)) num_utxos)) [0..<num_shards]) }"

definition seed_dbs :: "'db leveldb \<Rightarrow> secp256k1 \<Rightarrow> 'db \<Rightarrow> 'd options \<Rightarrow> (string \<times> 'db) list option" where
  "seed_dbs L S new_db cfg = do {
     wal \<leftarrow> seeder_wallet S cfg;
     let num_shards = length (o_shard_ranges cfg);
     let num_utxos = o_seed_to cfg - o_seed_from cfg;
     if num_shards = 0 then None
     else those (map (\<lambda>i. map_option (Pair (seed_path False num_utxos i))
            (seed_db L wal (shard_bounds (word_of_nat num_shards) (word_of_nat i)) num_utxos new_db)) [0..<num_shards]) }"

section \<open>Using the supply\<close>

text \<open>The shard that a controller creates, on the files that are there.\<close>

definition preseed_dir :: "'d options \<Rightarrow> nat \<Rightarrow> string" where
  "preseed_dir opts shard_id =
    (if o_seed_from opts \<noteq> o_seed_to opts
     then ''2pc_shard_preseed_'' @ dec_string (unat (o_seed_to opts - o_seed_from opts)) @ ''_'' @ dec_string shard_id else [])"

definition locking_shard_start :: "'d options \<Rightarrow> (string \<times> byte list) list \<Rightarrow> nat \<Rightarrow> locking_shard" where
  "locking_shard_start opts files shard_id =
    (let s = locking_shard_init (o_shard_ranges opts ! shard_id) (unat (o_shard_completed_txs_cache_size opts))
               (o_sentinel_public_keys opts) (unat (o_attestation_threshold opts));
         preseed_file = preseed_dir opts shard_id
     in if preseed_file \<noteq> [] then snd (read_preseed_file s (map_of files preseed_file)) else s)"

text \<open>The wallet of a load generator; it stays empty if nothing has been seeded.\<close>

definition loadgen_wallet :: "secp256k1 \<Rightarrow> 'd options \<Rightarrow> u64 \<Rightarrow> wallet option" where
  "loadgen_wallet S cfg gen_id =
    (if o_seed_from cfg \<noteq> o_seed_to cfg then do {
       (range_start, range_end) \<leftarrow> loadgen_seed_range cfg gen_id;
       privkey \<leftarrow> o_seed_privkey cfg;
       (ret, w) \<leftarrow> wallet_seed S privkey (ucast (o_seed_value cfg)) range_start range_end wallet_init;
       if ret then Some w else None }
     else Some wallet_init)"

section \<open>The ranges\<close>

text \<open>The ranges that the tool uses, as a configuration writes them.\<close>

definition even_range :: "nat \<Rightarrow> nat \<Rightarrow> shard_range" where
  "even_range n i = (word_of_nat (i * (256 div n)), if i = n - 1 then 255 else word_of_nat ((i + 1) * (256 div n) - 1))"

definition even_ranges :: "'d options \<Rightarrow> bool" where
  "even_ranges cfg \<longleftrightarrow> (let n = length (o_shard_ranges cfg) in 0 < n \<and> n \<le> 256 \<and> (\<forall>i < n. o_shard_ranges cfg ! i = even_range n i))"

lemma even_step:
  fixes n :: nat
  assumes "i < n" "n \<le> 256"
  shows "0 < 256 div n" "(i + 1) * (256 div n) \<le> 256"
proof -
  show "0 < 256 div n"
    using assms by (simp add: div_greater_zero_iff)
  have "(i + 1) * (256 div n) \<le> n * (256 div n)"
    using assms(1) by (intro mult_right_mono) simp_all
  also have "\<dots> \<le> 256"
    by simp
  finally show "(i + 1) * (256 div n) \<le> 256" .
qed

lemma unat_even_range:
  assumes "i < n" "n \<le> 256"
  shows "unat (fst (even_range n i)) = i * (256 div n)"
    "unat (snd (even_range n i)) = (if i = n - 1 then 255 else (i + 1) * (256 div n) - 1)"
proof -
  have b: "m < 256 \<Longrightarrow> unat (word_of_nat m :: byte) = m" for m
    by (simp add: unat_of_nat)
  note e = even_step [OF assms]
  show "unat (fst (even_range n i)) = i * (256 div n)"
    unfolding even_range_def fst_conv using e by (intro b) simp
  have "(i + 1) * (256 div n) - 1 < 256"
    using e by linarith
  then show "unat (snd (even_range n i)) = (if i = n - 1 then 255 else (i + 1) * (256 div n) - 1)"
    unfolding even_range_def snd_conv using b by simp
qed

lemma unat_shard_bounds:
  assumes "i < n" "n \<le> 256"
  shows "unat (fst (shard_bounds (word_of_nat n) (word_of_nat i))) = i * (256 div n)"
    "unat (snd (shard_bounds (word_of_nat n) (word_of_nat i))) = (if i = n - 1 then 255 else (i + 1) * (256 div n) - 1)"
proof -
  have u: "m < 2 ^ 64 \<Longrightarrow> unat (word_of_nat m :: u64) = m" for m
    by (rule unat_word_of_nat_u64)
  have "word_of_nat (unat x) = x" for x :: u64
    by simp
  moreover have "unat ((255 + 1 :: u64) div word_of_nat n) = 256 div n"
    using assms u [of n] by (simp add: unat_div)
  ultimately have r: "(255 + 1 :: u64) div word_of_nat n = word_of_nat (256 div n)"
    by metis
  note e = even_step [OF assms]
  have l: "(word_of_nat i :: u64) = word_of_nat n - 1 \<longleftrightarrow> i = n - 1"
  proof -
    have "(word_of_nat n - 1 :: u64) = word_of_nat (n - 1)"
      using assms by (simp add: of_nat_diff)
    moreover have "unat (word_of_nat i :: u64) = i" "unat (word_of_nat (n - 1) :: u64) = n - 1"
      by (rule u, use assms in simp, rule u, use assms in simp)
    ultimately show ?thesis
      by metis
  qed
  show "unat (fst (shard_bounds (word_of_nat n) (word_of_nat i))) = i * (256 div n)"
    unfolding shard_bounds_def Let_def r fst_conv of_nat_mult [symmetric] using e by (intro u) simp
  have s: "(word_of_nat i + 1 :: u64) * word_of_nat (256 div n) - 1 = word_of_nat ((i + 1) * (256 div n) - 1)"
    using e(1) by (simp add: of_nat_diff algebra_simps)
  show "unat (snd (shard_bounds (word_of_nat n) (word_of_nat i))) = (if i = n - 1 then 255 else (i + 1) * (256 div n) - 1)"
    unfolding shard_bounds_def Let_def r snd_conv l s using e u [of "(i + 1) * (256 div n) - 1"] by simp
qed

lemma in_bounds_even:
  assumes "i < n" "n \<le> 256"
  shows "in_bounds (shard_bounds (word_of_nat n) (word_of_nat i)) h \<longleftrightarrow> hash_in_shard_range (even_range n i) h"
proof -
  have "unat (ucast (hd h) :: u64) = unat (hd h)"
    by (simp add: unsigned_ucast_eq take_bit_nat_eq_self unat_lt2p order_less_le_trans [OF unat_lt2p])
  then show ?thesis
    unfolding in_bounds_def hash_in_shard_range_def word_le_nat_alt unat_even_range [OF assms] unat_shard_bounds [OF assms] by simp
qed

text \<open>Every hash belongs to exactly one of the ranges.\<close>

lemma even_range_unique:
  assumes "0 < n" "n \<le> 256"
  shows "\<exists>!i. i < n \<and> hash_in_shard_range (even_range n i) h"
proof -
  let ?x = "unat (hd h)" and ?r = "256 div n"
  have x: "?x < 256"
    using unat_lt2p [of "hd h"] by simp
  have r: "0 < ?r"
    using even_step(1) [of 0 n] assms by simp
  have iff: "hash_in_shard_range (even_range n i) h \<longleftrightarrow> min (?x div ?r) (n - 1) = i" if i: "i < n" for i
  proof -
    have "hash_in_shard_range (even_range n i) h \<longleftrightarrow> i * ?r \<le> ?x \<and> (i = n - 1 \<or> ?x < (i + 1) * ?r)"
      using x r unfolding hash_in_shard_range_def word_le_nat_alt unat_even_range [OF i assms(2)] by auto
    also have "\<dots> \<longleftrightarrow> i \<le> ?x div ?r \<and> (i = n - 1 \<or> ?x div ?r < i + 1)"
      using r by (simp add: less_eq_div_iff_mult_less_eq div_less_iff_less_mult)
    also have "\<dots> \<longleftrightarrow> min (?x div ?r) (n - 1) = i"
      using i by auto
    finally show ?thesis .
  qed
  then show ?thesis
    using assms by (intro ex1I [of _ "min (?x div ?r) (n - 1)"]) auto
qed

section \<open>The files\<close>

lemma seed_file_loop_filter:
  "seed_file_loop tx b ks cnt out =
    (cnt + word_of_nat (length (filter (in_bounds b) (map (output_hash tx) ks))), out @ concat (filter (in_bounds b) (map (output_hash tx) ks)))"
  by (induction ks arbitrary: cnt out) (simp_all add: Let_def put_array_def add.assoc)

lemma read_hashes_concat:
  assumes "\<forall>h \<in> set hs. length h = hash_size" "finite uhs" "card uhs + length hs \<le> len"
  shows "read_hashes len uhs (concat hs) = uhs \<union> set hs"
  using assms
proof (induction hs arbitrary: uhs)
  case Nil
  then show ?case
    by (subst read_hashes.simps) (simp add: hash_size_def)
next
  case (Cons h hs)
  then have "card (insert h uhs) + length hs \<le> len"
    by (simp add: card_insert_if)
  then show ?case
    using Cons by (subst read_hashes.simps) simp
qed

lemma length_output_hash: "m_outputs tx \<noteq> [] \<Longrightarrow> length (output_hash tx k) = hash_size"
  by (simp add: output_hash_def set_index_def uhs_output_nth uhs_id_from_output_def sha_writes_sha256 size_defs)

text \<open>The hash of an output is that of the coin that a seeded wallet spends.\<close>

lemma output_hash_coin:
  assumes "create_seeded_transaction wal 0 = Some tx"
  shows "output_hash tx k = input_hash (seed_coin wal (word_of_nat k))"
proof -
  let ?t = "set_index (word_of_nat k) tx"
  have t: "create_seeded_transaction (wal\<lparr>w_seed_from := 0, w_seed_to := 1\<rparr>) (word_of_nat k) = Some ?t" and o: "m_outputs ?t \<noteq> []"
    using assms by (auto simp: create_seeded_transaction_def set_index_def Let_def split: if_splits)
  then have "input_from_output ?t 0 = Some (seed_coin wal (word_of_nat k))"
    by (simp add: seed_coin_def create_seeded_input_def input_from_output_def input_from_output_id_def)
  then show ?thesis
    using uhs_output_input_hash [of ?t 0] o by (simp add: output_hash_def)
qed

definition seeded_hashes :: "wallet \<Rightarrow> u64 \<Rightarrow> hash_t set" where
  "seeded_hashes wal num_utxos = {input_hash (seed_coin wal (word_of_nat k)) | k. k < unat num_utxos}"

lemma set_output_hash:
  assumes "create_seeded_transaction wal 0 = Some tx"
  shows "set (filter (in_bounds b) (map (output_hash tx) [0..<unat num_utxos])) = {h \<in> seeded_hashes wal num_utxos. in_bounds b h}"
  using output_hash_coin [OF assms] by (auto simp: seeded_hashes_def)

lemma read_seed_file:
  assumes "seed_file wal b num_utxos = Some bytes"
  shows "read_preseed_file s (Some bytes) = (True, s\<lparr>m_uhs := {h \<in> seeded_hashes wal num_utxos. in_bounds b h}\<rparr>)"
proof -
  obtain tx where tx: "create_seeded_transaction wal 0 = Some tx"
    using assms by (auto simp: seed_file_def split: bind_splits)
  define hs where "hs = filter (in_bounds b) (map (output_hash tx) [0..<unat num_utxos])"
  have "seed_file_loop tx b [0..<unat num_utxos] 0 (put_u64 0) = (word_of_nat (length hs), put_u64 0 @ concat hs)"
    unfolding seed_file_loop_filter hs_def by simp
  then have bytes: "bytes = put_u64 (word_of_nat (length hs)) @ concat hs"
    using assms by (simp add: seed_file_def tx overwrite_def)
  have "length hs \<le> unat num_utxos"
    unfolding hs_def by (rule order_trans [OF length_filter_le]) simp
  also have "\<dots> < 2 ^ 64"
    using unat_lt2p [of num_utxos] by simp
  finally have len: "unat (word_of_nat (length hs) :: u64) = length hs"
    by (rule unat_word_of_nat_u64)
  have "m_outputs tx \<noteq> []"
    using tx by (auto simp: create_seeded_transaction_def split: if_splits)
  then have "\<forall>h \<in> set hs. length h = hash_size"
    using length_output_hash by (auto simp: hs_def)
  then have "read_hashes (length hs) {} (concat hs) = set hs"
    using read_hashes_concat [of hs "{}" "length hs"] by simp
  moreover have "set hs = {h \<in> seeded_hashes wal num_utxos. in_bounds b h}"
    unfolding hs_def by (rule set_output_hash [OF tx])
  ultimately show ?thesis
    unfolding bytes read_preseed_file_def by (simp add: u64.get_put len)
qed

text \<open>The databases of the atomizer mode hold the same hashes; the size of the batches does not matter.\<close>

lemma seed_db_loop_value:
  assumes "leveldb_ok L"
  shows "batch_value (db_get L (snd (seed_db_loop L tx b ks batch db)) h) h (fst (seed_db_loop L tx b ks batch db)) =
    batch_value (db_get L db h) h (batch @ map (\<lambda>out. Db_put out []) (filter (in_bounds b) (map (output_hash tx) ks)))"
proof (induction ks arbitrary: batch db)
  case (Cons k ks)
  have "db_get L (db_write L db ops) h = batch_value (db_get L db h) h ops" for db ops
    using assms by (simp add: leveldb_ok_def)
  then show ?case
    using Cons.IH by (simp add: Let_def batch_value_append del: filter_map)
qed simp

lemma seed_db_hashes:
  assumes "leveldb_ok L" "seed_db L wal b num_utxos db = Some db'"
  shows "db_get L db' h \<noteq> None \<longleftrightarrow> db_get L db h \<noteq> None \<or> h \<in> seeded_hashes wal num_utxos \<and> in_bounds b h"
proof -
  obtain tx where tx: "create_seeded_transaction wal 0 = Some tx"
    using assms(2) by (auto simp: seed_db_def split: bind_splits)
  obtain batch db1 where l: "seed_db_loop L tx b [0..<unat num_utxos] [] db = (batch, db1)"
    by fastforce
  have "db_get L db' h = batch_value (db_get L db1 h) h batch"
    using assms l tx by (auto simp: seed_db_def leveldb_ok_def)
  also have "\<dots> = batch_value (db_get L db h) h (map (\<lambda>out. Db_put out []) (filter (in_bounds b) (map (output_hash tx) [0..<unat num_utxos])))"
    using seed_db_loop_value [OF assms(1), of tx b "[0..<unat num_utxos]" "[]" db h] by (simp only: l fst_conv snd_conv append_Nil)
  finally show ?thesis
    using batch_value_puts [of "db_get L db h" h "filter (in_bounds b) (map (output_hash tx) [0..<unat num_utxos])"]
    by (simp only: set_output_hash [OF tx]) blast
qed

section \<open>The supply\<close>

lemma those_map_Some:
  assumes "those (map f xs) = Some ys"
  shows "length ys = length xs \<and> (\<forall>i < length xs. f (xs ! i) = Some (ys ! i))"
  using assms
proof (induction xs arbitrary: ys)
  case (Cons x xs)
  then obtain y zs where "f x = Some y" "those (map f xs) = Some zs" "ys = y # zs"
    by (auto split: option.splits)
  then show ?case
    using Cons.IH by (auto simp: less_Suc_eq_0_disj)
qed simp

lemma seed_path_inject: "seed_path b num i = seed_path b num j \<longleftrightarrow> i = j"
  by (simp add: seed_path_def)

lemma preseed_dir_path: "o_seed_from cfg \<noteq> o_seed_to cfg \<Longrightarrow> preseed_dir cfg i = seed_path True (o_seed_to cfg - o_seed_from cfg) i"
  by (simp add: preseed_dir_def seed_path_def)

lemma map_of_nth_distinct:
  assumes "distinct (map fst xs)" "i < length xs"
  shows "map_of xs (fst (xs ! i)) = Some (snd (xs ! i))"
  using assms by (simp add: map_of_is_SomeI)

text \<open>The shards of the whole system after seeding.\<close>

definition seeded_shards :: "'d options \<Rightarrow> (string \<times> byte list) list \<Rightarrow> locking_shard list" where
  "seeded_shards cfg files = map (locking_shard_start cfg files) [0..<length (o_shard_ranges cfg)]"

lemma locking_shard_seeded:
  assumes "seed_files S cfg = Some files" "seeder_wallet S cfg = Some wal" "length (o_shard_ranges cfg) \<le> 256" "o_seed_from cfg \<noteq> o_seed_to cfg"
    and i: "i < length (o_shard_ranges cfg)"
  shows "m_uhs (locking_shard_start cfg files i) = {h \<in> seeded_hashes wal (o_seed_to cfg - o_seed_from cfg).
      hash_in_shard_range (even_range (length (o_shard_ranges cfg)) i) h} \<and>
    m_locked (locking_shard_start cfg files i) = {} \<and> shard_inv (locking_shard_start cfg files i)"
proof -
  let ?n = "length (o_shard_ranges cfg)" and ?num = "o_seed_to cfg - o_seed_from cfg"
  have n: "0 < ?n" "?n \<le> 256"
    using assms(3) i by auto
  then have "those (map (\<lambda>i. map_option (Pair (seed_path True ?num i)) (seed_file wal (shard_bounds (word_of_nat ?n) (word_of_nat i)) ?num)) [0..<?n]) = Some files"
    using assms(1,2) by (simp add: seed_files_def Let_def)
  from those_map_Some [OF this] have len: "length files = ?n"
    and f: "\<And>j. j < ?n \<Longrightarrow> \<exists>bytes. seed_file wal (shard_bounds (word_of_nat ?n) (word_of_nat j)) ?num = Some bytes \<and> files ! j = (seed_path True ?num j, bytes)"
    by auto
  have "map fst files = map (seed_path True ?num) [0..<?n]"
  proof (rule nth_equalityI)
    fix j
    assume "j < length (map fst files)"
    then show "map fst files ! j = map (seed_path True ?num) [0..<?n] ! j"
      using f [of j] by (auto simp: len)
  qed (simp add: len)
  then have d: "distinct (map fst files)"
    by (simp add: distinct_map inj_on_def seed_path_inject)
  obtain bytes where b: "seed_file wal (shard_bounds (word_of_nat ?n) (word_of_nat i)) ?num = Some bytes" "files ! i = (seed_path True ?num i, bytes)"
    using f i by blast
  then have "map_of files (preseed_dir cfg i) = Some bytes"
    using map_of_nth_distinct [OF d, of i] i by (simp add: len preseed_dir_path [OF assms(4)])
  moreover have "preseed_dir cfg i \<noteq> []"
    using assms(4) by (simp add: preseed_dir_def)
  ultimately show ?thesis
    using i by (simp add: locking_shard_start_def Let_def read_seed_file [OF b(1)] in_bounds_even [OF i n(2)] shard_inv_def locking_shard_init_def
        holds_def disjoint_family_on_def)
qed

lemma seed_coin_cong:
  "w_seed_value w = w_seed_value v \<Longrightarrow> w_seed_witness_commitment w = w_seed_witness_commitment v \<Longrightarrow> seed_coin w = seed_coin v"
  by (rule ext) (simp add: seed_coin_def create_seeded_input_def create_seeded_transaction_def)

lemma loadgen_wallet_coins:
  assumes "loadgen_wallet S cfg gen_id = Some w" "seeder_wallet S cfg = Some wal" "o_seed_from cfg = 0" "o_seed_to cfg \<noteq> 0"
    and "o_loadgen_count cfg \<le> o_seed_to cfg"
  shows "input_hash ` set (wallet_coins w) \<subseteq> seeded_hashes wal (o_seed_to cfg)"
proof -
  obtain a b key where ab: "loadgen_seed_range cfg gen_id = Some (a, b)" and key: "o_seed_privkey cfg = Some key"
    and w: "wallet_seed S key (ucast (o_seed_value cfg)) a b wallet_init = Some (True, w)"
    using assms(1,3,4) by (auto simp: loadgen_wallet_def split: bind_splits if_splits)
  then obtain pub where pub: "pubkey_from_privkey S key = Some pub" "a < b"
    and w': "w = seed_readonly (get_p2pk_witness_commitment pub) (ucast (o_seed_value cfg)) a b (add_key pub key wallet_init)"
    by (auto simp: wallet_seed_def wallet_init_def split: bind_splits if_splits)
  have "seed_coin w = seed_coin wal"
    using assms(2) key pub(1) by (intro seed_coin_cong) (auto simp: seeder_wallet_def w' seed_readonly_def)
  then have coins: "wallet_coins w = map (\<lambda>k. seed_coin wal (a + word_of_nat k)) [0..<unat (b - a)]"
    by (simp add: wallet_coins_def seed_coins_def) (simp add: w' seed_readonly_def add_key_def wallet_init_def)
  define sz where "sz = (unat (o_seed_to cfg) - unat (o_seed_from cfg)) div unat (o_loadgen_count cfg)"
  have "unat b + 1 = unat a + sz" "unat a + sz \<le> unat (o_seed_to cfg)"
    using loadgen_seed_range_nat(2,3) [OF _ _ ab sz_def] assms(3,5) by simp_all
  then have b: "unat b < unat (o_seed_to cfg)"
    by linarith
  have "\<exists>j < unat (o_seed_to cfg). seed_coin wal (a + word_of_nat k) = seed_coin wal (word_of_nat j)" if "k < unat (b - a)" for k
  proof -
    have "unat (b - a) = unat b - unat a"
      using pub(2) by (intro unat_sub) simp
    then have "unat a + k < unat (o_seed_to cfg)"
      using that b by linarith
    moreover have "a + word_of_nat k = word_of_nat (unat a + k)"
      by simp
    ultimately show ?thesis
      by (intro exI [of _ "unat a + k"]) simp
  qed
  then show ?thesis
    unfolding coins seeded_hashes_def by fastforce
qed

text \<open>C21: The initial supply is complete and spendable. With at most 256 shards and a range of seeds that is not empty, after seeding and
  starting the shards every seeded output (the numbers from 0 up to \<open>seed_to - seed_from\<close>) is unspent on exactly one shard, nothing else is
  unspent, and every shard satisfies its invariant, whatever the configured ranges are. If these are the even ranges that the seeder assumes, every shard
  holds only hashes of its own range. If the seeds start at zero (\<open>seed_from = 0\<close>) and there is at least one per load generator,
  then each coin of the wallet of each load generator is unspent on exactly one shard.\<close>

theorem seeded_supply:
  assumes "seed_files S cfg = Some files" "seeder_wallet S cfg = Some wal" "length (o_shard_ranges cfg) \<le> 256" "o_seed_from cfg \<noteq> o_seed_to cfg"
  shows "(\<forall>s \<in> set (seeded_shards cfg files). shard_inv s) \<and>
    (\<forall>h. (\<exists>s \<in> set (seeded_shards cfg files). check_unspent s h) \<longleftrightarrow> h \<in> seeded_hashes wal (o_seed_to cfg - o_seed_from cfg)) \<and>
    (\<forall>h \<in> seeded_hashes wal (o_seed_to cfg - o_seed_from cfg).
       \<exists>!i. i < length (o_shard_ranges cfg) \<and> check_unspent (seeded_shards cfg files ! i) h) \<and>
    (even_ranges cfg \<longrightarrow> (\<forall>s \<in> set (seeded_shards cfg files). \<forall>h. check_unspent s h \<longrightarrow> in_shard s h)) \<and>
    (o_seed_from cfg = 0 \<and> o_loadgen_count cfg \<le> o_seed_to cfg \<longrightarrow> (\<forall>gen_id w. loadgen_wallet S cfg gen_id = Some w \<longrightarrow>
      (\<forall>inp \<in> set (wallet_coins w). \<exists>!i. i < length (o_shard_ranges cfg) \<and> check_unspent (seeded_shards cfg files ! i) (input_hash inp))))"
proof -
  let ?n = "length (o_shard_ranges cfg)" and ?seeded = "seeded_hashes wal (o_seed_to cfg - o_seed_from cfg)"
  have n: "0 < ?n" "?n \<le> 256"
    using assms(1,3) by (auto simp: seed_files_def Let_def split: bind_splits if_splits)
  note l = locking_shard_seeded [OF assms]
  have u: "check_unspent (locking_shard_start cfg files i) h \<longleftrightarrow> h \<in> ?seeded \<and> hash_in_shard_range (even_range ?n i) h"
    if "i < ?n" for i h
    using l [OF that] by (simp add: check_unspent_def)
  have r: "m_output_range (locking_shard_start cfg files i) = even_range ?n i" if "even_ranges cfg" "i < ?n" for i
    using that by (simp add: even_ranges_def locking_shard_start_def Let_def read_preseed_file_def locking_shard_init_def split: option.splits)
  have inv: "\<forall>s \<in> set (seeded_shards cfg files). shard_inv s"
    using l by (auto simp: seeded_shards_def)
  have own: "\<forall>s \<in> set (seeded_shards cfg files). \<forall>h. check_unspent s h \<longrightarrow> in_shard s h" if "even_ranges cfg"
    using u r [OF that] by (auto simp: seeded_shards_def in_shard_def)
  have all: "(\<exists>s \<in> set (seeded_shards cfg files). check_unspent s h) \<longleftrightarrow> h \<in> ?seeded" for h
    using u even_range_unique [OF n, of h] by (auto simp: seeded_shards_def)
  have once: "\<exists>!i. i < ?n \<and> check_unspent (seeded_shards cfg files ! i) h" if "h \<in> ?seeded" for h
    using that u even_range_unique [OF n, of h] by (simp add: seeded_shards_def cong: conj_cong)
  have coin: "input_hash inp \<in> ?seeded"
    if "o_seed_from cfg = 0" "o_loadgen_count cfg \<le> o_seed_to cfg" "loadgen_wallet S cfg gen_id = Some w" "inp \<in> set (wallet_coins w)" for gen_id w inp
    using loadgen_wallet_coins [OF that(3) assms(2) that(1) _ that(2)] that(1,4) assms(4) by auto
  show ?thesis
    by (intro conjI inv allI all ballI once impI own) (use coin in blast)+
qed

lemma those_Some: "\<forall>x \<in> set xs. x \<noteq> None \<Longrightarrow> \<exists>ys. those xs = Some ys"
  by (induction xs) auto

lemma seed_files_Some:
  assumes "seeder_wallet S cfg = Some wal" "o_shard_ranges cfg \<noteq> []" "o_seed_from cfg \<noteq> o_seed_to cfg"
  shows "\<exists>files. seed_files S cfg = Some files"
proof -
  have "w_seed_from wal \<noteq> w_seed_to wal"
    using assms(1,3) by (auto simp: seeder_wallet_def seed_readonly_def split: bind_splits)
  then have f: "seed_file wal b num \<noteq> None" for b num
    by (simp add: seed_file_def create_seeded_transaction_def case_prod_unfold Let_def)
  then show ?thesis
    using assms(1,2) by (simp add: seed_files_def Let_def del: not_None_eq) (rule those_Some, use f in auto)
qed

definition sample_cfg :: "nat options" where
  "sample_cfg = default_options\<lparr>o_shard_ranges := [(0, 127), (128, 255)], o_seed_to := 4, o_seed_value := 10, o_loadgen_count := 1,
     o_seed_privkey := Some (sample_pair 4)\<rparr>"

theorem seeded_supply_witness:
  "\<exists>files w. seed_files toy_secp sample_cfg = Some files \<and> loadgen_wallet toy_secp sample_cfg 0 = Some w \<and> length (wallet_coins w) = 3 \<and>
     (\<exists>!i. i < 2 \<and> check_unspent (seeded_shards sample_cfg files ! i) (input_hash (wallet_coins w ! 0)))"
proof -
  have key: "pubkey_from_privkey toy_secp (sample_pair 4) = Some (sample_pair 4)"
    by (simp add: toy_secp_def pubkey_from_privkey_def sample_pair_def)
  obtain wal where wal: "seeder_wallet toy_secp sample_cfg = Some wal"
    by (simp add: seeder_wallet_def sample_cfg_def key)
  then obtain files where files: "seed_files toy_secp sample_cfg = Some files"
    using seed_files_Some [OF wal] by (auto simp: sample_cfg_def default_options_def)
  have two: "length (o_shard_ranges sample_cfg) = 2"
    by (simp add: sample_cfg_def)
  have main: "\<And>w inp. loadgen_wallet toy_secp sample_cfg 0 = Some w \<Longrightarrow> inp \<in> set (wallet_coins w) \<Longrightarrow>
      \<exists>!i. i < length (o_shard_ranges sample_cfg) \<and> check_unspent (seeded_shards sample_cfg files ! i) (input_hash inp)"
    using seeded_supply [OF files wal] by (simp add: sample_cfg_def default_options_def)
  obtain w where w: "loadgen_wallet toy_secp sample_cfg 0 = Some w" "w_seed_from w = 0" "w_seed_to w = 3" "w_utxos_set w = []"
    by (simp add: loadgen_wallet_def sample_cfg_def default_options_def loadgen_seed_range_def wallet_seed_def key wallet_init_def seed_readonly_def add_key_def)
  then have "length (wallet_coins w) = 3"
    by (simp add: wallet_coins_def)
  then show ?thesis
    using files w(1) main [OF w(1), of "wallet_coins w ! 0"] by (intro exI [of _ files] exI [of _ w]) (simp add: two)
qed

end
