(* ===== verification/Log_Store.thy ===== *)
theory Log_Store
  imports Uhs_Shard
begin

text \<open>
  The Raft log on LevelDB (\<open>util/raft/log_store.cpp\<close> and \<open>index_comparator.cpp\<close>). LevelDB, with an iterator that
  goes through the entries in the order of the comparator, and the log entries and buffers of NuRaft are
  libraries: the records \<open>log_db\<close> and \<open>nuraft\<close> are arguments of the definitions. \<open>None\<close> is a
  failed assertion or an exception, such as that of a vector of more elements than vectors can have.
\<close>

section \<open>Libraries\<close>

record 'db log_db =
  ldb :: "'db leveldb"
  ldb_entries :: "'db \<Rightarrow> (byte list \<times> byte list) list"

record 'e nuraft =
  entry_serialize :: "'e \<Rightarrow> byte list"
  entry_deserialize :: "byte list \<Rightarrow> 'e option"
  get_term :: "'e \<Rightarrow> u64"
  null_entry :: 'e
  bs_put_u64 :: "u64 \<Rightarrow> byte list"
  bs_get_u64 :: "byte list \<Rightarrow> (u64 \<times> byte list) option"

text \<open>The order of the keys.\<close>

definition index_compare :: "byte list \<Rightarrow> byte list \<Rightarrow> int" where
  "index_compare a b = (if le_value a = le_value b then 0 else if le_value a < le_value b then -1 else 1)"

definition get_key_slice :: "u64 \<Rightarrow> byte list" where
  "get_key_slice key = put_u64 key"

definition max_vector :: "nat \<Rightarrow> nat" where
  "max_vector element_size = (2 ^ 63 - 1) div element_size"

section \<open>The log\<close>

record 'db log_store =
  ls_db :: 'db
  m_next_idx :: u64
  m_start_idx :: u64

definition get_first_index :: "'db log_db \<Rightarrow> 'db \<Rightarrow> u64 option" where
  "get_first_index D db =
    (case ldb_entries D db of
       [] \<Rightarrow> Some 1
     | (key, _) # _ \<Rightarrow> if length key = 8 then Some (word_of_nat (le_value key)) else None)"

definition get_last_index :: "'db log_db \<Rightarrow> 'db \<Rightarrow> u64 option" where
  "get_last_index D db =
    (if ldb_entries D db = [] then Some 0
     else let key = fst (last (ldb_entries D db)) in if length key = 8 then Some (word_of_nat (le_value key)) else None)"

definition load_log :: "'db log_db \<Rightarrow> 'db \<Rightarrow> 'db log_store option" where
  "load_log D db = do {
     last_idx \<leftarrow> get_last_index D db;
     first_idx \<leftarrow> get_first_index D db;
     Some \<lparr>ls_db = db, m_next_idx = last_idx + 1, m_start_idx = first_idx\<rparr> }"

definition next_slot :: "'db log_store \<Rightarrow> u64" where
  "next_slot s = m_next_idx s"

definition start_index :: "'db log_store \<Rightarrow> u64" where
  "start_index s = m_start_idx s"

definition last_entry :: "'db log_db \<Rightarrow> 'e nuraft \<Rightarrow> 'db log_store \<Rightarrow> 'e option" where
  "last_entry D N s =
    (if ldb_entries D (ls_db s) = [] then Some (null_entry N)
     else entry_deserialize N (snd (last (ldb_entries D (ls_db s)))))"

definition log_append :: "'db log_db \<Rightarrow> 'e nuraft \<Rightarrow> 'e \<Rightarrow> 'db log_store \<Rightarrow> u64 \<times> 'db log_store" where
  "log_append D N entry s =
    (let s' = s\<lparr>ls_db := db_write (ldb D) (ls_db s) [Db_put (get_key_slice (m_next_idx s)) (entry_serialize N entry)],
                m_next_idx := m_next_idx s + 1\<rparr>
     in (m_next_idx s' - 1, s'))"

text \<open>The vectors of keys that keep the data of a batch alive have elements of 24 bytes.\<close>

definition write_at :: "'db log_db \<Rightarrow> 'e nuraft \<Rightarrow> u64 \<Rightarrow> 'e \<Rightarrow> 'db log_store \<Rightarrow> 'db log_store option" where
  "write_at D N index entry s =
    (if unat (m_next_idx s - index) > max_vector 24 then None
     else Some (s\<lparr>ls_db := db_write (ldb D) (ls_db s)
                     (Db_put (get_key_slice index) (entry_serialize N entry) #
                      map (\<lambda>i. Db_delete (get_key_slice (word_of_nat i))) [unat (index + 1)..<unat (m_next_idx s)]),
                  m_next_idx := index + 1\<rparr>))"

fun entries_from_slices :: "'e nuraft \<Rightarrow> (byte list \<times> byte list) list \<Rightarrow> 'e list option" where
  "entries_from_slices N [] = Some []"
| "entries_from_slices N ((_, buf) # kvs) = do {
     entry \<leftarrow> entry_deserialize N buf;
     entries \<leftarrow> entries_from_slices N kvs;
     Some (entry # entries) }"

definition log_entries :: "'db log_db \<Rightarrow> 'e nuraft \<Rightarrow> u64 \<Rightarrow> u64 \<Rightarrow> 'db log_store \<Rightarrow> 'e list option" where
  "log_entries D N start_idx end_idx s =
    (let n = unat (end_idx - start_idx);
         it = dropWhile (\<lambda>kv. index_compare (fst kv) (get_key_slice start_idx) < 0) (ldb_entries D (ls_db s))
     in if n > max_vector 16 \<or> length it < n then None else entries_from_slices N (take n it))"

definition entry_at :: "'db log_db \<Rightarrow> 'e nuraft \<Rightarrow> u64 \<Rightarrow> 'db log_store \<Rightarrow> 'e option" where
  "entry_at D N index s =
    (case db_get (ldb D) (ls_db s) (get_key_slice index) of
       None \<Rightarrow> Some (null_entry N)
     | Some val \<Rightarrow> entry_deserialize N val)"

definition term_at :: "'db log_db \<Rightarrow> 'e nuraft \<Rightarrow> u64 \<Rightarrow> 'db log_store \<Rightarrow> u64 option" where
  "term_at D N index s = map_option (get_term N) (entry_at D N index s)"

definition pack :: "'db log_db \<Rightarrow> 'e nuraft \<Rightarrow> u64 \<Rightarrow> int \<Rightarrow> 'db log_store \<Rightarrow> byte list option" where
  "pack D N index cnt s =
    (if cnt < 0 then None
     else do {
       entries \<leftarrow> log_entries D N index (index + word_of_int cnt) s;
       let bufs = map (entry_serialize N) entries;
       Some (bs_put_u64 N (word_of_int cnt) @ concat (map (\<lambda>buf. bs_put_u64 N (word_of_nat (length buf)) @ buf) bufs)) })"

fun unpack_entries :: "'e nuraft \<Rightarrow> nat \<Rightarrow> byte list \<Rightarrow> 'e list option" where
  "unpack_entries N 0 bs = Some []"
| "unpack_entries N (Suc n) bs = do {
     (len, bs') \<leftarrow> bs_get_u64 N bs;
     if length bs' < unat len then None
     else do {
       entry \<leftarrow> entry_deserialize N (take (unat len) bs');
       entries \<leftarrow> unpack_entries N n (drop (unat len) bs');
       Some (entry # entries) } }"

definition apply_pack :: "'db log_db \<Rightarrow> 'e nuraft \<Rightarrow> u64 \<Rightarrow> byte list \<Rightarrow> 'db log_store \<Rightarrow> 'db log_store option" where
  "apply_pack D N index pk s = do {
     (cnt, bs) \<leftarrow> bs_get_u64 N pk;
     if unat cnt > max_vector 16 then None
     else do {
       entries \<leftarrow> unpack_entries N (unat cnt) bs;
       let db = db_write (ldb D) (ls_db s)
         (map (\<lambda>i. Db_put (get_key_slice (index + word_of_nat i)) (entry_serialize N (entries ! i))) [0..<length entries]);
       first_idx \<leftarrow> get_first_index D db;
       last_idx \<leftarrow> get_last_index D db;
       Some \<lparr>ls_db = db, m_next_idx = last_idx + 1, m_start_idx = first_idx\<rparr> } }"

text \<open>For the greatest index of all, the loop of \<open>compact\<close> would not end.\<close>

definition compact :: "'db log_db \<Rightarrow> u64 \<Rightarrow> 'db log_store \<Rightarrow> 'db log_store option" where
  "compact D last_log_index s =
    (if unat (last_log_index - m_start_idx s + 1) > max_vector 24 \<or> last_log_index = -1 then None
     else Some (s\<lparr>ls_db := db_write (ldb D) (ls_db s)
                     (map (\<lambda>i. Db_delete (get_key_slice (word_of_nat i))) [unat (m_start_idx s)..<Suc (unat last_log_index)]),
                  m_start_idx := last_log_index + 1,
                  m_next_idx := max (m_next_idx s) (last_log_index + 1)\<rparr>))"

definition log_flush :: "'db log_db \<Rightarrow> 'db log_store \<Rightarrow> 'db log_store" where
  "log_flush D s = s\<lparr>ls_db := db_write (ldb D) (ls_db s) [Db_put (replicate 8 0) (replicate 8 0), Db_delete (replicate 8 0)]\<rparr>"

section \<open>What is relied on\<close>

text \<open>
  The iterator goes through exactly the entries of the database, in strictly increasing order of the comparator, as
  long as all keys have the eight bytes that the comparator needs; log entries and numbers are read back as
  they were written.
\<close>

definition log_db_ok :: "'db log_db \<Rightarrow> bool" where
  "log_db_ok D \<longleftrightarrow> leveldb_ok (ldb D) \<and>
     (\<forall>db. (\<forall>k. db_get (ldb D) db k \<noteq> None \<longrightarrow> length k = 8) \<longrightarrow>
        sorted_wrt (\<lambda>a b. index_compare (fst a) (fst b) < 0) (ldb_entries D db) \<and>
        set (ldb_entries D db) = {(k, v). db_get (ldb D) db k = Some v})"

definition nuraft_ok :: "'e nuraft \<Rightarrow> bool" where
  "nuraft_ok N \<longleftrightarrow> (\<forall>e. entry_deserialize N (entry_serialize N e) = Some e) \<and>
     (\<forall>x bs. bs_get_u64 N (bs_put_u64 N x @ bs) = Some (x, bs))"

text \<open>The abstract log: the entries from an index on.\<close>

definition log_bytes :: "'e nuraft \<Rightarrow> nat \<Rightarrow> 'e list \<Rightarrow> byte list \<Rightarrow> byte list option" where
  "log_bytes N st es k =
    (if length k = 8 \<and> st \<le> le_value k \<and> le_value k < st + length es then Some (entry_serialize N (es ! (le_value k - st))) else None)"

definition log_repr :: "'db log_db \<Rightarrow> 'e nuraft \<Rightarrow> 'db log_store \<Rightarrow> nat \<Rightarrow> 'e list \<Rightarrow> bool" where
  "log_repr D N s st es \<longleftrightarrow> 0 < st \<and> st + length es < 2 ^ 64 \<and>
     m_start_idx s = word_of_nat st \<and> m_next_idx s = word_of_nat (st + length es) \<and>
     db_get (ldb D) (ls_db s) = log_bytes N st es"

section \<open>Keys and batches\<close>

lemma unat_index [simp]: "n < 2 ^ 64 \<Longrightarrow> unat (word_of_nat n :: u64) = n"
  by (simp add: unsigned_of_nat take_bit_nat_eq_self)

lemma key_slice_value [simp]: "le_value (get_key_slice i) = unat i" "length (get_key_slice i) = 8"
  using unat_lt2p [of i] by (simp_all add: get_key_slice_def put_u64_def le_value_le_bytes)

lemma key_slice_eq: "get_key_slice i = k \<longleftrightarrow> length k = 8 \<and> le_value k = unat i"
proof
  assume "length k = 8 \<and> le_value k = unat i"
  then show "get_key_slice i = k"
    using le_bytes_le_value [of k] by (simp add: get_key_slice_def put_u64_def)
qed auto

lemma log_deletes_value: "batch_value v k (map (\<lambda>i. Db_delete (f i)) is) = (if k \<in> f ` set is then None else v)"
  by (induction "is" arbitrary: v) auto

lemma log_puts_value:
  assumes "ix + n < 2 ^ 64"
  shows "batch_value v k (map (\<lambda>i. Db_put (get_key_slice (word_of_nat ix + word_of_nat i)) (g i)) [0..<n]) =
    (if length k = 8 \<and> ix \<le> le_value k \<and> le_value k < ix + n then Some (g (le_value k - ix)) else v)"
  using assms
proof (induction n)
  case (Suc n)
  have "word_of_nat ix + word_of_nat n = (word_of_nat (ix + n) :: u64)" "unat (word_of_nat (ix + n) :: u64) = ix + n"
    using Suc.prems by (simp_all del: of_nat_add add: of_nat_add [symmetric])
  then have "get_key_slice (word_of_nat ix + word_of_nat n) = k \<longleftrightarrow> length k = 8 \<and> le_value k = ix + n"
    by (simp add: key_slice_eq)
  then show ?case
    using Suc by (auto simp: batch_value_append le_less_Suc_eq)
qed auto

section \<open>The iterator\<close>

lemma sorted_entries_unique:
  fixes xs ys :: "(byte list \<times> byte list) list"
  assumes "sorted_wrt (\<lambda>a b. index_compare (fst a) (fst b) < 0) xs" "sorted_wrt (\<lambda>a b. index_compare (fst a) (fst b) < 0) ys" "set xs = set ys"
  shows "xs = ys"
proof -
  let ?f = "\<lambda>kv :: byte list \<times> byte list. le_value (fst kv)"
  have less: "index_compare a b < 0 \<longleftrightarrow> le_value a < le_value b" for a b
    by (simp add: index_compare_def)
  have sorted: "sorted_wrt (<) (map ?f xs)" "sorted_wrt (<) (map ?f ys)"
    using assms(1,2) by (simp_all add: sorted_wrt_map less)
  then have "sorted (map ?f xs)" "distinct (map ?f xs)" "sorted (map ?f ys)" "distinct (map ?f ys)"
    by (simp_all add: strict_sorted_iff)
  then have "map ?f xs = map ?f ys" "inj_on ?f (set xs \<union> set ys)"
    using assms(3) by (auto intro: sorted_distinct_set_unique simp: distinct_map)
  then show ?thesis
    by (rule map_inj_on)
qed

lemma log_entries_list:
  assumes D: "log_db_ok D" and get: "db_get (ldb D) db = log_bytes N st es" and bound: "st + length es < 2 ^ 64"
  shows "ldb_entries D db = map (\<lambda>i. (get_key_slice (word_of_nat (st + i)), entry_serialize N (es ! i))) [0..<length es]"
    (is "_ = map ?kv _")
proof (rule sorted_entries_unique)
  have "\<forall>k. db_get (ldb D) db k \<noteq> None \<longrightarrow> length k = 8"
    by (simp add: get log_bytes_def)
  then have D': "sorted_wrt (\<lambda>a b. index_compare (fst a) (fst b) < 0) (ldb_entries D db)"
      "set (ldb_entries D db) = {(k, v). log_bytes N st es k = Some v}"
    using D unfolding log_db_ok_def get [symmetric] by blast+
  show "sorted_wrt (\<lambda>a b. index_compare (fst a) (fst b) < 0) (ldb_entries D db)"
    by (rule D'(1))
  show "sorted_wrt (\<lambda>a b. index_compare (fst a) (fst b) < 0) (map ?kv [0..<length es])"
    using bound by (auto simp: sorted_wrt_map index_compare_def sorted_wrt_iff_nth_less simp del: of_nat_add)
  show "set (ldb_entries D db) = set (map ?kv [0..<length es])"
  proof (rule set_eqI, rule iffI)
    fix kv
    assume "kv \<in> set (ldb_entries D db)"
    then have kv: "length (fst kv) = 8" "st \<le> le_value (fst kv)" "le_value (fst kv) < st + length es"
        "snd kv = entry_serialize N (es ! (le_value (fst kv) - st))"
      by (auto simp: D'(2) log_bytes_def split: if_splits)
    then have "kv = ?kv (le_value (fst kv) - st)"
      using bound key_slice_eq [of "word_of_nat (le_value (fst kv))" "fst kv"] by (simp add: prod_eq_iff)
    then show "kv \<in> set (map ?kv [0..<length es])"
      using kv by (auto intro!: image_eqI [of _ _ "le_value (fst kv) - st"])
  next
    fix kv
    assume "kv \<in> set (map ?kv [0..<length es])"
    then show "kv \<in> set (ldb_entries D db)"
      using bound by (auto simp: D'(2) log_bytes_def simp del: of_nat_add)
  qed
qed

section \<open>Operations on the abstract log\<close>

lemma log_repr_get: "log_repr D N s st es \<Longrightarrow> db_get (ldb D) (ls_db s) k = log_bytes N st es k"
  by (simp add: log_repr_def)

lemma log_repr_write:
  assumes "log_db_ok D" "log_repr D N s st es"
  shows "db_get (ldb D) (db_write (ldb D) (ls_db s) ops) = (\<lambda>k. batch_value (log_bytes N st es k) k ops)"
  by (rule ext) (use assms in \<open>simp add: log_db_ok_def leveldb_ok_def log_repr_def\<close>)

lemma key_slice_image:
  assumes "b \<le> 2 ^ 64"
  shows "k \<in> (\<lambda>j. get_key_slice (word_of_nat j)) ` {a..<b} \<longleftrightarrow> length k = 8 \<and> a \<le> le_value k \<and> le_value k < b"
proof
  assume k: "length k = 8 \<and> a \<le> le_value k \<and> le_value k < b"
  then have "get_key_slice (word_of_nat (le_value k)) = k"
    using assms by (simp add: key_slice_eq)
  then show "k \<in> (\<lambda>j. get_key_slice (word_of_nat j)) ` {a..<b}"
    using k by (metis atLeastLessThan_iff image_eqI)
qed (use assms in auto)

lemma log_append_refines:
  assumes D: "log_db_ok D" and s: "log_repr D N s st es" and fits: "st + length es + 1 < 2 ^ 64"
  obtains s' where "log_append D N e s = (word_of_nat (st + length es), s')" "log_repr D N s' st (es @ [e])"
proof -
  let ?n = "st + length es"
  have "batch_value (log_bytes N st es k) k [Db_put (get_key_slice (word_of_nat ?n)) (entry_serialize N e)] = log_bytes N st (es @ [e]) k" for k
    using fits by (auto simp: log_bytes_def key_slice_eq nth_append simp del: of_nat_add)
  then have "log_repr D N (snd (log_append D N e s)) st (es @ [e])"
    using s fits by (simp add: log_append_def log_repr_def [of _ _ _ _ "es @ [e]"] log_repr_write [OF D s])
      (simp add: log_repr_def)
  moreover have "fst (log_append D N e s) = word_of_nat ?n"
    using s by (simp add: log_append_def log_repr_def)
  ultimately show thesis
    using that by (metis prod.collapse)
qed

lemma write_at_refines:
  assumes D: "log_db_ok D" and s: "log_repr D N s st es" and i: "st \<le> i" "i \<le> st + length es" "i + 1 < 2 ^ 64"
    and small: "length es \<le> max_vector 24"
  obtains s' where "write_at D N (word_of_nat i) e s = Some s'" "log_repr D N s' st (take (i - st) es @ [e])"
proof -
  let ?n = "st + length es"
  let ?ops = "Db_put (get_key_slice (word_of_nat i)) (entry_serialize N e) # map (\<lambda>j. Db_delete (get_key_slice (word_of_nat j))) [i + 1..<?n]"
  have n: "m_next_idx s = word_of_nat ?n" "?n < 2 ^ 64"
    using s by (simp_all add: log_repr_def)
  have "unat (m_next_idx s - word_of_nat i) = ?n - i"
    using i n by (simp add: unat_sub word_le_nat_alt del: of_nat_add)
  moreover have "unat (word_of_nat i + 1 :: u64) = i + 1"
    using unat_index [of "i + 1"] i(3) by (simp add: add.commute)
  ultimately have w: "write_at D N (word_of_nat i) e s = Some (s\<lparr>ls_db := db_write (ldb D) (ls_db s) ?ops, m_next_idx := word_of_nat i + 1\<rparr>)"
    using i small n by (simp add: write_at_def del: of_nat_add)
  have mem: "k \<in> (\<lambda>j. get_key_slice (word_of_nat j)) ` {Suc i..<?n} \<longleftrightarrow> length k = 8 \<and> Suc i \<le> le_value k \<and> le_value k < ?n" for k
    by (rule key_slice_image) (use n(2) in simp)
  have "batch_value (log_bytes N st es k) k ?ops = log_bytes N st (take (i - st) es @ [e]) k" for k
  proof -
    consider "length k \<noteq> 8" | "length k = 8" "le_value k < i" | "length k = 8" "le_value k = i" | "length k = 8" "i < le_value k"
      by linarith
    then show ?thesis
      by cases (use i in \<open>auto simp: log_deletes_value mem log_bytes_def key_slice_eq nth_append\<close>)
  qed
  then show thesis
    using that [OF w] s i by (simp add: log_repr_def [of _ _ _ _ "take (i - st) es @ [e]"] log_repr_write [OF D s] add.commute)
      (auto simp: log_repr_def)
qed

lemma compact_refines:
  assumes D: "log_db_ok D" and s: "log_repr D N s st es" and l: "st \<le> l + 1" "l + 1 < 2 ^ 64" "l + 1 - st \<le> max_vector 24"
  obtains s' where "compact D (word_of_nat l) s = Some s'" "log_repr D N s' (l + 1) (drop (l + 1 - st) es)"
proof -
  let ?ops = "map (\<lambda>j. Db_delete (get_key_slice (word_of_nat j))) [st..<Suc l]"
  have st: "m_start_idx s = word_of_nat st" "st < 2 ^ 64" and n: "m_next_idx s = word_of_nat (st + length es)" "st + length es < 2 ^ 64"
    using s by (simp_all add: log_repr_def)
  have l1: "word_of_nat l + 1 = (word_of_nat (l + 1) :: u64)"
    by simp
  have eq: "word_of_nat l - word_of_nat st + 1 = (word_of_nat (l + 1) - word_of_nat st :: u64)"
    by simp
  have "unat (word_of_nat l - m_start_idx s + 1) = l + 1 - st"
    unfolding st(1) eq using l st(2) by (simp add: unat_sub word_le_nat_alt del: of_nat_add of_nat_Suc)
  moreover have "(word_of_nat l :: u64) \<noteq> - 1"
    using l(2) l1 unat_index [of "l + 1"] by (metis add.left_inverse add.commute add_is_0 unat_0 zero_neq_one)
  moreover have "max (m_next_idx s) (word_of_nat (l + 1)) = word_of_nat (l + 1 + length (drop (l + 1 - st) es))"
  proof -
    have "l + 1 + length (drop (l + 1 - st) es) = max (st + length es) (l + 1)"
      using l by simp
    moreover have "max (word_of_nat (st + length es)) (word_of_nat (l + 1)) = (word_of_nat (max (st + length es) (l + 1)) :: u64)"
      using n l by (simp add: max_def word_le_nat_alt del: of_nat_add of_nat_Suc)
    ultimately show ?thesis
      using n by (simp only:)
  qed
  ultimately have c: "compact D (word_of_nat l) s = Some (s\<lparr>ls_db := db_write (ldb D) (ls_db s) ?ops, m_start_idx := word_of_nat (l + 1),
      m_next_idx := word_of_nat (l + 1 + length (drop (l + 1 - st) es))\<rparr>)"
    using l st unfolding compact_def l1 by (simp del: of_nat_add of_nat_Suc upt_Suc)
  have mem: "k \<in> (\<lambda>j. get_key_slice (word_of_nat j)) ` {st..<Suc l} \<longleftrightarrow> length k = 8 \<and> st \<le> le_value k \<and> le_value k < Suc l" for k
    by (rule key_slice_image) (use l in simp)
  have val: "(\<lambda>k. batch_value (log_bytes N st es k) k ?ops) = log_bytes N (l + 1) (drop (l + 1 - st) es)"
    by (rule ext) (use l in \<open>auto simp: log_deletes_value mem log_bytes_def simp del: upt_Suc\<close>)
  show thesis
    by (rule that [OF c], unfold log_repr_def) (use n l in \<open>simp add: log_repr_write [OF D s] val del: upt_Suc of_nat_add of_nat_Suc\<close>)
qed

lemma log_flush_refines:
  assumes "log_db_ok D" "log_repr D N s st es"
  shows "log_repr D N (log_flush D s) st es"
proof -
  have zero: "le_value (replicate 8 0) = 0"
    by (simp add: numeral_eq_Suc)
  have "(\<lambda>k. batch_value (log_bytes N st es k) k [Db_put (replicate 8 0) (replicate 8 0), Db_delete (replicate 8 0)]) = log_bytes N st es"
    by (rule ext) (use assms(2) zero in \<open>auto simp: log_repr_def log_bytes_def\<close>)
  then show ?thesis
    using assms(2) by (simp add: log_flush_def log_repr_def [of _ _ "_\<lparr>ls_db := _\<rparr>"] log_repr_write [OF assms]) (simp add: log_repr_def)
qed

section \<open>Reading the abstract log\<close>

lemma log_first_last:
  assumes "log_db_ok D" "db_get (ldb D) db = log_bytes N st es" "st + length es < 2 ^ 64"
  shows "get_first_index D db = Some (if es = [] then 1 else word_of_nat st)"
    "get_last_index D db = Some (if es = [] then 0 else word_of_nat (st + length es - 1))"
proof -
  note l = log_entries_list [OF assms]
  show "get_first_index D db = Some (if es = [] then 1 else word_of_nat st)"
    using assms(3) by (cases es) (simp_all add: get_first_index_def l upt_conv_Cons del: upt_Suc)
  show "get_last_index D db = Some (if es = [] then 0 else word_of_nat (st + length es - 1))"
    using assms(3) by (cases es rule: rev_cases) (simp_all add: get_last_index_def l del: of_nat_add)
qed

lemma entry_at_reads:
  assumes "nuraft_ok N" "log_repr D N s st es" "i < 2 ^ 64"
  shows "entry_at D N (word_of_nat i) s = Some (if st \<le> i \<and> i < st + length es then es ! (i - st) else null_entry N)"
  using assms by (simp add: entry_at_def log_repr_get log_bytes_def nuraft_ok_def)

lemma last_entry_reads:
  assumes "log_db_ok D" "nuraft_ok N" "log_repr D N s st es"
  shows "last_entry D N s = Some (if es = [] then null_entry N else last es)"
proof -
  have l: "ldb_entries D (ls_db s) = map (\<lambda>i. (get_key_slice (word_of_nat (st + i)), entry_serialize N (es ! i))) [0..<length es]"
    using assms(3) by (intro log_entries_list [OF assms(1)]) (simp_all add: log_repr_def)
  show ?thesis
    using assms(2) by (cases es rule: rev_cases) (simp_all add: last_entry_def l nuraft_ok_def)
qed

lemma entries_from_slices_map:
  assumes "nuraft_ok N"
  shows "entries_from_slices N (map (\<lambda>i. (f i, entry_serialize N (g i))) is) = Some (map g is)"
  using assms by (induction "is") (simp_all add: nuraft_ok_def)

lemma log_entries_reads:
  assumes D: "log_db_ok D" and N: "nuraft_ok N" and s: "log_repr D N s st es"
    and i: "st \<le> i" "i + n \<le> st + length es" "n \<le> max_vector 16"
  shows "log_entries D N (word_of_nat i) (word_of_nat i + word_of_nat n) s = Some (take n (drop (i - st) es))"
proof -
  let ?kv = "\<lambda>i. (get_key_slice (word_of_nat (st + i)), entry_serialize N (es ! i))"
  have bound: "st + length es < 2 ^ 64"
    using s by (simp add: log_repr_def)
  have l: "ldb_entries D (ls_db s) = map ?kv [0..<length es]"
    using s by (intro log_entries_list [OF D]) (simp_all add: log_repr_def)
  have upt: "[0..<length es] = [0..<i - st] @ [i - st..<length es]"
    using i upt_add_eq_append [of 0 "i - st" "length es - (i - st)"] by simp
  have "dropWhile (\<lambda>kv. index_compare (fst kv) (get_key_slice (word_of_nat i)) < 0) (map ?kv [0..<length es]) = map ?kv [i - st..<length es]"
  proof -
    have "\<forall>kv \<in> set (map ?kv [0..<i - st]). index_compare (fst kv) (get_key_slice (word_of_nat i)) < 0"
      using bound i by (auto simp: index_compare_def simp del: of_nat_add)
    moreover have "dropWhile (\<lambda>kv. index_compare (fst kv) (get_key_slice (word_of_nat i)) < 0) (map ?kv [i - st..<length es]) = map ?kv [i - st..<length es]"
      using bound i by (cases "i - st < length es") (simp_all add: upt_conv_Cons index_compare_def)
    ultimately show ?thesis
      unfolding upt map_append by (subst dropWhile_append2) auto
  qed
  moreover have "unat (word_of_nat n :: u64) = n"
    using bound i by simp
  ultimately have "log_entries D N (word_of_nat i) (word_of_nat i + word_of_nat n) s = entries_from_slices N (take n (map ?kv [i - st..<length es]))"
    using i by (simp add: log_entries_def l)
  also have "take n (map ?kv [i - st..<length es]) = map ?kv [i - st..<i - st + n]"
    using i by (simp add: take_map)
  also have "entries_from_slices N (map ?kv [i - st..<i - st + n]) = Some (map ((!) es) [i - st..<i - st + n])"
    by (rule entries_from_slices_map [OF N])
  also have "map ((!) es) [i - st..<i - st + n] = take n (drop (i - st) es)"
    using i by (auto intro: nth_equalityI)
  finally show ?thesis .
qed

lemma load_log_reads:
  assumes "log_db_ok D" "log_repr D N s st es" "es \<noteq> []"
  shows "load_log D (ls_db s) = Some s"
proof -
  have "word_of_nat (st + length es - 1) + 1 = (word_of_nat (st + length es) :: u64)"
    using assms(2) by (simp add: log_repr_def of_nat_diff)
  then show ?thesis
    using assms log_first_last [OF assms(1), of "ls_db s" N st es] by (cases s) (simp add: load_log_def log_repr_def)
qed

section \<open>Packs\<close>

lemma unpack_entries_pack:
  assumes N: "nuraft_ok N"
  shows "\<forall>e \<in> set es. length (entry_serialize N e) < 2 ^ 64 \<Longrightarrow>
    unpack_entries N (length es) (concat (map (\<lambda>buf. bs_put_u64 N (word_of_nat (length buf)) @ buf) (map (entry_serialize N) es)) @ r) = Some es"
  using N by (induction es) (simp_all add: nuraft_ok_def)

text \<open>Entries that are written over a log from an index on; the entries behind them stay.\<close>

definition overlay :: "nat \<Rightarrow> 'e list \<Rightarrow> nat \<times> 'e list \<Rightarrow> nat \<times> 'e list" where
  "overlay i new log = (if snd log = [] then (i, new)
     else (fst log, take (i - fst log) (snd log) @ new @ drop (i - fst log + length new) (snd log)))"

lemma overlay_bytes:
  assumes "es = [] \<or> st \<le> i \<and> i \<le> st + length es"
  shows "(if length k = 8 \<and> i \<le> le_value k \<and> le_value k < i + length new then Some (entry_serialize N (new ! (le_value k - i))) else log_bytes N st es k) =
    log_bytes N (fst (overlay i new (st, es))) (snd (overlay i new (st, es))) k"
proof (cases "es = []")
  case True
  then show ?thesis
    by (simp add: overlay_def log_bytes_def)
next
  case False
  then have i: "st \<le> i" "i \<le> st + length es"
    using assms by auto
  consider "length k \<noteq> 8" | "length k = 8" "le_value k < i" | "length k = 8" "i \<le> le_value k" "le_value k < i + length new"
    | "length k = 8" "i + length new \<le> le_value k"
    by linarith
  then show ?thesis
  proof cases
    case 4
    then have "le_value k - st - (i - st) = le_value k - i" "i - st + length new + (le_value k - i - length new) = le_value k - st"
      using i by simp_all
    then show ?thesis
      using 4 i False by (auto simp: overlay_def log_bytes_def nth_append)
  qed (use i False in \<open>auto simp: overlay_def log_bytes_def nth_append\<close>)
qed

lemma pack_reads:
  assumes D: "log_db_ok D" and N: "nuraft_ok N" and s: "log_repr D N s st es"
    and i: "st \<le> i" "i + n \<le> st + length es" "n \<le> max_vector 16"
  shows "pack D N (word_of_nat i) (int n) s = Some (bs_put_u64 N (word_of_nat n) @
    concat (map (\<lambda>buf. bs_put_u64 N (word_of_nat (length buf)) @ buf) (map (entry_serialize N) (take n (drop (i - st) es)))))"
  using log_entries_reads [OF assms] by (simp add: pack_def)

lemma apply_pack_refines:
  assumes D: "log_db_ok D" and N: "nuraft_ok N" and s: "log_repr D N s st es"
    and i: "es = [] \<or> st \<le> i \<and> i \<le> st + length es" "0 < i" "i + length new < 2 ^ 64" "length new \<le> max_vector 16" "new \<noteq> []"
    and short: "\<forall>e \<in> set new. length (entry_serialize N e) < 2 ^ 64"
  obtains s' where "apply_pack D N (word_of_nat i) (bs_put_u64 N (word_of_nat (length new)) @
      concat (map (\<lambda>buf. bs_put_u64 N (word_of_nat (length buf)) @ buf) (map (entry_serialize N) new))) s = Some s'"
    "log_repr D N s' (fst (overlay i new (st, es))) (snd (overlay i new (st, es)))"
proof -
  let ?st = "fst (overlay i new (st, es))" and ?es = "snd (overlay i new (st, es))"
  let ?ops = "map (\<lambda>j. Db_put (get_key_slice (word_of_nat i + word_of_nat j)) (entry_serialize N (new ! j))) [0..<length new]"
  let ?db = "db_write (ldb D) (ls_db s) ?ops"
  have get: "db_get (ldb D) ?db = log_bytes N ?st ?es"
    unfolding log_repr_write [OF D s] by (rule ext) (simp only: log_puts_value [OF i(3)] overlay_bytes [OF i(1)])
  have bound: "?st + length ?es < 2 ^ 64" "?es \<noteq> []" "0 < ?st"
    using i s by (auto simp: overlay_def log_repr_def)
  have "unat (word_of_nat (length new) :: u64) = length new"
    using i by simp
  moreover have "unpack_entries N (length new) (concat (map (\<lambda>buf. bs_put_u64 N (word_of_nat (length buf)) @ buf) (map (entry_serialize N) new))) = Some new"
    using unpack_entries_pack [OF N short, of "[]"] by simp
  moreover note log_first_last [OF D get bound(1)]
  ultimately have "apply_pack D N (word_of_nat i) (bs_put_u64 N (word_of_nat (length new)) @
      concat (map (\<lambda>buf. bs_put_u64 N (word_of_nat (length buf)) @ buf) (map (entry_serialize N) new))) s =
    Some \<lparr>ls_db = ?db, m_next_idx = word_of_nat (?st + length ?es - 1) + 1, m_start_idx = word_of_nat ?st\<rparr>"
    using N i bound(2) by (simp add: apply_pack_def nuraft_ok_def)
  moreover have "word_of_nat (?st + length ?es - 1) + 1 = (word_of_nat (?st + length ?es) :: u64)"
    using bound(3) by (simp add: of_nat_diff)
  ultimately show thesis
    using get bound by (intro that) (auto simp: log_repr_def)
qed

section \<open>Sequences of operations\<close>

datatype 'e log_op = Log_append 'e | Log_write_at nat 'e | Log_compact nat | Log_flush | Log_apply_pack nat "'e list"

text \<open>
  The specification: a start index and a list. \<open>None\<close> is an operation outside of its contract: an index outside of the log,
  or more entries than indices or vectors allow.
\<close>

fun spec_log :: "'e nuraft \<Rightarrow> 'e log_op \<Rightarrow> nat \<times> 'e list \<Rightarrow> (nat \<times> 'e list) option" where
  "spec_log N (Log_append e) (st, es) = (if st + length es + 1 < 2 ^ 64 then Some (st, es @ [e]) else None)"
| "spec_log N (Log_write_at i e) (st, es) =
    (if st \<le> i \<and> i \<le> st + length es \<and> i + 1 < 2 ^ 64 \<and> length es \<le> max_vector 24 then Some (st, take (i - st) es @ [e]) else None)"
| "spec_log N (Log_compact l) (st, es) =
    (if st \<le> l + 1 \<and> l + 1 < 2 ^ 64 \<and> l + 1 - st \<le> max_vector 24 then Some (l + 1, drop (l + 1 - st) es) else None)"
| "spec_log N Log_flush (st, es) = Some (st, es)"
| "spec_log N (Log_apply_pack i new) (st, es) =
    (if (es = [] \<or> st \<le> i \<and> i \<le> st + length es) \<and> 0 < i \<and> i + length new < 2 ^ 64 \<and> length new \<le> max_vector 16 \<and> new \<noteq> [] \<and>
        (\<forall>e \<in> set new. length (entry_serialize N e) < 2 ^ 64)
     then Some (overlay i new (st, es)) else None)"

definition pack_bytes :: "'e nuraft \<Rightarrow> 'e list \<Rightarrow> byte list" where
  "pack_bytes N new = bs_put_u64 N (word_of_nat (length new)) @
     concat (map (\<lambda>buf. bs_put_u64 N (word_of_nat (length buf)) @ buf) (map (entry_serialize N) new))"

fun run_log :: "'db log_db \<Rightarrow> 'e nuraft \<Rightarrow> 'e log_op \<Rightarrow> 'db log_store \<Rightarrow> 'db log_store option" where
  "run_log D N (Log_append e) s = Some (snd (log_append D N e s))"
| "run_log D N (Log_write_at i e) s = write_at D N (word_of_nat i) e s"
| "run_log D N (Log_compact l) s = compact D (word_of_nat l) s"
| "run_log D N Log_flush s = Some (log_flush D s)"
| "run_log D N (Log_apply_pack i new) s = apply_pack D N (word_of_nat i) (pack_bytes N new) s"

fun spec_logs :: "'e nuraft \<Rightarrow> 'e log_op list \<Rightarrow> nat \<times> 'e list \<Rightarrow> (nat \<times> 'e list) option" where
  "spec_logs N [] log = Some log"
| "spec_logs N (op # ops) log = Option.bind (spec_log N op log) (spec_logs N ops)"

fun run_logs :: "'db log_db \<Rightarrow> 'e nuraft \<Rightarrow> 'e log_op list \<Rightarrow> 'db log_store \<Rightarrow> 'db log_store option" where
  "run_logs D N [] s = Some s"
| "run_logs D N (op # ops) s = Option.bind (run_log D N op s) (run_logs D N ops)"

lemma run_log_refines:
  assumes D: "log_db_ok D" and N: "nuraft_ok N" and s: "log_repr D N s st es" and spec: "spec_log N op (st, es) = Some (st', es')"
  shows "\<exists>s'. run_log D N op s = Some s' \<and> log_repr D N s' st' es'"
proof (cases op)
  case (Log_append e)
  with spec show ?thesis
    by (auto split: if_splits intro: log_append_refines [OF D s, of e])
next
  case (Log_write_at i e)
  with spec show ?thesis
    by (auto split: if_splits intro: write_at_refines [OF D s, of i e])
next
  case (Log_compact l)
  with spec show ?thesis
    by (auto split: if_splits intro: compact_refines [OF D s, of l])
next
  case Log_flush
  with spec show ?thesis
    using log_flush_refines [OF D s] by simp
next
  case (Log_apply_pack i new)
  with spec show ?thesis
    by (auto simp: pack_bytes_def split: if_splits intro: apply_pack_refines [OF D N s, of i new])
qed

lemma run_logs_refines:
  assumes D: "log_db_ok D" and N: "nuraft_ok N"
  shows "log_repr D N s st es \<Longrightarrow> spec_logs N ops (st, es) = Some (st', es') \<Longrightarrow> \<exists>s'. run_logs D N ops s = Some s' \<and> log_repr D N s' st' es'"
proof (induction ops arbitrary: s st es)
  case (Cons op ops)
  obtain st1 es1 where 1: "spec_log N op (st, es) = Some (st1, es1)" "spec_logs N ops (st1, es1) = Some (st', es')"
    using Cons.prems(2) by (auto simp: bind_eq_Some_conv)
  obtain s1 where "run_log D N op s = Some s1" "log_repr D N s1 st1 es1"
    using run_log_refines [OF D N Cons.prems(1) 1(1)] by blast
  then show ?case
    using Cons.IH [OF _ 1(2)] by auto
qed simp

lemma fresh_log:
  assumes "log_db_ok D" "\<forall>k. db_get (ldb D) db k = None"
  shows "load_log D db = Some \<lparr>ls_db = db, m_next_idx = 1, m_start_idx = 1\<rparr>" "log_repr D N \<lparr>ls_db = db, m_next_idx = 1, m_start_idx = 1\<rparr> 1 []"
proof -
  have get: "db_get (ldb D) db = log_bytes N 1 []" for N :: "'e nuraft"
    by (rule ext) (use assms(2) in \<open>simp add: log_bytes_def\<close>)
  show "load_log D db = Some \<lparr>ls_db = db, m_next_idx = 1, m_start_idx = 1\<rparr>"
    using log_first_last [OF assms(1) get] by (simp add: load_log_def)
  show "log_repr D N \<lparr>ls_db = db, m_next_idx = 1, m_start_idx = 1\<rparr> 1 []" for N :: "'e nuraft"
    using get [of N] by (simp add: log_repr_def)
qed

section \<open>A concrete database and concrete entries\<close>

fun list_db_op :: "(byte list \<times> byte list) list \<Rightarrow> db_op \<Rightarrow> (byte list \<times> byte list) list" where
  "list_db_op db (Db_put k v) = (k, v) # filter (\<lambda>kv. fst kv \<noteq> k) db"
| "list_db_op db (Db_delete k) = filter (\<lambda>kv. fst kv \<noteq> k) db"

definition list_log_db :: "(byte list \<times> byte list) list log_db" where
  "list_log_db = \<lparr>ldb = \<lparr>db_get = map_of, db_write = foldl list_db_op\<rparr>,
     ldb_entries = (\<lambda>db. map (\<lambda>k. (k, the (map_of db k))) (sort_key le_value (remdups (map fst db))))\<rparr>"

definition sample_nuraft :: "(u64 \<times> byte list) nuraft" where
  "sample_nuraft = \<lparr>entry_serialize = (\<lambda>(t, d). put_u64 t @ d), entry_deserialize = get_u64, get_term = fst, null_entry = (0, []),
     bs_put_u64 = put_u64, bs_get_u64 = get_u64\<rparr>"

lemma list_db_get: "map_of (foldl list_db_op db ops) k = batch_value (map_of db k) k ops"
proof (induction ops arbitrary: db)
  case (Cons op ops)
  have "map_of (filter (\<lambda>kv. fst kv \<noteq> k') db) k = (if k' = k then None else map_of db k)" for k'
    by (induction db) auto
  then have "map_of (list_db_op db op) k = batch_value (map_of db k) k [op]"
    by (cases op) auto
  then show ?case
    using Cons [of "list_db_op db op"] by (cases op) simp_all
qed simp

lemma list_log_db_ok: "log_db_ok list_log_db"
  unfolding log_db_ok_def
proof (intro conjI allI impI)
  show "leveldb_ok (ldb list_log_db)"
    by (simp add: leveldb_ok_def list_log_db_def list_db_get)
next
  fix db
  assume "\<forall>k. db_get (ldb list_log_db) db k \<noteq> None \<longrightarrow> length k = 8"
  then have "\<forall>k \<in> set (map fst db). length k = 8"
    using map_of_eq_None_iff [of db] unfolding list_log_db_def log_db.simps leveldb.simps by (simp only: set_map) blast
  then have "inj_on le_value (set (map fst db))"
    by (metis inj_onI le_bytes_le_value)
  then have "distinct (map le_value (sort_key le_value (remdups (map fst db))))" "sorted (map le_value (sort_key le_value (remdups (map fst db))))"
    by (simp_all add: distinct_map)
  then have "sorted_wrt (<) (map le_value (sort_key le_value (remdups (map fst db))))"
    by (simp add: strict_sorted_iff)
  then show "sorted_wrt (\<lambda>a b. index_compare (fst a) (fst b) < 0) (ldb_entries list_log_db db)"
    by (simp add: list_log_db_def sorted_wrt_map index_compare_def)
  show "set (ldb_entries list_log_db db) = {(k, v). db_get (ldb list_log_db) db k = Some v}"
  proof -
    have "set (ldb_entries list_log_db db) = (\<lambda>k. (k, the (map_of db k))) ` fst ` set db"
      by (simp add: list_log_db_def)
    also have "\<dots> = {(k, v). map_of db k = Some v}"
      unfolding dom_map_of_conv_image_fst [symmetric] by (auto simp: dom_def)
    finally show ?thesis
      by (simp add: list_log_db_def)
  qed
qed

lemma sample_nuraft_ok: "nuraft_ok sample_nuraft"
  by (auto simp: nuraft_ok_def sample_nuraft_def u64.get_put)

section \<open>Properties\<close>

text \<open>C7: The Raft log behaves as a list with a start index. After any sequence of appends, overwrites, compactions, flushes and received
  packs within the contract of the log, starting from an empty database, the indices, the last entry, every single entry and every
  range of entries are those of the list, a pack of a range contains the entries of the list, and loading the database again gives the same log unless it is empty.
  Assumed are the documented behaviour of LevelDB's reads, batches and iterators, and that NuRaft reads back the entries it has serialized.\<close>

theorem log_store_refines:
  assumes "log_db_ok D" "nuraft_ok N" "\<forall>k. db_get (ldb D) db k = None" "spec_logs N ops (1, []) = Some (st, es)"
  shows "\<exists>s0 s. load_log D db = Some s0 \<and> run_logs D N ops s0 = Some s \<and>
    start_index s = word_of_nat st \<and> next_slot s = word_of_nat (st + length es) \<and>
    last_entry D N s = Some (if es = [] then null_entry N else last es) \<and>
    (\<forall>i < 2 ^ 64. entry_at D N (word_of_nat i) s = Some (if st \<le> i \<and> i < st + length es then es ! (i - st) else null_entry N)) \<and>
    (\<forall>i n. st \<le> i \<longrightarrow> i + n \<le> st + length es \<longrightarrow> n \<le> max_vector 16 \<longrightarrow>
       log_entries D N (word_of_nat i) (word_of_nat i + word_of_nat n) s = Some (take n (drop (i - st) es)) \<and>
       pack D N (word_of_nat i) (int n) s = Some (pack_bytes N (take n (drop (i - st) es)))) \<and>
    (es \<noteq> [] \<longrightarrow> load_log D (ls_db s) = Some s)"
proof -
  let ?s0 = "\<lparr>ls_db = db, m_next_idx = 1, m_start_idx = 1\<rparr>"
  note fresh = fresh_log [OF assms(1,3)]
  obtain s where s: "run_logs D N ops ?s0 = Some s" "log_repr D N s st es"
    using run_logs_refines [OF assms(1,2) fresh(2) assms(4)] by blast
  have idx: "start_index s = word_of_nat st" "next_slot s = word_of_nat (st + length es)" "st + length es < 2 ^ 64"
    using s(2) by (simp_all add: log_repr_def start_index_def next_slot_def)
  have "pack D N (word_of_nat i) (int n) s = Some (pack_bytes N (take n (drop (i - st) es)))"
    if "st \<le> i" "i + n \<le> st + length es" "n \<le> max_vector 16" for i n
    using pack_reads [OF assms(1,2) s(2) that] that by (simp add: pack_bytes_def)
  then show ?thesis
    using fresh(1) s(1) idx last_entry_reads [OF assms(1,2) s(2)] entry_at_reads [OF assms(2) s(2)] log_entries_reads [OF assms(1,2) s(2)]
      load_log_reads [OF assms(1) s(2)] by blast
qed

theorem log_store_refines_witness:
  "\<exists>s0 s. load_log list_log_db [] = Some s0 \<and>
    run_logs list_log_db sample_nuraft [Log_append (1, []), Log_append (1, [5]), Log_write_at 2 (2, [6]), Log_compact 1, Log_flush] s0 = Some s \<and>
    next_slot s = 3 \<and> last_entry list_log_db sample_nuraft s = Some (2, [6])"
proof -
  have "\<forall>k. db_get (ldb list_log_db) [] k = None"
    by (simp add: list_log_db_def)
  moreover have "spec_logs sample_nuraft [Log_append (1, []), Log_append (1, [5]), Log_write_at 2 (2, [6]), Log_compact 1, Log_flush] (1, []) =
      Some (2, [(2, [6])])"
    by (simp add: max_vector_def)
  ultimately show ?thesis
    using log_store_refines [OF list_log_db_ok sample_nuraft_ok, of "[]"] by fastforce
qed

text \<open>A log that has been compacted completely is forgotten by a restart. Compacting up to the last entry keeps the next index, but
  loading the database again starts at index one, below indices that were used before.\<close>

theorem log_restart_after_compaction:
  assumes "log_db_ok D" "nuraft_ok N" "\<forall>k. db_get (ldb D) db k = None" "spec_logs N ops (1, []) = Some (st, [])" "1 < st"
  shows "\<exists>s0 s s'. load_log D db = Some s0 \<and> run_logs D N ops s0 = Some s \<and> next_slot s = word_of_nat st \<and>
    load_log D (ls_db s) = Some s' \<and> next_slot s' = 1 \<and> next_slot s' < next_slot s"
proof -
  let ?s0 = "\<lparr>ls_db = db, m_next_idx = 1, m_start_idx = 1\<rparr>"
  note fresh = fresh_log [OF assms(1,3)]
  obtain s where s: "run_logs D N ops ?s0 = Some s" "log_repr D N s st []"
    using run_logs_refines [OF assms(1,2) fresh(2) assms(4)] by blast
  have nxt: "next_slot s = word_of_nat st" "st < 2 ^ 64"
    using s(2) by (simp_all add: log_repr_def next_slot_def)
  then have "1 < next_slot s"
    using assms(5) by (simp add: word_less_nat_alt)
  moreover have "load_log D (ls_db s) = Some \<lparr>ls_db = ls_db s, m_next_idx = 1, m_start_idx = 1\<rparr>"
    using s(2) log_first_last [OF assms(1), of "ls_db s" N st "[]"] by (simp add: load_log_def log_repr_def)
  ultimately show ?thesis
    using fresh(1) s(1) nxt by (simp add: next_slot_def)
qed

theorem log_restart_after_compaction_witness:
  "\<exists>s0 s s'. load_log list_log_db [] = Some s0 \<and> run_logs list_log_db sample_nuraft [Log_append (1, []), Log_compact 1] s0 = Some s \<and>
     next_slot s = 2 \<and> load_log list_log_db (ls_db s) = Some s' \<and> next_slot s' = 1"
proof -
  have "\<forall>k. db_get (ldb list_log_db) [] k = None"
    by (simp add: list_log_db_def)
  moreover have "spec_logs sample_nuraft [Log_append (1, []), Log_compact 1] (1, []) = Some (2, [])"
    by (simp add: max_vector_def)
  ultimately show ?thesis
    using log_restart_after_compaction [OF list_log_db_ok sample_nuraft_ok, of "[]"] by fastforce
qed

end
