(* ===== verification/Network.thy ===== *)
theory Network
  imports Serialization "HOL-Library.Sublist"
begin

text \<open>
  The network library (\<open>util/network\<close>) above the socket calls of the operating system, and the queue of
  \<open>util/common/blocking_queue.hpp\<close>: packets on a TCP stream, the threads of a peer, and the connection manager. What \<open>read\<close>, \<open>write\<close>
  and \<open>connect\<close> return is an argument: a list with the number of bytes that each call moves, zero for an error. A
  turn of a thread is one iteration of its loop.
\<close>

section \<open>Blocking queue\<close>

record 'a blocking_queue =
  bq_buffer :: "'a list"
  bq_wake :: bool

definition bq_init :: "'a blocking_queue" where
  "bq_init = \<lparr>bq_buffer = [], bq_wake = False\<rparr>"

definition bq_push :: "'a \<Rightarrow> 'a blocking_queue \<Rightarrow> 'a blocking_queue" where
  "bq_push item q = q\<lparr>bq_buffer := bq_buffer q @ [item], bq_wake := True\<rparr>"

text \<open>\<open>None\<close>: the call waits; \<open>Some (None, q)\<close>: it returns false.\<close>

definition bq_pop :: "'a blocking_queue \<Rightarrow> ('a option \<times> 'a blocking_queue) option" where
  "bq_pop q =
    (if bq_buffer q = [] \<and> \<not> bq_wake q then None
     else case bq_buffer q of
       [] \<Rightarrow> Some (None, q)
     | item # rest \<Rightarrow> Some (Some item, q\<lparr>bq_buffer := rest, bq_wake := (rest \<noteq> [])\<rparr>))"

definition bq_clear :: "'a blocking_queue \<Rightarrow> 'a blocking_queue" where
  "bq_clear q = q\<lparr>bq_buffer := [], bq_wake := True\<rparr>"

section \<open>Packets on a stream\<close>

text \<open>The loop around \<open>write\<close>: what has been written, whether all of it, and the calls that are left.\<close>

fun write_all :: "nat list \<Rightarrow> byte list \<Rightarrow> byte list \<times> bool \<times> nat list" where
  "write_all ns [] = ([], True, ns)"
| "write_all [] (x # xs) = ([], False, [])"
| "write_all (n # ns) (x # xs) =
    (if n = 0 then ([], False, ns)
     else let (written, ok, ns') = write_all ns (drop n (x # xs)) in (take n (x # xs) @ written, ok, ns'))"

definition socket_send :: "nat list \<Rightarrow> byte list \<Rightarrow> byte list \<times> bool \<times> nat list" where
  "socket_send ns pkt =
    (let (w1, ok1, ns1) = write_all ns (le_bytes 8 (length pkt)) in
     if \<not> ok1 then (w1, False, ns1)
     else let (w2, ok2, ns2) = write_all ns1 pkt in (w1 @ w2, ok2, ns2))"

text \<open>The loop around \<open>read\<close>, for a number of bytes of a stream: a call at the end of the stream returns zero.\<close>

fun read_all :: "nat list \<Rightarrow> nat \<Rightarrow> byte list \<Rightarrow> byte list \<times> bool \<times> nat list \<times> byte list" where
  "read_all ns 0 st = ([], True, ns, st)"
| "read_all [] (Suc w) st = ([], False, [], st)"
| "read_all (n # ns) (Suc w) st =
    (let k = min n (min (Suc w) (length st)) in
     if k = 0 then ([], False, ns, st)
     else let (d, ok, ns', st') = read_all ns (Suc w - k) (drop k st) in (take k st @ d, ok, ns', st'))"

datatype received = Packet "byte list" | Failed | Too_large

text \<open>\<open>Too_large\<close> is the exception of a vector that cannot be that long.\<close>

definition socket_receive :: "nat list \<Rightarrow> byte list \<Rightarrow> received \<times> nat list \<times> byte list" where
  "socket_receive ns st =
    (let (sz_buf, ok1, ns1, st1) = read_all ns 8 st in
     if \<not> ok1 then (Failed, ns1, st1)
     else
       let pkt_sz = le_value sz_buf in
       if pkt_sz > 2 ^ 63 - 1 then (Too_large, ns1, st1)
       else let (pkt, ok2, ns2, st2) = read_all ns1 pkt_sz st1 in
         if ok2 then (Packet pkt, ns2, st2) else (Failed, ns2, st2))"

text \<open>The receive thread: packets until a call fails. Every packet needs at least one successful call.\<close>

lemma read_all_calls: "read_all ns w st = (d, ok, ns', st') \<Longrightarrow> length ns' \<le> length ns \<and> (ok \<and> 0 < w \<longrightarrow> length ns' < length ns)"
proof (induction ns w st arbitrary: d rule: read_all.induct)
  case (3 n ns w st)
  then show ?case
    by (fastforce simp: Let_def split: if_splits prod.splits)
qed auto

lemma socket_receive_calls: "socket_receive ns st = (Packet pkt, ns', st') \<Longrightarrow> length ns' < length ns"
  by (auto simp: socket_receive_def Let_def split: prod.splits if_splits dest!: read_all_calls)

function receive_packets :: "nat list \<Rightarrow> byte list \<Rightarrow> byte list list \<times> received" where
  "receive_packets ns st =
    (case socket_receive ns st of
       (Packet pkt, ns', st') \<Rightarrow> let (pkts, r) = receive_packets ns' st' in (pkt # pkts, r)
     | (r, _, _) \<Rightarrow> ([], r))"
  by pat_completeness auto
termination
  by (relation "measure (\<lambda>(ns, st). length ns)") (auto dest: socket_receive_calls [OF sym])

declare receive_packets.simps [simp del]

text \<open>The send thread on packets that are waiting.\<close>

fun send_packets :: "nat list \<Rightarrow> byte list list \<Rightarrow> byte list \<times> bool" where
  "send_packets ns [] = ([], True)"
| "send_packets ns (pkt # pkts) =
    (let (w, ok, ns') = socket_send ns pkt in
     if \<not> ok then (w, False) else let (ws, r) = send_packets ns' pkts in (w @ ws, r))"

section \<open>Packets arrive\<close>

definition frame :: "byte list \<Rightarrow> byte list" where
  "frame pkt = le_bytes 8 (length pkt) @ pkt"

text \<open>Calls that all move at least one byte, and enough of them.\<close>

definition enough_calls :: "nat \<Rightarrow> nat list \<Rightarrow> bool" where
  "enough_calls k ns \<longleftrightarrow> k \<le> length ns \<and> 0 \<notin> set ns"

lemma write_all_enough:
  "enough_calls (length data + k) ns \<Longrightarrow> \<exists>ns'. write_all ns data = (data, True, ns') \<and> enough_calls k ns'"
proof (induction ns data rule: write_all.induct)
  case (3 n ns x xs)
  then have n: "0 < n" and "enough_calls (length (drop n (x # xs)) + k) ns"
    by (auto simp: enough_calls_def)
  with 3(1) obtain ns' where "write_all ns (drop n (x # xs)) = (drop n (x # xs), True, ns')" "enough_calls k ns'"
    by blast
  then show ?case
    using n by (simp del: drop_Cons' take_Cons' drop_append)
qed (auto simp: enough_calls_def)

lemma socket_send_enough:
  assumes "enough_calls (length (frame pkt) + k) ns"
  shows "\<exists>ns'. socket_send ns pkt = (frame pkt, True, ns') \<and> enough_calls k ns'"
proof -
  obtain ns1 where 1: "write_all ns (le_bytes 8 (length pkt)) = (le_bytes 8 (length pkt), True, ns1)" "enough_calls (length pkt + k) ns1"
    using write_all_enough [of "le_bytes 8 (length pkt)" "length pkt + k" ns] assms by (auto simp: frame_def add.assoc)
  moreover obtain ns2 where "write_all ns1 pkt = (pkt, True, ns2)" "enough_calls k ns2"
    using write_all_enough [OF 1(2)] by blast
  ultimately show ?thesis
    by (simp add: socket_send_def frame_def)
qed

lemma send_packets_enough:
  "enough_calls (length (concat (map frame pkts))) ns \<Longrightarrow> send_packets ns pkts = (concat (map frame pkts), True)"
proof (induction pkts arbitrary: ns)
  case (Cons pkt pkts)
  then obtain ns' where "socket_send ns pkt = (frame pkt, True, ns')" "enough_calls (length (concat (map frame pkts))) ns'"
    using socket_send_enough [of pkt "length (concat (map frame pkts))" ns] by auto
  then show ?case
    using Cons.IH by simp
qed simp

text \<open>Whatever the calls return, a complete read has got exactly the next bytes of the stream.\<close>

lemma read_all_exact:
  "read_all ns w st = (d, True, ns', st') \<Longrightarrow> w \<le> length st \<and> d = take w st \<and> st' = drop w st"
proof (induction ns w st arbitrary: d rule: read_all.induct)
  case (3 n ns w st)
  let ?k = "min n (min (Suc w) (length st))"
  obtain d' where d': "read_all ns (Suc w - ?k) (drop ?k st) = (d', True, ns', st')" "d = take ?k st @ d'" "?k \<noteq> 0"
    using 3(2) by (auto simp: Let_def split: if_splits prod.splits)
  have r: "Suc w - ?k \<le> length (drop ?k st)" "d' = take (Suc w - ?k) (drop ?k st)" "st' = drop (Suc w - ?k) (drop ?k st)"
    using 3(1) [OF refl d'(3) d'(1)] by blast+
  have s: "Suc w = ?k + (Suc w - ?k)"
    by simp
  have "Suc w \<le> length st"
    using r(1) by auto
  moreover have "take (Suc w) st = take ?k st @ d'"
    by (subst s, subst take_add) (simp only: r(2))
  moreover have "drop (Suc w) st = st'"
    by (subst s, subst add.commute, subst drop_drop [symmetric]) (simp only: r(3))
  ultimately show ?case
    using d'(2) by simp
qed auto

lemma read_all_enough:
  "w \<le> length st \<Longrightarrow> enough_calls (w + k) ns \<Longrightarrow> \<exists>ns'. read_all ns w st = (take w st, True, ns', drop w st) \<and> enough_calls k ns'"
proof (induction ns w st rule: read_all.induct)
  case (3 n ns w st)
  let ?k = "min n (min (Suc w) (length st))"
  have n: "0 < n"
    using 3(3) by (auto simp: enough_calls_def)
  then have k: "?k \<noteq> 0"
    using 3(2) by auto
  then have "Suc w - ?k \<le> length (drop ?k st)" "enough_calls (Suc w - ?k + k) ns"
    using 3(2,3) by (auto simp: enough_calls_def)
  with 3(1) [OF refl k] obtain ns' where r: "read_all ns (Suc w - ?k) (drop ?k st) = (take (Suc w - ?k) (drop ?k st), True, ns', drop (Suc w - ?k) (drop ?k st))"
      "enough_calls k ns'"
    by blast
  have "?k + (Suc w - ?k) = Suc w"
    by simp
  then have "take ?k st @ take (Suc w - ?k) (drop ?k st) = take (Suc w) st" "drop (Suc w - ?k) (drop ?k st) = drop (Suc w) st"
    by (metis take_add, metis add.commute drop_drop)
  then show ?case
    using r k by (simp add: Let_def)
qed (auto simp: enough_calls_def)

lemma frame_size: "length pkt < 2 ^ 63 \<Longrightarrow> le_value (take 8 (frame pkt @ st)) = length pkt"
proof -
  assume "length pkt < 2 ^ 63"
  then have "length pkt < 256 ^ 8"
    by (rule order_less_trans) simp
  then show ?thesis
    by (simp add: frame_def le_value_le_bytes)
qed

text \<open>A packet that is received from a stream that may have been cut is the next one.\<close>

lemma socket_receive_exact:
  assumes "length pkt < 2 ^ 63" "socket_receive ns (take m (frame pkt @ st)) = (Packet pkt', ns', st')"
  shows "pkt' = pkt \<and> st' = take (m - length (frame pkt)) st"
proof -
  let ?t = "take m (frame pkt @ st)"
  obtain sz ns1 st1 where 1: "read_all ns 8 ?t = (sz, True, ns1, st1)" and 2: "read_all ns1 (le_value sz) st1 = (pkt', True, ns', st')"
    using assms(2) by (auto simp: socket_receive_def Let_def split: prod.splits if_splits)
  have m: "8 \<le> m" and "sz = take 8 (frame pkt @ st)" and st1: "st1 = drop 8 ?t"
    using read_all_exact [OF 1] by (auto simp: min_def split: if_splits)
  then have sz: "le_value sz = length pkt"
    using frame_size [OF assms(1)] by simp
  have "st1 = take (m - 8) (pkt @ st)"
    using m by (simp add: st1 drop_take frame_def)
  then show ?thesis
    using read_all_exact [OF 2] m by (auto simp: sz frame_def min_def drop_take add.commute split: if_splits)
qed

lemma receive_packets_prefix:
  assumes "\<forall>pkt \<in> set pkts. length pkt < 2 ^ 63"
  shows "prefix (fst (receive_packets ns (take m (concat (map frame pkts))))) pkts"
  using assms
proof (induction pkts arbitrary: ns m)
  case Nil
  have "socket_receive ns [] = (Packet p, ns', st') \<Longrightarrow> False" for p ns' st'
    by (auto simp: socket_receive_def Let_def split: prod.splits if_splits dest!: read_all_exact)
  then show ?case
    by (subst receive_packets.simps) (auto split: prod.splits received.splits)
next
  case (Cons pkt pkts)
  let ?st = "concat (map frame pkts)"
  obtain r ns' st' where r: "socket_receive ns (take m (frame pkt @ ?st)) = (r, ns', st')"
    by (metis surj_pair)
  show ?case
  proof (cases r)
    case (Packet p)
    then have p: "p = pkt" "st' = take (m - length (frame pkt)) ?st"
      using socket_receive_exact [of pkt ns m ?st p ns' st'] r Cons.prems by auto
    then show ?thesis
      using Cons.IH [of ns' "m - length (frame pkt)"] Cons.prems r Packet
      by (subst receive_packets.simps) (simp add: case_prod_unfold Let_def)
  qed (use r in \<open>subst receive_packets.simps, simp\<close>)+
qed

lemma read_all_end: "0 < w \<Longrightarrow> \<exists>ns'. read_all ns w [] = ([], False, ns', [])"
  by (cases w; cases ns) simp_all

lemma receive_packets_enough:
  assumes "\<forall>pkt \<in> set pkts. length pkt < 2 ^ 63" "enough_calls (Suc (length (concat (map frame pkts)))) ns"
  shows "receive_packets ns (concat (map frame pkts)) = (pkts, Failed)"
  using assms
proof (induction pkts arbitrary: ns)
  case Nil
  then show ?case
    using read_all_end [of 8 ns] by (subst receive_packets.simps) (auto simp: socket_receive_def)
next
  case (Cons pkt pkts)
  let ?st = "concat (map frame pkts)"
  let ?t = "frame pkt @ ?st"
  have len: "length (frame pkt) = 8 + length pkt"
    by (simp add: frame_def)
  have "enough_calls (8 + (length pkt + Suc (length ?st))) ns"
    using Cons.prems(2) by (simp add: len add.assoc)
  then obtain ns1 where 1: "read_all ns 8 ?t = (take 8 ?t, True, ns1, drop 8 ?t)" "enough_calls (length pkt + Suc (length ?st)) ns1"
    using read_all_enough [of 8 ?t] len by fastforce
  have d: "drop 8 ?t = pkt @ ?st"
    by (simp add: frame_def)
  obtain ns2 where 2: "read_all ns1 (length pkt) (pkt @ ?st) = (pkt, True, ns2, ?st)" "enough_calls (Suc (length ?st)) ns2"
    using read_all_enough [OF _ 1(2), of "pkt @ ?st"] by auto
  have "socket_receive ns ?t = (Packet pkt, ns2, ?st)"
    unfolding socket_receive_def 1(1) d using Cons.prems(1) frame_size [of pkt ?st] 2(1) by (simp add: Let_def del: take_append)
  then show ?case
    using Cons.IH [OF _ 2(2)] Cons.prems(1) by (subst receive_packets.simps) simp
qed

text \<open>C26: Packets arrive whole and in order. However the operating system splits the bytes of the sender into calls of \<open>write\<close> and those of
  the receiver into calls of \<open>read\<close>, the packets that are sent are the ones that are received; if the connection breaks after any number of bytes, the
  packets received are the first ones that were sent. Both loops end: every call moves at least one byte or ends the loop.\<close>

theorem packets_delivered:
  assumes "\<forall>pkt \<in> set pkts. length pkt < 2 ^ 63" "enough_calls (length (concat (map frame pkts))) ns"
  shows "\<exists>stream. send_packets ns pkts = (stream, True) \<and>
    (\<forall>ns'. enough_calls (Suc (length stream)) ns' \<longrightarrow> receive_packets ns' stream = (pkts, Failed)) \<and>
    (\<forall>ns' m. prefix (fst (receive_packets ns' (take m stream))) pkts)"
  using send_packets_enough [OF assms(2)] receive_packets_enough [OF assms(1)] receive_packets_prefix [OF assms(1)] by blast

theorem packets_delivered_witness:
  "\<exists>stream. send_packets (replicate 20 3) [[1, 2, 3], []] = (stream, True) \<and> receive_packets (replicate 30 5) stream = ([[1, 2, 3], []], Failed)"
proof -
  have f: "length (concat (map frame [[1, 2, 3], []])) = 19"
    by (simp add: frame_def)
  then have "enough_calls (length (concat (map frame [[1, 2, 3], []]))) (replicate 20 3)"
    by (simp add: enough_calls_def)
  then obtain stream where s: "send_packets (replicate 20 3) [[1, 2, 3], []] = (stream, True)"
    "enough_calls (Suc (length stream)) (replicate 30 5) \<longrightarrow> receive_packets (replicate 30 5) stream = ([[1, 2, 3], []], Failed)"
    using packets_delivered [of "[[1, 2, 3], []]" "replicate 20 3"] by auto
  have "stream = concat (map frame [[1, 2, 3], []])"
    using send_packets_enough [of "[[1, 2, 3], []]" "replicate 20 3"] s(1) f by (simp add: enough_calls_def)
  then have "enough_calls (Suc (length stream)) (replicate 30 5)"
    using f by (simp add: enough_calls_def)
  then show ?thesis
    using s by blast
qed

section \<open>Peers\<close>

text \<open>The flags of a peer; \<open>p_sending\<close> and \<open>p_receiving\<close> tell whether the two threads run.\<close>

record peer =
  p_queue :: "byte list blocking_queue"
  p_attempt_reconnect :: bool
  p_shut_down :: bool
  p_running :: bool
  p_reconnect :: bool
  p_sock_connected :: bool
  p_sending :: bool
  p_receiving :: bool

definition peer_init :: "bool \<Rightarrow> bool \<Rightarrow> peer" where
  "peer_init sock_connected attempt_reconnect =
    \<lparr>p_queue = bq_init, p_attempt_reconnect = attempt_reconnect, p_shut_down = False, p_running = True, p_reconnect = False,
     p_sock_connected = sock_connected, p_sending = True, p_receiving = True\<rparr>"

definition peer_send :: "byte list \<Rightarrow> peer \<Rightarrow> peer" where
  "peer_send data p = (if \<not> p_shut_down p then p\<lparr>p_queue := bq_push data (p_queue p)\<rparr> else p)"

definition peer_connected :: "peer \<Rightarrow> bool" where
  "peer_connected p \<longleftrightarrow> \<not> p_shut_down p \<and> p_running p \<and> p_sock_connected p"

definition signal_reconnect :: "peer \<Rightarrow> peer" where
  "signal_reconnect p = p\<lparr>p_reconnect := True\<rparr>"

text \<open>Closing waits for both threads.\<close>

definition peer_close :: "peer \<Rightarrow> peer" where
  "peer_close p = p\<lparr>p_running := False, p_sock_connected := False, p_queue := bq_clear (p_queue p), p_sending := False, p_receiving := False\<rparr>"

definition peer_shutdown :: "peer \<Rightarrow> peer" where
  "peer_shutdown p = peer_close (p\<lparr>p_shut_down := True\<rparr>)"

text \<open>A turn of the send thread, with the result of \<open>send\<close>: what has been sent. \<open>None\<close> is a thread that waits or has ended.\<close>

definition send_turn :: "bool \<Rightarrow> peer \<Rightarrow> (byte list option \<times> peer) option" where
  "send_turn result p =
    (if \<not> p_sending p then None
     else if \<not> p_running p then Some (None, p\<lparr>p_sending := False\<rparr>)
     else do {
       (pkt, q) \<leftarrow> bq_pop (p_queue p);
       let p' = p\<lparr>p_queue := q\<rparr>;
       Some (case pkt of
           None \<Rightarrow> (None, p')
         | Some data \<Rightarrow> if result then (Some data, p') else (None, signal_reconnect (p'\<lparr>p_sending := False\<rparr>))) })"

text \<open>A turn of the receive thread, with what the socket has received.\<close>

definition recv_turn :: "received \<Rightarrow> peer \<Rightarrow> (byte list option \<times> peer) option" where
  "recv_turn r p =
    (if \<not> p_receiving p then None
     else if \<not> p_running p then Some (None, p\<lparr>p_receiving := False\<rparr>)
     else case r of
       Packet pkt \<Rightarrow> Some (Some pkt, p)
     | Failed \<Rightarrow> Some (None, signal_reconnect (p\<lparr>p_receiving := False\<rparr>))
     | Too_large \<Rightarrow> None)"

text \<open>
  A turn of the reconnect thread. It repeats \<open>reconnect\<close> until that succeeds or the peer is shut down:
  \<open>reconnected\<close> tells which.
\<close>

definition reconnect_turn :: "bool \<Rightarrow> peer \<Rightarrow> peer option" where
  "reconnect_turn reconnected p =
    (if \<not> p_reconnect p \<and> \<not> p_shut_down p then None
     else let p1 = p\<lparr>p_reconnect := False\<rparr> in
       if p_shut_down p1 then Some p1
       else if p_attempt_reconnect p1 then
         let p2 = peer_close p1 in
         if reconnected then Some (p2\<lparr>p_sock_connected := True, p_running := True, p_sending := True, p_receiving := True\<rparr>)
         else Some (p2\<lparr>p_shut_down := True\<rparr>)
       else let p2 = peer_close (p1\<lparr>p_shut_down := True\<rparr>) in Some (p2\<lparr>p_queue := bq_clear (p_queue p2)\<rparr>))"

text \<open>What happens to a peer: the packets it has been given, and those it has sent.\<close>

inductive peer_step :: "byte list list \<times> peer \<times> byte list list \<Rightarrow> byte list list \<times> peer \<times> byte list list \<Rightarrow> bool" where
  step_send: "peer_step (given, p, sent) (given @ [data], peer_send data p, sent)"
| step_send_turn: "send_turn result p = Some (pkt, p') \<Longrightarrow> peer_step (given, p, sent) (given, p', sent @ (case pkt of None \<Rightarrow> [] | Some d \<Rightarrow> [d]))"
| step_recv_turn: "recv_turn r p = Some (pkt, p') \<Longrightarrow> peer_step (given, p, sent) (given, p', sent)"
| step_reconnect: "reconnect_turn reconnected p = Some p' \<Longrightarrow> peer_step (given, p, sent) (given, p', sent)"
| step_shutdown: "peer_step (given, p, sent) (given, peer_shutdown p, sent)"

inductive_cases peer_stepE: "peer_step (given, p, sent) y"

definition peer_inv :: "byte list list \<times> peer \<times> byte list list \<Rightarrow> bool" where
  "peer_inv = (\<lambda>(given, p, sent). subseq (sent @ bq_buffer (p_queue p)) given \<and> (bq_buffer (p_queue p) \<noteq> [] \<longrightarrow> bq_wake (p_queue p)) \<and>
     (p_shut_down p \<longrightarrow> bq_buffer (p_queue p) = []))"

lemmas peer_ops = peer_send_def send_turn_def recv_turn_def reconnect_turn_def peer_shutdown_def peer_close_def signal_reconnect_def
  bq_push_def bq_pop_def bq_clear_def

lemma subseq_prefix: "subseq (xs @ ys) zs \<Longrightarrow> subseq xs zs"
  by (rule subseq_order.trans [of _ "xs @ ys"]) (simp_all add: prefix_imp_subseq)

lemma subseq_drop_mid: "subseq (xs @ y # ys) zs \<Longrightarrow> subseq (xs @ ys) zs"
  by (rule subseq_order.trans [of _ "xs @ y # ys"]) (auto intro: list_emb_append_mono)

lemma subseq_snoc: "subseq xs zs \<Longrightarrow> subseq (xs @ [y]) (zs @ [y])" "subseq xs zs \<Longrightarrow> subseq xs (zs @ [y])"
  by (simp_all add: list_emb_append_mono) (rule subseq_order.trans [of _ zs], simp_all add: prefix_imp_subseq)

lemma peer_inv_step: "peer_step x y \<Longrightarrow> peer_inv x \<Longrightarrow> peer_inv y"
proof (induction rule: peer_step.induct)
  case (step_send given p sent data)
  then show ?case
    using subseq_snoc [of "sent @ bq_buffer (p_queue p)" given data] by (auto simp: peer_inv_def peer_ops)
next
  case (step_send_turn result p pkt p' given sent)
  then show ?case
    by (auto simp: peer_inv_def peer_ops Let_def split: if_splits bind_splits list.splits option.splits) (erule subseq_drop_mid)
next
  case (step_recv_turn r p pkt p' given sent)
  then show ?case
    by (auto simp: peer_inv_def peer_ops split: if_splits received.splits)
next
  case (step_reconnect reconnected p p' given sent)
  then show ?case
    by (auto simp: peer_inv_def peer_ops Let_def split: if_splits dest: subseq_prefix)
next
  case (step_shutdown given p sent)
  then show ?case
    by (auto simp: peer_inv_def peer_ops dest: subseq_prefix)
qed

text \<open>After \<open>clear\<close>, an empty queue does not wait until the next element has been popped.\<close>

lemma bq_clear_spins: "bq_pop (bq_clear q) = Some (None, bq_clear q)"
  by (simp add: bq_pop_def bq_clear_def)

lemma peer_inv_init: "peer_inv ([], peer_init c a, [])"
  by (simp add: peer_inv_def peer_init_def bq_init_def)

lemma peer_inv_reach: "peer_step\<^sup>*\<^sup>* ([], peer_init c a, []) y \<Longrightarrow> peer_inv y"
  by (induction rule: rtranclp_induct) (auto intro: peer_inv_init peer_inv_step)

text \<open>A peer sends in order and at most once. In every history of calls, turns of its threads, broken connections and reconnections, the
  packets that have been sent and those that wait are, in this order, some of the packets it was given; the send thread of a running peer never
  waits while a packet is there; and nothing waits in a peer that has been shut down.\<close>

theorem peer_fifo:
  assumes "peer_step\<^sup>*\<^sup>* ([], peer_init c a, []) (given, p, sent)"
  shows "subseq (sent @ bq_buffer (p_queue p)) given \<and>
    (bq_buffer (p_queue p) \<noteq> [] \<and> p_sending p \<longrightarrow> (\<exists>r. send_turn result p = Some r)) \<and> (p_shut_down p \<longrightarrow> bq_buffer (p_queue p) = [])"
  using peer_inv_reach [OF assms] by (auto simp: peer_inv_def send_turn_def bq_pop_def Let_def split: list.splits)

theorem peer_fifo_witness:
  "\<exists>p. peer_step\<^sup>*\<^sup>* ([], peer_init True True, []) ([[1], [2]], p, [[1]]) \<and> subseq ([[1]] @ bq_buffer (p_queue p)) [[1], [2 :: byte]] \<and>
     bq_buffer (p_queue p) = [[2]]"
proof -
  let ?p = "peer_send [2] (peer_send [1] (peer_init True True))"
  have "peer_step ([], peer_init True True, []) ([[1]], peer_send [1] (peer_init True True), [])"
    using peer_step.step_send [of "[]"] by simp
  moreover have "peer_step ([[1]], peer_send [1] (peer_init True True), []) ([[1], [2]], ?p, [])"
    using peer_step.step_send [of "[[1]]"] by simp
  moreover obtain p where p: "send_turn True ?p = Some (Some [1], p)" "bq_buffer (p_queue p) = [[2]]"
    by (simp add: send_turn_def peer_send_def peer_init_def bq_init_def bq_push_def bq_pop_def)
  then have "peer_step ([[1], [2]], ?p, []) ([[1], [2]], p, [[1]])"
    using peer_step.step_send_turn [OF p(1), of "[[1], [2]]" "[]"] by simp
  ultimately have "peer_step\<^sup>*\<^sup>* ([], peer_init True True, []) ([[1], [2]], p, [[1]])"
    by (meson converse_rtranclp_into_rtranclp rtranclp.rtrancl_refl)
  then show ?thesis
    using peer_fifo p(2) by blast
qed

section \<open>Connection manager\<close>

type_synonym message = "byte list \<times> u64"

record connection_manager =
  cm_peers :: "(peer \<times> u64) list"
  cm_next_peer_id :: u64
  cm_recv_queues :: "message list list"
  cm_recv_data :: bool
  cm_running :: bool

definition cm_init :: connection_manager where
  "cm_init = \<lparr>cm_peers = [], cm_next_peer_id = 0, cm_recv_queues = [], cm_recv_data = False, cm_running = True\<rparr>"

definition cm_add :: "bool \<Rightarrow> bool \<Rightarrow> connection_manager \<Rightarrow> u64 \<times> connection_manager" where
  "cm_add sock_connected attempt_reconnect cm =
    (let peer_id = cm_next_peer_id cm;
         cm1 = cm\<lparr>cm_next_peer_id := peer_id + 1, cm_recv_queues := cm_recv_queues cm @ [[]]\<rparr>
     in (peer_id, if cm_running cm1 then cm1\<lparr>cm_peers := cm_peers cm1 @ [(peer_init sock_connected attempt_reconnect, peer_id)]\<rparr> else cm1))"

text \<open>The callback of a peer, with the number of its queue and its identifier.\<close>

definition recv_cb :: "nat \<Rightarrow> u64 \<Rightarrow> byte list \<Rightarrow> connection_manager \<Rightarrow> connection_manager option" where
  "recv_cb q_idx peer_id pkt cm =
    (if q_idx < length (cm_recv_queues cm)
     then Some (cm\<lparr>cm_recv_queues := (cm_recv_queues cm)[q_idx := cm_recv_queues cm ! q_idx @ [(pkt, peer_id)]], cm_recv_data := True\<rparr>)
     else None)"

text \<open>\<open>None\<close>: the call waits. One message of every queue is taken.\<close>

definition handle_messages :: "connection_manager \<Rightarrow> (message list \<times> connection_manager) option" where
  "handle_messages cm =
    (if cm_running cm \<and> \<not> cm_recv_data cm then None
     else let qs = cm_recv_queues cm in
       Some (map hd (filter (\<lambda>q. q \<noteq> []) qs),
         cm\<lparr>cm_recv_queues := map (\<lambda>q. if q \<noteq> [] then tl q else q) qs, cm_recv_data := list_ex (\<lambda>q. q \<noteq> [] \<and> tl q \<noteq> []) qs\<rparr>))"

definition cm_broadcast :: "byte list \<Rightarrow> connection_manager \<Rightarrow> connection_manager" where
  "cm_broadcast data cm = cm\<lparr>cm_peers := map (\<lambda>(p, i). (peer_send data p, i)) (cm_peers cm)\<rparr>"

text \<open>The packet goes to the first peer with the identifier.\<close>

fun send_first :: "byte list \<Rightarrow> u64 \<Rightarrow> (peer \<times> u64) list \<Rightarrow> (peer \<times> u64) list" where
  "send_first data peer_id [] = []"
| "send_first data peer_id ((p, i) # ps) = (if i = peer_id then (peer_send data p, i) # ps else (p, i) # send_first data peer_id ps)"

definition cm_send :: "byte list \<Rightarrow> u64 \<Rightarrow> connection_manager \<Rightarrow> connection_manager" where
  "cm_send data peer_id cm = cm\<lparr>cm_peers := send_first data peer_id (cm_peers cm)\<rparr>"

text \<open>\<open>offset\<close> is the random position at which the search for a connected peer starts.\<close>

definition cm_send_to_one :: "nat \<Rightarrow> byte list \<Rightarrow> connection_manager \<Rightarrow> bool \<times> connection_manager" where
  "cm_send_to_one offset data cm =
    (let n = length (cm_peers cm) in
     case find (\<lambda>idx. peer_connected (fst (cm_peers cm ! idx))) (map (\<lambda>i. (i + offset) mod n) [0..<n]) of
       None \<Rightarrow> (False, cm)
     | Some idx \<Rightarrow> let (p, i) = cm_peers cm ! idx in (True, cm\<lparr>cm_peers := (cm_peers cm)[idx := (peer_send data p, i)]\<rparr>))"

definition cm_peer_count :: "connection_manager \<Rightarrow> nat" where
  "cm_peer_count cm = length (cm_peers cm)"

definition cm_connected :: "u64 \<Rightarrow> connection_manager \<Rightarrow> bool" where
  "cm_connected peer_id cm = (case find (\<lambda>(p, i). i = peer_id) (cm_peers cm) of None \<Rightarrow> False | Some (p, i) \<Rightarrow> peer_connected p)"

definition connected_to_one :: "connection_manager \<Rightarrow> bool" where
  "connected_to_one cm = list_ex (\<lambda>(p, i). peer_connected p) (cm_peers cm)"

definition cm_close :: "connection_manager \<Rightarrow> connection_manager" where
  "cm_close cm = cm\<lparr>cm_running := False, cm_peers := []\<rparr>"

definition cm_reset :: "connection_manager \<Rightarrow> connection_manager" where
  "cm_reset cm = (cm_close cm)\<lparr>cm_running := True, cm_next_peer_id := 0, cm_recv_queues := [], cm_recv_data := False\<rparr>"

text \<open>One result of \<open>connect\<close> for each endpoint.\<close>

fun cluster_connect :: "bool list \<Rightarrow> bool \<Rightarrow> connection_manager \<Rightarrow> bool \<times> connection_manager" where
  "cluster_connect [] error_fatal cm = (True, cm)"
| "cluster_connect (ok # oks) error_fatal cm =
    (if \<not> ok \<and> error_fatal then (False, cm) else cluster_connect oks error_fatal (snd (cm_add ok True cm)))"

text \<open>A turn of the handler thread; the handler has a state of its own and may answer a message.\<close>

fun handle_all :: "('w \<Rightarrow> message \<Rightarrow> byte list option \<times> 'w) \<Rightarrow> 'w \<Rightarrow> message list \<Rightarrow> connection_manager \<Rightarrow> 'w \<times> connection_manager" where
  "handle_all handler w [] cm = (w, cm)"
| "handle_all handler w (pkt # pkts) cm =
    (let (res, w') = handler w pkt in
     handle_all handler w' pkts (case res of None \<Rightarrow> cm | Some data \<Rightarrow> cm_send data (snd pkt) cm))"

definition handler_turn ::
  "('w \<Rightarrow> message \<Rightarrow> byte list option \<times> 'w) \<Rightarrow> 'w \<Rightarrow> connection_manager \<Rightarrow> ('w \<times> connection_manager) option" where
  "handler_turn handler w cm =
    (if \<not> cm_running cm then None
     else do { (pkts, cm1) \<leftarrow> handle_messages cm; Some (handle_all handler w pkts cm1) })"

section \<open>Messages are handled\<close>

text \<open>The number of a queue is the identifier of its peer; the flag says whether there is a message.\<close>

definition cm_inv :: "connection_manager \<Rightarrow> bool" where
  "cm_inv cm \<longleftrightarrow> cm_running cm \<and> cm_recv_data cm = (\<exists>q \<in> set (cm_recv_queues cm). q \<noteq> []) \<and> length (cm_recv_queues cm) < 2 ^ 64 \<and>
     cm_next_peer_id cm = word_of_nat (length (cm_recv_queues cm)) \<and>
     (\<forall>i < length (cm_recv_queues cm). \<forall>m \<in> set (cm_recv_queues cm ! i). snd m = word_of_nat i)"

datatype cm_event = Arrives nat "byte list" | Handle

fun cm_run :: "cm_event list \<Rightarrow> connection_manager \<Rightarrow> message list \<times> connection_manager" where
  "cm_run [] cm = ([], cm)"
| "cm_run (Arrives i pkt # es) cm = cm_run es (case recv_cb i (word_of_nat i) pkt cm of None \<Rightarrow> cm | Some cm' \<Rightarrow> cm')"
| "cm_run (Handle # es) cm =
    (case handle_messages cm of None \<Rightarrow> cm_run es cm | Some (ms, cm') \<Rightarrow> let (r, c) = cm_run es cm' in (ms @ r, c))"

fun arrivals :: "nat \<Rightarrow> cm_event list \<Rightarrow> message list" where
  "arrivals i [] = []"
| "arrivals i (Arrives j pkt # es) = (if i = j then (pkt, word_of_nat i) # arrivals i es else arrivals i es)"
| "arrivals i (Handle # es) = arrivals i es"

lemma cm_inv_init: "cm_inv cm_init"
  by (simp add: cm_inv_def cm_init_def)

lemma cm_inv_add: "cm_inv cm \<Longrightarrow> length (cm_recv_queues cm) + 1 < 2 ^ 64 \<Longrightarrow> cm_inv (snd (cm_add c a cm))"
  by (auto simp: cm_inv_def cm_add_def Let_def nth_append less_Suc_eq)

lemma queue_ids_inject:
  assumes "i < 2 ^ 64" "j < 2 ^ 64" "(word_of_nat i :: u64) = word_of_nat j"
  shows "i = j"
proof -
  have "unat (word_of_nat i :: u64) = unat (word_of_nat j :: u64)"
    using assms(3) by (rule arg_cong)
  then show ?thesis
    using assms(1,2) by (simp add: unat_of_nat)
qed

lemma handled_of_queue:
  assumes "\<forall>i < length qs. \<forall>m \<in> set (qs ! i). snd m = word_of_nat (j + i)" "j + length qs \<le> 2 ^ 64" "i < length qs"
  shows "filter (\<lambda>m. snd m = (word_of_nat (j + i) :: u64)) (map hd (filter (\<lambda>q. q \<noteq> []) qs)) = take 1 (qs ! i)"
  using assms
proof (induction qs arbitrary: j i)
  case (Cons q qs)
  have q: "\<forall>m \<in> set q. snd m = word_of_nat j"
    using Cons.prems(1) by (metis add.right_neutral length_greater_0_conv list.discI nth_Cons_0)
  have qs: "\<forall>i < length qs. \<forall>m \<in> set (qs ! i). snd m = word_of_nat (Suc j + i)"
    using Cons.prems(1) by fastforce
  show ?case
  proof (cases i)
    case 0
    have "snd m \<noteq> word_of_nat j" if m: "m \<in> set (map hd (filter (\<lambda>q. q \<noteq> []) qs))" for m
    proof
      assume e: "snd m = word_of_nat j"
      obtain k where k: "k < length qs" "qs ! k \<noteq> []" "m = hd (qs ! k)"
        using m by (auto simp: in_set_conv_nth)
      then have "word_of_nat j = (word_of_nat (Suc j + k) :: u64)"
        using qs e by (metis list.set_sel(1))
      then show False
        using queue_ids_inject [of j "Suc j + k"] Cons.prems(2) k(1) by simp
    qed
    then have "filter (\<lambda>m. snd m = (word_of_nat j :: u64)) (map hd (filter (\<lambda>q. q \<noteq> []) qs)) = []"
      by (simp add: filter_empty_conv)
    then show ?thesis
      using q 0 by (cases q) simp_all
  next
    case (Suc k)
    have "word_of_nat j \<noteq> (word_of_nat (j + i) :: u64)"
      using queue_ids_inject [of j "j + i"] Cons.prems(2,3) Suc by auto
    then show ?thesis
      using q Cons.IH [OF qs, of k] Cons.prems(2,3) Suc by (cases q) auto
  qed
qed simp

lemma cm_inv_recv:
  assumes "cm_inv cm" "recv_cb i (word_of_nat i) pkt cm = Some cm'"
  shows "cm_inv cm' \<and> i < length (cm_recv_queues cm) \<and> cm_recv_queues cm' = (cm_recv_queues cm)[i := cm_recv_queues cm ! i @ [(pkt, word_of_nat i)]]"
proof -
  have i: "i < length (cm_recv_queues cm)"
    and cm': "cm' = cm\<lparr>cm_recv_queues := (cm_recv_queues cm)[i := cm_recv_queues cm ! i @ [(pkt, word_of_nat i)]], cm_recv_data := True\<rparr>"
    using assms(2) by (auto simp: recv_cb_def split: if_splits)
  have "\<exists>q \<in> set ((cm_recv_queues cm)[i := cm_recv_queues cm ! i @ [(pkt, word_of_nat i)]]). q \<noteq> []"
    by (rule bexI [OF _ set_update_memI [OF i]]) simp
  then show ?thesis
    using assms(1) i by (auto simp: cm_inv_def cm' nth_list_update)
qed

lemma cm_inv_handle:
  assumes inv: "cm_inv cm" and h: "handle_messages cm = Some (ms, cm')"
  shows "cm_inv cm'" "cm_recv_queues cm' = map tl (cm_recv_queues cm)"
    "i < length (cm_recv_queues cm) \<Longrightarrow> filter (\<lambda>m. snd m = word_of_nat i) ms = take 1 (cm_recv_queues cm ! i)"
proof -
  have ms: "ms = map hd (filter (\<lambda>q. q \<noteq> []) (cm_recv_queues cm))"
    and cm': "cm' = cm\<lparr>cm_recv_queues := map tl (cm_recv_queues cm), cm_recv_data := list_ex (\<lambda>q. q \<noteq> [] \<and> tl q \<noteq> []) (cm_recv_queues cm)\<rparr>"
    using h by (auto simp: handle_messages_def Let_def split: if_splits)
  show "cm_recv_queues cm' = map tl (cm_recv_queues cm)"
    by (simp add: cm')
  show "cm_inv cm'"
  proof -
    have ex: "(\<exists>q \<in> set (map tl qs). q \<noteq> []) = list_ex (\<lambda>q. q \<noteq> [] \<and> tl q \<noteq> []) qs" for qs :: "message list list"
      by (induction qs) auto
    have tl: "m \<in> set (tl q) \<Longrightarrow> m \<in> set q" for m and q :: "message list"
      by (cases q) simp_all
    show ?thesis
      using inv tl by (simp add: cm_inv_def cm' ex del: set_map)
  qed
  show "filter (\<lambda>m. snd m = word_of_nat i) ms = take 1 (cm_recv_queues cm ! i)" if "i < length (cm_recv_queues cm)"
    using handled_of_queue [of "cm_recv_queues cm" 0 i] inv that by (auto simp: cm_inv_def ms)
qed

lemma handle_waits_iff:
  assumes "cm_inv cm"
  shows "handle_messages cm = None \<longleftrightarrow> (\<forall>q \<in> set (cm_recv_queues cm). q = [])"
proof -
  have "cm_running cm" "cm_recv_data cm = (\<exists>q \<in> set (cm_recv_queues cm). q \<noteq> [])"
    using assms by (simp_all add: cm_inv_def)
  then show ?thesis
    by (simp add: handle_messages_def Let_def)
qed

lemma cm_run_append:
  "cm_run (es @ fs) cm = (let (ms, cm1) = cm_run es cm; (r, cm2) = cm_run fs cm1 in (ms @ r, cm2))"
  by (induction es cm rule: cm_run.induct) (auto simp: Let_def split: option.splits prod.splits)

lemma cm_run_queues:
  assumes "cm_inv cm" "cm_run es cm = (ms, cm')"
  shows "cm_inv cm' \<and> length (cm_recv_queues cm') = length (cm_recv_queues cm) \<and>
    (\<forall>i < length (cm_recv_queues cm).
       filter (\<lambda>m. snd m = word_of_nat i) ms @ cm_recv_queues cm' ! i = cm_recv_queues cm ! i @ arrivals i es)"
  using assms
proof (induction es cm arbitrary: ms cm' rule: cm_run.induct)
  case (2 j pkt es cm)
  show ?case
  proof (cases "recv_cb j (word_of_nat j) pkt cm")
    case None
    then have "\<not> j < length (cm_recv_queues cm)"
      by (simp add: recv_cb_def split: if_splits)
    then show ?thesis
      using 2 None by auto
  next
    case (Some cm1)
    note r = cm_inv_recv [OF "2.prems"(1) Some]
    show ?thesis
      using "2.IH" [of ms cm'] "2.prems" Some r by (auto simp: nth_list_update)
  qed
next
  case (3 es cm)
  show ?case
  proof (cases "handle_messages cm")
    case None
    then show ?thesis
      using "3.IH"(1) [OF None] "3.prems" by simp
  next
    case (Some p)
    obtain ms1 cm1 where p: "p = (ms1, cm1)" by (cases p)
    note h = cm_inv_handle [OF "3.prems"(1) Some [unfolded p]]
    obtain r c where rc: "cm_run es cm1 = (r, c)" by (cases "cm_run es cm1")
    have q: "take 1 q @ tl q = q" for q :: "message list" by (cases q) simp_all
    have eq: "ms = ms1 @ r" "cm' = c"
      using "3.prems"(2) Some p rc by simp_all
    have "filter (\<lambda>m. snd m = word_of_nat i) r @ cm_recv_queues c ! i = tl (cm_recv_queues cm ! i) @ arrivals i es"
      if "i < length (cm_recv_queues cm)" for i
      using "3.IH"(2) [OF Some p [symmetric] h(1) rc] that by (simp add: h(2))
    then have "filter (\<lambda>m. snd m = word_of_nat i) ms @ cm_recv_queues cm' ! i = cm_recv_queues cm ! i @ arrivals i (Handle # es)"
      if "i < length (cm_recv_queues cm)" for i
      using that q [of "cm_recv_queues cm ! i"] by (simp add: eq h(3))
    then show ?thesis
      using "3.IH"(2) [OF Some p [symmetric] h(1) rc] by (simp add: h(2) eq)
  qed
qed simp_all

lemma cm_run_drains:
  assumes "cm_inv cm" "\<forall>q \<in> set (cm_recv_queues cm). length q \<le> k"
  shows "\<forall>q \<in> set (cm_recv_queues (snd (cm_run (replicate k Handle) cm))). q = []"
  using assms
proof (induction k arbitrary: cm)
  case (Suc k)
  show ?case
  proof (cases "handle_messages cm")
    case None
    then have "\<forall>q \<in> set (cm_recv_queues cm). length q \<le> k"
      using None unfolding handle_waits_iff [OF Suc.prems(1)] by fastforce
    then show ?thesis
      using Suc.IH [OF Suc.prems(1)] None by simp
  next
    case (Some p)
    obtain ms cm1 where p: "p = (ms, cm1)" by (cases p)
    note h = cm_inv_handle [OF Suc.prems(1) Some [unfolded p]]
    have "\<forall>q \<in> set (cm_recv_queues cm1). length q \<le> k"
      using Suc.prems(2) by (auto simp: h(2))
    then show ?thesis
      using Suc.IH [OF h(1)] Some p by (simp add: Let_def split: prod.splits)
  qed
qed simp

text \<open>C27: No peer can starve another and no message is lost or reordered. From a consistent manager (the number of each queue identifies its
  peer), for every interleaving of arriving packets and turns of the handler thread: the messages of a peer handed to the handler, followed by
  those in its queue, are the ones it had and those that arrived, in order; a turn waits only when every queue is empty; and as many further
  turns as the longest queue has messages hand over everything.\<close>

theorem messages_handled:
  assumes inv: "cm_inv cm" and run: "cm_run es cm = (ms, cm')" and k: "\<forall>q \<in> set (cm_recv_queues cm'). length q \<le> k"
    and rest: "cm_run (replicate k Handle) cm' = (ms', cm'')" and i: "i < length (cm_recv_queues cm)"
  shows "filter (\<lambda>m. snd m = word_of_nat i) ms @ cm_recv_queues cm' ! i = cm_recv_queues cm ! i @ arrivals i es \<and>
    (handle_messages cm' = None \<longleftrightarrow> (\<forall>q \<in> set (cm_recv_queues cm'). q = [])) \<and>
    filter (\<lambda>m. snd m = word_of_nat i) (ms @ ms') = cm_recv_queues cm ! i @ arrivals i es"
proof -
  note r = cm_run_queues [OF inv run]
  then have inv': "cm_inv cm'" and len: "length (cm_recv_queues cm') = length (cm_recv_queues cm)" by simp_all
  note r' = cm_run_queues [OF inv' rest]
  have "\<forall>q \<in> set (cm_recv_queues cm''). q = []"
    using cm_run_drains [OF inv' k] rest by simp
  then have "cm_recv_queues cm'' ! i = []"
    using r' i len by simp
  moreover have "arrivals i (replicate k Handle) = []"
    by (induction k) simp_all
  moreover have "filter (\<lambda>m. snd m = word_of_nat i) ms' @ cm_recv_queues cm'' ! i = cm_recv_queues cm' ! i @ arrivals i (replicate k Handle)"
    using r' i unfolding len by blast
  ultimately have "filter (\<lambda>m. snd m = word_of_nat i) ms' = cm_recv_queues cm' ! i"
    by simp
  moreover have "handle_messages cm' = None \<longleftrightarrow> (\<forall>q \<in> set (cm_recv_queues cm'). q = [])"
    by (rule handle_waits_iff [OF inv'])
  moreover have "filter (\<lambda>m. snd m = word_of_nat i) ms @ cm_recv_queues cm' ! i = cm_recv_queues cm ! i @ arrivals i es"
    using r i by blast
  ultimately show ?thesis
    by simp
qed

theorem messages_handled_witness:
  "\<exists>cm' cm''. let cm = snd (cm_add True True (snd (cm_add True True cm_init))) in
     cm_inv cm \<and> cm_run [Arrives 0 [7], Arrives 0 [8], Arrives 1 [9], Handle] cm = ([([7], 0), ([9], 1)], cm') \<and>
     cm_run (replicate 1 Handle) cm' = ([([8], 0)], cm'') \<and>
     filter (\<lambda>m. snd m = word_of_nat 0) ([([7], 0), ([9], 1)] @ [([8], 0)]) = [([7], 0), ([8 :: byte], 0 :: u64)]"
proof -
  define cm where "cm = snd (cm_add True True (snd (cm_add True True cm_init)))"
  define es where "es = [Arrives 0 [7], Arrives 0 [8], Arrives 1 [9], Handle]"
  have inv: "cm_inv cm"
    unfolding cm_def by (intro cm_inv_add cm_inv_init) (simp_all add: cm_init_def cm_add_def Let_def)
  have "\<exists>cm'. cm_run es cm = ([([7], 0), ([9], 1)], cm') \<and> cm_recv_queues cm' = [[([8], 0)], []] \<and> cm_recv_data cm' \<and> cm_running cm'"
    by (simp add: cm_def es_def cm_init_def cm_add_def recv_cb_def handle_messages_def Let_def)
  then obtain cm' where r: "cm_run es cm = ([([7], 0), ([9], 1)], cm')" "cm_recv_queues cm' = [[([8], 0)], []]" "cm_recv_data cm'" "cm_running cm'"
    by blast
  obtain cm'' where r': "cm_run (replicate 1 Handle) cm' = ([([8], 0)], cm'')"
    using r(2-4) by (simp add: handle_messages_def Let_def)
  have "length (cm_recv_queues cm) = 2" "cm_recv_queues cm ! 0 = []" "arrivals 0 es = [([7], 0), ([8], 0)]"
    by (simp_all add: cm_def es_def cm_init_def cm_add_def Let_def)
  then show ?thesis
    using messages_handled [OF inv r(1) _ r', of 0] inv r(1) r' unfolding cm_def es_def Let_def by (simp add: r(2))
qed

end
