(* ===== verification/Rpc.thy ===== *)
theory Rpc
  imports Network Transaction
begin

text \<open>
  Remote procedure calls (\<open>util/rpc\<close>): the formats of requests and responses, the TCP client with its table of outstanding calls, and the
  blocking and asynchronous servers. A failed assertion and a promise that is set twice are \<open>None\<close>. The locale \<open>rpc_protocol\<close> is what
  the library needs of the formats of a service.
\<close>

section \<open>Messages\<close>

record 'a rpc_request =
  req_request_id :: u64
  req_payload :: 'a

record 'a rpc_response =
  resp_request_id :: u64
  resp_payload :: "'a option"

definition put_request :: "'q putter \<Rightarrow> 'q rpc_request putter" where
  "put_request p req = put_u64 (req_request_id req) @ p (req_payload req)"

definition get_request :: "'q getter \<Rightarrow> 'q rpc_request getter" where
  "get_request g bs = do {
     (hdr, r) \<leftarrow> get_u64 bs; (payload, r') \<leftarrow> g r;
     Some (\<lparr>req_request_id = hdr, req_payload = payload\<rparr>, r') }"

definition put_response :: "'r putter \<Rightarrow> 'r rpc_response putter" where
  "put_response p resp = put_u64 (resp_request_id resp) @ put_option p (resp_payload resp)"

definition get_response :: "'r getter \<Rightarrow> 'r rpc_response getter" where
  "get_response g bs = do {
     (hdr, r) \<leftarrow> get_u64 bs; (payload, r') \<leftarrow> get_option g r;
     Some (\<lparr>resp_request_id = hdr, resp_payload = payload\<rparr>, r') }"

section \<open>Client\<close>

text \<open>What happens with the response of a call: a promise is set, or the callback that \<open>client::call\<close> has wrapped runs. Both
  carry the identifier of their call.\<close>

datatype response_action = Promise u64 | Raw_callback u64

text \<open>The promises that have been set, and the runs of users' callbacks with their argument, are part of the state.\<close>

record 'r tcp_client =
  tc_current_request_id :: u64
  tc_net :: connection_manager
  tc_responses :: "(u64 \<times> response_action) list"
  tc_promises :: "(u64 \<times> 'r rpc_response option) list"
  tc_called :: "(u64 \<times> 'r option) list"

definition tc_init :: "bool list \<Rightarrow> 'r tcp_client" where
  "tc_init oks = \<lparr>tc_current_request_id = 0, tc_net = snd (cluster_connect oks False cm_init), tc_responses = [], tc_promises = [],
     tc_called = []\<rparr>"

definition make_request :: "'q putter \<Rightarrow> 'q \<Rightarrow> 'r tcp_client \<Rightarrow> (byte list \<times> u64) \<times> 'r tcp_client" where
  "make_request p request_payload c =
    (let request_id = tc_current_request_id c in
     ((put_request p \<lparr>req_request_id = request_id, req_payload = request_payload\<rparr>, request_id),
      c\<lparr>tc_current_request_id := request_id + 1\<rparr>))"

definition send_request :: "nat \<Rightarrow> byte list \<Rightarrow> u64 \<Rightarrow> response_action \<Rightarrow> 'r tcp_client \<Rightarrow> (bool \<times> 'r tcp_client) option" where
  "send_request offset request_buf request_id response_action c =
    (if map_of (tc_responses c) request_id \<noteq> None then None
     else let (sent, net) = cm_send_to_one offset request_buf (tc_net c) in
       Some (sent, c\<lparr>tc_responses := (request_id, response_action) # tc_responses c, tc_net := net\<rparr>))"

fun set_response_value :: "response_action \<Rightarrow> 'r rpc_response option \<Rightarrow> 'r tcp_client \<Rightarrow> 'r tcp_client option" where
  "set_response_value (Promise p) value c =
    (if map_of (tc_promises c) p \<noteq> None then None else Some (c\<lparr>tc_promises := (p, value) # tc_promises c\<rparr>))"
| "set_response_value (Raw_callback req_id) None c = Some c"
| "set_response_value (Raw_callback req_id) (Some resp) c =
    (if resp_request_id resp \<noteq> req_id then None else Some (c\<lparr>tc_called := tc_called c @ [(req_id, resp_payload resp)]\<rparr>))"

definition erase_response :: "u64 \<Rightarrow> (u64 \<times> response_action) list \<Rightarrow> (u64 \<times> response_action) list" where
  "erase_response request_id rs = filter (\<lambda>(i, a). i \<noteq> request_id) rs"

definition set_response :: "u64 \<Rightarrow> 'r rpc_response option \<Rightarrow> 'r tcp_client \<Rightarrow> 'r tcp_client option" where
  "set_response request_id value c =
    (case map_of (tc_responses c) request_id of
       None \<Rightarrow> Some c
     | Some action \<Rightarrow> set_response_value action value (c\<lparr>tc_responses := erase_response request_id (tc_responses c)\<rparr>))"

text \<open>A blocking call up to the point at which it waits; it returns \<open>nullopt\<close> at once if the request cannot be sent.\<close>

definition call_start :: "'q putter \<Rightarrow> nat \<Rightarrow> 'q \<Rightarrow> 'r tcp_client \<Rightarrow> (bool \<times> 'r tcp_client) option" where
  "call_start p offset request_payload c =
    (let ((request_buf, request_id), c1) = make_request p request_payload c in do {
       (sent, c2) \<leftarrow> send_request offset request_buf request_id (Promise request_id) c1;
       if \<not> sent then do { c3 \<leftarrow> set_response request_id None c2; Some (False, c3) } else Some (True, c2) })"

text \<open>The end of a blocking call. Whether the timeout has expired is an argument.\<close>

datatype 'r call_result = Waits | Returns "'r option" | Assertion_failed

definition call_finish :: "bool \<Rightarrow> u64 \<Rightarrow> 'r tcp_client \<Rightarrow> ('r call_result \<times> 'r tcp_client) option" where
  "call_finish expired request_id c =
    (if expired then do { c1 \<leftarrow> set_response request_id None c; Some (Returns None, c1) }
     else Some (case map_of (tc_promises c) request_id of
         None \<Rightarrow> Waits
       | Some None \<Rightarrow> Returns None
       | Some (Some resp) \<Rightarrow> if resp_request_id resp \<noteq> request_id then Assertion_failed else Returns (resp_payload resp), c))"

definition call_async :: "'q putter \<Rightarrow> nat \<Rightarrow> 'q \<Rightarrow> 'r tcp_client \<Rightarrow> (bool \<times> 'r tcp_client) option" where
  "call_async p offset request_payload c =
    (let ((request_buf, request_id), c1) = make_request p request_payload c in do {
       (sent, c2) \<leftarrow> send_request offset request_buf request_id (Raw_callback request_id) c1;
       if \<not> sent then Some (False, c2\<lparr>tc_responses := erase_response request_id (tc_responses c2)\<rparr>) else Some (True, c2) })"

definition response_handler :: "'r getter \<Rightarrow> byte list \<Rightarrow> 'r tcp_client \<Rightarrow> 'r tcp_client option" where
  "response_handler g pkt c =
    (case from_buffer (get_response g) pkt of
       None \<Rightarrow> Some c
     | Some resp \<Rightarrow> set_response (resp_request_id resp) (Some resp) c)"

fun set_all :: "(u64 \<times> response_action) list \<Rightarrow> 'r tcp_client \<Rightarrow> 'r tcp_client option" where
  "set_all [] c = Some c"
| "set_all ((i, action) # as) c = do { c1 \<leftarrow> set_response_value action None c; set_all as c1 }"

definition tc_close :: "'r tcp_client \<Rightarrow> 'r tcp_client option" where
  "tc_close c = do { c1 \<leftarrow> set_all (tc_responses c) (c\<lparr>tc_net := cm_close (tc_net c)\<rparr>); Some (c1\<lparr>tc_responses := []\<rparr>) }"

section \<open>Servers\<close>

text \<open>The handler of a service has a state of its own.\<close>

definition blocking_call ::
  "'q getter \<Rightarrow> 'r putter \<Rightarrow> ('w \<Rightarrow> 'q \<Rightarrow> 'r option \<times> 'w) option \<Rightarrow> 'w \<Rightarrow> byte list \<Rightarrow> byte list option \<times> 'w" where
  "blocking_call g p callback w request_buf =
    (case from_buffer (get_request g) request_buf of
       None \<Rightarrow> (None, w)
     | Some req \<Rightarrow>
         let (resp, w') = (case callback of None \<Rightarrow> (None, w) | Some h \<Rightarrow> h w (req_payload req))
         in (Some (put_response p \<lparr>resp_request_id = req_request_id req, resp_payload = resp\<rparr>), w'))"

text \<open>The handler of an asynchronous server gets the function that makes the packet of its response.\<close>

definition async_call ::
  "'q getter \<Rightarrow> 'r putter \<Rightarrow> ('w \<Rightarrow> 'q \<Rightarrow> ('r option \<Rightarrow> byte list) \<Rightarrow> bool \<times> 'w) \<Rightarrow> 'w \<Rightarrow> byte list \<Rightarrow> byte list option \<times> 'w" where
  "async_call g p callback w request_buf =
    (case from_buffer (get_request g) request_buf of
       None \<Rightarrow> (None, w)
     | Some req \<Rightarrow>
         let response = (\<lambda>resp. put_response p \<lparr>resp_request_id = req_request_id req, resp_payload = resp\<rparr>);
             (success, w') = callback w (req_payload req) response
         in (if \<not> success then Some (response None) else None, w'))"

definition make_failure_response :: "byte list \<Rightarrow> byte list option" where
  "make_failure_response request_buf =
    map_option (\<lambda>hdr. put_response (\<lambda>_ :: unit. []) \<lparr>resp_request_id = hdr, resp_payload = None\<rparr>) (from_buffer get_u64 request_buf)"

definition raw_async_call ::
  "('w \<Rightarrow> byte list \<Rightarrow> (byte list option \<Rightarrow> byte list) \<Rightarrow> bool \<times> 'w) \<Rightarrow> 'w \<Rightarrow> byte list \<Rightarrow> byte list option \<times> 'w" where
  "raw_async_call callback w request_buf =
    (case make_failure_response request_buf of
       None \<Rightarrow> (None, w)
     | Some failure \<Rightarrow>
         let (success, w') = callback w request_buf (\<lambda>resp. case resp of Some r \<Rightarrow> r | None \<Rightarrow> failure)
         in (if \<not> success then Some failure else None, w'))"

text \<open>The turn of a blocking server: every message is answered to its sender.\<close>

definition tcp_server_turn ::
  "'q getter \<Rightarrow> 'r putter \<Rightarrow> ('w \<Rightarrow> 'q \<Rightarrow> 'r option \<times> 'w) option \<Rightarrow> 'w \<Rightarrow> connection_manager \<Rightarrow> ('w \<times> connection_manager) option" where
  "tcp_server_turn g p callback = handler_turn (\<lambda>w msg. blocking_call g p callback w (fst msg))"

section \<open>The protocol of a service\<close>

locale rpc_protocol = q: codec put_q get_q wf_q + r: codec put_r get_r wf_r
  for put_q :: "'q putter" and get_q :: "'q getter" and wf_q :: "'q \<Rightarrow> bool"
    and put_r :: "'r putter" and get_r :: "'r getter" and wf_r :: "'r \<Rightarrow> bool"
begin

lemma request_codec: "codec (put_request put_q) (get_request get_q) (\<lambda>x. wf_q (req_payload x))"
  by (rule codec_record [OF codec_pair [OF u64.codec_axioms q.codec_axioms],
        where f = "\<lambda>x. (req_request_id x, req_payload x)" and c = "\<lambda>(i, x). \<lparr>req_request_id = i, req_payload = x\<rparr>"])
     (auto simp: put_request_def get_request_def record_format)

lemma response_codec: "codec (put_response put_r) (get_response get_r) (\<lambda>x. \<forall>y. resp_payload x = Some y \<longrightarrow> wf_r y)"
  by (rule codec_record [OF codec_pair [OF u64.codec_axioms codec_option [OF r.codec_axioms]],
        where f = "\<lambda>x. (resp_request_id x, resp_payload x)" and c = "\<lambda>(i, x). \<lparr>resp_request_id = i, resp_payload = x\<rparr>"])
     (auto simp: put_response_def get_response_def record_format)

lemma blocking_call_of_request:
  assumes "wf_q q"
  shows "blocking_call get_q put_r (Some h) w (put_request put_q \<lparr>req_request_id = i, req_payload = q\<rparr>) =
    (Some (put_response put_r \<lparr>resp_request_id = i, resp_payload = fst (h w q)\<rparr>), snd (h w q))"
  using codec.from_buffer_put [OF request_codec, of "\<lparr>req_request_id = i, req_payload = q\<rparr>" "[]"] assms
  by (simp add: blocking_call_def case_prod_unfold Let_def)

lemma response_handler_of_response:
  assumes "\<And>y. v = Some y \<Longrightarrow> wf_r y"
  shows "response_handler get_r (put_response put_r \<lparr>resp_request_id = i, resp_payload = v\<rparr>) c =
    set_response i (Some \<lparr>resp_request_id = i, resp_payload = v\<rparr>) c"
  using codec.from_buffer_put [OF response_codec, of "\<lparr>resp_request_id = i, resp_payload = v\<rparr>" "[]"] assms
  by (simp add: response_handler_def)

end

text \<open>The coordinator's service: compact transactions, answered by whether they have been executed.\<close>

interpretation coordinator_rpc: rpc_protocol put_compact_tx get_compact_tx wf_compact_tx put_bool get_bool "\<lambda>_. True"
  by (intro rpc_protocol.intro compact_tx_fmt.codec_axioms bool.codec_axioms)

section \<open>Histories of a client\<close>

datatype 'q rpc_event = Call nat 'q | Call_async nat 'q | Expire u64 | Receive "byte list"

fun rpc_step :: "'q putter \<Rightarrow> 'r getter \<Rightarrow> 'q rpc_event \<Rightarrow> 'r tcp_client \<Rightarrow> 'r tcp_client option" where
  "rpc_step p g (Call offset q) c = map_option snd (call_start p offset q c)"
| "rpc_step p g (Call_async offset q) c = map_option snd (call_async p offset q c)"
| "rpc_step p g (Expire request_id) c = map_option snd (call_finish True request_id c)"
| "rpc_step p g (Receive pkt) c = response_handler g pkt c"

fun rpc_run :: "'q putter \<Rightarrow> 'r getter \<Rightarrow> 'q rpc_event list \<Rightarrow> 'r tcp_client \<Rightarrow> 'r tcp_client option" where
  "rpc_run p g [] c = Some c"
| "rpc_run p g (e # es) c = do { c' \<leftarrow> rpc_step p g e c; rpc_run p g es c' }"

text \<open>The calls of a history: whether they block, and their payload. The identifier of a call is its position.\<close>

fun calls :: "'q rpc_event list \<Rightarrow> (bool \<times> 'q) list" where
  "calls [] = []"
| "calls (Call offset q # es) = (True, q) # calls es"
| "calls (Call_async offset q # es) = (False, q) # calls es"
| "calls (_ # es) = calls es"

definition call_ids :: "bool list \<Rightarrow> u64 set" where
  "call_ids bs = word_of_nat ` {k. k < length bs}"

definition blocking_ids :: "bool list \<Rightarrow> u64 set" where
  "blocking_ids bs = word_of_nat ` {k. k < length bs \<and> bs ! k}"

abbreviation outstanding :: "'r tcp_client \<Rightarrow> u64 set" where
  "outstanding c \<equiv> fst ` set (tc_responses c)"

abbreviation promised :: "'r tcp_client \<Rightarrow> u64 set" where
  "promised c \<equiv> fst ` set (tc_promises c)"

text \<open>\<open>R\<close> relates the identifier of a call to the answers it may get.\<close>

definition rpc_inv :: "(u64 \<Rightarrow> 'r option \<Rightarrow> bool) \<Rightarrow> bool list \<Rightarrow> 'r tcp_client \<Rightarrow> bool" where
  "rpc_inv R bs c \<longleftrightarrow> tc_current_request_id c = word_of_nat (length bs) \<and>
     distinct (map fst (tc_responses c)) \<and> distinct (map fst (tc_promises c)) \<and> distinct (map fst (tc_called c)) \<and>
     (\<forall>i. i \<in> outstanding c \<longrightarrow> i \<in> call_ids bs \<and> i \<notin> promised c \<and> i \<notin> fst ` set (tc_called c)) \<and>
     (\<forall>i. i \<in> promised c \<longrightarrow> i \<in> call_ids bs \<and> i \<notin> fst ` set (tc_called c)) \<and>
     (\<forall>i. i \<in> fst ` set (tc_called c) \<longrightarrow> i \<in> call_ids bs) \<and>
     (\<forall>i a. (i, a) \<in> set (tc_responses c) \<longrightarrow> a = (if i \<in> blocking_ids bs then Promise i else Raw_callback i)) \<and>
     (\<forall>i resp. (i, Some resp) \<in> set (tc_promises c) \<longrightarrow> resp_request_id resp = i \<and> R i (resp_payload resp)) \<and>
     (\<forall>i v. (i, v) \<in> set (tc_called c) \<longrightarrow> R i v) \<and>
     (\<forall>i. i \<in> blocking_ids bs \<longrightarrow> i \<in> outstanding c \<or> i \<in> promised c)"

lemma rpc_inv_init: "rpc_inv R [] (tc_init oks)"
  by (simp add: rpc_inv_def tc_init_def blocking_ids_def)

lemma call_ids_snoc: "call_ids (bs @ [b]) = insert (word_of_nat (length bs)) (call_ids bs)"
  by (auto simp: call_ids_def less_Suc_eq)

lemma blocking_ids_snoc: "blocking_ids (bs @ [b]) = blocking_ids bs \<union> (if b then {word_of_nat (length bs)} else {})"
proof -
  have "{k. k < length (bs @ [b]) \<and> (bs @ [b]) ! k} = {k. k < length bs \<and> bs ! k} \<union> (if b then {length bs} else {})"
    by (auto simp: nth_append less_Suc_eq)
  then show ?thesis
    by (simp add: blocking_ids_def image_Un)
qed

lemma blocking_calls: "blocking_ids bs \<subseteq> call_ids bs"
  by (auto simp: blocking_ids_def call_ids_def)

lemma call_id_fresh:
  assumes "length bs < 2 ^ 64"
  shows "word_of_nat (length bs) \<notin> call_ids bs"
proof
  assume "word_of_nat (length bs) \<in> call_ids bs"
  then obtain k where "k < length bs" "(word_of_nat (length bs) :: u64) = word_of_nat k"
    by (auto simp: call_ids_def)
  then show False
    using queue_ids_inject [of "length bs" k] assms by simp
qed

lemma blocking_id_iff:
  assumes "k < length bs" "length bs < 2 ^ 64"
  shows "word_of_nat k \<in> blocking_ids bs \<longleftrightarrow> bs ! k"
proof
  assume "word_of_nat k \<in> blocking_ids bs"
  then obtain j where j: "j < length bs" "bs ! j" "(word_of_nat k :: u64) = word_of_nat j"
    by (auto simp: blocking_ids_def)
  then show "bs ! k"
    using queue_ids_inject [of k j] assms by simp
qed (use assms in \<open>auto simp: blocking_ids_def\<close>)

lemma erase_response_fst: "map fst (erase_response i rs) = filter (\<lambda>j. j \<noteq> i) (map fst rs)"
  by (induction rs) (auto simp: erase_response_def)

lemma erase_response_dom: "fst ` set (erase_response i rs) = fst ` set rs - {i}"
  by (force simp: erase_response_def)

lemma erase_response_mem: "(j, a) \<in> set (erase_response i rs) \<longleftrightarrow> (j, a) \<in> set rs \<and> j \<noteq> i"
  by (auto simp: erase_response_def)

lemmas erase_response_simps = erase_response_fst erase_response_dom erase_response_mem

lemma rpc_invD:
  assumes "rpc_inv R bs c"
  shows "tc_current_request_id c = word_of_nat (length bs)"
    "distinct (map fst (tc_responses c))" "distinct (map fst (tc_promises c))" "distinct (map fst (tc_called c))"
    "i \<in> outstanding c \<Longrightarrow> i \<in> call_ids bs \<and> i \<notin> promised c \<and> i \<notin> fst ` set (tc_called c)"
    "i \<in> promised c \<Longrightarrow> i \<in> call_ids bs \<and> i \<notin> fst ` set (tc_called c)"
    "i \<in> fst ` set (tc_called c) \<Longrightarrow> i \<in> call_ids bs"
    "(i, a) \<in> set (tc_responses c) \<Longrightarrow> a = (if i \<in> blocking_ids bs then Promise i else Raw_callback i)"
    "(i, Some resp) \<in> set (tc_promises c) \<Longrightarrow> resp_request_id resp = i \<and> R i (resp_payload resp)"
    "(i, v) \<in> set (tc_called c) \<Longrightarrow> R i v"
    "i \<in> blocking_ids bs \<Longrightarrow> i \<in> outstanding c \<or> i \<in> promised c"
  using assms unfolding rpc_inv_def by blast+

lemma rpc_invI:
  assumes "tc_current_request_id c = word_of_nat (length bs)"
    "distinct (map fst (tc_responses c))" "distinct (map fst (tc_promises c))" "distinct (map fst (tc_called c))"
    "\<And>i. i \<in> outstanding c \<Longrightarrow> i \<in> call_ids bs \<and> i \<notin> promised c \<and> i \<notin> fst ` set (tc_called c)"
    "\<And>i. i \<in> promised c \<Longrightarrow> i \<in> call_ids bs \<and> i \<notin> fst ` set (tc_called c)"
    "\<And>i. i \<in> fst ` set (tc_called c) \<Longrightarrow> i \<in> call_ids bs"
    "\<And>i a. (i, a) \<in> set (tc_responses c) \<Longrightarrow> a = (if i \<in> blocking_ids bs then Promise i else Raw_callback i)"
    "\<And>i resp. (i, Some resp) \<in> set (tc_promises c) \<Longrightarrow> resp_request_id resp = i \<and> R i (resp_payload resp)"
    "\<And>i v. (i, v) \<in> set (tc_called c) \<Longrightarrow> R i v"
    "\<And>i. i \<in> blocking_ids bs \<Longrightarrow> i \<in> outstanding c \<or> i \<in> promised c"
  shows "rpc_inv R bs c"
  unfolding rpc_inv_def by (intro conjI allI impI assms; assumption)

lemma rpc_inv_erase:
  assumes inv: "rpc_inv R bs c" and i: "i \<notin> blocking_ids bs"
  shows "rpc_inv R bs (c\<lparr>tc_responses := erase_response i (tc_responses c)\<rparr>)"
proof (rule rpc_invI, goal_cases)
  case (5 j) then show ?case using rpc_invD(5) [OF inv, of j] by (simp add: erase_response_dom)
next
  case (6 j) then show ?case using rpc_invD(6) [OF inv, of j] by simp
next
  case (7 j) then show ?case using rpc_invD(7) [OF inv, of j] by simp
next
  case (8 j a) then show ?case using rpc_invD(8) [OF inv, of j a] by (simp add: erase_response_mem)
next
  case (11 j) then show ?case using rpc_invD(11) [OF inv, of j] i by (auto simp: erase_response_dom)
qed (use rpc_invD [OF inv] in \<open>simp_all add: erase_response_fst\<close>)

lemma rpc_inv_promise:
  assumes inv: "rpc_inv R bs c" and i: "i \<in> outstanding c" "i \<in> blocking_ids bs"
    and v: "\<And>resp. value = Some resp \<Longrightarrow> resp_request_id resp = i \<and> R i (resp_payload resp)"
  shows "rpc_inv R bs (c\<lparr>tc_responses := erase_response i (tc_responses c), tc_promises := (i, value) # tc_promises c\<rparr>)"
proof (rule rpc_invI, goal_cases)
  case 3 then show ?case using rpc_invD(3) [OF inv] rpc_invD(5) [OF inv i(1)] by simp
next
  case (5 j) then show ?case using rpc_invD(5) [OF inv, of j] by (simp add: erase_response_dom)
next
  case (6 j) then show ?case using rpc_invD(6) [OF inv, of j] rpc_invD(5) [OF inv i(1)] by auto
next
  case (7 j) then show ?case using rpc_invD(7) [OF inv, of j] by simp
next
  case (8 j a) then show ?case using rpc_invD(8) [OF inv, of j a] by (simp add: erase_response_mem)
next
  case (9 j resp) then show ?case using rpc_invD(9) [OF inv, of j resp] v by auto
next
  case (11 j) then show ?case using rpc_invD(11) [OF inv, of j] by (auto simp: erase_response_dom)
qed (use rpc_invD [OF inv] in \<open>simp_all add: erase_response_fst\<close>)

lemma rpc_inv_called:
  assumes inv: "rpc_inv R bs c" and i: "i \<in> outstanding c" "i \<notin> blocking_ids bs" and v: "R i v"
  shows "rpc_inv R bs (c\<lparr>tc_responses := erase_response i (tc_responses c), tc_called := tc_called c @ [(i, v)]\<rparr>)"
proof (rule rpc_invI, goal_cases)
  case 4 then show ?case using rpc_invD(4) [OF inv] rpc_invD(5) [OF inv i(1)] by simp
next
  case (5 j) then show ?case using rpc_invD(5) [OF inv, of j] by (simp add: erase_response_dom)
next
  case (6 j) then show ?case using rpc_invD(6) [OF inv, of j] rpc_invD(5) [OF inv i(1)] by auto
next
  case (7 j) then show ?case using rpc_invD(7) [OF inv, of j] rpc_invD(5) [OF inv i(1)] by auto
next
  case (8 j a) then show ?case using rpc_invD(8) [OF inv, of j a] by (simp add: erase_response_mem)
next
  case (10 j w) then show ?case using rpc_invD(10) [OF inv, of j w] v by auto
next
  case (11 j) then show ?case using rpc_invD(11) [OF inv, of j] i(2) by (auto simp: erase_response_dom)
qed (use rpc_invD [OF inv] in \<open>simp_all add: erase_response_fst\<close>)

lemma rpc_inv_set_response:
  assumes inv: "rpc_inv R bs c" and v: "\<And>resp. value = Some resp \<Longrightarrow> resp_request_id resp = i \<and> R i (resp_payload resp)"
  shows "\<exists>c'. set_response i value c = Some c' \<and> rpc_inv R bs c'"
proof (cases "map_of (tc_responses c) i")
  case None
  then show ?thesis
    using inv by (simp add: set_response_def)
next
  case (Some a)
  then have ia: "(i, a) \<in> set (tc_responses c)" "i \<in> outstanding c"
    using map_of_SomeD [OF Some] by force+
  have a: "a = (if i \<in> blocking_ids bs then Promise i else Raw_callback i)"
    using inv ia(1) unfolding rpc_inv_def by blast
  have fresh: "map_of (tc_promises c) i = None"
    using inv ia(2) by (auto simp: rpc_inv_def map_of_eq_None_iff)
  show ?thesis
  proof (cases "i \<in> blocking_ids bs")
    case True
    then show ?thesis
      using rpc_inv_promise [OF inv ia(2) True v, of "value"] a Some fresh by (simp add: set_response_def)
  next
    case False
    then show ?thesis
      using rpc_inv_erase [OF inv False] rpc_inv_called [OF inv ia(2) False] v a Some
      by (cases "value") (simp_all add: set_response_def)
  qed
qed

lemma rpc_inv_issue:
  assumes inv: "rpc_inv R bs c" and n: "length bs < 2 ^ 64" and i: "i = tc_current_request_id c" and a: "a = (if b then Promise i else Raw_callback i)"
  shows "rpc_inv R (bs @ [b]) (c\<lparr>tc_current_request_id := i + 1, tc_responses := (i, a) # tc_responses c, tc_net := net\<rparr>)"
proof -
  have i': "i = word_of_nat (length bs)" and fresh: "i \<notin> call_ids bs"
    using i rpc_invD(1) [OF inv] call_id_fresh [OF n] by simp_all
  then have out: "i \<notin> outstanding c" "i \<notin> promised c" "i \<notin> fst ` set (tc_called c)" "i \<notin> blocking_ids bs"
    using rpc_invD(5) [OF inv, of i] rpc_invD(6) [OF inv, of i] rpc_invD(7) [OF inv, of i] blocking_calls [of bs] by blast+
  have ids: "call_ids (bs @ [b]) = insert i (call_ids bs)" "blocking_ids (bs @ [b]) = blocking_ids bs \<union> (if b then {i} else {})"
    by (simp_all add: call_ids_snoc blocking_ids_snoc i')
  show ?thesis
  proof (rule rpc_invI, goal_cases)
    case 1 show ?case by (simp add: i')
  next
    case 2 show ?case using rpc_invD(2) [OF inv] out(1) by simp
  next
    case (5 j) then show ?case using rpc_invD(5) [OF inv, of j] out by (auto simp: ids)
  next
    case (6 j) then show ?case using rpc_invD(6) [OF inv, of j] by (auto simp: ids)
  next
    case (7 j) then show ?case using rpc_invD(7) [OF inv, of j] by (auto simp: ids)
  next
    case (8 j x)
    then have "j = i \<and> x = a \<or> (j, x) \<in> set (tc_responses c) \<and> j \<noteq> i"
      using out(1) by force
    then show ?case
      using rpc_invD(8) [OF inv, of j x] a out(4) by (auto simp: ids)
  next
    case (11 j) then show ?case using rpc_invD(11) [OF inv, of j] by (auto simp: ids split: if_splits)
  qed (use rpc_invD(3,4,9,10) [OF inv] in simp_all)
qed

lemma send_request_fresh:
  assumes inv: "rpc_inv R bs c" and n: "length bs < 2 ^ 64"
  shows "\<exists>sent net. send_request offset buf (tc_current_request_id c) a (c\<lparr>tc_current_request_id := tc_current_request_id c + 1\<rparr>) =
    Some (sent, c\<lparr>tc_current_request_id := tc_current_request_id c + 1, tc_responses := (tc_current_request_id c, a) # tc_responses c, tc_net := net\<rparr>)"
proof -
  have "tc_current_request_id c \<notin> outstanding c"
    using rpc_invD(1,5) [OF inv] call_id_fresh [OF n] by auto
  then have "map_of (tc_responses c) (tc_current_request_id c) = None"
    by (simp add: map_of_eq_None_iff)
  then show ?thesis
    by (cases "cm_send_to_one offset buf (tc_net c)") (auto simp: send_request_def)
qed

lemma rpc_inv_call:
  assumes inv: "rpc_inv R bs c" and n: "length bs < 2 ^ 64"
  shows "\<exists>sent c'. call_start p offset q c = Some (sent, c') \<and> rpc_inv R (bs @ [True]) c'"
proof -
  let ?i = "tc_current_request_id c"
  let ?buf = "put_request p \<lparr>req_request_id = ?i, req_payload = q\<rparr>"
  obtain sent c2 where s: "send_request offset ?buf ?i (Promise ?i) (c\<lparr>tc_current_request_id := ?i + 1\<rparr>) = Some (sent, c2)"
    and c2: "rpc_inv R (bs @ [True]) c2"
    using send_request_fresh [OF inv n, of offset ?buf "Promise ?i"] rpc_inv_issue [OF inv n refl, of "Promise ?i" True] by fastforce
  obtain c3 where "set_response ?i None c2 = Some c3" "rpc_inv R (bs @ [True]) c3"
    using rpc_inv_set_response [OF c2, of None ?i] by auto
  then show ?thesis
    using s c2 by (cases sent) (auto simp: call_start_def make_request_def Let_def)
qed

lemma rpc_inv_call_async:
  assumes inv: "rpc_inv R bs c" and n: "length bs < 2 ^ 64"
  shows "\<exists>sent c'. call_async p offset q c = Some (sent, c') \<and> rpc_inv R (bs @ [False]) c'"
proof -
  let ?i = "tc_current_request_id c"
  let ?buf = "put_request p \<lparr>req_request_id = ?i, req_payload = q\<rparr>"
  obtain sent c2 where s: "send_request offset ?buf ?i (Raw_callback ?i) (c\<lparr>tc_current_request_id := ?i + 1\<rparr>) = Some (sent, c2)"
    and c2: "rpc_inv R (bs @ [False]) c2"
    using send_request_fresh [OF inv n, of offset ?buf "Raw_callback ?i"] rpc_inv_issue [OF inv n refl, of "Raw_callback ?i" False] by fastforce
  have "?i \<notin> blocking_ids (bs @ [False])"
    using call_id_fresh [OF n] blocking_calls [of bs] rpc_invD(1) [OF inv] by (auto simp: blocking_ids_snoc)
  then show ?thesis
    using s c2 rpc_inv_erase [OF c2] by (cases sent) (auto simp: call_async_def make_request_def Let_def)
qed

lemma rpc_inv_receive:
  assumes inv: "rpc_inv R bs c" and "\<And>resp. from_buffer (get_response g) pkt = Some resp \<Longrightarrow> R (resp_request_id resp) (resp_payload resp)"
  shows "\<exists>c'. response_handler g pkt c = Some c' \<and> rpc_inv R bs c'"
proof (cases "from_buffer (get_response g) pkt")
  case None
  then show ?thesis
    using inv by (simp add: response_handler_def)
next
  case (Some resp)
  then show ?thesis
    using rpc_inv_set_response [OF inv, of "Some resp" "resp_request_id resp"] assms(2) by (simp add: response_handler_def)
qed

lemma rpc_inv_expire: "rpc_inv R bs c \<Longrightarrow> \<exists>r c'. call_finish True i c = Some (r, c') \<and> rpc_inv R bs c'"
  using rpc_inv_set_response [of R bs c None i] by (auto simp: call_finish_def)

lemma rpc_inv_run:
  assumes "rpc_inv R bs c" "length bs + length (calls es) < 2 ^ 64"
    and "\<And>pkt resp. Receive pkt \<in> set es \<Longrightarrow> from_buffer (get_response g) pkt = Some resp \<Longrightarrow> R (resp_request_id resp) (resp_payload resp)"
  shows "\<exists>c'. rpc_run p g es c = Some c' \<and> rpc_inv R (bs @ map fst (calls es)) c'"
  using assms
proof (induction es arbitrary: bs c)
  case (Cons e es)
  let ?bs = "bs @ (case e of Call _ _ \<Rightarrow> [True] | Call_async _ _ \<Rightarrow> [False] | _ \<Rightarrow> [])"
  have "\<exists>c'. rpc_step p g e c = Some c' \<and> rpc_inv R ?bs c'"
  proof (cases e)
    case (Call offset q)
    then show ?thesis using rpc_inv_call [OF Cons.prems(1), of p offset q] Cons.prems(2) by auto
  next
    case (Call_async offset q)
    then show ?thesis using rpc_inv_call_async [OF Cons.prems(1), of p offset q] Cons.prems(2) by auto
  next
    case (Expire i)
    then show ?thesis using rpc_inv_expire [OF Cons.prems(1), of i] by auto
  next
    case (Receive pkt)
    then have "\<exists>c'. response_handler g pkt c = Some c' \<and> rpc_inv R bs c'"
      by (intro rpc_inv_receive [OF Cons.prems(1)] Cons.prems(3)) simp_all
    then show ?thesis using Receive by simp
  qed
  then obtain c' where c': "rpc_step p g e c = Some c'" "rpc_inv R ?bs c'" by blast
  have "length ?bs + length (calls es) < 2 ^ 64" "?bs @ map fst (calls es) = bs @ map fst (calls (e # es))"
    using Cons.prems(2) by (cases e; simp)+
  moreover have "\<exists>c''. rpc_run p g es c' = Some c'' \<and> rpc_inv R (?bs @ map fst (calls es)) c''"
    by (rule Cons.IH [OF c'(2) calculation(1)]) (rule Cons.prems(3), simp_all)
  ultimately show ?case
    using c'(1) by simp
qed simp

section \<open>Closing a client\<close>

lemma set_all_promises:
  assumes "distinct (map fst as)" "\<And>i a. (i, a) \<in> set as \<Longrightarrow> a = Promise i \<or> a = Raw_callback i" "\<And>i. i \<in> fst ` set as \<Longrightarrow> i \<notin> promised c"
  shows "\<exists>c'. set_all as c = Some c' \<and> tc_called c' = tc_called c \<and>
    tc_promises c' = rev (map (\<lambda>(i, a). (i, None)) (filter (\<lambda>(i, a). a = Promise i) as)) @ tc_promises c"
  using assms
proof (induction as arbitrary: c)
  case (Cons x as)
  obtain i a where x: "x = (i, a)" by (cases x)
  have fresh: "map_of (tc_promises c) i = None"
    using Cons.prems(3) [of i] by (simp add: x map_of_eq_None_iff)
  let ?c = "if a = Promise i then c\<lparr>tc_promises := (i, None) # tc_promises c\<rparr> else c"
  have s: "set_response_value a None c = Some ?c"
    using Cons.prems(2) [of i a] fresh by (auto simp: x)
  have "\<exists>c'. set_all as ?c = Some c' \<and> tc_called c' = tc_called ?c \<and>
    tc_promises c' = rev (map (\<lambda>(i, a). (i, None)) (filter (\<lambda>(i, a). a = Promise i) as)) @ tc_promises ?c"
  proof (rule Cons.IH)
    show "j \<notin> promised ?c" if "j \<in> fst ` set as" for j
      using Cons.prems(1,3) that by (auto simp: x)
  qed (use Cons.prems(1,2) in \<open>auto simp: x\<close>)
  then show ?case
    using s by (auto simp: x)
qed simp

lemma map_of_released:
  "map_of (rev (map (\<lambda>(i, a). (i, None)) (filter (\<lambda>(i, a). a = Promise i) as))) i = (if (i, Promise i) \<in> set as then Some None else None)"
  by (induction as) (auto simp: map_add_def)

lemma tc_close_releases:
  assumes inv: "rpc_inv R bs c"
  shows "\<exists>c'. tc_close c = Some c' \<and> tc_called c' = tc_called c \<and>
    (\<forall>i \<in> blocking_ids bs. \<exists>v. call_finish False i c' = Some (Returns v, c') \<and>
      (call_finish False i c = Some (Waits, c) \<and> v = None \<or> call_finish False i c = Some (Returns v, c)))"
proof -
  let ?c = "c\<lparr>tc_net := cm_close (tc_net c)\<rparr>"
  let ?new = "rev (map (\<lambda>(i, a). (i, None :: 'a rpc_response option)) (filter (\<lambda>(i, a). a = Promise i) (tc_responses c)))"
  have "\<exists>c1. set_all (tc_responses c) ?c = Some c1 \<and> tc_called c1 = tc_called ?c \<and> tc_promises c1 = ?new @ tc_promises ?c"
  proof (rule set_all_promises)
    show "a = Promise i \<or> a = Raw_callback i" if "(i, a) \<in> set (tc_responses c)" for i a
      using rpc_invD(8) [OF inv that] by auto
    show "i \<notin> promised ?c" if "i \<in> fst ` set (tc_responses c)" for i
      using rpc_invD(5) [OF inv that] by simp
  qed (rule rpc_invD(2) [OF inv])
  then obtain c1 where c1: "set_all (tc_responses c) ?c = Some c1" "tc_called c1 = tc_called c" "tc_promises c1 = ?new @ tc_promises c"
    by auto
  let ?c' = "c1\<lparr>tc_responses := []\<rparr>"
  have "\<exists>v. call_finish False i ?c' = Some (Returns v, ?c') \<and>
      (call_finish False i c = Some (Waits, c) \<and> v = None \<or> call_finish False i c = Some (Returns v, c))" if i: "i \<in> blocking_ids bs" for i
  proof (cases "i \<in> outstanding c")
    case True
    then have p: "(i, Promise i) \<in> set (tc_responses c)" "i \<notin> promised c"
      using rpc_invD(8) [OF inv, of i] rpc_invD(5) [OF inv True] i by force+
    have "map_of (tc_promises c) i = None"
      using p(2) by (simp add: map_of_eq_None_iff)
    moreover have "map_of ?new i = Some None"
      using p(1) by (simp add: map_of_released)
    ultimately show ?thesis
      by (simp add: call_finish_def c1(3))
  next
    case False
    then have "i \<in> promised c" "map_of ?new i = None"
      using rpc_invD(11) [OF inv i] by (force simp: map_of_released)+
    moreover obtain v where v: "map_of (tc_promises c) i = Some v"
      using calculation(1) by (cases "map_of (tc_promises c) i") (auto simp: map_of_eq_None_iff)
    moreover have "resp_request_id resp = i" if "v = Some resp" for resp
      using rpc_invD(9) [OF inv] map_of_SomeD [OF v] that by blast
    ultimately show ?thesis
      by (cases v) (simp_all add: call_finish_def c1(3) map_add_def)
  qed
  then show ?thesis
    using c1(1,2) by (simp add: tc_close_def)
qed

section \<open>Calls and their answers\<close>

text \<open>C25: A client cannot be broken by what it receives. For every sequence of blocking and asynchronous calls, expired timeouts and
  packets with any contents, no assertion fails and no promise is set twice; every call completes at most once; and when the client is closed,
  every blocking call returns what it had received, or nothing if it was still waiting, and no callback runs. (The reader of the payload
  is a function here; theory Shard_Rpc treats readers of variants, which can end the process.)\<close>

theorem rpc_client_robust:
  assumes "length (calls es) < 2 ^ 64"
  shows "\<exists>c c'. rpc_run p g es (tc_init oks) = Some c \<and> distinct (map fst (tc_promises c) @ map fst (tc_called c)) \<and>
    tc_close c = Some c' \<and> tc_called c' = tc_called c \<and>
    (\<forall>k < length (calls es). fst (calls es ! k) \<longrightarrow> (\<exists>v. call_finish False (word_of_nat k) c' = Some (Returns v, c') \<and>
      (call_finish False (word_of_nat k) c = Some (Waits, c) \<and> v = None \<or> call_finish False (word_of_nat k) c = Some (Returns v, c))))"
proof -
  obtain c where run: "rpc_run p g es (tc_init oks) = Some c" and inv: "rpc_inv (\<lambda>_ _. True) (map fst (calls es)) c"
    using rpc_inv_run [OF rpc_inv_init, of es g "\<lambda>_ _. True" p oks] assms by auto
  obtain c' where c': "tc_close c = Some c'" "tc_called c' = tc_called c"
    "\<And>i. i \<in> blocking_ids (map fst (calls es)) \<Longrightarrow> \<exists>v. call_finish False i c' = Some (Returns v, c') \<and>
      (call_finish False i c = Some (Waits, c) \<and> v = None \<or> call_finish False i c = Some (Returns v, c))"
    using tc_close_releases [OF inv] by blast
  have "distinct (map fst (tc_promises c) @ map fst (tc_called c))"
    using rpc_invD(3,4) [OF inv] rpc_invD(6) [OF inv] by auto
  moreover have "word_of_nat k \<in> blocking_ids (map fst (calls es))" if "k < length (calls es)" "fst (calls es ! k)" for k
    using that by (auto simp: blocking_ids_def)
  ultimately show ?thesis
    using run c' by blast
qed

theorem rpc_client_robust_witness:
  "\<exists>c c'. rpc_run put_u8 get_u8 [Call 0 5, Receive [7, 7], Call_async 0 6] (tc_init [True]) = Some c \<and> tc_close c = Some c' \<and>
     call_finish False 0 c' = Some (Returns None, c')"
proof -
  let ?es = "[Call 0 5, Receive [7, 7], Call_async 0 6] :: byte rpc_event list"
  obtain c c' where c: "rpc_run put_u8 get_u8 ?es (tc_init [True]) = Some c" "tc_close c = Some c'"
    and v: "\<exists>v. call_finish False (word_of_nat 0) c' = Some (Returns v, c') \<and>
      (call_finish False (word_of_nat 0) c = Some (Waits, c) \<and> v = None \<or> call_finish False (word_of_nat 0) c = Some (Returns v, c))"
    using rpc_client_robust [of ?es put_u8 get_u8 "[True]"] by auto
  have "tc_promises c = []"
    using c(1) by (auto simp: tc_init_def cm_init_def cm_add_def Let_def call_start_def make_request_def send_request_def cm_send_to_one_def
        peer_connected_def peer_init_def response_handler_def from_buffer_def get_response_def get_u64_def get_bytes_def call_async_def
        split: if_splits prod.splits option.splits)
  then have "call_finish False 0 c = Some (Waits, c)"
    by (simp add: call_finish_def)
  then show ?thesis
    using c v by auto
qed

text \<open>The packets that a server with handler \<open>h\<close> may send to this client.\<close>

definition server_reply :: "'q putter \<Rightarrow> 'q getter \<Rightarrow> 'r putter \<Rightarrow> ('w \<Rightarrow> 'q \<Rightarrow> 'r option \<times> 'w) \<Rightarrow> (bool \<times> 'q) list \<Rightarrow> byte list \<Rightarrow> bool" where
  "server_reply pq gq pr h cs pkt \<longleftrightarrow> (\<exists>k < length cs. \<exists>w.
     fst (blocking_call gq pr (Some h) w (put_request pq \<lparr>req_request_id = word_of_nat k, req_payload = snd (cs ! k)\<rparr>)) = Some pkt)"

text \<open>An answer of the call with an identifier.\<close>

definition answer :: "('w \<Rightarrow> 'q \<Rightarrow> 'r option \<times> 'w) \<Rightarrow> (bool \<times> 'q) list \<Rightarrow> u64 \<Rightarrow> 'r option \<Rightarrow> bool" where
  "answer h cs i v \<longleftrightarrow> (\<exists>k < length cs. i = word_of_nat k \<and> (\<exists>w. v = fst (h w (snd (cs ! k)))))"

lemma answerD:
  assumes "answer h cs (word_of_nat k) v" "k < length cs" "length cs < 2 ^ 64"
  shows "\<exists>w. v = fst (h w (snd (cs ! k)))"
proof -
  obtain j w where j: "j < length cs" "(word_of_nat k :: u64) = word_of_nat j" "v = fst (h w (snd (cs ! j)))"
    using assms(1) by (auto simp: answer_def)
  then have "k = j"
    using queue_ids_inject [of k j] assms(2,3) by simp
  then show ?thesis
    using j(3) by blast
qed

context rpc_protocol
begin

lemma server_reply_answers:
  assumes "server_reply put_q get_q put_r h cs pkt" "\<And>b q. (b, q) \<in> set cs \<Longrightarrow> wf_q q" "\<And>w q y. fst (h w q) = Some y \<Longrightarrow> wf_r y"
    and "from_buffer (get_response get_r) pkt = Some resp"
  shows "answer h cs (resp_request_id resp) (resp_payload resp)"
proof -
  obtain k w where k: "k < length cs"
    "fst (blocking_call get_q put_r (Some h) w (put_request put_q \<lparr>req_request_id = word_of_nat k, req_payload = snd (cs ! k)\<rparr>)) = Some pkt"
    using assms(1) by (auto simp: server_reply_def)
  let ?r = "\<lparr>resp_request_id = word_of_nat k, resp_payload = fst (h w (snd (cs ! k)))\<rparr>"
  have "wf_q (snd (cs ! k))"
    using assms(2) [of "fst (cs ! k)"] nth_mem [OF k(1)] by simp
  then have "pkt = put_response put_r ?r"
    using k(2) by (simp add: blocking_call_of_request)
  then have "resp = ?r"
    using codec.from_buffer_put [OF response_codec, of ?r "[]"] assms(3,4) by simp
  then show ?thesis
    using k(1) by (auto simp: answer_def)
qed

lemma reply_completes:
  assumes inv: "rpc_inv R bs c" and out: "i \<in> outstanding c" and wf: "\<And>y. v = Some y \<Longrightarrow> wf_r y"
  shows "\<exists>c'. response_handler get_r (put_response put_r \<lparr>resp_request_id = i, resp_payload = v\<rparr>) c = Some c' \<and>
    (if i \<in> blocking_ids bs then call_finish False i c' = Some (Returns v, c') else tc_called c' = tc_called c @ [(i, v)])"
proof -
  obtain a where a: "map_of (tc_responses c) i = Some a"
    using out by (cases "map_of (tc_responses c) i") (auto simp: map_of_eq_None_iff)
  have "a = (if i \<in> blocking_ids bs then Promise i else Raw_callback i)"
    using rpc_invD(8) [OF inv map_of_SomeD [OF a]] .
  moreover have "map_of (tc_promises c) i = None"
    using rpc_invD(5) [OF inv out] by (simp add: map_of_eq_None_iff)
  ultimately show ?thesis
    using a by (simp add: response_handler_of_response [OF wf] set_response_def call_finish_def)
qed

end

text \<open>C22: Every call gets its own answer. Let a client of a service make calls, blocking or not, and receive replies of the server to these
  calls in any order, any number of times or never. Then what a blocking call returns and what a callback gets is an answer of the
  server's handler to the payload of that very call, or nothing for a call that expired or was not sent; and for every call that is still
  outstanding, the next reply to it completes it with its answer.\<close>

theorem rpc_answers:
  assumes protocol: "rpc_protocol put_q get_q wf_q put_r get_r wf_r"
    and n: "length (calls es) < 2 ^ 64" and q: "\<And>b q. (b, q) \<in> set (calls es) \<Longrightarrow> wf_q q" and r: "\<And>w q y. fst (h w q) = Some y \<Longrightarrow> wf_r y"
    and replies: "\<And>pkt. Receive pkt \<in> set es \<Longrightarrow> server_reply put_q get_q put_r h (calls es) pkt"
    and run: "rpc_run put_q get_r es (tc_init oks) = Some c" and k: "k < length (calls es)" "calls es ! k = (b, x)"
  shows "(\<forall>v. (word_of_nat k, v) \<in> set (tc_called c) \<longrightarrow> (\<exists>w. v = fst (h w x))) \<and>
    (b \<longrightarrow> (\<exists>res. call_finish False (word_of_nat k) c = Some (res, c) \<and> (res = Waits \<or> res = Returns None \<or> (\<exists>w. res = Returns (fst (h w x)))))) \<and>
    (word_of_nat k \<in> outstanding c \<longrightarrow> (\<exists>pkt c'.
       fst (blocking_call get_q put_r (Some h) w (put_request put_q \<lparr>req_request_id = word_of_nat k, req_payload = x\<rparr>)) = Some pkt \<and>
       response_handler get_r pkt c = Some c' \<and>
       (b \<longrightarrow> call_finish False (word_of_nat k) c' = Some (Returns (fst (h w x)), c')) \<and>
       (\<not> b \<longrightarrow> tc_called c' = tc_called c @ [(word_of_nat k, fst (h w x))])))"
proof (intro conjI impI allI)
  let ?bs = "map fst (calls es)"
  have inv: "rpc_inv (answer h (calls es)) ?bs c"
    using rpc_inv_run [OF rpc_inv_init, of es get_r "answer h (calls es)" put_q oks] n run
      rpc_protocol.server_reply_answers [OF protocol replies q r] by auto
  have ans: "\<exists>w. v = fst (h w x)" if "answer h (calls es) (word_of_nat k) v" for v
    using answerD [OF that k(1) n] k(2) by simp
  show "\<exists>w. v = fst (h w x)" if "(word_of_nat k, v) \<in> set (tc_called c)" for v
    by (rule ans [OF rpc_invD(10) [OF inv that]])
  have kb: "word_of_nat k \<in> blocking_ids ?bs \<longleftrightarrow> b"
    using blocking_id_iff [of k ?bs] k n by simp
  show "\<exists>res. call_finish False (word_of_nat k) c = Some (res, c) \<and> (res = Waits \<or> res = Returns None \<or> (\<exists>w. res = Returns (fst (h w x))))" if b
  proof (cases "map_of (tc_promises c) (word_of_nat k)")
    case (Some v)
    then show ?thesis
      using rpc_invD(9) [OF inv, of "word_of_nat k"] map_of_SomeD [OF Some] ans by (cases v) (auto simp: call_finish_def)
  qed (simp add: call_finish_def)
  have x: "wf_q x"
    using q [of b x] nth_mem [OF k(1)] k(2) by simp
  assume "word_of_nat k \<in> outstanding c"
  then show "\<exists>pkt c'. fst (blocking_call get_q put_r (Some h) w (put_request put_q \<lparr>req_request_id = word_of_nat k, req_payload = x\<rparr>)) = Some pkt \<and>
       response_handler get_r pkt c = Some c' \<and>
       (b \<longrightarrow> call_finish False (word_of_nat k) c' = Some (Returns (fst (h w x)), c')) \<and>
       (\<not> b \<longrightarrow> tc_called c' = tc_called c @ [(word_of_nat k, fst (h w x))])"
    using rpc_protocol.reply_completes [OF protocol inv, of "word_of_nat k" "fst (h w x)"] r kb
    by (auto simp: rpc_protocol.blocking_call_of_request [OF protocol x] split: if_splits)
qed

theorem rpc_answers_witness:
  "\<exists>tx pkt c c'. rpc_run put_compact_tx get_bool [Call 0 tx, Call_async 0 tx, Receive (put_response put_bool \<lparr>resp_request_id = 1, resp_payload = Some True\<rparr>)]
       (tc_init [True]) = Some c \<and> tc_called c = [(1, Some True)] \<and>
     fst (blocking_call get_compact_tx put_bool (Some (\<lambda>w tx. (Some True, w))) () (put_request put_compact_tx \<lparr>req_request_id = 0, req_payload = tx\<rparr>)) = Some pkt \<and>
     response_handler get_bool pkt c = Some c' \<and> call_finish False 0 c' = Some (Returns (Some True), c')"
proof -
  define tx where "tx = \<lparr>m_id = replicate 32 0, c_inputs = [], m_uhs_outputs = [], m_attestations = []\<rparr>"
  have wf: "wf_compact_tx tx"
    by (simp add: tx_def wf_compact_tx_def wf_vector_def wf_map_def codec_wf size_defs)
  define h :: "unit \<Rightarrow> compact_tx \<Rightarrow> bool option \<times> unit" where "h = (\<lambda>w tx. (Some True, w))"
  let ?pkt = "put_response put_bool \<lparr>resp_request_id = 1, resp_payload = Some True\<rparr>"
  let ?es = "[Call 0 tx, Call_async 0 tx, Receive ?pkt]"
  have "\<exists>c. rpc_run put_compact_tx get_bool ?es (tc_init [True]) = Some c \<and> 0 \<in> outstanding c \<and> tc_called c = [(1, Some True)]"
    by (auto simp: tc_init_def cm_init_def cm_add_def Let_def call_start_def make_request_def send_request_def cm_send_to_one_def erase_response_def
        peer_connected_def peer_init_def peer_send_def coordinator_rpc.response_handler_of_response set_response_def call_async_def
        split: if_splits prod.splits option.splits)
  then obtain c where c: "rpc_run put_compact_tx get_bool ?es (tc_init [True]) = Some c" "0 \<in> outstanding c" "tc_called c = [(1, Some True)]"
    by blast
  have "server_reply put_compact_tx get_compact_tx put_bool h (calls ?es) ?pkt"
    unfolding server_reply_def by (intro exI [of _ 1] exI [of _ "()"]) (simp add: coordinator_rpc.blocking_call_of_request [OF wf] h_def)
  then show ?thesis
    using rpc_answers [OF coordinator_rpc.rpc_protocol_axioms, of ?es h "[True]" c 0 True tx "()"] c wf unfolding h_def by auto
qed

end
