(* ===== verification/Shard_Rpc.thy ===== *)
theory Shard_Rpc
  imports Rpc Raft_SM
begin

text \<open>
  The locking shards over the network (\<open>uhs/twophase/locking_shard\<close>: \<open>format.cpp\<close>, \<open>state_machine.cpp\<close>, \<open>client.cpp\<close>, the status server and
  client; \<open>util/raft/rpc_server.hpp\<close>, \<open>node::replicate\<close>): the formats of their messages, the execution of a log entry on bytes, the server that
  replicates requests with the log and the clients that await results, and the clients of the coordinators and of the users.
\<close>

section \<open>Formats\<close>

definition sizeof_bool :: nat where "sizeof_bool = 1"

definition put_shard_request :: "shard_request putter" where
  "put_shard_request p = put_array (req_dtx_id p) @
    (case req_params p of
       Lock_params txs \<Rightarrow> put_u8 0 @ put_vector put_compact_tx txs
     | Apply_params complete_txs \<Rightarrow> put_u8 1 @ put_vector put_bool complete_txs
     | Discard_params \<Rightarrow> put_u8 2)"

definition get_shard_params :: "shard_params getter" where
  "get_shard_params bs = do {
     (idx, r) \<leftarrow> get_u8 bs;
     if idx = 0 then do { (txs, r') \<leftarrow> get_vector sizeof_compact_tx get_compact_tx r; Some (Lock_params txs, r') }
     else if idx = 1 then do { (complete_txs, r') \<leftarrow> get_vector sizeof_bool get_bool r; Some (Apply_params complete_txs, r') }
     else if idx = 2 then Some (Discard_params, r)
     else None }"

definition get_shard_request :: "shard_request getter" where
  "get_shard_request bs = do {
     (dtx_id, r) \<leftarrow> get_array hash_size bs; (params, r') \<leftarrow> get_shard_params r;
     Some (\<lparr>req_dtx_id = dtx_id, req_params = params\<rparr>, r') }"

definition put_shard_response :: "shard_response putter" where
  "put_shard_response resp =
    (case resp of
       Lock_response res \<Rightarrow> put_u8 0 @ put_vector put_bool res
     | Apply_response \<Rightarrow> put_u8 1
     | Discard_response \<Rightarrow> put_u8 2)"

definition get_shard_response :: "shard_response getter" where
  "get_shard_response bs = do {
     (idx, r) \<leftarrow> get_u8 bs;
     if idx = 0 then do { (res, r') \<leftarrow> get_vector sizeof_bool get_bool r; Some (Lock_response res, r') }
     else if idx = 1 then Some (Apply_response, r)
     else if idx = 2 then Some (Discard_response, r)
     else None }"

text \<open>
  A variant is read by its index, and an index without an alternative ends the process: \<open>expand_type\<close> asserts that there is one
  and indexes a table with \<open>at\<close>. The index is read even if an earlier read has failed; a failed read leaves the cursor
  where it is.
\<close>

definition skip_read :: "nat \<Rightarrow> byte list \<Rightarrow> byte list" where
  "skip_read n bs = (if length bs < n then bs else drop n bs)"

definition variant_index_ok :: "nat \<Rightarrow> byte list \<Rightarrow> bool" where
  "variant_index_ok alternatives bs = (case bs of [] \<Rightarrow> True | idx # _ \<Rightarrow> unat idx < alternatives)"

section \<open>Log entries\<close>

text \<open>The handler of the state machine; its state is \<open>None\<close> when an assertion has ended the process.\<close>

definition shard_handler :: "secp256k1 \<Rightarrow> locking_shard option \<Rightarrow> shard_request \<Rightarrow> shard_response option \<times> locking_shard option" where
  "shard_handler S w req =
    (case w of
       None \<Rightarrow> (None, None)
     | Some s \<Rightarrow> (case process_request S s req of None \<Rightarrow> (None, None) | Some (resp, s') \<Rightarrow> (Some resp, Some s')))"

definition shard_commit :: "secp256k1 \<Rightarrow> shard_sm \<Rightarrow> u64 \<Rightarrow> byte list \<Rightarrow> (byte list option \<times> shard_sm) option" where
  "shard_commit S sm log_idx data =
    (if log_idx \<noteq> sm_last_committed_idx sm + 1 \<or> \<not> variant_index_ok 3 (skip_read hash_size (skip_read 8 data)) then None
     else let (resp, w) = blocking_call get_shard_request put_shard_response (Some (shard_handler S)) (Some (sm_shard sm)) data in
       map_option (\<lambda>s. (resp, sm\<lparr>sm_last_committed_idx := log_idx, sm_shard := s\<rparr>)) w)"

section \<open>Servers\<close>

text \<open>The server of a node: the Raft log of the node, the entries whose result a client awaits (their position, the client and the function that
  makes the reply from the result), and the packets that have been sent to clients.\<close>

record raft_server =
  rs_log :: "byte list log_entry list"
  rs_waiting :: "(nat \<times> u64 \<times> (byte list option option \<Rightarrow> byte list)) list"
  rs_sent :: "(u64 \<times> byte list) list"

text \<open>Raft appends an accepted entry at the end of the log. The result of an entry is \<open>None\<close> for an exception, and \<open>Some None\<close> when the state machine has
  returned no buffer.\<close>

definition node_replicate ::
  "bool \<Rightarrow> byte list \<Rightarrow> u64 \<Rightarrow> (byte list option option \<Rightarrow> byte list) \<Rightarrow> raft_server \<Rightarrow> bool \<times> raft_server" where
  "node_replicate accepted new_log peer result_fn w =
    (if \<not> accepted then (False, w)
     else (True, w\<lparr>rs_log := rs_log w @ [Command new_log], rs_waiting := rs_waiting w @ [(length (rs_log w), peer, result_fn)]\<rparr>))"

text \<open>Whether this node is the leader and whether the entry is accepted come from Raft.\<close>

definition raft_request_handler ::
  "bool \<Rightarrow> bool \<Rightarrow> u64 \<Rightarrow> raft_server \<Rightarrow> byte list \<Rightarrow> (byte list option \<Rightarrow> byte list) \<Rightarrow> bool \<times> raft_server" where
  "raft_request_handler is_leader accepted peer w request_buf response_callback =
    (if \<not> is_leader then (False, w)
     else node_replicate accepted request_buf peer
       (\<lambda>result. case result of None \<Rightarrow> response_callback None
          | Some None \<Rightarrow> response_callback None
          | Some (Some res) \<Rightarrow> response_callback (Some res)) w)"

text \<open>A message at the port of the node, and the result of an entry.\<close>

definition raft_server_message :: "bool \<Rightarrow> bool \<Rightarrow> message \<Rightarrow> raft_server \<Rightarrow> raft_server" where
  "raft_server_message is_leader accepted msg w =
    (let (ret, w') = raw_async_call (raft_request_handler is_leader accepted (snd msg)) w (fst msg)
     in case ret of None \<Rightarrow> w' | Some pkt \<Rightarrow> w'\<lparr>rs_sent := rs_sent w' @ [(snd msg, pkt)]\<rparr>)"

definition raft_server_result :: "nat \<Rightarrow> byte list option option \<Rightarrow> raft_server \<Rightarrow> raft_server" where
  "raft_server_result k result w =
    (case map_of (rs_waiting w) k of
       None \<Rightarrow> w
     | Some (peer, result_fn) \<Rightarrow>
         w\<lparr>rs_waiting := filter (\<lambda>x. fst x \<noteq> k) (rs_waiting w), rs_sent := rs_sent w @ [(peer, result_fn result)]\<rparr>)"

datatype status_request = Uhs_status_request hash_t | Tx_status_request hash_t

definition put_status_request :: "status_request putter" where
  "put_status_request req = (case req of Uhs_status_request h \<Rightarrow> put_u8 0 @ put_array h | Tx_status_request h \<Rightarrow> put_u8 1 @ put_array h)"

definition get_status_request :: "status_request getter" where
  "get_status_request bs = do {
     (idx, r) \<leftarrow> get_u8 bs;
     if idx = 0 then do { (h, r') \<leftarrow> get_array hash_size r; Some (Uhs_status_request h, r') }
     else if idx = 1 then do { (h, r') \<leftarrow> get_array hash_size r; Some (Tx_status_request h, r') }
     else None }"

definition status_request_handler :: "locking_shard \<Rightarrow> status_request \<Rightarrow> bool option \<times> locking_shard" where
  "status_request_handler s req =
    (case req of
       Uhs_status_request h \<Rightarrow> (Some (check_unspent s h), s)
     | Tx_status_request h \<Rightarrow> (Some (check_tx_id s h), s))"

text \<open>A packet at the status port; \<open>None\<close> ends the process.\<close>

definition status_server_call :: "locking_shard \<Rightarrow> byte list \<Rightarrow> byte list option option" where
  "status_server_call s buf =
    (if \<not> variant_index_ok 2 (skip_read 8 buf) then None
     else Some (fst (blocking_call get_status_request put_bool (Some status_request_handler) s buf)))"

section \<open>Clients\<close>

text \<open>The loop of \<open>client::send_request\<close> on what happens at each turn: whether the client runs, and the result of the call. \<open>None\<close>: the loop
  has not ended yet.\<close>

fun shard_send_request :: "(bool \<times> shard_response option) list \<Rightarrow> shard_response option option" where
  "shard_send_request [] = None"
| "shard_send_request ((running, res) # turns) =
    (if \<not> running then Some None
     else case res of Some resp \<Rightarrow> Some (Some resp) | None \<Rightarrow> shard_send_request turns)"

text \<open>\<open>None\<close>: the response has another type, an exception.\<close>

definition client_lock_outputs :: "shard_response option \<Rightarrow> bool list option option" where
  "client_lock_outputs resp =
    (case resp of None \<Rightarrow> Some None | Some (Lock_response res) \<Rightarrow> Some (Some res) | Some _ \<Rightarrow> None)"

definition client_apply_outputs :: "shard_response option \<Rightarrow> bool" where
  "client_apply_outputs res \<longleftrightarrow> res \<noteq> None"

definition client_discard_dtx :: "shard_response option \<Rightarrow> bool" where
  "client_discard_dtx res \<longleftrightarrow> res \<noteq> None"

text \<open>A status query goes to the first shard whose range has the hash; \<open>call\<close> is the call of the client of a shard.\<close>

fun status_make_request :: "(nat \<Rightarrow> hash_t \<Rightarrow> bool option) \<Rightarrow> shard_range list \<Rightarrow> nat \<Rightarrow> hash_t \<Rightarrow> bool option" where
  "status_make_request call [] i val = None"
| "status_make_request call (r # rs) i val =
    (if hash_in_shard_range r val then call i val else status_make_request call rs (Suc i) val)"

section \<open>The formats are read back\<close>

definition wf_shard_params :: "shard_params \<Rightarrow> bool" where
  "wf_shard_params ps = (case ps of Lock_params txs \<Rightarrow> wf_vector wf_compact_tx txs | Apply_params cs \<Rightarrow> wf_vector (\<lambda>_. True) cs | Discard_params \<Rightarrow> True)"

definition wf_shard_request :: "shard_request \<Rightarrow> bool" where
  "wf_shard_request req \<longleftrightarrow> is_hash (req_dtx_id req) \<and> wf_shard_params (req_params req)"

definition wf_shard_response :: "shard_response \<Rightarrow> bool" where
  "wf_shard_response resp = (case resp of Lock_response res \<Rightarrow> wf_vector (\<lambda>_. True) res | _ \<Rightarrow> True)"

definition wf_status_request :: "status_request \<Rightarrow> bool" where
  "wf_status_request req = (case req of Uhs_status_request h \<Rightarrow> is_hash h | Tx_status_request h \<Rightarrow> is_hash h)"

lemma txs_codec: "codec (put_vector put_compact_tx) (get_vector sizeof_compact_tx get_compact_tx) (wf_vector wf_compact_tx)"
  by (rule codec_vector [OF compact_tx_fmt.codec_axioms]) (simp_all add: sizeof_defs)

lemma bools_codec: "codec (put_vector put_bool) (get_vector sizeof_bool get_bool) (wf_vector (\<lambda>_. True))"
  by (rule codec_vector [OF bool.codec_axioms]) (simp_all add: sizeof_bool_def maximum_reservation_def)

lemmas shard_get_put = u8.get_put codec.get_put [OF txs_codec] codec.get_put [OF bools_codec] hash.get_put
lemmas shard_get_append = codec.get_append [OF txs_codec] codec.get_append [OF bools_codec] hash.get_append

interpretation shard_params_fmt: codec
  "\<lambda>ps. case ps of Lock_params txs \<Rightarrow> put_u8 0 @ put_vector put_compact_tx txs
     | Apply_params complete_txs \<Rightarrow> put_u8 1 @ put_vector put_bool complete_txs | Discard_params \<Rightarrow> put_u8 2"
  get_shard_params wf_shard_params
proof (standard, goal_cases)
  case (1 x r)
  then show ?case
    by (cases x) (simp_all add: get_shard_params_def wf_shard_params_def shard_get_put)
next
  case (2 bs x r e)
  then obtain i r1 where i: "get_u8 bs = Some (i, r1)"
    by (auto simp: get_shard_params_def bind_Some_pair)
  show ?case
    using 2 unfolding get_shard_params_def i u8.get_append [OF i]
    by (auto simp: bind_Some_pair shard_get_append split: if_splits)
qed

interpretation shard_request_fmt: codec put_shard_request get_shard_request wf_shard_request
  by (rule codec_record [OF codec_pair [OF hash.codec_axioms shard_params_fmt.codec_axioms],
        where f = "\<lambda>x. (req_dtx_id x, req_params x)" and c = "\<lambda>(h, p). \<lparr>req_dtx_id = h, req_params = p\<rparr>"])
     (auto simp: put_shard_request_def get_shard_request_def wf_shard_request_def record_format)

interpretation shard_response_fmt: codec put_shard_response get_shard_response wf_shard_response
proof (standard, goal_cases)
  case (1 x r)
  then show ?case
    by (cases x) (simp_all add: put_shard_response_def get_shard_response_def wf_shard_response_def shard_get_put)
next
  case (2 bs x r e)
  then obtain i r1 where i: "get_u8 bs = Some (i, r1)"
    by (auto simp: get_shard_response_def bind_Some_pair)
  show ?case
    using 2 unfolding get_shard_response_def i u8.get_append [OF i]
    by (auto simp: bind_Some_pair shard_get_append split: if_splits)
qed

interpretation status_request_fmt: codec put_status_request get_status_request wf_status_request
proof (standard, goal_cases)
  case (1 x r)
  then show ?case
    by (cases x) (simp_all add: put_status_request_def get_status_request_def wf_status_request_def shard_get_put)
next
  case (2 bs x r e)
  then obtain i r1 where i: "get_u8 bs = Some (i, r1)"
    by (auto simp: get_status_request_def bind_Some_pair)
  show ?case
    using 2 unfolding get_status_request_def i u8.get_append [OF i]
    by (auto simp: bind_Some_pair shard_get_append split: if_splits)
qed

interpretation shard_rpc: rpc_protocol put_shard_request get_shard_request wf_shard_request put_shard_response get_shard_response wf_shard_response
  by (intro rpc_protocol.intro shard_request_fmt.codec_axioms shard_response_fmt.codec_axioms)

interpretation status_rpc: rpc_protocol put_status_request get_status_request wf_status_request put_bool get_bool "\<lambda>_. True"
  by (intro rpc_protocol.intro status_request_fmt.codec_axioms bool.codec_axioms)

section \<open>Log entries on bytes\<close>

lemma put_u64_length: "length (put_u64 w) = 8"
  by (simp add: put_u64_def)

lemma request_index_ok:
  assumes "wf_shard_request (req_payload e)"
  shows "variant_index_ok 3 (skip_read hash_size (skip_read 8 (put_request put_shard_request e)))"
proof -
  have "length (req_dtx_id (req_payload e)) = hash_size"
    using assms by (simp add: wf_shard_request_def is_array_def)
  then show ?thesis
    by (auto simp: put_request_def put_shard_request_def skip_read_def put_u64_length put_array_def variant_index_ok_def put_u8_def
        split: shard_params.splits list.splits)
qed

lemma shard_commit_bytes:
  assumes "wf_shard_request (req_payload e)"
  shows "shard_commit S sm idx (put_request put_shard_request e) =
    map_option (\<lambda>(resp, sm'). (Some (put_response put_shard_response \<lparr>resp_request_id = req_request_id e, resp_payload = Some resp\<rparr>), sm'))
      (shard_sm_commit S sm idx (req_payload e))"
proof -
  have e: "\<lparr>req_request_id = req_request_id e, req_payload = req_payload e\<rparr> = e"
    by simp
  show ?thesis
    using shard_rpc.blocking_call_of_request [OF assms, of "shard_handler S" "Some (sm_shard sm)" "req_request_id e", unfolded e]
      request_index_ok [OF assms]
    by (auto simp: shard_commit_def shard_sm_commit_def shard_handler_def split: option.splits)
qed

abbreviation shard_reply :: "shard_request rpc_request \<Rightarrow> shard_response \<Rightarrow> byte list option" where
  "shard_reply e resp \<equiv> Some (put_response put_shard_response \<lparr>resp_request_id = req_request_id e, resp_payload = Some resp\<rparr>)"

lemma shard_log_bytes:
  assumes "\<forall>e \<in> set es. wf_shard_request (req_payload e)"
  shows "raft_run (shard_commit S) shard_sm_commit_config sm idx (map (\<lambda>e. Command (put_request put_shard_request e)) es) =
    map_option (\<lambda>(rs, sm'). (map2 shard_reply es rs, sm'))
      (raft_run (shard_sm_commit S) shard_sm_commit_config sm idx (map (\<lambda>e. Command (req_payload e)) es))"
  using assms
proof (induction es arbitrary: sm idx)
  case (Cons e es)
  then show ?case
    using shard_commit_bytes [of e S sm idx]
    by (cases "shard_sm_commit S sm idx (req_payload e)")
       (auto simp: raft_apply_def option.map_comp comp_def case_prod_unfold)
qed simp

section \<open>Repeated requests\<close>

text \<open>The state in which a request has been answered.\<close>

definition answered :: "locking_shard \<Rightarrow> shard_request \<Rightarrow> shard_response \<Rightarrow> bool" where
  "answered s req resp \<longleftrightarrow> m_running s \<and>
    (case req_params req of
       Lock_params _ \<Rightarrow> (\<exists>p. m_prepared_dtxs s (req_dtx_id req) = Some p \<and> resp = Lock_response (m_results p))
     | Apply_params _ \<Rightarrow> m_prepared_dtxs s (req_dtx_id req) = None \<and> req_dtx_id req \<in> m_applied_dtxs s \<and> resp = Apply_response
     | Discard_params \<Rightarrow> req_dtx_id req \<notin> m_applied_dtxs s \<and> resp = Discard_response)"

lemma process_request_answered: "process_request S s req = Some (resp, s') \<Longrightarrow> answered s' req resp"
  by (auto simp: process_request_def answered_def discard_dtx_def dest: lock_outputs_prepared apply_outputs_applied
      split: shard_params.splits option.splits bool.splits if_splits) (use lock_outputs_prepared in fastforce)

lemma process_request_again: "answered s req resp \<Longrightarrow> process_request S s req = Some (resp, s)"
  by (auto simp: process_request_def answered_def discard_dtx_def lock_outputs_def apply_outputs_def split: shard_params.splits)

lemma process_request_other:
  assumes "process_request S s req' = Some (r, s')" "req_dtx_id req' \<noteq> d"
  shows "m_running s' = m_running s \<and> m_prepared_dtxs s' d = m_prepared_dtxs s d \<and> (d \<in> m_applied_dtxs s' \<longleftrightarrow> d \<in> m_applied_dtxs s)"
proof (cases "req_params req'")
  case (Lock_params txs)
  then show ?thesis
    using assms by (auto simp: process_request_def lock_outputs_def split: option.splits if_splits bind_splits dest!: lock_txs_effect)
next
  case (Apply_params cs)
  then show ?thesis
    using assms by (auto simp: process_request_def apply_outputs_def Let_def split: option.splits if_splits bool.splits)
qed (use assms in \<open>auto simp: process_request_def discard_dtx_def split: if_splits bool.splits\<close>)

lemma answered_other:
  assumes "answered s req resp" "process_request S s req' = Some (r, s')" "req_dtx_id req' \<noteq> req_dtx_id req \<or> req' = req"
  shows "answered s' req resp"
proof (cases "req' = req")
  case True
  then show ?thesis
    using assms(1,2) process_request_again [OF assms(1), of S] by simp
next
  case False
  then show ?thesis
    using assms process_request_other [OF assms(2), of "req_dtx_id req"] by (auto simp: answered_def split: shard_params.splits)
qed

lemma answered_run:
  assumes "answered (sm_shard sm) req resp" "raft_run (shard_sm_commit S) shard_sm_commit_config sm idx (map Command reqs) = Some (rs, sm')"
    and "\<And>r. r \<in> set reqs \<Longrightarrow> req_dtx_id r \<noteq> req_dtx_id req \<or> r = req"
  shows "answered (sm_shard sm') req resp"
  using assms
proof (induction reqs arbitrary: sm idx rs)
  case (Cons r reqs)
  then obtain x sm1 rs1 where c: "shard_sm_commit S sm idx r = Some (x, sm1)"
    and run: "raft_run (shard_sm_commit S) shard_sm_commit_config sm1 (idx + 1) (map Command reqs) = Some (rs1, sm')"
    by (auto simp: raft_apply_def split: option.splits)
  have "answered (sm_shard sm1) req resp"
    using c answered_other [OF Cons.prems(1)] Cons.prems(3) [of r] by (auto simp: shard_sm_commit_def split: if_splits bind_splits)
  then show ?case
    by (rule Cons.IH [OF _ run]) (use Cons.prems(3) in simp)
qed simp

lemma shard_run_length:
  "raft_run (shard_sm_commit S) shard_sm_commit_config sm idx (map Command reqs) = Some (rs, sm') \<Longrightarrow> length rs = length reqs"
  by (induction reqs arbitrary: sm idx rs) (auto simp: raft_apply_def split: option.splits)

lemma shard_run_repeated:
  assumes run: "raft_run (shard_sm_commit S) shard_sm_commit_config sm idx (map Command (r # reqs)) = Some (rs, sm1)"
    and mid: "\<And>x. x \<in> set reqs \<Longrightarrow> req_dtx_id x \<noteq> req_dtx_id r \<or> x = r"
  shows "raft_run (shard_sm_commit S) shard_sm_commit_config sm idx (map Command (r # reqs @ [r])) =
    Some (rs @ [hd rs], sm1\<lparr>sm_last_committed_idx := sm_last_committed_idx sm1 + 1\<rparr>)"
proof -
  let ?run = "raft_run (shard_sm_commit S) shard_sm_commit_config"
  let ?next = "idx + word_of_nat (length (map Command (r # reqs)))"
  obtain resp sm0 rs1 where c: "shard_sm_commit S sm idx r = Some (resp, sm0)" and rs: "rs = resp # rs1"
    and m: "?run sm0 (idx + 1) (map Command reqs) = Some (rs1, sm1)"
    using run by (auto simp: raft_apply_def split: option.splits)
  have "answered (sm_shard sm0) r resp"
    using c process_request_answered by (auto simp: shard_sm_commit_def split: if_splits bind_splits)
  then have "answered (sm_shard sm1) r resp"
    by (rule answered_run [OF _ m mid])
  then have again: "process_request S (sm_shard sm1) r = Some (resp, sm_shard sm1)"
    by (rule process_request_again)
  have "idx = sm_last_committed_idx sm + 1"
    using c by (auto simp: shard_sm_commit_def split: if_splits)
  then have next_idx: "?next = sm_last_committed_idx sm1 + 1"
    using shard_raft.run_index [OF run] by (simp add: algebra_simps)
  have "?run sm1 ?next [Command r] = Some ([resp], sm1\<lparr>sm_last_committed_idx := sm_last_committed_idx sm1 + 1\<rparr>)"
    unfolding next_idx using again by (simp add: raft_apply_def shard_sm_commit_def)
  then show ?thesis
    using raft_run_append [of "shard_sm_commit S" shard_sm_commit_config sm idx "map Command (r # reqs)" "[Command r]"]
    unfolding run by (simp add: rs)
qed

abbreviation shard_log :: "shard_request rpc_request list \<Rightarrow> byte list log_entry list" where
  "shard_log es \<equiv> map (\<lambda>e. Command (put_request put_shard_request e)) es"

text \<open>C23: Shard requests may be repeated safely. Let a shard execute a log of encoded requests that starts with the request \<open>e1\<close> and goes on with
  requests of other batches or further copies of the same request. If the same request then comes again under any identifier, the shard executes it too (no assertion
  fails), answers it with the response that the first request got, and changes nothing but the index of the last entry.\<close>

theorem shard_request_repeated:
  assumes run: "raft_run (shard_commit S) shard_sm_commit_config sm idx (shard_log (e1 # mid)) = Some (outs, sm1)"
    and wf: "\<forall>e \<in> set (e1 # mid). wf_shard_request (req_payload e)" and same: "req_payload e2 = req_payload e1"
    and mid: "\<And>e. e \<in> set mid \<Longrightarrow> req_dtx_id (req_payload e) \<noteq> req_dtx_id (req_payload e1) \<or> req_payload e = req_payload e1"
  shows "\<exists>resp. hd outs = shard_reply e1 resp \<and>
    raft_run (shard_commit S) shard_sm_commit_config sm idx (shard_log (e1 # mid @ [e2])) =
      Some (outs @ [shard_reply e2 resp], sm1\<lparr>sm_last_committed_idx := sm_last_committed_idx sm1 + 1\<rparr>)"
proof -
  let ?run = "raft_run (shard_sm_commit S) shard_sm_commit_config"
  let ?r = "req_payload e1" and ?reqs = "map req_payload mid"
  have log1: "map (\<lambda>e. Command (req_payload e)) (e1 # mid) = map Command (?r # ?reqs)"
    and log2: "map (\<lambda>e. Command (req_payload e)) (e1 # mid @ [e2]) = map Command (?r # ?reqs @ [?r])"
    using same by simp_all
  have wf2: "\<forall>e \<in> set (e1 # mid @ [e2]). wf_shard_request (req_payload e)"
    using wf same by auto
  obtain rs where rs: "?run sm idx (map Command (?r # ?reqs)) = Some (rs, sm1)" and outs: "outs = map2 shard_reply (e1 # mid) rs"
    using run unfolding shard_log_bytes [OF wf] log1 by (auto simp only: map_option_eq_Some split: prod.splits)
  have len: "length rs = length (e1 # mid)"
    using shard_run_length [OF rs] by simp
  then have hd: "hd outs = shard_reply e1 (hd rs)"
    by (cases rs) (simp_all add: outs)
  have "?run sm idx (map Command (?r # ?reqs @ [?r])) = Some (rs @ [hd rs], sm1\<lparr>sm_last_committed_idx := sm_last_committed_idx sm1 + 1\<rparr>)"
    using shard_run_repeated [OF rs] mid by auto
  moreover have "map2 shard_reply (e1 # mid @ [e2]) (rs @ [hd rs]) = outs @ [shard_reply e2 (hd rs)]"
    using len by (simp add: outs zip_append [of "e1 # mid" rs "[e2]", simplified])
  ultimately have "raft_run (shard_commit S) shard_sm_commit_config sm idx (shard_log (e1 # mid @ [e2])) =
      Some (outs @ [shard_reply e2 (hd rs)], sm1\<lparr>sm_last_committed_idx := sm_last_committed_idx sm1 + 1\<rparr>)"
    unfolding shard_log_bytes [OF wf2] log2 by simp
  then show ?thesis
    using hd by blast
qed

definition sample_apply :: "u64 \<Rightarrow> shard_request rpc_request" where
  "sample_apply i = \<lparr>req_request_id = i, req_payload = \<lparr>req_dtx_id = sample_hash 9, req_params = Apply_params [True]\<rparr>\<rparr>"

definition sample_discard :: "shard_request rpc_request" where
  "sample_discard = \<lparr>req_request_id = 2, req_payload = \<lparr>req_dtx_id = sample_hash 8, req_params = Discard_params\<rparr>\<rparr>"

text \<open>Batch 9 is applied, another one is discarded, and batch 9 is applied again.\<close>

theorem shard_request_repeated_witness:
  "\<exists>outs sm1 resp. raft_run (shard_commit toy_secp) shard_sm_commit_config \<lparr>sm_shard = sample_locked_shard, sm_last_committed_idx = 0\<rparr> 1
     (shard_log [sample_apply 1, sample_discard]) = Some (outs, sm1) \<and>
   raft_run (shard_commit toy_secp) shard_sm_commit_config \<lparr>sm_shard = sample_locked_shard, sm_last_committed_idx = 0\<rparr> 1
     (shard_log [sample_apply 1, sample_discard, sample_apply 3]) =
     Some (outs @ [shard_reply (sample_apply 3) resp], sm1\<lparr>sm_last_committed_idx := 3\<rparr>) \<and>
   hd outs = shard_reply (sample_apply 1) resp \<and> check_unspent (sm_shard sm1) (sample_hash 6) \<and> \<not> check_unspent (sm_shard sm1) (sample_hash 5)"
proof -
  let ?sm = "\<lparr>sm_shard = sample_locked_shard, sm_last_committed_idx = 0\<rparr>"
  have wf: "\<forall>e \<in> set (sample_apply 1 # [sample_discard]). wf_shard_request (req_payload e)"
    by (auto simp: sample_apply_def sample_discard_def wf_shard_request_def wf_shard_params_def wf_vector_def)
  obtain s where s: "apply_outputs sample_locked_shard [True] (sample_hash 9) = Some (True, s)" "sample_hash 8 \<notin> m_applied_dtxs s" "m_running s"
    "check_unspent s (sample_hash 6)" "\<not> check_unspent s (sample_hash 5)"
    by (simp add: apply_outputs_def sample_locked_shard_def locking_shard_init_def sample_tx_def apply_tx_def apply_completed_def in_shard_def check_unspent_def Let_def)
  let ?s = "snd (discard_dtx s (sample_hash 8))"
  let ?outs = "[shard_reply (sample_apply 1) Apply_response, shard_reply sample_discard Discard_response]"
  let ?sm1 = "\<lparr>sm_shard = ?s, sm_last_committed_idx = 2\<rparr>"
  have run: "raft_run (shard_commit toy_secp) shard_sm_commit_config ?sm 1 (shard_log (sample_apply 1 # [sample_discard])) = Some (?outs, ?sm1)"
    using s(1-3) unfolding shard_log_bytes [OF wf]
    by (simp add: raft_apply_def shard_sm_commit_def process_request_def sample_apply_def sample_discard_def discard_dtx_def)
  have same: "req_payload (sample_apply 3) = req_payload (sample_apply 1)"
    "\<And>e. e \<in> set [sample_discard] \<Longrightarrow> req_dtx_id (req_payload e) \<noteq> req_dtx_id (req_payload (sample_apply 1)) \<or> req_payload e = req_payload (sample_apply 1)"
    by (simp_all add: sample_apply_def sample_discard_def)
  obtain resp where resp: "hd ?outs = shard_reply (sample_apply 1) resp"
    "raft_run (shard_commit toy_secp) shard_sm_commit_config ?sm 1 (shard_log (sample_apply 1 # [sample_discard] @ [sample_apply 3])) =
      Some (?outs @ [shard_reply (sample_apply 3) resp], ?sm1\<lparr>sm_last_committed_idx := sm_last_committed_idx ?sm1 + 1\<rparr>)"
    using shard_request_repeated [OF run wf same] by blast
  have "check_unspent ?s (sample_hash 6)" "\<not> check_unspent ?s (sample_hash 5)"
    using s(4,5) by (simp_all add: discard_dtx_def check_unspent_def)
  then show ?thesis
    using run resp by (intro exI [of _ ?outs] exI [of _ ?sm1] exI [of _ resp]) simp
qed

section \<open>The service of a shard\<close>

text \<open>
  The histories of a node of a shard: messages of clients with any contents, entries that other nodes have put into the log, and the results of entries,
  which are those of the execution of the log by the state machine or an exception. \<open>msgs\<close> are the messages so far.
\<close>

inductive shard_service :: "secp256k1 \<Rightarrow> shard_sm \<Rightarrow> message list \<Rightarrow> raft_server \<Rightarrow> bool" for S sm where
  service_start: "shard_service S sm [] \<lparr>rs_log = log, rs_waiting = [], rs_sent = []\<rparr>"
| service_message: "shard_service S sm msgs w \<Longrightarrow> shard_service S sm (msgs @ [msg]) (raft_server_message is_leader accepted msg w)"
| service_entry: "shard_service S sm msgs w \<Longrightarrow> shard_service S sm msgs (w\<lparr>rs_log := rs_log w @ [e]\<rparr>)"
| service_executed: "shard_service S sm msgs w \<Longrightarrow>
    raft_run (shard_commit S) shard_sm_commit_config sm 1 (take (Suc k) (rs_log w)) = Some (outs, sm') \<Longrightarrow>
    shard_service S sm msgs (raft_server_result k (Some (last outs)) w)"
| service_exception: "shard_service S sm msgs w \<Longrightarrow> shard_service S sm msgs (raft_server_result k None w)"

text \<open>The identifier at the start of a packet.\<close>

abbreviation header :: "byte list \<Rightarrow> u64 option" where
  "header \<equiv> from_buffer get_u64"

text \<open>A packet is the failure of a request, or what the execution of the log has returned for the entry that holds the request.\<close>

definition reply_of :: "secp256k1 \<Rightarrow> shard_sm \<Rightarrow> byte list log_entry list \<Rightarrow> byte list \<Rightarrow> byte list \<Rightarrow> bool" where
  "reply_of S sm log buf pkt \<longleftrightarrow> make_failure_response buf = Some pkt \<or>
    (\<exists>pre rest outs sm1 sm2. log = pre @ Command buf # rest \<and> raft_run (shard_commit S) shard_sm_commit_config sm 1 pre = Some (outs, sm1) \<and>
       shard_commit S sm1 (1 + word_of_nat (length pre)) buf = Some (Some pkt, sm2))"

lemma reply_of_append: "reply_of S sm log buf pkt \<Longrightarrow> reply_of S sm (log @ es) buf pkt"
  unfolding reply_of_def by (metis append.assoc append_Cons)

lemma header_put_response: "header (put_response p r) = Some (resp_request_id r)"
  by (simp add: from_buffer_def put_response_def u64.get_put)

lemma header_failure: "make_failure_response buf = Some pkt \<Longrightarrow> header pkt = header buf \<and> header buf \<noteq> None"
  by (auto simp: make_failure_response_def header_put_response)

lemma header_commit: "shard_commit S sm idx buf = Some (Some pkt, sm') \<Longrightarrow> header pkt = header buf"
  by (auto simp: shard_commit_def blocking_call_def Let_def put_response_def u64.get_put from_buffer_def get_request_def case_prod_unfold
      split: if_splits option.splits bind_splits)

lemma header_reply: "reply_of S sm log buf pkt \<Longrightarrow> header pkt = header buf"
  by (auto simp: reply_of_def dest: header_failure header_commit)

text \<open>What a client awaits: the entry is in the log, and the function makes the failure of its request without a result.\<close>

definition awaits :: "message list \<Rightarrow> byte list log_entry list \<Rightarrow> nat \<times> u64 \<times> (byte list option option \<Rightarrow> byte list) \<Rightarrow> bool" where
  "awaits msgs log x \<longleftrightarrow> (case x of (k, peer, f) \<Rightarrow> k < length log \<and>
    (\<exists>buf failure. log ! k = Command buf \<and> (buf, peer) \<in> set msgs \<and> make_failure_response buf = Some failure \<and>
       f = (\<lambda>result. case result of Some (Some res) \<Rightarrow> res | _ \<Rightarrow> failure)))"

definition service_inv :: "secp256k1 \<Rightarrow> shard_sm \<Rightarrow> message list \<Rightarrow> raft_server \<Rightarrow> bool" where
  "service_inv S sm msgs w \<longleftrightarrow> distinct (map fst (rs_waiting w)) \<and> (\<forall>x \<in> set (rs_waiting w). awaits msgs (rs_log w) x) \<and>
    (\<forall>(peer, pkt) \<in> set (rs_sent w). \<exists>buf. (buf, peer) \<in> set msgs \<and> reply_of S sm (rs_log w) buf pkt) \<and>
    (\<forall>peer i. length (filter (\<lambda>(p, pkt). p = peer \<and> header pkt = Some i) (rs_sent w)) +
       length (filter (\<lambda>(k, p, f). p = peer \<and> header (f None) = Some i) (rs_waiting w)) =
       length (filter (\<lambda>(buf, p). p = peer \<and> header buf = Some i) msgs))"

lemma awaits_mono: "awaits msgs log x \<Longrightarrow> awaits (msgs @ ms) (log @ es) x"
  by (auto simp: awaits_def nth_append split: prod.splits)

lemma awaits_before: "awaits msgs log x \<Longrightarrow> fst x < length log"
  by (auto simp: awaits_def split: prod.splits)

lemma service_invD:
  assumes "service_inv S sm msgs w"
  shows "distinct (map fst (rs_waiting w))" "x \<in> set (rs_waiting w) \<Longrightarrow> awaits msgs (rs_log w) x"
    "(peer, pkt) \<in> set (rs_sent w) \<Longrightarrow> \<exists>buf. (buf, peer) \<in> set msgs \<and> reply_of S sm (rs_log w) buf pkt"
    "length (filter (\<lambda>(p, pkt). p = peer \<and> header pkt = Some i) (rs_sent w)) +
       length (filter (\<lambda>(k, p, f). p = peer \<and> header (f None) = Some i) (rs_waiting w)) =
       length (filter (\<lambda>(buf, p). p = peer \<and> header buf = Some i) msgs)"
  using assms by (auto simp: service_inv_def)

lemma service_inv_grows:
  assumes "service_inv S sm msgs w"
  shows "x \<in> set (rs_waiting w) \<Longrightarrow> awaits (msgs @ ms) (rs_log w @ es) x"
    "(peer, pkt) \<in> set (rs_sent w) \<Longrightarrow> \<exists>buf. (buf, peer) \<in> set (msgs @ ms) \<and> reply_of S sm (rs_log w @ es) buf pkt"
  using service_invD(2,3) [OF assms] awaits_mono reply_of_append by (blast, fastforce)

text \<open>What a message does: nothing when it has no header; the failure is sent; or an entry is added and its result awaited.\<close>

lemma raft_server_message_cases:
  obtains (dropped) "header (fst msg) = None" "raft_server_message is_leader accepted msg w = w"
  | (failed) failure where "make_failure_response (fst msg) = Some failure"
      "raft_server_message is_leader accepted msg w = w\<lparr>rs_sent := rs_sent w @ [(snd msg, failure)]\<rparr>"
  | (replicated) failure where "make_failure_response (fst msg) = Some failure" "is_leader" "accepted"
      "raft_server_message is_leader accepted msg w = w\<lparr>rs_log := rs_log w @ [Command (fst msg)],
         rs_waiting := rs_waiting w @ [(length (rs_log w), snd msg, \<lambda>result. case result of Some (Some res) \<Rightarrow> res | _ \<Rightarrow> failure)]\<rparr>"
proof (cases "make_failure_response (fst msg)")
  case None
  then show ?thesis
    by (intro dropped) (auto simp: raft_server_message_def raw_async_call_def make_failure_response_def)
next
  case (Some failure)
  show ?thesis
  proof (cases "is_leader \<and> accepted")
    case True
    then show ?thesis
      by (intro replicated [OF Some])
        (simp_all add: raft_server_message_def raw_async_call_def Some raft_request_handler_def node_replicate_def)
  next
    case False
    then show ?thesis
      by (intro failed [OF Some]) (auto simp: raft_server_message_def raw_async_call_def Some raft_request_handler_def node_replicate_def)
  qed
qed

lemma service_inv_message:
  assumes inv: "service_inv S sm msgs w"
  shows "service_inv S sm (msgs @ [msg]) (raft_server_message is_leader accepted msg w)"
proof -
  note grows = service_inv_grows [OF inv, where ms = "[msg]"]
  obtain buf peer where msg: "msg = (buf, peer)"
    by fastforce
  show ?thesis
  proof (cases rule: raft_server_message_cases [of msg is_leader accepted w])
    case dropped
    then show ?thesis
      using service_invD(1,4) [OF inv] grows [where es = "[]"] unfolding dropped(2) by (auto simp: service_inv_def msg)
  next
    case (failed failure)
    have "reply_of S sm (rs_log w) buf failure"
      using failed(1) by (simp add: reply_of_def msg)
    then show ?thesis
      using service_invD(1,4) [OF inv] grows [where es = "[]"] header_failure [OF failed(1)]
      unfolding failed(2) by (auto simp: service_inv_def msg)
  next
    case (replicated failure)
    let ?x = "(length (rs_log w), peer, \<lambda>result. case result of Some (Some res) \<Rightarrow> res | _ \<Rightarrow> failure)"
    have "awaits (msgs @ [msg]) (rs_log w @ [Command buf]) ?x"
      using replicated(1) by (auto simp: awaits_def msg)
    moreover have "length (rs_log w) \<notin> fst ` set (rs_waiting w)"
      using service_invD(2) [OF inv] awaits_before by fastforce
    ultimately show ?thesis
      using service_invD(1,4) [OF inv] grows [where es = "[Command buf]"] header_failure [OF replicated(1)]
      unfolding replicated(4) by (auto simp: service_inv_def msg)
  qed
qed

lemma length_filter_erase:
  assumes "distinct (map fst xs)" "map_of xs k = Some v"
  shows "length (filter P xs) = length (filter P (filter (\<lambda>x. fst x \<noteq> k) xs)) + (if P (k, v) then 1 else 0)"
  using assms
proof (induction xs)
  case (Cons x xs)
  show ?case
  proof (cases "fst x = k")
    case True
    then have "filter (\<lambda>x. fst x \<noteq> k) xs = xs"
      using Cons.prems(1) by (intro filter_True) (auto simp: image_iff)
    then show ?thesis
      using True Cons.prems(2) by (cases x) simp
  qed (use Cons in \<open>auto split: if_splits\<close>)
qed simp

lemma service_inv_result:
  assumes inv: "service_inv S sm msgs w"
    and reply: "\<And>buf failure. k < length (rs_log w) \<Longrightarrow> rs_log w ! k = Command buf \<Longrightarrow> make_failure_response buf = Some failure \<Longrightarrow>
      reply_of S sm (rs_log w) buf (case result of Some (Some res) \<Rightarrow> res | _ \<Rightarrow> failure)"
  shows "service_inv S sm msgs (raft_server_result k result w)"
proof (cases "map_of (rs_waiting w) k")
  case None
  then show ?thesis
    using inv by (simp add: raft_server_result_def)
next
  case (Some v)
  obtain peer f where v: "v = (peer, f)"
    by fastforce
  have "awaits msgs (rs_log w) (k, peer, f)"
    using service_invD(2) [OF inv] map_of_SomeD [OF Some] v by blast
  then obtain buf failure where k: "k < length (rs_log w)" "rs_log w ! k = Command buf" "(buf, peer) \<in> set msgs"
    "make_failure_response buf = Some failure" and f: "f = (\<lambda>result. case result of Some (Some res) \<Rightarrow> res | _ \<Rightarrow> failure)"
    by (auto simp: awaits_def)
  have r: "reply_of S sm (rs_log w) buf (f result)"
    using reply [OF k(1,2,4)] by (simp add: f)
  have h: "header (f result) = header buf" "header (f None) = header buf"
    using header_reply [OF r] header_failure [OF k(4)] by (simp_all add: f)
  have "length (filter (\<lambda>(j, p, f). p = q \<and> header (f None) = Some i) (rs_waiting w)) =
      length (filter (\<lambda>(j, p, f). p = q \<and> header (f None) = Some i) (filter (\<lambda>x. fst x \<noteq> k) (rs_waiting w))) + (if peer = q \<and> header buf = Some i then 1 else 0)"
    for q i
    using length_filter_erase [OF service_invD(1) [OF inv] Some, where P = "\<lambda>(j, p, f). p = q \<and> header (f None) = Some i"] h(2) by (simp add: v)
  then have "length (filter (\<lambda>(p, pkt). p = q \<and> header pkt = Some i) (rs_sent w @ [(peer, f result)])) +
      length (filter (\<lambda>(j, p, f). p = q \<and> header (f None) = Some i) (filter (\<lambda>x. fst x \<noteq> k) (rs_waiting w))) =
      length (filter (\<lambda>(buf, p). p = q \<and> header buf = Some i) msgs)" for q i
    using service_invD(4) [OF inv, of q i] h(1) by (simp split: if_splits)
  moreover have "\<exists>buf. (buf, p) \<in> set msgs \<and> reply_of S sm (rs_log w) buf pkt" if "(p, pkt) \<in> set (rs_sent w @ [(peer, f result)])" for p pkt
    using that service_invD(3) [OF inv] k(3) r by auto
  moreover have "distinct (map fst (filter (\<lambda>x. fst x \<noteq> k) (rs_waiting w)))"
    using service_invD(1) [OF inv] by (simp add: distinct_map_filter)
  ultimately show ?thesis
    using service_invD(2) [OF inv] unfolding service_inv_def
    by (simp add: raft_server_result_def Some v del: filter_filter filter_append) blast
qed

lemma service_inv_step: "shard_service S sm msgs w \<Longrightarrow> service_inv S sm msgs w"
proof (induction rule: shard_service.induct)
  case (service_start log)
  then show ?case
    by (simp add: service_inv_def)
next
  case (service_message msgs w msg is_leader accepted)
  then show ?case
    by (intro service_inv_message)
next
  case (service_entry msgs w e)
  then show ?case
    using service_invD(1,4) [OF service_entry.IH] service_inv_grows [OF service_entry.IH, where ms = "[]" and es = "[e]"]
    by (auto simp: service_inv_def)
next
  case (service_executed msgs w k outs sm')
  show ?case
  proof (rule service_inv_result [OF service_executed.IH])
    fix buf failure
    assume k: "k < length (rs_log w)" "rs_log w ! k = Command buf" and f: "make_failure_response buf = Some failure"
    have t: "take (Suc k) (rs_log w) = take k (rs_log w) @ [Command buf]"
      using k by (simp add: take_Suc_conv_app_nth)
    have log: "rs_log w = take k (rs_log w) @ Command buf # drop (Suc k) (rs_log w)"
      using k id_take_nth_drop [of k "rs_log w"] by simp
    obtain outs1 sm1 r where run: "raft_run (shard_commit S) shard_sm_commit_config sm 1 (take k (rs_log w)) = Some (outs1, sm1)"
      "shard_commit S sm1 (1 + word_of_nat (length (take k (rs_log w)))) buf = Some (r, sm')" "outs = outs1 @ [r]"
      using service_executed.hyps(2) unfolding t raft_run_append by (auto simp: raft_apply_def split: option.splits)
    show "reply_of S sm (rs_log w) buf (case Some (last outs) of Some (Some res) \<Rightarrow> res | _ \<Rightarrow> failure)"
    proof (cases r)
      case (Some pkt)
      then show ?thesis
        using run log unfolding reply_of_def by auto
    qed (use f run(3) in \<open>simp add: reply_of_def\<close>)
  qed
next
  case (service_exception msgs w k)
  then show ?case
    by (intro service_inv_result) (simp_all add: reply_of_def)
qed

text \<open>The results that a shard keeps fit into a response.\<close>

definition results_fit :: "locking_shard \<Rightarrow> bool" where
  "results_fit s \<longleftrightarrow> (\<forall>d p. m_prepared_dtxs s d = Some p \<longrightarrow> length (m_results p) < 2 ^ 64)"

lemma get_vector_length: "get_vector sizeof_compact_tx g bs = Some (xs, r) \<Longrightarrow> length xs < 2 ^ 64"
  by (auto simp: get_vector_get_many sizeof_defs bind_Some_pair dest!: get_many_length intro: unat_lt2p [where 'a = 64, simplified])

lemma get_shard_params_fits: "get_shard_params bs = Some (Lock_params txs, r) \<Longrightarrow> length txs < 2 ^ 64"
  by (auto simp: get_shard_params_def bind_Some_pair split: if_splits dest: get_vector_length)

lemma get_shard_request_fits: "get_shard_request bs = Some (req, r) \<Longrightarrow> req_params req = Lock_params txs \<Longrightarrow> length txs < 2 ^ 64"
  using get_shard_params_fits by (auto simp: get_shard_request_def bind_Some_pair simp del: bind_assoc)

lemma process_request_fits:
  assumes "process_request S s req = Some (resp, s')" "results_fit s" "\<And>txs. req_params req = Lock_params txs \<Longrightarrow> length txs < 2 ^ 64"
  shows "results_fit s' \<and> wf_shard_response resp"
proof (cases "req_params req")
  case (Lock_params txs)
  then show ?thesis
    using assms assms(3) [OF Lock_params]
    by (auto simp: process_request_def lock_outputs_def results_fit_def wf_shard_response_def wf_vector_def
        split: option.splits if_splits bind_splits dest!: lock_txs_effect)
next
  case (Apply_params cs)
  then show ?thesis
    using assms(1,2) by (auto simp: process_request_def apply_outputs_def results_fit_def wf_shard_response_def Let_def
        split: option.splits if_splits bool.splits)
next
  case Discard_params
  then show ?thesis
    using assms(1,2) by (auto simp: process_request_def discard_dtx_def results_fit_def wf_shard_response_def split: if_splits bool.splits)
qed

lemma shard_commit_fits:
  assumes "shard_commit S sm idx buf = Some (out, sm')" "results_fit (sm_shard sm)"
  shows "results_fit (sm_shard sm')"
  using assms process_request_fits [OF _ assms(2)] get_shard_request_fits
  by (auto simp: shard_commit_def blocking_call_def shard_handler_def from_buffer_def get_request_def bind_Some_pair Let_def
      split: if_splits option.splits prod.splits)

lemma shard_run_fits:
  "raft_run (shard_commit S) shard_sm_commit_config sm idx log = Some (outs, sm') \<Longrightarrow> results_fit (sm_shard sm) \<Longrightarrow> results_fit (sm_shard sm')"
proof (induction log arbitrary: sm idx outs)
  case (Cons e log)
  then obtain rs sm1 rs' where a: "raft_apply (shard_commit S) shard_sm_commit_config sm idx e = Some (rs, sm1)"
    and r: "raft_run (shard_commit S) shard_sm_commit_config sm1 (idx + 1) log = Some (rs', sm')"
    by (auto split: option.splits)
  have "results_fit (sm_shard sm1)"
    using a Cons.prems(2) shard_commit_fits by (auto simp: raft_apply_def shard_sm_commit_config_def split: log_entry.splits if_splits)
  then show ?case
    by (rule Cons.IH [OF r])
qed simp

text \<open>For the encoding of a request, the reply is read by the client as a failure or as the response of the shard, under the identifier of the request.\<close>

lemma reply_read:
  assumes "reply_of S sm log (put_request put_shard_request \<lparr>req_request_id = i, req_payload = q\<rparr>) pkt" "wf_shard_request q" "results_fit (sm_shard sm)"
  shows "from_buffer (get_response get_shard_response) pkt = Some \<lparr>resp_request_id = i, resp_payload = None\<rparr> \<or>
    (\<exists>pre rest outs sm1 resp s2. log = pre @ Command (put_request put_shard_request \<lparr>req_request_id = i, req_payload = q\<rparr>) # rest \<and>
       raft_run (shard_commit S) shard_sm_commit_config sm 1 pre = Some (outs, sm1) \<and> process_request S (sm_shard sm1) q = Some (resp, s2) \<and>
       from_buffer (get_response get_shard_response) pkt = Some \<lparr>resp_request_id = i, resp_payload = Some resp\<rparr>)"
    (is "?failed \<or> ?executed")
proof -
  let ?e = "\<lparr>req_request_id = i, req_payload = q\<rparr>"
  note read = codec.from_buffer_put [OF shard_rpc.response_codec, of _ "[]", simplified]
  consider "make_failure_response (put_request put_shard_request ?e) = Some pkt"
    | pre rest outs sm1 sm2 where "log = pre @ Command (put_request put_shard_request ?e) # rest"
      "raft_run (shard_commit S) shard_sm_commit_config sm 1 pre = Some (outs, sm1)"
      "shard_commit S sm1 (1 + word_of_nat (length pre)) (put_request put_shard_request ?e) = Some (Some pkt, sm2)"
    using assms(1) unfolding reply_of_def by blast
  then show ?thesis
  proof cases
    case 1
    then have "pkt = put_response put_shard_response \<lparr>resp_request_id = i, resp_payload = None\<rparr>"
      by (simp add: make_failure_response_def from_buffer_def put_request_def u64.get_put put_response_def put_option_def)
    then show ?thesis
      using read [of "\<lparr>resp_request_id = i, resp_payload = None\<rparr>"] by simp
  next
    case 2
    obtain resp where c: "shard_sm_commit S sm1 (1 + word_of_nat (length pre)) q = Some (resp, sm2)"
      and pkt: "pkt = put_response put_shard_response \<lparr>resp_request_id = i, resp_payload = Some resp\<rparr>"
      using 2(3) shard_commit_bytes [of ?e S sm1] assms(2) by auto
    obtain s2 where p: "process_request S (sm_shard sm1) q = Some (resp, s2)"
      using c by (auto simp: shard_sm_commit_def split: if_splits bind_splits)
    have "wf_shard_response resp"
      using process_request_fits [OF p shard_run_fits [OF 2(2) assms(3)]] assms(2)
      by (cases "req_params q") (auto simp: wf_shard_request_def wf_shard_params_def wf_vector_def)
    then have "from_buffer (get_response get_shard_response) pkt = Some \<lparr>resp_request_id = i, resp_payload = Some resp\<rparr>"
      using read [of "\<lparr>resp_request_id = i, resp_payload = Some resp\<rparr>"] by (simp add: pkt)
    then show ?thesis
      using 2(1,2) p by blast
  qed
qed

text \<open>A request that the leader accepts gets what the execution of its entry returns.\<close>

lemma accepted_message:
  assumes inv: "service_inv S sm msgs w" and hdr: "header buf \<noteq> None"
  shows "rs_log (raft_server_message True True (buf, peer) w) = rs_log w @ [Command buf]"
    "rs_sent (raft_server_result (length (rs_log w)) (Some (Some pkt)) (raft_server_message True True (buf, peer) w)) = rs_sent w @ [(peer, pkt)]"
proof -
  obtain failure where f: "make_failure_response buf = Some failure"
    using hdr by (auto simp: make_failure_response_def)
  have "map_of (rs_waiting w) (length (rs_log w)) = None"
    using service_invD(2) [OF inv] awaits_before by (fastforce simp: map_of_eq_None_iff)
  then show "rs_log (raft_server_message True True (buf, peer) w) = rs_log w @ [Command buf]"
    "rs_sent (raft_server_result (length (rs_log w)) (Some (Some pkt)) (raft_server_message True True (buf, peer) w)) = rs_sent w @ [(peer, pkt)]"
    by (simp_all add: raft_server_message_def raw_async_call_def f raft_request_handler_def node_replicate_def raft_server_result_def map_add_def)
qed

lemma waiting_header:
  assumes "service_inv S sm msgs w"
  shows "filter (\<lambda>(k, p, f). p = peer \<and> rs_log w ! k \<in> Command ` {buf. header buf = Some i}) (rs_waiting w) =
    filter (\<lambda>(k, p, f). p = peer \<and> header (f None) = Some i) (rs_waiting w)"
proof -
  have "rs_log w ! k \<in> Command ` {buf. header buf = Some i} \<longleftrightarrow> header (f None) = Some i" if "(k, p, f) \<in> set (rs_waiting w)" for k p f
    using service_invD(2) [OF assms that] header_failure by (auto simp: awaits_def)
  then show ?thesis
    by (intro filter_cong) blast+
qed

text \<open>C40: The service of a locking shard over the network is exact. Start a shard without prepared batches, and take any history of a node of it: messages of clients with any contents,
  arriving while the node is the leader or not and accepted by Raft or not, entries of other nodes, and results of entries, which are exceptions or what the
  execution of the log has returned. Then (1) every message with an identifier has been answered once or awaits the result of its log entry, message for message
  by client and identifier; packets too short for an identifier are dropped. (2) Every packet sent to a client belongs to a message of that client. If this message is an
  encoded request, the client reads from the packet, under the identifier of the request, a failure, or the response that the shard has computed for this
  request in the state after the entries before it in the log. (3) When the leader accepts a message, the next entry of the log is this message, and
  the packet that the execution of this entry returns is sent to the client of the message.\<close>

theorem shard_service_exact:
  assumes "shard_service S sm msgs w" "m_prepared_dtxs (sm_shard sm) = Map.empty"
  shows "(\<forall>peer i. length (filter (\<lambda>(p, pkt). p = peer \<and> header pkt = Some i) (rs_sent w)) +
       length (filter (\<lambda>(k, p, f). p = peer \<and> rs_log w ! k \<in> Command ` {buf. header buf = Some i}) (rs_waiting w)) =
       length (filter (\<lambda>(buf, p). p = peer \<and> header buf = Some i) msgs)) \<and>
    (\<forall>peer pkt. (peer, pkt) \<in> set (rs_sent w) \<longrightarrow> (\<exists>buf. (buf, peer) \<in> set msgs \<and> header pkt = header buf \<and>
       (\<forall>i q. buf = put_request put_shard_request \<lparr>req_request_id = i, req_payload = q\<rparr> \<and> wf_shard_request q \<longrightarrow>
         from_buffer (get_response get_shard_response) pkt = Some \<lparr>resp_request_id = i, resp_payload = None\<rparr> \<or>
         (\<exists>pre rest outs sm1 resp s2. rs_log w = pre @ Command buf # rest \<and>
            raft_run (shard_commit S) shard_sm_commit_config sm 1 pre = Some (outs, sm1) \<and> process_request S (sm_shard sm1) q = Some (resp, s2) \<and>
            from_buffer (get_response get_shard_response) pkt = Some \<lparr>resp_request_id = i, resp_payload = Some resp\<rparr>)))) \<and>
    (\<forall>buf peer pkt. header buf \<noteq> None \<longrightarrow> rs_log (raft_server_message True True (buf, peer) w) = rs_log w @ [Command buf] \<and>
       rs_sent (raft_server_result (length (rs_log w)) (Some (Some pkt)) (raft_server_message True True (buf, peer) w)) = rs_sent w @ [(peer, pkt)])"
proof -
  note inv = service_inv_step [OF assms(1)]
  have "results_fit (sm_shard sm)"
    using assms(2) by (simp add: results_fit_def)
  note read = reply_read [OF _ _ this]
  show ?thesis
    unfolding waiting_header [OF inv]
  proof (intro conjI allI impI, goal_cases)
    case (2 peer pkt)
    then obtain buf where "(buf, peer) \<in> set msgs" "reply_of S sm (rs_log w) buf pkt"
      using service_invD(3) [OF inv] by blast
    then show ?case
      using header_reply read by (intro exI [of _ buf]) blast
  qed (use service_invD(4) [OF inv] accepted_message [OF inv] in auto)
qed

definition sample_sm :: shard_sm where
  "sample_sm = \<lparr>sm_shard = locking_shard_init (0, 255) 10 {} 0, sm_last_committed_idx = 0\<rparr>"

text \<open>Client 7 sends a request to a new shard; the leader replicates and executes it.\<close>

theorem shard_service_exact_witness:
  "\<exists>pkt w. shard_service toy_secp sample_sm [(put_request put_shard_request sample_discard, 7)] w \<and> rs_sent w = [(7, pkt)] \<and>
     rs_waiting w = [] \<and> header pkt = Some 2 \<and> shard_reply sample_discard Discard_response = Some pkt"
proof -
  let ?buf = "put_request put_shard_request sample_discard" and ?w0 = "\<lparr>rs_log = [], rs_waiting = [], rs_sent = []\<rparr>"
  let ?w1 = "raft_server_message True True (?buf, 7) ?w0"
  obtain pkt where pkt: "shard_reply sample_discard Discard_response = Some pkt"
    by blast
  have wf: "\<forall>e \<in> set [sample_discard]. wf_shard_request (req_payload e)"
    by (simp add: sample_discard_def wf_shard_request_def wf_shard_params_def)
  have prepared: "m_prepared_dtxs (sm_shard sample_sm) = Map.empty"
    by (simp add: sample_sm_def locking_shard_init_def)
  have hdr: "header ?buf = Some 2"
    by (simp add: from_buffer_def put_request_def u64.get_put sample_discard_def)
  have "shard_service toy_secp sample_sm [] ?w0"
    by (rule service_start)
  note main = shard_service_exact [OF this prepared]
  have log: "rs_log ?w1 = [Command ?buf]" and sent: "rs_sent (raft_server_result 0 (Some (Some pkt)) ?w1) = [(7, pkt)]"
    using main hdr by auto
  have one: "shard_service toy_secp sample_sm [(?buf, 7)] ?w1"
    using service_message [OF service_start] by fastforce
  obtain outs sm' where "raft_run (shard_commit toy_secp) shard_sm_commit_config sample_sm 1 (shard_log [sample_discard]) = Some (outs, sm')" "last outs = Some pkt"
    unfolding shard_log_bytes [OF wf] pkt [symmetric]
    by (simp add: raft_apply_def shard_sm_commit_def process_request_def sample_discard_def discard_dtx_def sample_sm_def locking_shard_init_def)
  then have two: "shard_service toy_secp sample_sm [(?buf, 7)] (raft_server_result 0 (Some (Some pkt)) ?w1)"
    using service_executed [OF one, of 0 outs sm'] by (simp add: log)
  have "header pkt = Some 2"
    using shard_service_exact [OF two prepared] hdr by (auto simp: sent)
  moreover have "rs_waiting (raft_server_result 0 (Some (Some pkt)) ?w1) = []"
    using hdr by (auto simp: raft_server_result_def raft_server_message_def raw_async_call_def make_failure_response_def
        raft_request_handler_def node_replicate_def)
  ultimately show ?thesis
    using two sent pkt by blast
qed

section \<open>Malformed packets\<close>

text \<open>One malformed packet ends a shard for good. A packet of at least 41 bytes whose byte 40, the index of the command, is no command is put into
  the log by the server of the leader, which looks at the first eight bytes only; then no replica can execute the log past this entry, now or after a restart.\<close>

lemma malformed_request_ends_shard:
  assumes "40 < length data" "3 \<le> unat (data ! 40)"
  shows "rs_log (raft_server_message True True (data, peer) w) = rs_log w @ [Command data] \<and>
    raft_run (shard_commit S) shard_sm_commit_config sm idx (log1 @ Command data # log2) = None"
proof
  have "header data \<noteq> None"
    using assms(1) by (simp add: from_buffer_def get_u64_def get_bytes_def)
  then show "rs_log (raft_server_message True True (data, peer) w) = rs_log w @ [Command data]"
    by (auto simp: raft_server_message_def raw_async_call_def make_failure_response_def raft_request_handler_def node_replicate_def)
  have d: "skip_read hash_size (skip_read 8 data) = data ! 40 # drop 41 data"
    using assms(1) by (simp add: skip_read_def size_defs Cons_nth_drop_Suc [symmetric])
  have "shard_commit S st i data = None" for st i
    using assms(2) unfolding shard_commit_def d by (simp add: variant_index_ok_def)
  then show "raft_run (shard_commit S) shard_sm_commit_config sm idx (log1 @ Command data # log2) = None"
    by (auto simp: raft_run_append raft_apply_def split: option.splits)
qed

lemma malformed_status_ends_shard:
  assumes "8 < length buf" "2 \<le> unat (buf ! 8)"
  shows "status_server_call s buf = None"
proof -
  have "skip_read 8 buf = buf ! 8 # drop 9 buf"
    using assms(1) by (simp add: skip_read_def Cons_nth_drop_Suc [symmetric])
  then show ?thesis
    using assms(2) by (simp add: status_server_call_def variant_index_ok_def)
qed

section \<open>Clients\<close>

lemma send_request_result:
  assumes "\<forall>res \<in> snd ` set turns. res = None \<or> res = Some resp"
  shows "shard_send_request turns \<in> {None, Some None, Some (Some resp)}"
  using assms
proof (induction turns rule: shard_send_request.induct)
  case (2 running res turns)
  then show ?case
    by (cases running; cases res) simp_all
qed simp

lemma send_request_ends:
  assumes "(True, Some resp) \<in> set turns \<or> (\<exists>res. (False, res) \<in> set turns)"
  shows "shard_send_request turns \<noteq> None"
  using assms by (induction turns rule: shard_send_request.induct) (auto split: option.splits)

lemma status_query_exact:
  assumes "wf_status_request req"
  shows "\<exists>pkt. status_server_call s (put_request put_status_request \<lparr>req_request_id = i, req_payload = req\<rparr>) = Some (Some pkt) \<and>
    from_buffer (get_response get_bool) pkt = Some \<lparr>resp_request_id = i, resp_payload = fst (status_request_handler s req)\<rparr>"
proof -
  have "variant_index_ok 2 (skip_read 8 (put_request put_status_request \<lparr>req_request_id = i, req_payload = req\<rparr>))"
    by (auto simp: put_request_def put_status_request_def skip_read_def put_u64_length variant_index_ok_def put_u8_def
        split: status_request.splits list.splits)
  then show ?thesis
    using status_rpc.blocking_call_of_request [OF assms, of status_request_handler s i]
      codec.from_buffer_put [OF status_rpc.response_codec, of "\<lparr>resp_request_id = i, resp_payload = fst (status_request_handler s req)\<rparr>" "[]"]
    by (simp add: status_server_call_def)
qed

end
