(* ===== verification/Spec2Isabelle.thy ===== *)
theory Spec2Isabelle
  imports Atomizer_System Atomizer_Snapshot Archiver Watchtower Sentinel Client_Files Client_Cli Seeder Log_Store Shard_Rpc
begin

text \<open>
  A verification library for OpenCBDC-tx, a transaction processor for a central bank digital currency in C++.

  \<^bold>\<open>The program.\<close> Money is a set of unspent outputs. A \<^emph>\<open>client\<close> (\<open>uhs/client\<close>) with a \<^emph>\<open>wallet\<close>
  (\<open>uhs/transaction/wallet.cpp\<close>) builds and signs full transactions. A \<^emph>\<open>sentinel\<close> validates them
  (\<open>uhs/transaction/validation.cpp\<close>), compresses them to hashes (compact transactions) and collects attestations of other sentinels. The
  system then only stores the hashes of unspent outputs, the UHS, split among shards by the first byte of the hash.
  There are two architectures. In the \<^emph>\<open>two-phase-commit\<close> architecture (\<open>uhs/twophase\<close>), coordinators collect compact transactions in
  batches and lock, apply and discard each batch on the locking shards; coordinators and shards are replicated with Raft. In
  the \<^emph>\<open>atomizer\<close> architecture (\<open>uhs/atomizer\<close>), shards attest inputs, a replicated atomizer orders complete transactions into blocks, shards and
  archivers digest the blocks, and watchtowers tell clients what became of their transactions. Below both are the
  serialization library, the hash function, the configuration and the Raft log (\<open>util\<close>).

  \<^bold>\<open>How the code is modelled.\<close> Structs and classes are records, enums and variants are datatypes, integers are
  words of their width (\<open>u8\<close>, \<open>u32\<close>, \<open>u64\<close>), byte arrays and buffers are byte lists, unordered maps are lists of entries whose order
  stands for the order of iteration. Every function of the code is a definition that returns the new state; definitions have the name of the
  function, with a prefix or suffix where the name is taken. A failed assertion, an uncaught exception, \<open>exit\<close> and a loop that does not
  end are \<open>None\<close>. Loops without a bound in the code are \<open>partial_function\<close>s or, where an environment drives them, recursions on the
  list of what the environment does; the loops that wait for the archiver have fuel, one unit per turn. Code outside of the sources is a parameter with named laws and a concrete instance in the witnesses: libsecp256k1
  (\<open>secp256k1\<close>, \<open>schnorr_correct\<close>), LevelDB (\<open>leveldb\<close>, \<open>leveldb_ok\<close>), NuRaft (\<open>nuraft\<close>, \<open>nuraft_snapshot\<close>, \<open>copies\<close>), random
  choices, and the answers of remote parties.

  \<^bold>\<open>Theories.\<close>
  \<^item> \<^verbatim>\<open>Prelude\<close>: words, byte arrays, lists and the collections of simplification rules.
  \<^item> \<^verbatim>\<open>Sha256\<close> (\<open>3rdparty/crypto/sha256.cpp\<close>, \<open>util/common/hash.cpp\<close>): the compression function with its in-place schedule and
    the streaming class, equal for every split of the input to a reference that is written from FIPS 180-4 alone, with the constants computed from roots of primes.
  \<^item> \<^verbatim>\<open>Serialization\<close> (\<open>util/serialization\<close>, \<open>util/common/buffer.cpp\<close>): writers and readers of all types, with the locales \<open>codec\<close> (what is
    written is read back, and readers ignore what follows) and \<open>strict_codec\<close> (only written bytes are accepted), which every format
    of the system interprets.
  \<^item> \<^verbatim>\<open>Transaction\<close>, \<^verbatim>\<open>Validation\<close> (\<open>uhs/transaction\<close>): data types, identifiers, formats, signing, and every check with its error; \<open>check_tx\<close> accepts exactly
    the valid transactions, identifiers bind transactions unless SHA-256 collides.
  \<^item> \<^verbatim>\<open>Config\<close>, \<^verbatim>\<open>Config_Parser\<close>, \<^verbatim>\<open>Config_Options\<close>, \<^verbatim>\<open>Decimal\<close>, \<^verbatim>\<open>Hex\<close> (\<open>util/common/config.cpp\<close> and its helpers): shard ranges, the parser of configuration
    files, all options with every error message, numbers in text. Options that load are the values of the file, list by list and index by index.
  \<^item> \<^verbatim>\<open>Cache_Set\<close> (\<open>util/common/cache_set.hpp\<close>), \<^verbatim>\<open>Locking_Shard\<close> (\<open>uhs/twophase/locking_shard\<close>): the bounded set of completed transactions; lock, apply and discard of
    a shard, its invariant, the exact effect of the operations in every state, atomicity where no two transactions compete for an input, and idempotence.
  \<^item> \<^verbatim>\<open>Distributed_Tx\<close>, \<^verbatim>\<open>Coordinator_SM\<close>, \<^verbatim>\<open>Coordinator\<close> (\<open>uhs/twophase/coordinator\<close>): the two-phase commit of a batch over all shards, the replicated
    state of the coordinators over bytes, callbacks, recovery by a new leader, batching and the start/stop thread. A batch
    without conflicts inside of it, on shards that hold no locks on its hashes (\<open>batch_ok\<close>, \<open>shards_ready\<close>), is applied completely or not at all, whatever happens to the replicated
    commands of the leader and of the leaders that recover it, and every client is told the result of its transaction or that there is none.
  \<^item> \<^verbatim>\<open>Raft_SM\<close>: the locale \<open>raft_state_machine\<close> for the state machines that execute the Raft log; \<^verbatim>\<open>Log_Store\<close> (\<open>util/raft/log_store.cpp\<close>): the
    log on LevelDB refines a list with a start index.
  \<^item> \<^verbatim>\<open>Tx_Error\<close>, \<^verbatim>\<open>Atomizer\<close>, \<^verbatim>\<open>Atomizer_Messages\<close>, \<^verbatim>\<open>Atomizer_Snapshot\<close>, \<^verbatim>\<open>Uhs_Shard\<close>, \<^verbatim>\<open>Atomizer_System\<close> (\<open>uhs/atomizer/atomizer\<close> and \<open>shard\<close>): the atomizer with its
    cache of spent outputs, its state machine, messages and snapshot files, the shards on LevelDB, and a step relation of the whole
    architecture, in which no run settles a double spend. Snapshots survive crashes and transfer the state to other replicas.
  \<^item> \<^verbatim>\<open>Archiver\<close>, \<^verbatim>\<open>Watchtower\<close> (\<open>uhs/atomizer/archiver\<close> and \<open>watchtower\<close>): storing and serving blocks in any order of arrival; the caches of blocks and errors and the answers to clients.
    Shards and watchtowers catch up with the chain from an archiver that gets its blocks one after another.
  \<^item> \<^verbatim>\<open>Sentinel\<close> (\<open>uhs/sentinel\<close>, \<open>uhs/atomizer/sentinel\<close>, \<open>uhs/twophase/sentinel_2pc\<close>): validation, attestations and answers of both sentinels.
  \<^item> \<^verbatim>\<open>Wallet\<close>, \<^verbatim>\<open>Client\<close>, \<^verbatim>\<open>Client_Files\<close> (\<open>uhs/transaction/wallet.cpp\<close>, \<open>uhs/client\<close>): building valid transactions, pending transactions and their abandonment,
    synchronisation with both architectures, and restarts from the files.
  \<^item> \<^verbatim>\<open>Bech32\<close> (\<open>3rdparty/bech32\<close>), \<^verbatim>\<open>Client_Cli\<close> (\<open>uhs/client/client-cli.cpp\<close>): addresses as text with their checksum, which detects every changed
    character, and the commands of the client program.
  \<^item> \<^verbatim>\<open>Seeder\<close> (\<open>tools/shard-seeder\<close>, the start of \<open>locking_shard/controller.cpp\<close>, the wallets of \<open>tools/bench\<close>): the initial supply, spread over the shards,
    is complete; when the seeds start at zero it is what the wallets of the load generators spend.
  \<^item> \<^verbatim>\<open>Network\<close> (\<open>util/network\<close>, \<open>util/common/blocking_queue.hpp\<close>): packets on a stream of bytes, the threads of a peer and the connection manager. Packets
    arrive whole and in order however the operating system splits them, and the handler gets every message.
  \<^item> \<^verbatim>\<open>Rpc\<close> (\<open>util/rpc\<close>): remote procedure calls over the network library. Every call gets an answer to its own request or none, at most once, in every
    interleaving of calls, replies and timeouts; no packet breaks a client whose reader of payloads returns.
  \<^item> \<^verbatim>\<open>Shard_Rpc\<close> (\<open>uhs/twophase/locking_shard\<close>, \<open>util/raft/rpc_server.hpp\<close>): the messages of the locking shards, their execution from the bytes of the log,
    the server of a node with its log and the clients that await results, repeated requests, malformed ones, which end the process in the reader of variants, and the
    read-only status service. Every request is answered once, by a failure or by what the execution of its log entry has computed.

  \<^bold>\<open>Interfaces.\<close> \<open>codec\<close> and \<open>strict_codec\<close> are interpreted for every format, \<open>raft_state_machine\<close> for
  the coordinator, the locking shard and the atomizer, \<open>rpc_protocol\<close> (the formats of the requests and responses of a service) for the coordinator, the
  locking shard and its status service. Invariants of the components
  (\<open>shard_inv\<close>, \<open>atomizer_inv\<close>, \<open>wallet_inv\<close>, \<open>client_inv\<close>, \<open>system_inv\<close>) are
  kept by their operations; the theorems about whole runs are rule inductions over them.

  \<^bold>\<open>Bounds.\<close> Lengths that the formats store in 64 bits are below \<open>2 ^ 64\<close> (\<open>wf_vector\<close>, \<open>wf_map\<close>, \<open>wf_set\<close>), arrays have the
  length of their type (\<open>is_array\<close>); the formats reject nothing else. The fuel of the loops that wait for the archiver is enough if it is the
  number of missing blocks and the time until the last of them is available, which the theorems about catching up state as their hypothesis.

  \<^bold>\<open>Not modelled.\<close>
  Threads, locks and condition variables: operations under one lock are atomic steps, and interleavings are sequences of steps.
  The calls of the operating system behind sockets, the listener and the selector of sockets, timers, clocks, and the log output.
  The Raft protocol (NuRaft) and the database (LevelDB) themselves.
  The vectorised variants of SHA-256, which are assembly and intrinsics of several processors, and SipHash, which only decides the order of unordered containers.
  The set-up of NuRaft, the adapters that only forward requests to the RPC library, the daemons and the load generators: they read the configuration,
  open connections and call operations that are modelled.
\<close>

end
